(* ===== verification/Prelude.thy ===== *)
theory Prelude
  imports Main "HOL-Library.Word"
begin

text \<open>
  Shared vocabulary of the development: machine words, the result type of fallible C code,
  table scans (the \<open>for (p = tab; p < &tab[N]; p++)\<close> loops of the kernel and of the shell),
  point updates of tables, and NUL-terminated strings.
\<close>

section \<open>Machine words and results\<close>

unbundle bit_operations_syntax

type_synonym u8 = "8 word"
type_synonym u16 = "16 word"
type_synonym u32 = "32 word"
type_synonym u64 = "64 word"

text \<open>
  \<open>Panic msg\<close> is the kernel's \<open>panic(msg)\<close>, which never returns; \<open>OutOfFuel\<close> marks a
  bounded recursion that ran out of its bound or a loop that does not end; \<open>Blocked\<close> a process
  that waits for a sleep lock; \<open>Undefined\<close> an access outside of an object, which C leaves
  undefined.
\<close>

datatype kfail = Panic string | OutOfFuel | Blocked | Undefined

type_synonym 'a kres = "kfail + 'a"

definition bindE :: "'e + 'a \<Rightarrow> ('a \<Rightarrow> 'e + 'b) \<Rightarrow> 'e + 'b" where
  "bindE r f = (case r of Inl e \<Rightarrow> Inl e | Inr x \<Rightarrow> f x)"

lemma bindE_simps [simp]:
  "bindE (Inl e) f = Inl e"
  "bindE (Inr x) f = f x"
  by (simp_all add: bindE_def)

lemma bindE_eq_Inr [simp]:
  "bindE r f = Inr y \<longleftrightarrow> (\<exists>x. r = Inr x \<and> f x = Inr y)"
  by (cases r) auto

lemma bindE_cong [fundef_cong]:
  "r = r' \<Longrightarrow> (\<And>x. r' = Inr x \<Longrightarrow> f x = g x) \<Longrightarrow> bindE r f = bindE r' g"
  by (cases r') auto

lemma sint_small:
  fixes t :: u32
  assumes "unat t < 2 ^ 31"
  shows "sint t = int (unat t)"
proof -
  have u: "int (unat t) = uint t" by simp
  have "int (unat t) < int (2 ^ 31)" using assms by (simp only: of_nat_less_iff)
  then have "uint t < 2 ^ 31" using u by simp
  moreover have "- (2 ^ 31) \<le> uint t" by (rule order_trans [of _ 0]) simp_all
  ultimately have "signed_take_bit 31 (uint t) = uint t" by (intro signed_take_bit_int_eq_self)
  moreover have "sint t = signed_take_bit 31 (uint t)" by (simp add: sint_uint)
  ultimately show ?thesis using u by simp
qed

named_theorems table_simps \<open>facts about table scans and point updates\<close>
named_theorems mem_simps \<open>facts about reads after writes of memory\<close>

section \<open>Table scans\<close>

text \<open>The index of the first entry that satisfies a test, as the scanning loops compute it.\<close>

fun find_idx :: "('a \<Rightarrow> bool) \<Rightarrow> 'a list \<Rightarrow> nat option" where
  "find_idx P [] = None"
| "find_idx P (x # xs) = (if P x then Some 0 else map_option Suc (find_idx P xs))"

lemma find_idx_None [table_simps]: "find_idx P xs = None \<longleftrightarrow> (\<forall>x\<in>set xs. \<not> P x)"
  by (induction xs) auto

lemma find_idx_Some [table_simps]:
  "find_idx P xs = Some i \<longleftrightarrow> i < length xs \<and> P (xs ! i) \<and> (\<forall>j<i. \<not> P (xs ! j))"
proof (induction xs arbitrary: i)
  case Nil
  then show ?case by simp
next
  case (Cons x xs)
  show ?case
  proof (cases i)
    case 0
    then show ?thesis by (auto simp: Cons.IH)
  next
    case (Suc k)
    then show ?thesis by (auto simp: Cons.IH All_less_Suc2)
  qed
qed

lemma find_idxD:
  assumes "find_idx P xs = Some i"
  shows "i < length xs" and "P (xs ! i)"
  using assms by (simp_all add: find_idx_Some)

lemma find_idx_cong_Some:
  "find_idx P xs = Some i \<Longrightarrow> find_idx P (take (Suc i) xs) = Some i"
  by (auto simp: find_idx_Some)

section \<open>Point updates\<close>

text \<open>\<open>upd_nth i f xs\<close> rewrites entry \<open>i\<close> with \<open>f\<close>; an index past the end changes nothing.\<close>

definition upd_nth :: "nat \<Rightarrow> ('a \<Rightarrow> 'a) \<Rightarrow> 'a list \<Rightarrow> 'a list" where
  "upd_nth i f xs = (if i < length xs then xs[i := f (xs ! i)] else xs)"

lemma length_upd_nth [simp]: "length (upd_nth i f xs) = length xs"
  by (simp add: upd_nth_def)

lemma nth_upd_nth:
  "j < length xs \<Longrightarrow> upd_nth i f xs ! j = (if i = j then f (xs ! j) else xs ! j)"
  by (simp add: upd_nth_def)

lemma nth_upd_nth_neq [simp]: "i \<noteq> j \<Longrightarrow> upd_nth i f xs ! j = xs ! j"
  by (simp add: upd_nth_def)

lemma nth_upd_nth_eq [simp]: "i < length xs \<Longrightarrow> upd_nth i f xs ! i = f (xs ! i)"
  by (simp add: upd_nth_def)

lemma list_all_upd_nth:
  assumes "list_all P xs" and "i < length xs \<Longrightarrow> P (xs ! i) \<Longrightarrow> P (f (xs ! i))"
  shows "list_all P (upd_nth i f xs)"
  using assms by (auto simp: list_all_length nth_upd_nth)

lemma map_upd_nth_same:
  "(\<And>x. g (f x) = g x) \<Longrightarrow> map g (upd_nth i f xs) = map g xs"
  by (rule nth_equalityI) (auto simp: nth_upd_nth)

lemma sum_list_upd_nth:
  fixes g :: "'a \<Rightarrow> int"
  assumes "i < length xs"
  shows "sum_list (map g (upd_nth i f xs)) = sum_list (map g xs) - g (xs ! i) + g (f (xs ! i))"
  using assms
proof (induction xs arbitrary: i)
  case Nil
  then show ?case by simp
next
  case (Cons x xs)
  show ?case
  proof (cases i)
    case 0
    then show ?thesis by (simp add: upd_nth_def)
  next
    case (Suc k)
    with Cons.prems have "k < length xs" by simp
    from Cons.IH [OF this] Suc \<open>k < length xs\<close> show ?thesis by (simp add: upd_nth_def)
  qed
qed

section \<open>NUL-terminated strings\<close>

text \<open>
  A C string is the list of its characters without the terminator; reading at or past the
  end gives the terminator, as the reads \<open>line[i]\<close> of the sources do.
\<close>

abbreviation NUL :: char where
  "NUL \<equiv> CHR 0x00"

definition chr_at :: "string \<Rightarrow> nat \<Rightarrow> char" where
  "chr_at s i = (if i < length s then s ! i else NUL)"

lemma chr_at_Cons [simp]: "chr_at (c # s) 0 = c" "chr_at (c # s) (Suc i) = chr_at s i"
  by (simp_all add: chr_at_def)

lemma chr_at_Nil [simp]: "chr_at [] i = NUL"
  by (simp add: chr_at_def)

definition cstring :: "string \<Rightarrow> bool" where
  "cstring s \<longleftrightarrow> NUL \<notin> set s"

lemma chr_at_NUL: "cstring s \<Longrightarrow> chr_at s i = NUL \<longleftrightarrow> length s \<le> i"
  by (auto simp: cstring_def chr_at_def dest: nth_mem)

lemma cstring_drop: "cstring s \<Longrightarrow> cstring (drop n s)"
  by (auto simp: cstring_def dest: in_set_dropD)

lemma cstring_Cons [simp]: "cstring (c # s) \<longleftrightarrow> c \<noteq> NUL \<and> cstring s"
  by (auto simp: cstring_def)

lemma cstring_Nil [simp]: "cstring []"
  by (simp add: cstring_def)

lemma cstring_append [simp]: "cstring (s @ t) \<longleftrightarrow> cstring s \<and> cstring t"
  by (auto simp: cstring_def)

end
