(* ===== verification/Kstring.thy ===== *)
theory Kstring
  imports Prelude
begin

text \<open>
  Physical memory as the kernel sees it and \<open>xv6/kernel/string.c\<close>. Memory is a map from
  64-bit addresses to bytes; pointer arithmetic wraps at \<open>2 ^ 64\<close>, and the theorems say where
  an object must not cross that bound. A \<open>uint n\<close> length argument is its value, a \<open>nat\<close>;
  an \<open>int n\<close> that the code tests against zero stays an \<open>int\<close>.
\<close>

section \<open>Memory and 64-bit accesses\<close>

type_synonym memory = "u64 \<Rightarrow> u8"

text \<open>RISC-V is little-endian: byte \<open>i\<close> of a \<open>uint64\<close> holds bits \<open>8 i\<close> to \<open>8 i + 7\<close>.\<close>

definition load64 :: "memory \<Rightarrow> u64 \<Rightarrow> u64" where
  "load64 m a =
     ucast (m a) OR push_bit 8 (ucast (m (a + 1))) OR push_bit 16 (ucast (m (a + 2)))
     OR push_bit 24 (ucast (m (a + 3))) OR push_bit 32 (ucast (m (a + 4)))
     OR push_bit 40 (ucast (m (a + 5))) OR push_bit 48 (ucast (m (a + 6)))
     OR push_bit 56 (ucast (m (a + 7)))"

definition store64 :: "memory \<Rightarrow> u64 \<Rightarrow> u64 \<Rightarrow> memory" where
  "store64 m a v =
     m(a := ucast v, a + 1 := ucast (drop_bit 8 v), a + 2 := ucast (drop_bit 16 v),
       a + 3 := ucast (drop_bit 24 v), a + 4 := ucast (drop_bit 32 v),
       a + 5 := ucast (drop_bit 40 v), a + 6 := ucast (drop_bit 48 v),
       a + 7 := ucast (drop_bit 56 v))"

text \<open>The bytes a \<open>memmove\<close> between two objects reads and writes.\<close>

definition mem_read :: "memory \<Rightarrow> u64 \<Rightarrow> nat \<Rightarrow> u8 list" where
  "mem_read m a n = map (\<lambda>k. m (a + of_nat k)) [0..<n]"

fun mem_write :: "memory \<Rightarrow> u64 \<Rightarrow> u8 list \<Rightarrow> memory" where
  "mem_write m a [] = m"
| "mem_write m a (b # bs) = mem_write (m(a := b)) (a + 1) bs"

section \<open>string.c\<close>

function memset_loop :: "memory \<Rightarrow> u64 \<Rightarrow> u8 \<Rightarrow> nat \<Rightarrow> nat \<Rightarrow> memory" where
  "memset_loop m cdst c i n =
     (if i < n then memset_loop (m(cdst + of_nat i := c)) cdst c (Suc i) n else m)"
  by pat_completeness auto
termination
  by (relation "measure (\<lambda>(m, d, c, i, n). n - i)") auto

declare memset_loop.simps [simp del]

definition memset :: "memory \<Rightarrow> u64 \<Rightarrow> u32 \<Rightarrow> nat \<Rightarrow> memory" where
  "memset m dst c n = memset_loop m dst (ucast c) 0 n"

fun memcmp :: "memory \<Rightarrow> u64 \<Rightarrow> u64 \<Rightarrow> nat \<Rightarrow> int" where
  "memcmp m s1 s2 0 = 0"
| "memcmp m s1 s2 (Suc n) =
     (if m s1 \<noteq> m s2 then uint (m s1) - uint (m s2) else memcmp m (s1 + 1) (s2 + 1) n)"

text \<open>The two copy loops of \<open>memmove\<close>: upwards, and downwards from one past the end.\<close>

fun copy_fwd :: "memory \<Rightarrow> u64 \<Rightarrow> u64 \<Rightarrow> nat \<Rightarrow> memory" where
  "copy_fwd m d s 0 = m"
| "copy_fwd m d s (Suc n) = copy_fwd (m(d := m s)) (d + 1) (s + 1) n"

fun copy_bwd :: "memory \<Rightarrow> u64 \<Rightarrow> u64 \<Rightarrow> nat \<Rightarrow> memory" where
  "copy_bwd m d s 0 = m"
| "copy_bwd m d s (Suc n) = copy_bwd (m(d - 1 := m (s - 1))) (d - 1) (s - 1) n"

definition memmove :: "memory \<Rightarrow> u64 \<Rightarrow> u64 \<Rightarrow> nat \<Rightarrow> memory" where
  "memmove m dst src n =
     (if n = 0 then m
      else if src < dst \<and> src + of_nat n > dst
      then copy_bwd m (dst + of_nat n) (src + of_nat n) n
      else copy_fwd m dst src n)"

definition memcpy :: "memory \<Rightarrow> u64 \<Rightarrow> u64 \<Rightarrow> nat \<Rightarrow> memory" where
  "memcpy m dst src n = memmove m dst src n"

fun strncmp :: "memory \<Rightarrow> u64 \<Rightarrow> u64 \<Rightarrow> nat \<Rightarrow> int" where
  "strncmp m p q 0 = 0"
| "strncmp m p q (Suc n) =
     (if m p \<noteq> 0 \<and> m p = m q then strncmp m (p + 1) (q + 1) n
      else uint (m p) - uint (m q))"

text \<open>\<open>strncpy\<close> copies up to and including the NUL, then pads with zeroes to \<open>n\<close> bytes.\<close>

fun strncpy_pad :: "memory \<Rightarrow> u64 \<Rightarrow> nat \<Rightarrow> memory" where
  "strncpy_pad m s 0 = m"
| "strncpy_pad m s (Suc n) = strncpy_pad (m(s := 0)) (s + 1) n"

fun strncpy_loop :: "memory \<Rightarrow> u64 \<Rightarrow> u64 \<Rightarrow> nat \<Rightarrow> memory" where
  "strncpy_loop m s t 0 = m"
| "strncpy_loop m s t (Suc n) =
     (if m t \<noteq> 0 then strncpy_loop (m(s := m t)) (s + 1) (t + 1) n
      else strncpy_pad (m(s := 0)) (s + 1) n)"

definition strncpy :: "memory \<Rightarrow> u64 \<Rightarrow> u64 \<Rightarrow> int \<Rightarrow> memory" where
  "strncpy m s t n = strncpy_loop m s t (nat n)"

text \<open>
  \<open>safestrcpy\<close> copies at most \<open>n - 1\<close> bytes and then stores a NUL at the current position;
  after copying a NUL that position is the next one, so a second NUL is stored there.
\<close>

fun safestrcpy_loop :: "memory \<Rightarrow> u64 \<Rightarrow> u64 \<Rightarrow> nat \<Rightarrow> memory" where
  "safestrcpy_loop m s t 0 = m(s := 0)"
| "safestrcpy_loop m s t (Suc k) =
     (if m t \<noteq> 0 then safestrcpy_loop (m(s := m t)) (s + 1) (t + 1) k
      else (m(s := 0))(s + 1 := 0))"

definition safestrcpy :: "memory \<Rightarrow> u64 \<Rightarrow> u64 \<Rightarrow> int \<Rightarrow> memory" where
  "safestrcpy m s t n = (if n \<le> 0 then m else safestrcpy_loop m s t (nat (n - 1)))"

text \<open>\<open>strlen\<close> returns only when there is a NUL; not returning is \<open>None\<close>.\<close>

partial_function (option) strlen_loop :: "memory \<Rightarrow> u64 \<Rightarrow> nat \<Rightarrow> nat option" where
  "strlen_loop m s n = (if m (s + of_nat n) \<noteq> 0 then strlen_loop m s (Suc n) else Some n)"

definition strlen :: "memory \<Rightarrow> u64 \<Rightarrow> nat option" where
  "strlen m s = strlen_loop m s 0"

section \<open>Reads after writes\<close>

lemma word_offset_less:
  fixes a d :: u64
  assumes "unat (a - d) < n" shows "\<exists>k<n. a = d + of_nat k"
  using assms by (intro exI [of _ "unat (a - d)"]) simp


lemma unat_of_nat_u64: "k < 2 ^ 64 \<Longrightarrow> unat (of_nat k :: u64) = k"
  by (simp add: unat_of_nat take_bit_nat_eq_self)

lemma offset_eq_iff:
  fixes a d :: u64
  assumes "k < 2 ^ 64"
  shows "a = d + of_nat k \<longleftrightarrow> unat (a - d) = k"
proof
  assume "a = d + of_nat k"
  then have "a - d = of_nat k" by simp
  with assms show "unat (a - d) = k" by (simp add: unat_of_nat_u64)
next
  assume "unat (a - d) = k"
  then have "a - d = of_nat k" by (metis of_nat_unat ucast_id)
  then show "a = d + of_nat k" by (metis add.commute diff_add_cancel)
qed

lemma unat_Suc_diff:
  fixes a d :: u64
  assumes "a \<noteq> d" shows "unat (a - d) = Suc (unat (a - (d + 1)))"
proof -
  have "a - d \<noteq> 0" using assms by simp
  then have "unat (a - d - 1) = unat (a - d) - 1"
    by (simp add: unat_minus_one)
  moreover have "0 < unat (a - d)" using \<open>a - d \<noteq> 0\<close>
    by (simp add: unat_gt_0)
  ultimately show ?thesis by (simp add: algebra_simps)
qed

lemma unat_minus_1_u64: "unat (- 1 :: u64) = 2 ^ 64 - 1"
  by (simp add: unsigned_minus_1_eq_mask mask_eq_exp_minus_1)

lemma store64_reads:
  "store64 m a v a = ucast v"
  "store64 m a v (a + 1) = ucast (drop_bit 8 v)"
  "store64 m a v (a + 2) = ucast (drop_bit 16 v)"
  "store64 m a v (a + 3) = ucast (drop_bit 24 v)"
  "store64 m a v (a + 4) = ucast (drop_bit 32 v)"
  "store64 m a v (a + 5) = ucast (drop_bit 40 v)"
  "store64 m a v (a + 6) = ucast (drop_bit 48 v)"
  "store64 m a v (a + 7) = ucast (drop_bit 56 v)"
  by (simp_all add: store64_def)

lemma bit_byte:
  fixes v :: u64
  shows "bit (push_bit k (ucast (ucast (drop_bit k v) :: u8) :: u64)) n \<longleftrightarrow> k \<le> n \<and> n < k + 8 \<and> bit v n"
  by (auto simp: bit_simps bit_imp_le_length dest: bit_imp_le_length)

lemma bit_byte0:
  fixes v :: u64
  shows "bit (ucast (ucast v :: u8) :: u64) n \<longleftrightarrow> n < 8 \<and> bit v n"
  by (auto simp: bit_simps)

lemma load64_store64_same [mem_simps]: "load64 (store64 m a v) a = v"
proof (rule bit_word_eqI)
  fix n assume "n < LENGTH(64)"
  then have "n < 64" by simp
  then show "bit (load64 (store64 m a v) a) n = bit v n"
    unfolding load64_def store64_reads bit_or_iff bit_byte bit_byte0 by linarith
qed


lemma store64_other [mem_simps]: "8 \<le> unat (x - a) \<Longrightarrow> store64 m a v x = m x"
  by (auto simp: store64_def)

lemma load64_cong:
  assumes "\<And>k. k < 8 \<Longrightarrow> m (a + of_nat k) = m' (a + of_nat k)"
  shows "load64 m a = load64 m' a"
proof -
  have "m a = m' a" "m (a + 1) = m' (a + 1)" "m (a + 2) = m' (a + 2)" "m (a + 3) = m' (a + 3)"
    "m (a + 4) = m' (a + 4)" "m (a + 5) = m' (a + 5)" "m (a + 6) = m' (a + 6)" "m (a + 7) = m' (a + 7)"
    using assms [of 0] assms [of 1] assms [of 2] assms [of 3] assms [of 4] assms [of 5]
      assms [of 6] assms [of 7] by simp_all
  then show ?thesis by (simp add: load64_def)
qed

lemma memset_loop_apply:
  assumes "n \<le> 2 ^ 64" and "i \<le> n"
  shows "memset_loop m d c i n a = (if i \<le> unat (a - d) \<and> unat (a - d) < n then c else m a)"
  using assms
proof (induction m d c i n rule: memset_loop.induct)
  case (1 m d c i n)
  show ?case
  proof (cases "i < n")
    case True
    have IH: "memset_loop (m(d + of_nat i := c)) d c (Suc i) n a =
      (if Suc i \<le> unat (a - d) \<and> unat (a - d) < n then c else (m(d + of_nat i := c)) a)"
      by (rule "1.IH" [OF True "1.prems"(1)]) (use True in simp)
    have "a = d + of_nat i \<longleftrightarrow> unat (a - d) = i"
      using True 1(2) by (intro offset_eq_iff) simp
    with True IH show ?thesis by (auto simp: memset_loop.simps [of m d c i n])
  next
    case False
    then have "memset_loop m d c i n = m" by (subst memset_loop.simps) simp
    with False "1.prems"(2) show ?thesis by auto
  qed
qed

lemma memset_apply [mem_simps]:
  "n \<le> 2 ^ 64 \<Longrightarrow> memset m d c n a = (if unat (a - d) < n then ucast c else m a)"
  by (simp add: memset_def memset_loop_apply)

lemma copy_fwd_apply:
  assumes "d = s \<or> n \<le> unat (d - s)" and "n \<le> 2 ^ 64"
  shows "copy_fwd m d s n a = (if unat (a - d) < n then m (s + (a - d)) else m a)"
  using assms
proof (induction n arbitrary: m d s)
  case 0
  then show ?case by simp
next
  case (Suc n)
  have prem: "d + 1 = s + 1 \<or> n \<le> unat ((d + 1) - (s + 1))" using Suc.prems(1) by auto
  have IH: "copy_fwd (m(d := m s)) (d + 1) (s + 1) n a =
     (if unat (a - (d + 1)) < n then (m(d := m s)) (s + 1 + (a - (d + 1))) else (m(d := m s)) a)"
    using Suc.IH [OF prem] Suc.prems(2) by simp
  show ?case
  proof (cases "a = d")
    case True
    have "unat (a - (d + 1)) = 2 ^ 64 - 1" using True by (simp add: unat_minus_1_u64)
    with IH True Suc.prems show ?thesis by simp
  next
    case False
    note k = unat_Suc_diff [OF False]
    have "s + 1 + (a - (d + 1)) = s + (a - d)" by simp
    moreover have "s + (a - d) = d \<Longrightarrow> unat (a - d) < Suc n \<Longrightarrow> d = s"
    proof -
      assume "s + (a - d) = d" "unat (a - d) < Suc n"
      then have "a - d = d - s" by (metis add_diff_cancel_left')
      with Suc.prems(1) \<open>unat (a - d) < Suc n\<close> show "d = s" by auto
    qed
    ultimately show ?thesis using IH False k by auto
  qed
qed

lemma copy_bwd_apply:
  assumes "d = s \<or> n \<le> unat (s - d)" and "n \<le> 2 ^ 64"
  shows "copy_bwd m (d + of_nat n) (s + of_nat n) n a = (if unat (a - d) < n then m (s + (a - d)) else m a)"
  using assms
proof (induction n arbitrary: m)
  case 0
  then show ?case by simp
next
  case (Suc n)
  let ?m = "m(d + of_nat n := m (s + of_nat n))"
  have IH: "copy_bwd ?m (d + of_nat n) (s + of_nat n) n a =
     (if unat (a - d) < n then ?m (s + (a - d)) else ?m a)"
    using Suc.IH Suc.prems by auto
  have n: "unat (of_nat n :: u64) = n" using Suc.prems(2) by (simp add: unat_of_nat_u64)
  have e: "copy_bwd m (d + of_nat (Suc n)) (s + of_nat (Suc n)) (Suc n) a =
    copy_bwd ?m (d + of_nat n) (s + of_nat n) n a" by (simp add: algebra_simps)
  have a: "a = d + of_nat n \<longleftrightarrow> unat (a - d) = n"
    using Suc.prems(2) by (intro offset_eq_iff) simp
  have r: "unat (a - d) < n \<Longrightarrow> s + (a - d) = d + of_nat n \<Longrightarrow> d = s"
  proof (rule ccontr)
    assume h: "unat (a - d) < n" "s + (a - d) = d + of_nat n" "d \<noteq> s"
    then have "s - d = of_nat n - (a - d)" by (simp add: algebra_simps)
    moreover have "unat (of_nat n - (a - d)) \<le> n"
      using h(1) n by (metis unat_sub_if' diff_le_self less_imp_le)
    ultimately have "unat (s - d) \<le> n" by (simp only:)
    moreover have "Suc n \<le> unat (s - d)" using Suc.prems(1) h(3) by blast
    ultimately show False by simp
  qed
  show ?case using IH e a r by auto
qed


lemma memmove_apply [mem_simps]:
  assumes "unat dst + n \<le> 2 ^ 64" and "unat src + n \<le> 2 ^ 64"
  shows "memmove m dst src n a = (if unat (a - dst) < n then m (src + (a - dst)) else m a)"
proof (cases "n = 0")
  case True
  then show ?thesis by (simp add: memmove_def)
next
  case False
  have n: "n \<le> 2 ^ 64" using assms by simp
  show ?thesis
  proof (cases "src < dst \<and> src + of_nat n > dst")
    case True
    have lt: "unat src < unat dst" using True by (simp add: word_less_nat_alt)
    have "unat (src - dst) = 2 ^ 64 - (unat dst - unat src)"
      using lt by (simp add: unat_sub_if')
    then have "n \<le> unat (src - dst)" using assms by linarith
    then have "copy_bwd m (dst + of_nat n) (src + of_nat n) n a =
        (if unat (a - dst) < n then m (src + (a - dst)) else m a)"
      using n by (intro copy_bwd_apply) auto
    with True False show ?thesis by (simp add: memmove_def)
  next
    case c: False
    have "dst = src \<or> n \<le> unat (dst - src)"
    proof (cases "src < dst")
      case True
      then have lt: "unat src < unat dst" by (simp add: word_less_nat_alt)
      with assms have "unat src + n < 2 ^ 64" using False by linarith
      then have "unat (src + of_nat n) = unat src + n"
        by (simp add: unat_word_ariths unat_of_nat_u64)
      moreover have "unat (src + of_nat n) \<le> unat dst"
        using c True by (simp add: word_less_nat_alt not_less)
      moreover have "unat (dst - src) = unat dst - unat src"
        using lt by (simp add: unat_sub_if')
      ultimately show ?thesis by linarith
    next
      case ge: False
      show ?thesis
      proof (cases "dst = src")
        case True
        then show ?thesis by simp
      next
        case ne: False
        then have "unat dst < unat src" using ge by (simp add: word_less_nat_alt word_unat_eq_iff)
        moreover have "unat (dst - src) = 2 ^ 64 - (unat src - unat dst)"
          using calculation by (simp add: unat_sub_if')
        ultimately show ?thesis using assms by linarith
      qed
    qed
    then have "copy_fwd m dst src n a = (if unat (a - dst) < n then m (src + (a - dst)) else m a)"
      using n by (intro copy_fwd_apply) auto
    with c False show ?thesis by (auto simp: memmove_def)
  qed
qed


text \<open>Blocks of bytes in memory.\<close>

lemma mem_write_nth: "length xs < 2 ^ 64 \<Longrightarrow> mem_write m a xs b = (if unat (b - a) < length xs then xs ! unat (b - a) else m b)"
proof (induction xs arbitrary: m a)
  case (Cons x xs)
  show ?case
  proof (cases "b = a")
    case True
    have "unat (a - (a + 1)) = 2 ^ 64 - 1" by (simp add: unsigned_minus_1_eq_mask mask_eq_exp_minus_1)
    then have "\<not> unat (a - (a + 1)) < length xs" using Cons.prems by simp
    with True Cons show ?thesis by simp
  next
    case False
    then have "unat (b - a) \<noteq> 0" "b - a \<noteq> 0" by (simp_all add: unat_eq_0)
    moreover from this(2) have "unat (b - (a + 1)) = unat (b - a) - 1" unfolding diff_diff_eq [symmetric] by (rule unat_minus_one)
    ultimately have u: "unat (b - a) = Suc (unat (b - (a + 1)))" by simp
    have l: "length xs < 2 ^ 64" using Cons.prems by simp
    have "mem_write m a (x # xs) b = mem_write (m(a := x)) (a + 1) xs b" by simp
    also have "\<dots> = (if unat (b - (a + 1)) < length xs then xs ! unat (b - (a + 1)) else (m(a := x)) b)" by (rule Cons.IH [OF l])
    finally show ?thesis using False by (simp add: u)
  qed
qed simp

lemma mem_read_write: "length xs < 2 ^ 64 \<Longrightarrow> mem_read (mem_write m a xs) a (length xs) = xs"
proof (rule nth_equalityI)
  assume l: "length xs < 2 ^ 64"
  fix i assume "i < length (mem_read (mem_write m a xs) a (length xs))"
  then have i: "i < length xs" by (simp add: mem_read_def)
  then have "unat (of_nat i :: u64) = i" using l by (simp add: unat_of_nat)
  then show "mem_read (mem_write m a xs) a (length xs) ! i = xs ! i" using i l by (simp add: mem_read_def mem_write_nth)
qed (simp add: mem_read_def)

section \<open>Strings in memory\<close>

lemma strncmp_zero_iff:
  "strncmp m p q n = 0 \<longleftrightarrow>
     (\<forall>i<n. (\<forall>j<i. m (p + of_nat j) \<noteq> 0) \<longrightarrow> m (p + of_nat i) = m (q + of_nat i))"
proof (induction n arbitrary: p q)
  case 0
  then show ?case by simp
next
  case (Suc n)
  show ?case
  proof (cases "m p \<noteq> 0 \<and> m p = m q")
    case True
    then show ?thesis by (simp add: Suc.IH All_less_Suc2 add.assoc)
  next
    case False
    then show ?thesis by (auto simp: All_less_Suc2 word_uint_eq_iff)
  qed
qed

lemma strncpy_pad_apply:
  "n \<le> 2 ^ 64 \<Longrightarrow> strncpy_pad m s n a = (if unat (a - s) < n then 0 else m a)"
proof (induction n arbitrary: m s)
  case 0
  then show ?case by simp
next
  case (Suc n)
  show ?case
  proof (cases "a = s")
    case True
    then show ?thesis using Suc by (simp add: unat_minus_1_u64)
  next
    case False
    from unat_Suc_diff [OF False] Suc False show ?thesis by simp
  qed
qed

lemma strncpy_loop_frame:
  "n \<le> 2 ^ 64 \<Longrightarrow> n \<le> unat (a - s) \<Longrightarrow> strncpy_loop m s t n a = m a"
proof (induction n arbitrary: m s t)
  case 0
  then show ?case by simp
next
  case (Suc n)
  have ne: "a \<noteq> s" using Suc.prems(2) by auto
  have le: "n \<le> unat (a - (s + 1))" using Suc.prems(2) unat_Suc_diff [OF ne] by simp
  show ?case using Suc le ne by (simp add: strncpy_pad_apply)
qed

lemma strncpy_loop_content:
  assumes "n \<le> 2 ^ 63" and "n \<le> unat (t - s)" and "n \<le> unat (s - t)" and "i < n"
  shows "strncpy_loop m s t n (s + of_nat i) =
    (if \<exists>j<i. m (t + of_nat j) = 0 then 0 else m (t + of_nat i))"
  using assms
proof (induction n arbitrary: m s t i)
  case 0
  then show ?case by simp
next
  case (Suc n)
  have ofi: "unat (of_nat i :: u64) = i" using Suc.prems by (simp add: unat_of_nat_u64)
  show ?case
  proof (cases "m t = 0")
    case True
    show ?thesis
    proof (cases i)
      case 0
      with True Suc.prems show ?thesis by (simp add: strncpy_pad_apply unat_minus_1_u64)
    next
      case (Suc k)
      have "s + of_nat i - (s + 1) = of_nat k" using Suc by simp
      moreover have "unat (of_nat k :: u64) = k" using Suc Suc.prems by (simp add: unat_of_nat_u64)
      ultimately show ?thesis using True Suc Suc.prems by (auto simp: strncpy_pad_apply intro!: exI [of _ 0])
    qed
  next
    case False
    let ?m = "m(s := m t)"
    have t_j: "t + of_nat j \<noteq> s" if "j < Suc n" for j
    proof
      assume "t + of_nat j = s"
      then have "unat (s - t) = j" using that Suc.prems(1) offset_eq_iff [of j s t] by simp
      with that Suc.prems(3) show False by simp
    qed
    show ?thesis
    proof (cases i)
      case 0
      have "strncpy_loop ?m (s + 1) (t + 1) n s = ?m s"
        using Suc.prems(1) by (intro strncpy_loop_frame) (simp_all add: unat_minus_1_u64)
      with 0 False show ?thesis by simp
    next
      case (Suc k)
      have "strncpy_loop ?m (s + 1) (t + 1) n (s + 1 + of_nat k) =
        (if \<exists>j<k. ?m (t + 1 + of_nat j) = 0 then 0 else ?m (t + 1 + of_nat k))"
        using Suc.prems Suc by (intro Suc.IH) simp_all
      moreover have rd: "?m (t + 1 + of_nat j) = m (t + of_nat (Suc j))" if "j \<le> k" for j
        using t_j [of "Suc j"] that Suc Suc.prems(4) by (simp add: add.assoc)
      have "(\<exists>j<k. ?m (t + 1 + of_nat j) = 0) \<longleftrightarrow> (\<exists>j<Suc k. m (t + of_nat j) = 0)"
        using rd False by (simp add: Ex_less_Suc2 del: fun_upd_apply) (metis less_imp_le)
      moreover have "strncpy_loop m s t (Suc n) (s + of_nat i)
          = strncpy_loop ?m (s + 1) (t + 1) n (s + 1 + of_nat k)"
        using False Suc by (simp add: add.assoc)
      ultimately show ?thesis using rd [OF order_refl] Suc
        by (auto simp del: fun_upd_apply strncpy_loop.simps)
    qed
  qed
qed

lemma safestrcpy_loop_frame:
  "k < 2 ^ 63 \<Longrightarrow> Suc k \<le> unat (a - s) \<Longrightarrow> safestrcpy_loop m s t k a = m a"
proof (induction k arbitrary: m s t)
  case 0
  then show ?case by auto
next
  case (Suc k)
  have ne: "a \<noteq> s" using Suc.prems(2) by auto
  have u: "unat (a - s) = Suc (unat (a - (s + 1)))" by (rule unat_Suc_diff [OF ne])
  then have "a \<noteq> s + 1" using Suc.prems(2) by auto
  with Suc ne u show ?case by simp
qed

lemma safestrcpy_loop_terminated:
  "k < 2 ^ 63 \<Longrightarrow> \<exists>i\<le>k. safestrcpy_loop m s t k (s + of_nat i) = 0"
proof (induction k arbitrary: m s t)
  case 0
  then show ?case by simp
next
  case (Suc k)
  show ?case
  proof (cases "m t = 0")
    case True
    then show ?thesis by (intro exI [of _ 0]) simp
  next
    case False
    from Suc obtain i where "i \<le> k"
      "safestrcpy_loop (m(s := m t)) (s + 1) (t + 1) k (s + 1 + of_nat i) = 0" by force
    with False show ?thesis by (intro exI [of _ "Suc i"]) (simp add: add.assoc)
  qed
qed

lemma strlen_loop_finds:
  assumes "\<forall>i<k. m (s + of_nat (n + i)) \<noteq> 0" and "m (s + of_nat (n + k)) = 0"
  shows "strlen_loop m s n = Some (n + k)"
  using assms
proof (induction k arbitrary: n)
  case 0
  then show ?case by (subst strlen_loop.simps) simp
next
  case (Suc k)
  from Suc.prems(1) have "m (s + of_nat n) \<noteq> 0" by (metis add.right_neutral zero_less_Suc)
  moreover have "strlen_loop m s (Suc n) = Some (Suc n + k)"
    using Suc.prems by (intro Suc.IH) (auto simp: All_less_Suc2 algebra_simps)
  ultimately show ?case by (subst strlen_loop.simps) simp
qed


section \<open>Properties\<close>

text \<open>
  C25: \<open>memmove\<close> copies the \<open>n\<close> source bytes as they were before the call, also when the two
  ranges overlap, and changes nothing outside the destination range. The ranges must not cross
  the end of the address space.
\<close>

theorem memmove_correct:
  assumes "unat dst + n \<le> 2 ^ 64" and "unat src + n \<le> 2 ^ 64"
  shows "(\<forall>i<n. memmove m dst src n (dst + of_nat i) = m (src + of_nat i))
    \<and> (\<forall>a. n \<le> unat (a - dst) \<longrightarrow> memmove m dst src n a = m a)"
proof (intro conjI allI impI)
  fix i assume "i < n"
  then have "unat (of_nat i :: u64) = i" using assms by (simp add: unat_of_nat_u64)
  with \<open>i < n\<close> assms show "memmove m dst src n (dst + of_nat i) = m (src + of_nat i)"
    by (simp add: memmove_apply)
qed (use assms in \<open>simp add: memmove_apply\<close>)

theorem memmove_correct_witness:
  "memmove (\<lambda>a. ucast a) 102 100 4 105 = (103 :: u8) \<and> memmove (\<lambda>a. ucast a) 102 100 4 106 = (106 :: u8)"
  using memmove_correct [of 102 4 100 "\<lambda>a. ucast a"]
  by (auto dest!: spec [of _ 3] spec [of _ "106 :: u64"])

text \<open>
  C26: \<open>safestrcpy\<close> with a positive size \<open>n\<close> leaves a NUL within the first \<open>n\<close> bytes of the
  destination and writes no byte beyond them.
\<close>

theorem safestrcpy_safe:
  assumes "0 < n" and "n < 2 ^ 31"
  shows "(\<exists>i<nat n. safestrcpy m s t n (s + of_nat i) = 0)
    \<and> (\<forall>a. nat n \<le> unat (a - s) \<longrightarrow> safestrcpy m s t n a = m a)"
proof -
  have k: "nat (n - 1) < 2 ^ 63" "Suc (nat (n - 1)) = nat n" using assms by auto
  from safestrcpy_loop_terminated [OF k(1), of m s t] k(2) obtain i where
    "i < nat n" "safestrcpy_loop m s t (nat (n - 1)) (s + of_nat i) = 0"
    by (metis le_imp_less_Suc)
  with assms safestrcpy_loop_frame [OF k(1), unfolded k(2)] show ?thesis
    by (auto simp: safestrcpy_def)
qed

theorem safestrcpy_safe_witness:
  "(\<exists>i<16. safestrcpy (\<lambda>_. 65) 100 500 16 (100 + of_nat i) = 0) \<and> safestrcpy (\<lambda>_. 65) 100 500 16 116 = 65"
  using safestrcpy_safe [of 16 "\<lambda>_. 65" 100 500] by auto

end
