(* ===== verification/Riscv.thy ===== *)
theory Riscv
  imports Prelude
begin

text \<open>
  Paging macros of \<open>xv6/kernel/riscv.h\<close> and the memory layout of \<open>xv6/kernel/memlayout.h\<close>,
  at their width (64-bit words).
\<close>

section \<open>Pages\<close>

definition PGSIZE :: nat where
  "PGSIZE = 4096"

definition PGSIZE64 :: u64 where
  "PGSIZE64 = 4096"

definition PGROUNDUP :: "u64 \<Rightarrow> u64" where
  "PGROUNDUP sz = (sz + PGSIZE64 - 1) AND NOT (PGSIZE64 - 1)"

definition PGROUNDDOWN :: "u64 \<Rightarrow> u64" where
  "PGROUNDDOWN a = a AND NOT (PGSIZE64 - 1)"

section \<open>Page-table entries\<close>

definition PTE_V :: u64 where "PTE_V = push_bit 0 1"
definition PTE_R :: u64 where "PTE_R = push_bit 1 1"
definition PTE_W :: u64 where "PTE_W = push_bit 2 1"
definition PTE_X :: u64 where "PTE_X = push_bit 3 1"
definition PTE_U :: u64 where "PTE_U = push_bit 4 1"

definition PA2PTE :: "u64 \<Rightarrow> u64" where
  "PA2PTE pa = push_bit 10 (drop_bit 12 pa)"

definition PTE2PA :: "u64 \<Rightarrow> u64" where
  "PTE2PA pte = push_bit 12 (drop_bit 10 pte)"

definition PTE_FLAGS :: "u64 \<Rightarrow> u64" where
  "PTE_FLAGS pte = pte AND 0x3FF"

definition PXSHIFT :: "nat \<Rightarrow> nat" where
  "PXSHIFT level = 12 + 9 * level"

definition PX :: "nat \<Rightarrow> u64 \<Rightarrow> u64" where
  "PX level va = drop_bit (PXSHIFT level) va AND 0x1FF"

definition MAXVA :: u64 where
  "MAXVA = push_bit (9 + 9 + 9 + 12 - 1) 1"

section \<open>Layout\<close>

definition KERNBASE :: u64 where "KERNBASE = 0x80000000"
definition PHYSTOP :: u64 where "PHYSTOP = KERNBASE + 128 * 1024 * 1024"
definition TRAMPOLINE :: u64 where "TRAMPOLINE = MAXVA - PGSIZE64"
definition TRAPFRAME :: u64 where "TRAPFRAME = TRAMPOLINE - PGSIZE64"

definition KSTACK :: "nat \<Rightarrow> u64" where
  "KSTACK p = TRAMPOLINE - (of_nat p + 1) * 2 * PGSIZE64"

section \<open>Facts about the macros\<close>

named_theorems layout_defs \<open>the numeric constants of the layout\<close>

lemmas [layout_defs] = PGSIZE_def PGSIZE64_def KERNBASE_def PHYSTOP_def MAXVA_def
  TRAMPOLINE_def TRAPFRAME_def

lemma PGSIZE64_mask: "PGSIZE64 - 1 = mask 12"
  by (simp add: PGSIZE64_def mask_eq_exp_minus_1)

lemma unat_drop_bit_div:
  fixes x :: u64
  shows "unat (drop_bit k x) = unat x div 2 ^ k"
  by (rule trans [OF unat_drop_bit_eq drop_bit_eq_div])

lemma and_not_mask_unat:
  fixes x :: u64
  shows "unat (x AND NOT (mask k)) = unat x div 2 ^ k * 2 ^ k"
proof -
  have "x AND NOT (mask k) = push_bit k (drop_bit k x)"
    by (rule bit_word_eqI) (auto simp: bit_simps)
  moreover have "unat (push_bit k (drop_bit k x)) = unat x div 2 ^ k * 2 ^ k"
  proof -
    have "unat (push_bit k (drop_bit k x)) = take_bit 64 (push_bit k (unat (drop_bit k x)))"
      by (simp add: unsigned_push_bit_eq)
    also have "\<dots> = take_bit 64 (unat x div 2 ^ k * 2 ^ k)"
      by (simp only: push_bit_eq_mult unat_drop_bit_div)
    also have "\<dots> = unat x div 2 ^ k * 2 ^ k"
    proof -
      have "unat x div 2 ^ k * 2 ^ k \<le> unat x" by (rule div_times_less_eq_dividend)
      moreover have "unat x < 2 ^ 64" using unsigned_less [of x] by simp
      ultimately have "unat x div 2 ^ k * 2 ^ k < 2 ^ 64" by (rule le_less_trans)
      then show ?thesis by (rule take_bit_nat_eq_self)
    qed
    finally show ?thesis .
  qed
  ultimately show ?thesis by simp
qed

lemma unat_PGROUNDDOWN: "unat (PGROUNDDOWN a) = unat a div 4096 * 4096"
  using and_not_mask_unat [of a 12] by (simp add: PGROUNDDOWN_def PGSIZE64_mask)

lemma unat_PGROUNDUP:
  assumes "unat sz + 4095 < 2 ^ 64"
  shows "unat (PGROUNDUP sz) = (unat sz + 4095) div 4096 * 4096"
proof -
  have "PGROUNDUP sz = (sz + 4095) AND NOT (mask 12)"
    by (simp add: PGROUNDUP_def PGSIZE64_mask [symmetric]) (simp add: PGSIZE64_def add.commute)
  moreover have "unat (sz + 4095) = unat sz + 4095"
    using assms by (simp add: unat_word_ariths)
  ultimately show ?thesis using and_not_mask_unat [of "sz + 4095" 12] by simp
qed

lemma PTE2PA_PA2PTE:
  assumes "pa AND mask 12 = 0" and "pa AND NOT (mask 56) = 0" and "flags AND NOT (mask 10) = 0"
  shows "PTE2PA (PA2PTE pa OR flags) = pa"
proof (rule bit_word_eqI)
  fix n assume n: "n < LENGTH(64)"
  have a: "bit pa n \<Longrightarrow> 12 \<le> n"
    using arg_cong [OF assms(1), of "\<lambda>w. bit w n"] by (auto simp: bit_simps)
  have b: "bit pa n \<Longrightarrow> n < 56"
    using arg_cong [OF assms(2), of "\<lambda>w. bit w n"] n by (auto simp: bit_simps)
  have c: "bit flags (n - 2) \<Longrightarrow> n < 64 \<Longrightarrow> n - 2 < 10"
    using arg_cong [OF assms(3), of "\<lambda>w. bit w (n - 2)"] by (auto simp: bit_simps)
  show "bit (PTE2PA (PA2PTE pa OR flags)) n = bit pa n"
    using a b c n by (auto simp: PTE2PA_def PA2PTE_def bit_simps)
qed

lemma PTE_FLAGS_PA2PTE:
  assumes "flags AND NOT (mask 10) = 0"
  shows "PTE_FLAGS (PA2PTE pa OR flags) = flags"
proof (rule bit_word_eqI)
  fix n assume n: "n < LENGTH(64)"
  have m: "(0x3FF :: u64) = mask 10" by (simp add: mask_eq_exp_minus_1)
  have c: "bit flags n \<Longrightarrow> n < 10"
    using arg_cong [OF assms, of "\<lambda>w. bit w n"] n by (auto simp: bit_simps)
  show "bit (PTE_FLAGS (PA2PTE pa OR flags)) n = bit flags n"
    using c n by (auto simp: PTE_FLAGS_def m PA2PTE_def bit_simps)
qed

lemma unat_PX: "unat (PX level va) = unat va div 2 ^ PXSHIFT level mod 512"
proof -
  have "(0x1FF :: u64) = mask 9" by (simp add: mask_eq_exp_minus_1)
  then have "PX level va = take_bit 9 (drop_bit (PXSHIFT level) va)"
    by (simp add: PX_def take_bit_eq_mask)
  then have "unat (PX level va) = take_bit 9 (unat va div 2 ^ PXSHIFT level)"
    by (simp only: unsigned_take_bit_eq unat_drop_bit_div)
  then show ?thesis by (simp add: take_bit_eq_mod)
qed

lemma PX_less: "unat (PX level va) < 512"
  by (simp add: unat_PX)

text \<open>
  Two page-aligned addresses below \<open>MAXVA\<close> with the same three indices are the same address.
\<close>

lemma PX_inj:
  assumes "unat va mod 4096 = 0" and "unat vb mod 4096 = 0" and "va < MAXVA" and "vb < MAXVA"
    and "PX 0 va = PX 0 vb" and "PX 1 va = PX 1 vb" and "PX 2 va = PX 2 vb"
  shows "va = vb"
proof -
  have bound: "unat va < 2 ^ 38" "unat vb < 2 ^ 38"
    using assms(3,4) by (simp_all add: word_less_nat_alt MAXVA_def)
  have e: "unat va div 4096 mod 512 = unat vb div 4096 mod 512"
    "unat va div 2097152 mod 512 = unat vb div 2097152 mod 512"
    "unat va div 1073741824 mod 512 = unat vb div 1073741824 mod 512"
    using arg_cong [OF assms(5), of unat] arg_cong [OF assms(6), of unat]
      arg_cong [OF assms(7), of unat] by (simp_all add: unat_PX PXSHIFT_def)
  have split: "x = 4096 * (512 * (512 * (x div 1073741824 mod 512) + x div 2097152 mod 512)
      + x div 4096 mod 512) + x mod 4096" if "x < 2 ^ 38" for x :: nat
  proof -
    have "x div 1073741824 < 512" using that by (simp add: div_less_iff_less_mult)
    moreover have "x div 4096 div 512 = x div 2097152" "x div 2097152 div 512 = x div 1073741824"
      by (simp_all add: div_mult2_eq [symmetric])
    ultimately have "512 * (512 * (x div 1073741824 mod 512) + x div 2097152 mod 512)
        + x div 4096 mod 512 = x div 4096"
      by (metis mod_less mult_div_mod_eq)
    then show ?thesis by (metis mult_div_mod_eq)
  qed
  have "unat va = unat vb"
    using split [OF bound(1)] split [OF bound(2)] e assms(1,2) by metis
  then show ?thesis by (simp add: word_unat_eq_iff)
qed

end
