(* ===== verification/Kalloc.thy ===== *)
theory Kalloc
  imports Kstring Riscv "HOL-Library.Multiset"
begin

text \<open>
  The physical page allocator, \<open>xv6/kernel/kalloc.c\<close>. The free list is the linked list the
  code keeps inside the free pages: \<open>kmem.freelist\<close> is the address of the first page and the
  first eight bytes of a free page hold the address of the next one. The address of the end of
  the kernel image, \<open>end\<close>, is set by the linker and is the argument \<open>kend\<close>. The lock
  \<open>kmem.lock\<close> makes each list update one atomic step, which is what each definition is.
\<close>

record kmem =
  mem :: memory
  freelist :: u64

definition kfree :: "u64 \<Rightarrow> kmem \<Rightarrow> u64 \<Rightarrow> kmem kres" where
  "kfree kend km pa =
     (if unat pa mod PGSIZE \<noteq> 0 \<or> pa < kend \<or> pa \<ge> PHYSTOP then Inl (Panic ''kfree'')
      else let m1 = memset (mem km) pa 1 PGSIZE;
               m2 = store64 m1 pa (freelist km)
           in Inr (km\<lparr>mem := m2, freelist := pa\<rparr>))"

definition kalloc :: "kmem \<Rightarrow> u64 \<times> kmem" where
  "kalloc km =
     (let r = freelist km;
          km1 = (if r \<noteq> 0 then km\<lparr>freelist := load64 (mem km) r\<rparr> else km)
      in if r \<noteq> 0 then (r, km1\<lparr>mem := memset (mem km1) r 5 PGSIZE\<rparr>) else (r, km1))"

text \<open>
  The loop of \<open>freerange\<close>: \<open>p\<close> is the value of the pointer, which does not wrap below
  \<open>pa_end\<close>.
\<close>

function freerange_loop :: "u64 \<Rightarrow> nat \<Rightarrow> nat \<Rightarrow> kmem \<Rightarrow> kmem kres" where
  "freerange_loop kend p pa_end km =
     (if p + PGSIZE \<le> pa_end
      then bindE (kfree kend km (of_nat p)) (\<lambda>km'. freerange_loop kend (p + PGSIZE) pa_end km')
      else Inr km)"
  by pat_completeness auto
termination
  by (relation "measure (\<lambda>(kend, p, pa_end, km). pa_end - p)") (auto simp: PGSIZE_def)

declare freerange_loop.simps [simp del]

definition freerange :: "u64 \<Rightarrow> u64 \<Rightarrow> u64 \<Rightarrow> kmem \<Rightarrow> kmem kres" where
  "freerange kend pa_start pa_end km =
     freerange_loop kend (unat (PGROUNDUP pa_start)) (unat pa_end) km"

definition kinit :: "u64 \<Rightarrow> kmem \<Rightarrow> kmem kres" where
  "kinit kend km = freerange kend kend PHYSTOP km"

section \<open>The abstract free list\<close>

definition page_ok :: "u64 \<Rightarrow> u64 \<Rightarrow> bool" where
  "page_ok kend pa \<longleftrightarrow> unat pa mod PGSIZE = 0 \<and> kend \<le> pa \<and> pa < PHYSTOP"

fun flist :: "memory \<Rightarrow> u64 \<Rightarrow> u64 list \<Rightarrow> bool" where
  "flist m p [] \<longleftrightarrow> p = 0"
| "flist m p (x # xs) \<longleftrightarrow> p = x \<and> x \<noteq> 0 \<and> flist m (load64 m x) xs"

definition kmem_ok :: "u64 \<Rightarrow> kmem \<Rightarrow> u64 list \<Rightarrow> bool" where
  "kmem_ok kend km xs \<longleftrightarrow>
     0 < kend \<and> flist (mem km) (freelist km) xs \<and> distinct xs \<and> list_all (page_ok kend) xs"

lemma page_offset:
  fixes x y :: u64
  assumes "unat x mod 4096 = 0" and "unat y mod 4096 = 0" and "x \<noteq> y" and "k < 4096"
  shows "4096 \<le> unat (y + of_nat k - x)"
proof -
  let ?d = "unat (y - x)"
  have d: "?d mod 4096 = 0" "?d \<noteq> 0"
  proof -
    show "?d \<noteq> 0" using assms(3) by (simp add: unat_eq_0)
    have "unat y < 2 ^ 64" "unat x < 2 ^ 64" using unsigned_less [of y] unsigned_less [of x] by simp_all
    then show "?d mod 4096 = 0"
      using assms(1,2) by (auto simp: unat_sub_if')
  qed
  from d(1) obtain j where j: "?d = 4096 * j" by (metis mod_0_imp_dvd dvdE)
  have "?d < 2 ^ 64" using unsigned_less [of "y - x"] by simp
  then have sum: "?d + k < 2 ^ 64" using j assms(4) by simp
  have "y + of_nat k - x = (y - x) + of_nat k" by simp
  also have "unat \<dots> = ?d + k"
    using sum assms(4) by (subst unat_word_ariths) (simp add: unat_of_nat_u64)
  finally have "unat (y + of_nat k - x) = ?d + k" .
  then show ?thesis using d(2) j by (cases j) simp_all
qed

lemma page_ok_aligned: "page_ok kend pa \<Longrightarrow> unat pa mod 4096 = 0"
  by (simp add: page_ok_def PGSIZE_def)

lemma page_ok_nonzero: "page_ok kend pa \<Longrightarrow> 0 < kend \<Longrightarrow> pa \<noteq> 0"
  by (auto simp: page_ok_def)

text \<open>A write confined to page \<open>x\<close> keeps the words stored in the other pages.\<close>

lemma load64_other_page:
  assumes "unat x mod 4096 = 0" and "unat y mod 4096 = 0" and "x \<noteq> y"
    and "\<And>a. 4096 \<le> unat (a - x) \<Longrightarrow> m' a = m a" and "k + 8 \<le> 4096"
  shows "load64 m' (y + of_nat k) = load64 m (y + of_nat k)"
proof (rule load64_cong)
  fix j :: nat assume "j < 8"
  then have "4096 \<le> unat (y + of_nat (k + j) - x)"
    using assms(5) by (intro page_offset [OF assms(1-3)]) simp
  then show "m' (y + of_nat k + of_nat j) = m (y + of_nat k + of_nat j)"
    by (intro assms(4)) (simp add: add.assoc)
qed

lemma flist_cong:
  "(\<And>x. x \<in> set xs \<Longrightarrow> load64 m' x = load64 m x) \<Longrightarrow> flist m' p xs = flist m p xs"
  by (induction xs arbitrary: p) auto

lemma flist_other_page:
  assumes "list_all (page_ok kend) xs" and "page_ok kend pa" and "pa \<notin> set xs"
    and "\<And>a. 4096 \<le> unat (a - pa) \<Longrightarrow> m' a = m a"
  shows "flist m' p xs = flist m p xs"
proof (rule flist_cong)
  fix x assume x: "x \<in> set xs"
  with assms(1) have "page_ok kend x" by (simp add: list_all_iff)
  moreover have "pa \<noteq> x" using x assms(3) by auto
  ultimately show "load64 m' x = load64 m x"
    using load64_other_page [of pa x m' m 0] assms(2,4) page_ok_aligned by fastforce
qed

lemma flist_unique: "flist m p xs \<Longrightarrow> flist m p ys \<Longrightarrow> xs = ys"
proof (induction xs arbitrary: p ys)
  case Nil
  then show ?case by (cases ys) auto
next
  case (Cons x xs)
  then show ?case by (cases ys) auto
qed

lemma kalloc_empty: "kmem_ok kend km [] \<Longrightarrow> kalloc km = (0, km)"
  by (simp add: kmem_ok_def kalloc_def)

lemma kalloc_frame:
  assumes "kalloc km = (r, km')" and "r = 0 \<or> 4096 \<le> unat (a - r)"
  shows "mem km' a = mem km a"
  using assms by (auto simp: kalloc_def Let_def PGSIZE_def mem_simps split: if_splits)

lemma kalloc_junk:
  assumes "kalloc km = (r, km')" and "r \<noteq> 0" and "unat (a - r) < 4096"
  shows "mem km' a = 5"
  using assms by (auto simp: kalloc_def Let_def PGSIZE_def mem_simps split: if_splits)

lemma kalloc_pops:
  assumes "kmem_ok kend km (x # xs)"
  shows "\<exists>km'. kalloc km = (x, km') \<and> kmem_ok kend km' xs"
proof -
  from assms have ok: "0 < kend" "freelist km = x" "x \<noteq> 0" "flist (mem km) (load64 (mem km) x) xs"
    "x \<notin> set xs" "distinct xs" "page_ok kend x" "list_all (page_ok kend) xs"
    by (auto simp: kmem_ok_def)
  obtain km' where km': "kalloc km = (x, km')" "freelist km' = load64 (mem km) x"
    using ok by (auto simp: kalloc_def Let_def)
  have "flist (mem km') (freelist km') xs = flist (mem km) (freelist km') xs"
    using ok kalloc_frame [OF km'(1)] by (intro flist_other_page [where kend = kend and pa = x]) auto
  with ok km' show ?thesis by (auto simp: kmem_ok_def)
qed

lemma kfree_frame:
  assumes "kfree kend km pa = Inr km'" and "4096 \<le> unat (a - pa)"
  shows "mem km' a = mem km a"
  using assms by (auto simp: kfree_def Let_def PGSIZE_def mem_simps split: if_splits)

lemma kfree_pushes:
  assumes "kmem_ok kend km xs" and "page_ok kend pa" and "pa \<notin> set xs"
  shows "\<exists>km'. kfree kend km pa = Inr km' \<and> kmem_ok kend km' (pa # xs)"
proof -
  from assms have ok: "0 < kend" "flist (mem km) (freelist km) xs" "list_all (page_ok kend) xs" "distinct xs"
    by (auto simp: kmem_ok_def)
  obtain km' where km': "kfree kend km pa = Inr km'" "freelist km' = pa"
    "mem km' = store64 (memset (mem km) pa 1 PGSIZE) pa (freelist km)"
    using assms(2) by (auto simp: kfree_def page_ok_def Let_def not_less not_le)
  have "flist (mem km') (freelist km) xs = flist (mem km) (freelist km) xs"
    using assms(2,3) ok(3) kfree_frame [OF km'(1)]
    by (intro flist_other_page [where kend = kend and pa = pa]) auto
  moreover have "load64 (mem km') pa = freelist km" by (simp add: km'(3) load64_store64_same)
  moreover have "pa \<noteq> 0" using page_ok_nonzero assms(2) ok(1) by blast
  ultimately show ?thesis using ok km' assms(2,3) by (auto simp: kmem_ok_def)
qed

lemma kmem_ok_unique: "kmem_ok kend km xs \<Longrightarrow> kmem_ok kend km ys \<Longrightarrow> xs = ys"
  by (auto simp: kmem_ok_def intro: flist_unique)


section \<open>The allocator as an interface\<close>

text \<open>
  What the clients of the allocator (page tables, trap frames, pipes, kernel stacks) rely on:
  \<open>pool s xs\<close> says that \<open>xs\<close> are the free pages of state \<open>s\<close>.
\<close>

locale page_allocator =
  fixes alloc :: "'s \<Rightarrow> u64 \<times> 's"
    and dealloc :: "'s \<Rightarrow> u64 \<Rightarrow> 's kres"
    and pool :: "'s \<Rightarrow> u64 list \<Rightarrow> bool"
    and valid :: "u64 \<Rightarrow> bool"
  assumes alloc_none: "pool s [] \<Longrightarrow> alloc s = (0, s)"
    and alloc_some: "pool s (x # xs) \<Longrightarrow> \<exists>s'. alloc s = (x, s') \<and> pool s' xs"
    and dealloc_ok: "pool s xs \<Longrightarrow> valid x \<Longrightarrow> x \<notin> set xs \<Longrightarrow> \<exists>s'. dealloc s x = Inr s' \<and> pool s' (x # xs)"
    and pool_distinct: "pool s xs \<Longrightarrow> distinct xs"
    and pool_valid: "pool s xs \<Longrightarrow> x \<in> set xs \<Longrightarrow> valid x"
    and valid_nonzero: "valid x \<Longrightarrow> x \<noteq> 0"

text \<open>
  A client that holds the pages \<open>own\<close>: it allocates, and frees pages it holds.
\<close>

datatype pgop = PgAlloc | PgFree nat

fun pg_run :: "('s \<Rightarrow> u64 \<times> 's) \<Rightarrow> ('s \<Rightarrow> u64 \<Rightarrow> 's kres) \<Rightarrow> pgop list \<Rightarrow> u64 list \<Rightarrow> 's
    \<Rightarrow> (u64 list \<times> 's) kres" where
  "pg_run al fr [] own s = Inr (own, s)"
| "pg_run al fr (PgAlloc # ops) own s =
     (let (r, s') = al s in pg_run al fr ops (if r = 0 then own else r # own) s')"
| "pg_run al fr (PgFree i # ops) own s =
     (if i < length own
      then bindE (fr s (own ! i)) (\<lambda>s'. pg_run al fr ops (take i own @ drop (Suc i) own) s')
      else pg_run al fr ops own s)"

context page_allocator
begin

lemma run_conserves:
  assumes "pool s xs" and "distinct (own @ xs)" and "\<forall>x\<in>set own. valid x"
  shows "\<exists>own' s' xs'. pg_run alloc dealloc ops own s = Inr (own', s') \<and> pool s' xs'
    \<and> distinct (own' @ xs') \<and> set (own' @ xs') = set (own @ xs)"
  using assms
proof (induction ops arbitrary: own s xs)
  case Nil
  then show ?case by auto
next
  case (Cons op ops)
  show ?case
  proof (cases op)
    case PgAlloc
    show ?thesis
    proof (cases xs)
      case Nil
      with Cons.prems(1) have "alloc s = (0, s)" by (simp add: alloc_none)
      with PgAlloc Cons.IH [OF Cons.prems] show ?thesis by simp
    next
      case xs: (Cons x ys)
      with Cons.prems(1) obtain s' where s': "alloc s = (x, s')" "pool s' ys" by (auto dest: alloc_some)
      have "valid x" using pool_valid [OF Cons.prems(1)] xs by simp
      with Cons.prems xs have "distinct ((x # own) @ ys)" "\<forall>x\<in>set (x # own). valid x" by auto
      from Cons.IH [OF s'(2) this] PgAlloc s' xs valid_nonzero [OF \<open>valid x\<close>]
      show ?thesis by auto
    qed
  next
    case (PgFree i)
    show ?thesis
    proof (cases "i < length own")
      case False
      with PgFree Cons.IH [OF Cons.prems] show ?thesis by simp
    next
      case True
      let ?own = "take i own @ drop (Suc i) own"
      have own: "own = take i own @ own ! i # drop (Suc i) own" by (rule id_take_nth_drop [OF True])
      have v: "valid (own ! i)" "own ! i \<notin> set xs"
        using Cons.prems True by (auto simp: disjoint_iff)
      from dealloc_ok [OF Cons.prems(1) v] obtain s' where
        s': "dealloc s (own ! i) = Inr s'" "pool s' (own ! i # xs)" by blast
      have "mset own = mset (own ! i # ?own)" by (subst own) simp
      then have perm: "mset (own @ xs) = mset (?own @ own ! i # xs)" by simp
      have d: "distinct (?own @ own ! i # xs)" "set (?own @ own ! i # xs) = set (own @ xs)"
        using Cons.prems(2) mset_eq_imp_distinct_iff [OF perm] mset_eq_setD [OF perm] by simp_all
      have "\<forall>x\<in>set ?own. valid x" using Cons.prems(3) by (auto dest: in_set_takeD in_set_dropD)
      from Cons.IH [OF s'(2) d(1) this] PgFree True s'(1) d(2) show ?thesis by simp
    qed
  qed
qed

end

interpretation kpages: page_allocator kalloc "kfree kend" "kmem_ok kend"
    "\<lambda>pa. page_ok kend pa \<and> 0 < kend" for kend
proof
  show "kalloc s = (0, s)" if "kmem_ok kend s []" for s
    using that by (rule kalloc_empty)
  show "\<exists>s'. kalloc s = (x, s') \<and> kmem_ok kend s' xs" if "kmem_ok kend s (x # xs)" for s x xs
    using that by (rule kalloc_pops)
  show "\<exists>s'. kfree kend s x = Inr s' \<and> kmem_ok kend s' (x # xs)"
    if "kmem_ok kend s xs" "page_ok kend x \<and> 0 < kend" "x \<notin> set xs" for s x xs
    using that by (blast intro: kfree_pushes)
qed (auto simp: kmem_ok_def list_all_iff page_ok_def)

section \<open>Initialisation\<close>

lemma freerange_loop_pages:
  assumes "kmem_ok kend km xs" and "p mod 4096 = 0" and "unat kend \<le> p"
    and "pa_end \<le> unat PHYSTOP" and "\<forall>x\<in>set xs. unat x < p"
  shows "\<exists>km' ys. freerange_loop kend p pa_end km = Inr km' \<and> kmem_ok kend km' ys
    \<and> set ys = set xs \<union> {x. unat x mod 4096 = 0 \<and> p \<le> unat x \<and> unat x + 4096 \<le> pa_end}"
  using assms
proof (induction kend p pa_end km arbitrary: xs rule: freerange_loop.induct)
  case (1 kend p pa_end km)
  show ?case
  proof (cases "p + PGSIZE \<le> pa_end")
    case False
    then have "set xs = set xs \<union> {x :: u64. unat x mod 4096 = 0 \<and> p \<le> unat x \<and> unat x + 4096 \<le> pa_end}"
      by (auto simp: PGSIZE_def)
    moreover have "freerange_loop kend p pa_end km = Inr km"
      using False by (subst freerange_loop.simps) simp
    ultimately show ?thesis using "1.prems"(1) by blast
  next
    case True
    have "unat PHYSTOP < 2 ^ 64" using unsigned_less [of PHYSTOP] by simp
    then have p: "unat (of_nat p :: u64) = p"
      using True "1.prems"(4) by (intro unat_of_nat_u64) (simp add: PGSIZE_def)
    have ok: "page_ok kend (of_nat p)"
      using True "1.prems"(2-4) p by (auto simp: page_ok_def PGSIZE_def word_le_nat_alt word_less_nat_alt)
    have "(of_nat p :: u64) \<notin> set xs" using "1.prems"(5) p by auto
    from kfree_pushes [OF "1.prems"(1) ok this] obtain km1 where
      km1: "kfree kend km (of_nat p) = Inr km1" "kmem_ok kend km1 (of_nat p # xs)" by blast
    have "\<exists>km' ys. freerange_loop kend (p + PGSIZE) pa_end km1 = Inr km' \<and> kmem_ok kend km' ys
      \<and> set ys = set (of_nat p # xs) \<union>
          {x. unat x mod 4096 = 0 \<and> p + PGSIZE \<le> unat x \<and> unat x + 4096 \<le> pa_end}"
      using "1.prems" p by (intro "1.IH" [OF True km1(1) km1(2)]) (auto simp: PGSIZE_def)
    then obtain km' ys where r: "freerange_loop kend (p + PGSIZE) pa_end km1 = Inr km'" "kmem_ok kend km' ys"
      "set ys = set (of_nat p # xs) \<union>
          {x. unat x mod 4096 = 0 \<and> p + PGSIZE \<le> unat x \<and> unat x + 4096 \<le> pa_end}" by blast
    have step: "p + 4096 \<le> q" if "p < q" "q mod 4096 = 0" for q :: nat
    proof -
      from that(2) "1.prems"(2) obtain i j where "p = 4096 * i" "q = 4096 * j"
        by (metis mod_0_imp_dvd dvdE)
      with that(1) show ?thesis by simp
    qed
    have "{x :: u64. unat x mod 4096 = 0 \<and> p \<le> unat x \<and> unat x + 4096 \<le> pa_end} =
      insert (of_nat p) {x. unat x mod 4096 = 0 \<and> p + PGSIZE \<le> unat x \<and> unat x + 4096 \<le> pa_end}"
      (is "?A = insert _ ?B")
    proof (intro equalityI subsetI)
      fix x assume x: "x \<in> ?A"
      show "x \<in> insert (of_nat p) ?B"
      proof (cases "unat x = p")
        case True
        then have "x = of_nat p" using p by (simp add: word_unat_eq_iff)
        then show ?thesis by simp
      next
        case False
        then have "p + 4096 \<le> unat x" using x by (intro step) auto
        then show ?thesis using x by (simp add: PGSIZE_def)
      qed
    qed (use True "1.prems"(2) p in \<open>auto simp: PGSIZE_def\<close>)
    moreover have "freerange_loop kend p pa_end km = Inr km'"
      using True km1(1) r(1) by (subst freerange_loop.simps) simp
    ultimately show ?thesis using r(2,3) by (intro exI [of _ km'] exI [of _ ys]) simp
  qed
qed


lemma page_above_PGROUNDUP:
  assumes "unat kend + 4095 < 2 ^ 64" and "q mod 4096 = 0"
  shows "unat (PGROUNDUP kend) \<le> q \<longleftrightarrow> unat kend \<le> q"
proof -
  obtain j where j: "q = 4096 * j" using assms(2) by (metis mod_0_imp_dvd dvdE)
  have "unat (PGROUNDUP kend) = (unat kend + 4095) div 4096 * 4096"
    by (rule unat_PGROUNDUP [OF assms(1)])
  then have "unat (PGROUNDUP kend) \<le> q \<longleftrightarrow> (unat kend + 4095) div 4096 \<le> j" by (simp add: j)
  also have "\<dots> \<longleftrightarrow> unat kend + 4095 < Suc j * 4096"
    by (simp only: less_Suc_eq_le [symmetric] div_less_iff_less_mult)
  finally show ?thesis using j by auto
qed

lemma kinit_pages:
  assumes "0 < kend" and "kend \<le> PHYSTOP" and "freelist km = 0"
  shows "\<exists>km' xs. kinit kend km = Inr km' \<and> kmem_ok kend km' xs \<and> set xs = {pa. page_ok kend pa}"
proof -
  have P: "unat PHYSTOP = 0x88000000" by (simp add: layout_defs)
  have k: "unat kend \<le> 0x88000000" using assms(2) P by (simp add: word_le_nat_alt)
  have "kmem_ok kend km []" using assms by (simp add: kmem_ok_def)
  moreover have al: "unat (PGROUNDUP kend) mod 4096 = 0"
    using k by (subst unat_PGROUNDUP) simp_all
  moreover have "unat kend \<le> unat (PGROUNDUP kend)"
    using page_above_PGROUNDUP [of kend "unat (PGROUNDUP kend)"] al k by simp
  ultimately obtain km' ys where r: "kinit kend km = Inr km'" "kmem_ok kend km' ys"
    "set ys = {x. unat x mod 4096 = 0 \<and> unat (PGROUNDUP kend) \<le> unat x \<and> unat x + 4096 \<le> unat PHYSTOP}"
    using freerange_loop_pages [of kend km "[]" "unat (PGROUNDUP kend)" "unat PHYSTOP"]
    by (auto simp: kinit_def freerange_def)
  have room: "q + 4096 \<le> 0x88000000 \<longleftrightarrow> q < 0x88000000" if "q mod 4096 = 0" for q :: nat
  proof -
    from that obtain j where "q = 4096 * j" by (metis mod_0_imp_dvd dvdE)
    then show ?thesis by auto
  qed
  have "set ys = {pa. page_ok kend pa}"
    using r(3) room page_above_PGROUNDUP [of kend] k
    by (auto simp: page_ok_def PGSIZE_def P word_le_nat_alt word_less_nat_alt)
  with r show ?thesis by blast
qed

section \<open>Properties\<close>

text \<open>
  C6: page ownership. Whatever sequence of allocations and frees of held pages runs from a
  well-formed free list, the allocator never panics, the held pages and the free pages are
  pairwise distinct, and together they are exactly the pages there were at the start: no page
  is handed out twice and none is lost.
\<close>

theorem kalloc_conserves_pages:
  assumes "kmem_ok kend km xs"
  shows "\<exists>own km' ys. pg_run kalloc (kfree kend) ops [] km = Inr (own, km') \<and> kmem_ok kend km' ys
    \<and> distinct (own @ ys) \<and> set (own @ ys) = set xs"
  using kpages.run_conserves [OF assms, of "[]" ops] kpages.pool_distinct [OF assms] by simp

theorem kalloc_conserves_pages_witness:
  "kmem_ok 0x80001000 \<lparr>mem = (\<lambda>_. 0), freelist = 0x80001000\<rparr> [0x80001000]
   \<and> (\<exists>own km' ys. pg_run kalloc (kfree 0x80001000) [PgAlloc, PgAlloc, PgFree 0] []
          \<lparr>mem = (\<lambda>_. 0), freelist = 0x80001000\<rparr> = Inr (own, km')
        \<and> kmem_ok 0x80001000 km' ys \<and> distinct (own @ ys) \<and> set (own @ ys) = set [0x80001000])"
proof -
  have ok: "kmem_ok 0x80001000 \<lparr>mem = (\<lambda>_. 0), freelist = 0x80001000\<rparr> [0x80001000]"
    by (simp add: kmem_ok_def load64_def page_ok_def layout_defs)
  from ok kalloc_conserves_pages [OF ok, of "[PgAlloc, PgAlloc, PgFree 0]"] show ?thesis by (rule conjI)
qed

text \<open>
  C24: \<open>kinit\<close> on an empty list succeeds and leaves on the free list exactly the page-aligned
  addresses from the end of the kernel up to \<open>PHYSTOP\<close>, each once.
\<close>

theorem kinit_frees_all_pages:
  assumes "0 < kend" and "kend \<le> PHYSTOP" and "freelist km = 0"
  shows "\<exists>km' xs. kinit kend km = Inr km' \<and> kmem_ok kend km' xs \<and> distinct xs
    \<and> (\<forall>pa. pa \<in> set xs \<longleftrightarrow> unat pa mod 4096 = 0 \<and> kend \<le> pa \<and> pa < PHYSTOP)"
proof -
  from kinit_pages [OF assms] obtain km' xs where
    "kinit kend km = Inr km'" "kmem_ok kend km' xs" "set xs = {pa. page_ok kend pa}" by blast
  moreover from this have "distinct xs" by (simp add: kmem_ok_def)
  ultimately show ?thesis by (intro exI [of _ km'] exI [of _ xs]) (simp add: page_ok_def PGSIZE_def)
qed

theorem kinit_frees_all_pages_witness:
  "\<exists>km' xs. kinit 0x80022000 \<lparr>mem = (\<lambda>_. 0), freelist = 0\<rparr> = Inr km' \<and> kmem_ok 0x80022000 km' xs
    \<and> distinct xs \<and> (\<forall>pa. pa \<in> set xs \<longleftrightarrow> unat pa mod 4096 = 0 \<and> 0x80022000 \<le> pa \<and> pa < PHYSTOP)"
  by (rule kinit_frees_all_pages) (simp_all add: layout_defs)

text \<open>
  A successful \<open>kalloc\<close> returns the head of the free list, fills exactly that page with
  the byte 5 and leaves every other byte of memory alone.
\<close>

lemma kalloc_page_contents:
  assumes "kmem_ok kend km (x # xs)"
  shows "\<exists>km'. kalloc km = (x, km') \<and> kmem_ok kend km' xs
    \<and> (\<forall>a. mem km' a = (if unat (a - x) < 4096 then 5 else mem km a))"
proof -
  from kalloc_pops [OF assms] obtain km' where r: "kalloc km = (x, km')" "kmem_ok kend km' xs" by blast
  have "x \<noteq> 0" using assms by (simp add: kmem_ok_def)
  with r kalloc_frame [OF r(1)] kalloc_junk [OF r(1)] show ?thesis by (auto simp: not_less)
qed

end
