(* ===== verification/Vm.thy ===== *)
theory Vm
  imports Kalloc
begin

text \<open>
  Virtual memory, \<open>xv6/kernel/vm.c\<close>: the three-level Sv39 page table kept in physical pages,
  the walk that finds or creates an entry, mapping and unmapping of ranges, growth and copy of
  a user address space, demand allocation and the copies between kernel and user memory.

  A page table is the address of its root page in the memory of \<open>kmem\<close>, a page-table entry is
  a 64-bit word of that memory, and the address 0 is the null pointer. Addresses set by the
  linker (\<open>end\<close>, \<open>etext\<close>, \<open>trampoline\<close> and the entry points) are the fields of \<open>kenv\<close>.
  A load through a null pointer is a fault in the kernel, which ends in the panic of
  \<open>kerneltrap\<close>. Kernel data that is not in a page of the allocator is passed to and from the
  copies as a list of bytes.
\<close>

record kenv =
  a_end :: u64
  a_etext :: u64
  a_trampoline :: u64
  a_uservec :: u64
  a_userret :: u64
  a_usertrap :: u64
  a_forkret :: u64
  a_kernelvec :: u64

section \<open>Walking the tree\<close>

text \<open>\<open>&pagetable[i]\<close>.\<close>

definition pte_addr :: "u64 \<Rightarrow> u64 \<Rightarrow> u64" where
  "pte_addr pagetable i = pagetable + 8 * i"

fun walk_loop :: "nat \<Rightarrow> u64 \<Rightarrow> u64 \<Rightarrow> bool \<Rightarrow> kmem \<Rightarrow> u64 \<times> kmem" where
  "walk_loop 0 pagetable va al km = (pte_addr pagetable (PX 0 va), km)"
| "walk_loop (Suc l) pagetable va al km =
     (let pte = pte_addr pagetable (PX (Suc l) va);
          v = load64 (mem km) pte
      in if v AND PTE_V \<noteq> 0 then walk_loop l (PTE2PA v) va al km
         else if \<not> al then (0, km)
         else let (pt, km1) = kalloc km
              in if pt = 0 then (0, km1)
                 else let m1 = memset (mem km1) pt 0 PGSIZE;
                          m2 = store64 m1 pte (PA2PTE pt OR PTE_V)
                      in walk_loop l pt va al (km1\<lparr>mem := m2\<rparr>))"

definition walk :: "u64 \<Rightarrow> u64 \<Rightarrow> bool \<Rightarrow> kmem \<Rightarrow> (u64 \<times> kmem) kres" where
  "walk pagetable va al km =
     (if va \<ge> MAXVA then Inl (Panic ''walk'') else Inr (walk_loop 2 pagetable va al km))"

definition walkaddr :: "u64 \<Rightarrow> u64 \<Rightarrow> kmem \<Rightarrow> u64 kres" where
  "walkaddr pagetable va km =
     (if va \<ge> MAXVA then Inr 0
      else bindE (walk pagetable va False km) (\<lambda>(pte, _).
        let v = load64 (mem km) pte
        in if pte = 0 then Inr 0
           else if v AND PTE_V = 0 then Inr 0
           else if v AND PTE_U = 0 then Inr 0
           else Inr (PTE2PA v)))"

definition ismapped :: "u64 \<Rightarrow> u64 \<Rightarrow> kmem \<Rightarrow> bool kres" where
  "ismapped pagetable va km =
     bindE (walk pagetable va False km) (\<lambda>(pte, _).
       if pte = 0 then Inr False
       else if load64 (mem km) pte AND PTE_V \<noteq> 0 then Inr True
       else Inr False)"

lemma walk_Inr_less: "walk pagetable va al km = Inr r \<Longrightarrow> va < MAXVA"
  by (simp add: walk_def split: if_splits)

text \<open>A step of one page from an address below \<open>MAXVA\<close> does not wrap.\<close>

lemma page_step_decreases:
  assumes "a < MAXVA"
  shows "unat MAXVA + 4096 - unat (a + PGSIZE64) < unat MAXVA + 4096 - unat a"
proof -
  have "unat a < unat MAXVA" using assms by (simp add: word_less_nat_alt)
  moreover have "unat MAXVA = 2 ^ 38" by (simp add: MAXVA_def)
  ultimately have "unat (a + PGSIZE64) = unat a + 4096"
    by (simp add: unat_word_ariths PGSIZE64_def)
  with \<open>unat a < unat MAXVA\<close> show ?thesis by linarith
qed

section \<open>Mapping and unmapping\<close>

text \<open>The loop of \<open>mappages\<close>; the result is 0 or -1.\<close>

function mappages_loop :: "u64 \<Rightarrow> u64 \<Rightarrow> u64 \<Rightarrow> u64 \<Rightarrow> u64 \<Rightarrow> kmem \<Rightarrow> (int \<times> kmem) kres" where
  "mappages_loop pagetable a lst pa perm km =
     bindE (walk pagetable a True km) (\<lambda>(pte, km1).
       if pte = 0 then Inr (-1, km1)
       else if load64 (mem km1) pte AND PTE_V \<noteq> 0 then Inl (Panic ''mappages: remap'')
       else let km2 = km1\<lparr>mem := store64 (mem km1) pte (PA2PTE pa OR perm OR PTE_V)\<rparr>
            in if a = lst then Inr (0, km2)
               else mappages_loop pagetable (a + PGSIZE64) lst (pa + PGSIZE64) perm km2)"
  by pat_completeness auto
termination
  by (relation "measure (\<lambda>(pt, a, lst, pa, perm, km). unat MAXVA + 4096 - unat a)")
    (auto dest!: walk_Inr_less page_step_decreases)

declare mappages_loop.simps [simp del]

definition mappages :: "u64 \<Rightarrow> u64 \<Rightarrow> u64 \<Rightarrow> u64 \<Rightarrow> u64 \<Rightarrow> kmem \<Rightarrow> (int \<times> kmem) kres" where
  "mappages pagetable va sz pa perm km =
     (if va mod PGSIZE64 \<noteq> 0 then Inl (Panic ''mappages: va not aligned'')
      else if sz mod PGSIZE64 \<noteq> 0 then Inl (Panic ''mappages: size not aligned'')
      else if sz = 0 then Inl (Panic ''mappages: size'')
      else mappages_loop pagetable va (va + sz - PGSIZE64) pa perm km)"

function uvmunmap_loop :: "u64 \<Rightarrow> u64 \<Rightarrow> u64 \<Rightarrow> u64 \<Rightarrow> bool \<Rightarrow> kmem \<Rightarrow> kmem kres" where
  "uvmunmap_loop kend pagetable a e do_free km =
     (if a < e
      then bindE (walk pagetable a False km) (\<lambda>(pte, _).
             let v = load64 (mem km) pte
             in if pte = 0 then uvmunmap_loop kend pagetable (a + PGSIZE64) e do_free km
                else if v AND PTE_V = 0 then uvmunmap_loop kend pagetable (a + PGSIZE64) e do_free km
                else bindE (if do_free then kfree kend km (PTE2PA v) else Inr km) (\<lambda>km1.
                       uvmunmap_loop kend pagetable (a + PGSIZE64) e do_free
                         (km1\<lparr>mem := store64 (mem km1) pte 0\<rparr>)))
      else Inr km)"
  by pat_completeness auto
termination
  by (relation "measure (\<lambda>(kend, pt, a, e, f, km). unat MAXVA + 4096 - unat a)")
    (auto dest!: walk_Inr_less page_step_decreases)

declare uvmunmap_loop.simps [simp del]

definition uvmunmap :: "u64 \<Rightarrow> u64 \<Rightarrow> u64 \<Rightarrow> u64 \<Rightarrow> bool \<Rightarrow> kmem \<Rightarrow> kmem kres" where
  "uvmunmap kend pagetable va npages do_free km =
     (if va mod PGSIZE64 \<noteq> 0 then Inl (Panic ''uvmunmap: not aligned'')
      else uvmunmap_loop kend pagetable va (va + npages * PGSIZE64) do_free km)"

section \<open>User address spaces\<close>

definition uvmcreate :: "kmem \<Rightarrow> u64 \<times> kmem" where
  "uvmcreate km =
     (let (pagetable, km1) = kalloc km
      in if pagetable = 0 then (0, km1)
         else (pagetable, km1\<lparr>mem := memset (mem km1) pagetable 0 PGSIZE\<rparr>))"

text \<open>\<open>npages\<close> is an \<open>int\<close>, widened again when it is passed.\<close>

definition uvmdealloc :: "u64 \<Rightarrow> u64 \<Rightarrow> u64 \<Rightarrow> u64 \<Rightarrow> kmem \<Rightarrow> (u64 \<times> kmem) kres" where
  "uvmdealloc kend pagetable oldsz newsz km =
     (if newsz \<ge> oldsz then Inr (oldsz, km)
      else if PGROUNDUP newsz < PGROUNDUP oldsz
      then let npages = ucast ((PGROUNDUP oldsz - PGROUNDUP newsz) div PGSIZE64) :: u32
           in bindE (uvmunmap kend pagetable (PGROUNDUP newsz) (scast npages) True km)
                (\<lambda>km1. Inr (newsz, km1))
      else Inr (newsz, km))"

lemma mappages_Inr_less: "mappages pagetable va sz pa perm km = Inr r \<Longrightarrow> va < MAXVA"
  by (auto simp: mappages_def mappages_loop.simps [of pagetable va] dest: walk_Inr_less split: if_splits)

function uvmalloc_loop :: "u64 \<Rightarrow> u64 \<Rightarrow> u64 \<Rightarrow> u64 \<Rightarrow> u64 \<Rightarrow> u64 \<Rightarrow> kmem \<Rightarrow> (u64 \<times> kmem) kres" where
  "uvmalloc_loop kend pagetable a oldsz newsz xperm km =
     (if a < newsz
      then let (p, km1) = kalloc km
           in if p = 0
              then bindE (uvmdealloc kend pagetable a oldsz km1) (\<lambda>(_, km2). Inr (0, km2))
              else bindE (mappages pagetable a PGSIZE64 p (PTE_R OR PTE_U OR xperm)
                            (km1\<lparr>mem := memset (mem km1) p 0 PGSIZE\<rparr>)) (\<lambda>(r, km2).
                     if r \<noteq> 0
                     then bindE (kfree kend km2 p) (\<lambda>km3.
                            bindE (uvmdealloc kend pagetable a oldsz km3) (\<lambda>(_, km4). Inr (0, km4)))
                     else uvmalloc_loop kend pagetable (a + PGSIZE64) oldsz newsz xperm km2)
      else Inr (newsz, km))"
  by pat_completeness auto
termination
  by (relation "measure (\<lambda>(kend, pt, a, old, new, x, km). unat MAXVA + 4096 - unat a)")
    (auto dest!: mappages_Inr_less page_step_decreases)

declare uvmalloc_loop.simps [simp del]

definition uvmalloc :: "u64 \<Rightarrow> u64 \<Rightarrow> u64 \<Rightarrow> u64 \<Rightarrow> u64 \<Rightarrow> kmem \<Rightarrow> (u64 \<times> kmem) kres" where
  "uvmalloc kend pagetable oldsz newsz xperm km =
     (if newsz < oldsz then Inr (oldsz, km)
      else uvmalloc_loop kend pagetable (PGROUNDUP oldsz) (PGROUNDUP oldsz) newsz xperm km)"

text \<open>
  \<open>freewalk\<close> recurses along the tree; \<open>fuel\<close> bounds the depth. Three is the depth of every
  page table that \<open>walk\<close> builds.
\<close>

fun freewalk :: "u64 \<Rightarrow> nat \<Rightarrow> u64 \<Rightarrow> kmem \<Rightarrow> kmem kres"
  and freewalk_loop :: "u64 \<Rightarrow> nat \<Rightarrow> nat \<Rightarrow> u64 \<Rightarrow> kmem \<Rightarrow> kmem kres" where
  "freewalk kend 0 pagetable km = Inl OutOfFuel"
| "freewalk kend (Suc fuel) pagetable km =
     bindE (freewalk_loop kend fuel 512 pagetable km) (\<lambda>km1. kfree kend km1 pagetable)"
| "freewalk_loop kend fuel 0 pagetable km = Inr km"
| "freewalk_loop kend fuel (Suc k) pagetable km =
     (let slot = pte_addr pagetable (of_nat (512 - Suc k));
          pte = load64 (mem km) slot
      in if pte AND PTE_V \<noteq> 0 \<and> pte AND (PTE_R OR PTE_W OR PTE_X) = 0
         then bindE (freewalk kend fuel (PTE2PA pte) km) (\<lambda>km1.
                freewalk_loop kend fuel k pagetable (km1\<lparr>mem := store64 (mem km1) slot 0\<rparr>))
         else if pte AND PTE_V \<noteq> 0 then Inl (Panic ''freewalk: leaf'')
         else freewalk_loop kend fuel k pagetable km)"

definition uvmfree :: "u64 \<Rightarrow> u64 \<Rightarrow> u64 \<Rightarrow> kmem \<Rightarrow> kmem kres" where
  "uvmfree kend pagetable sz km =
     bindE (if sz > 0 then uvmunmap kend pagetable 0 (PGROUNDUP sz div PGSIZE64) True km else Inr km)
       (\<lambda>km1. freewalk kend 3 pagetable km1)"

function uvmcopy_loop :: "u64 \<Rightarrow> u64 \<Rightarrow> u64 \<Rightarrow> u64 \<Rightarrow> u64 \<Rightarrow> kmem \<Rightarrow> (int \<times> kmem) kres" where
  "uvmcopy_loop kend old new sz i km =
     (if i < sz
      then bindE (walk old i False km) (\<lambda>(pte, _).
             let v = load64 (mem km) pte
             in if pte = 0 then uvmcopy_loop kend old new sz (i + PGSIZE64) km
                else if v AND PTE_V = 0 then uvmcopy_loop kend old new sz (i + PGSIZE64) km
                else let pa = PTE2PA v; flags = PTE_FLAGS v; (p, km1) = kalloc km
                     in if p = 0
                        then bindE (uvmunmap kend new 0 (i div PGSIZE64) True km1) (\<lambda>km2. Inr (-1, km2))
                        else bindE (mappages new i PGSIZE64 p flags
                                      (km1\<lparr>mem := memmove (mem km1) p pa PGSIZE\<rparr>)) (\<lambda>(r, km2).
                               if r \<noteq> 0
                               then bindE (kfree kend km2 p) (\<lambda>km3.
                                      bindE (uvmunmap kend new 0 (i div PGSIZE64) True km3)
                                        (\<lambda>km4. Inr (-1, km4)))
                               else uvmcopy_loop kend old new sz (i + PGSIZE64) km2))
      else Inr (0, km))"
  by pat_completeness auto
termination
  by (relation "measure (\<lambda>(kend, old, new, sz, i, km). unat MAXVA + 4096 - unat i)")
    (auto dest!: walk_Inr_less page_step_decreases)

declare uvmcopy_loop.simps [simp del]

definition uvmcopy :: "u64 \<Rightarrow> u64 \<Rightarrow> u64 \<Rightarrow> u64 \<Rightarrow> kmem \<Rightarrow> (int \<times> kmem) kres" where
  "uvmcopy kend old new sz km = uvmcopy_loop kend old new sz 0 km"

definition uvmclear :: "u64 \<Rightarrow> u64 \<Rightarrow> kmem \<Rightarrow> kmem kres" where
  "uvmclear pagetable va km =
     bindE (walk pagetable va False km) (\<lambda>(pte, _).
       if pte = 0 then Inl (Panic ''uvmclear'')
       else Inr (km\<lparr>mem := store64 (mem km) pte (load64 (mem km) pte AND NOT PTE_U)\<rparr>))"

section \<open>Demand allocation\<close>

definition vmfault :: "u64 \<Rightarrow> u64 \<Rightarrow> u64 \<Rightarrow> u64 \<Rightarrow> bool \<Rightarrow> kmem \<Rightarrow> (u64 \<times> kmem) kres" where
  "vmfault kend pagetable psz va rd km =
     (if va \<ge> psz then Inr (0, km)
      else let va0 = PGROUNDDOWN va
           in bindE (ismapped pagetable va0 km) (\<lambda>b.
                if b then Inr (0, km)
                else let (p, km1) = kalloc km
                     in if p = 0 then Inr (0, km1)
                        else bindE (mappages pagetable va0 PGSIZE64 p (PTE_W OR PTE_U OR PTE_R)
                                      (km1\<lparr>mem := memset (mem km1) p 0 PGSIZE\<rparr>)) (\<lambda>(r, km2).
                               if r \<noteq> 0 then bindE (kfree kend km2 p) (\<lambda>km3. Inr (0, km3))
                               else Inr (p, km2))))"

section \<open>Copies between kernel and user memory\<close>

text \<open>
  \<open>page_chunk a len\<close> is the number of bytes from \<open>a\<close> to the end of its page, at most \<open>len\<close>.
\<close>

definition page_chunk :: "u64 \<Rightarrow> u64 \<Rightarrow> u64" where
  "page_chunk a len = (let n = PGSIZE64 - (a - PGROUNDDOWN a) in if n > len then len else n)"

lemma unat_page_offset: "unat (a - PGROUNDDOWN a) = unat a mod 4096"
proof -
  have "unat (PGROUNDDOWN a) \<le> unat a" by (simp add: unat_PGROUNDDOWN)
  then have "unat (a - PGROUNDDOWN a) = unat a - unat (PGROUNDDOWN a)"
    by (intro unat_sub) (simp add: word_le_nat_alt)
  then show ?thesis by (simp add: unat_PGROUNDDOWN minus_div_mult_eq_mod)
qed

lemma unat_page_chunk: "unat (page_chunk a len) = min (4096 - unat a mod 4096) (unat len)"
proof -
  have "unat (PGSIZE64 - (a - PGROUNDDOWN a)) = 4096 - unat a mod 4096"
    by (subst unat_sub) (simp_all add: word_le_nat_alt unat_page_offset PGSIZE64_def less_imp_le)
  then show ?thesis
    by (simp add: page_chunk_def Let_def word_less_nat_alt min_def)
qed

lemma page_chunk_pos: "len \<noteq> 0 \<Longrightarrow> 0 < unat (page_chunk a len)"
  by (simp add: unat_page_chunk unat_gt_0)

function copyout :: "u64 \<Rightarrow> u64 \<Rightarrow> u64 \<Rightarrow> u64 \<Rightarrow> u8 list \<Rightarrow> kmem \<Rightarrow> (int \<times> kmem) kres" where
  "copyout kend pagetable psz dstva src km =
     (if src \<noteq> []
      then let va0 = PGROUNDDOWN dstva
           in if va0 \<ge> MAXVA then Inr (-1, km)
              else bindE (walkaddr pagetable va0 km) (\<lambda>pa.
                   bindE (if pa = 0 then vmfault kend pagetable psz va0 False km else Inr (pa, km))
                     (\<lambda>(pa0, km1).
                       if pa0 = 0 then Inr (-1, km1)
                       else bindE (walk pagetable va0 False km1) (\<lambda>(pte, _).
                         if pte = 0 then Inl (Panic ''kerneltrap'')
                         else if load64 (mem km1) pte AND PTE_W = 0 then Inr (-1, km1)
                         else let n = min (PGSIZE - unat (dstva - va0)) (length src)
                              in copyout kend pagetable psz (va0 + PGSIZE64) (drop n src)
                                   (km1\<lparr>mem := mem_write (mem km1) (pa0 + (dstva - va0)) (take n src)\<rparr>))))
      else Inr (0, km))"
  by pat_completeness auto
termination
  by (relation "measure (\<lambda>(kend, pt, psz, dst, src, km). length src)")
    (auto simp: unat_page_offset PGSIZE_def)

declare copyout.simps [simp del]

text \<open>\<open>copyin\<close> returns the bytes it has put at \<open>dst\<close> with the result.\<close>

function copyin :: "u64 \<Rightarrow> u64 \<Rightarrow> u64 \<Rightarrow> u64 \<Rightarrow> u64 \<Rightarrow> kmem \<Rightarrow> (int \<times> u8 list \<times> kmem) kres" where
  "copyin kend pagetable psz srcva len km =
     (if len > 0
      then let va0 = PGROUNDDOWN srcva
           in bindE (walkaddr pagetable va0 km) (\<lambda>pa.
              bindE (if pa = 0 then vmfault kend pagetable psz va0 True km else Inr (pa, km))
                (\<lambda>(pa0, km1).
                  if pa0 = 0 then Inr (-1, [], km1)
                  else let n = page_chunk srcva len;
                           bs = mem_read (mem km1) (pa0 + (srcva - va0)) (unat n)
                       in bindE (copyin kend pagetable psz (va0 + PGSIZE64) (len - n) km1)
                            (\<lambda>(r, bs', km2). Inr (r, bs @ bs', km2))))
      else Inr (0, [], km))"
  by pat_completeness auto
termination
proof (relation "measure (\<lambda>(kend, pt, psz, src, len, km). unat len)", goal_cases)
  case (2 kend pt psz srcva len km va0 pa r pa0 km1 n bs)
  have "page_chunk srcva len \<le> len" by (simp add: word_le_nat_alt unat_page_chunk)
  then have "unat (len - page_chunk srcva len) = unat len - unat (page_chunk srcva len)" by (rule unat_sub)
  moreover have "0 < unat (page_chunk srcva len)" using 2(1) by (intro page_chunk_pos) auto
  ultimately show ?case using 2 \<open>page_chunk srcva len \<le> len\<close> by (simp add: word_le_nat_alt)
qed simp

declare copyin.simps [simp del]

text \<open>The inner loop of \<open>copyinstr\<close>: up to \<open>n\<close> bytes at \<open>p\<close>, and whether the NUL was found.\<close>

fun copyinstr_page :: "memory \<Rightarrow> u64 \<Rightarrow> nat \<Rightarrow> bool \<times> u8 list" where
  "copyinstr_page m p 0 = (False, [])"
| "copyinstr_page m p (Suc n) =
     (if m p = 0 then (True, [0])
      else let (g, bs) = copyinstr_page m (p + 1) n in (g, m p # bs))"

function copyinstr :: "u64 \<Rightarrow> u64 \<Rightarrow> u64 \<Rightarrow> u64 \<Rightarrow> u64 \<Rightarrow> kmem \<Rightarrow> (int \<times> u8 list \<times> kmem) kres" where
  "copyinstr kend pagetable psz srcva mx km =
     (if mx > 0
      then let va0 = PGROUNDDOWN srcva
           in bindE (walkaddr pagetable va0 km) (\<lambda>pa.
              bindE (if pa = 0 then vmfault kend pagetable psz va0 True km else Inr (pa, km))
                (\<lambda>(pa0, km1).
                  if pa0 = 0 then Inr (-1, [], km1)
                  else let n = page_chunk srcva mx;
                           (g, bs) = copyinstr_page (mem km1) (pa0 + (srcva - va0)) (unat n)
                       in if g then Inr (0, bs, km1)
                          else bindE (copyinstr kend pagetable psz (va0 + PGSIZE64) (mx - n) km1)
                                 (\<lambda>(r, bs', km2). Inr (r, bs @ bs', km2))))
      else Inr (-1, [], km))"
  by pat_completeness auto
termination
proof (relation "measure (\<lambda>(kend, pt, psz, src, len, km). unat len)", goal_cases)
  case (2 kend pt psz srcva len km va0 pa r pa0 km1 n gbs g bs)
  have "page_chunk srcva len \<le> len" by (simp add: word_le_nat_alt unat_page_chunk)
  then have "unat (len - page_chunk srcva len) = unat len - unat (page_chunk srcva len)" by (rule unat_sub)
  moreover have "0 < unat (page_chunk srcva len)" using 2(1) by (intro page_chunk_pos) auto
  ultimately show ?case using 2 \<open>page_chunk srcva len \<le> len\<close> by (simp add: word_le_nat_alt)
qed simp

declare copyinstr.simps [simp del]

section \<open>The kernel's page table\<close>

definition UART0 :: u64 where "UART0 = 0x10000000"
definition VIRTIO0 :: u64 where "VIRTIO0 = 0x10001000"
definition PLIC :: u64 where "PLIC = 0x0c000000"

definition NPROC :: nat where "NPROC = 64"

definition kvmmap :: "u64 \<Rightarrow> u64 \<Rightarrow> u64 \<Rightarrow> u64 \<Rightarrow> u64 \<Rightarrow> kmem \<Rightarrow> kmem kres" where
  "kvmmap kpgtbl va pa sz perm km =
     bindE (mappages kpgtbl va sz pa perm km) (\<lambda>(r, km1).
       if r \<noteq> 0 then Inl (Panic ''kvmmap'') else Inr km1)"

text \<open>\<open>proc_mapstacks\<close> (in \<open>proc.c\<close>) for the processes from \<open>i\<close> on, \<open>k\<close> of them.\<close>

fun proc_mapstacks_loop :: "nat \<Rightarrow> nat \<Rightarrow> u64 \<Rightarrow> kmem \<Rightarrow> kmem kres" where
  "proc_mapstacks_loop i 0 kpgtbl km = Inr km"
| "proc_mapstacks_loop i (Suc k) kpgtbl km =
     (let (pa, km1) = kalloc km
      in if pa = 0 then Inl (Panic ''kalloc'')
         else bindE (kvmmap kpgtbl (KSTACK i) pa PGSIZE64 (PTE_R OR PTE_W) km1)
                (\<lambda>km2. proc_mapstacks_loop (Suc i) k kpgtbl km2))"

definition proc_mapstacks :: "u64 \<Rightarrow> kmem \<Rightarrow> kmem kres" where
  "proc_mapstacks kpgtbl km = proc_mapstacks_loop 0 NPROC kpgtbl km"

definition kvmmake :: "kenv \<Rightarrow> kmem \<Rightarrow> (u64 \<times> kmem) kres" where
  "kvmmake env km =
     (let (kpgtbl, km0) = kalloc km
      in if kpgtbl = 0 then Inl (Panic ''kerneltrap'')
         else let km1 = km0\<lparr>mem := memset (mem km0) kpgtbl 0 PGSIZE\<rparr>
      in bindE (kvmmap kpgtbl UART0 UART0 PGSIZE64 (PTE_R OR PTE_W) km1) (\<lambda>km2.
         bindE (kvmmap kpgtbl VIRTIO0 VIRTIO0 PGSIZE64 (PTE_R OR PTE_W) km2) (\<lambda>km3.
         bindE (kvmmap kpgtbl PLIC PLIC 0x4000000 (PTE_R OR PTE_W) km3) (\<lambda>km4.
         bindE (kvmmap kpgtbl KERNBASE KERNBASE (a_etext env - KERNBASE) (PTE_R OR PTE_X) km4) (\<lambda>km5.
         bindE (kvmmap kpgtbl (a_etext env) (a_etext env) (PHYSTOP - a_etext env) (PTE_R OR PTE_W) km5) (\<lambda>km6.
         bindE (kvmmap kpgtbl TRAMPOLINE (a_trampoline env) PGSIZE64 (PTE_R OR PTE_X) km6) (\<lambda>km7.
         bindE (proc_mapstacks kpgtbl km7) (\<lambda>km8. Inr (kpgtbl, km8)))))))))"

end
