(* ===== verification/VmProps.thy ===== *)
theory VmProps
  imports Vm
begin

text \<open>
  Page tables as trees. \<open>tables\<close> are the pages of a table, \<open>tree_ok\<close> says that they form a tree, and
  \<open>entry\<close> is the page-table entry of an address, 0 when its leaf table does not exist. A walk that
  may allocate keeps all entries, and \<open>mappages\<close> sets those of its range and no others.
\<close>

section \<open>Entries of a page\<close>

definition pte_of :: "memory \<Rightarrow> u64 \<Rightarrow> nat \<Rightarrow> u64" where
  "pte_of m p i = load64 m (p + of_nat (8 * i))"

abbreviation valid_pte :: "memory \<Rightarrow> u64 \<Rightarrow> nat \<Rightarrow> bool" where
  "valid_pte m p i \<equiv> pte_of m p i AND PTE_V \<noteq> 0"

abbreviation child :: "memory \<Rightarrow> u64 \<Rightarrow> nat \<Rightarrow> u64" where
  "child m p i \<equiv> PTE2PA (pte_of m p i)"

text \<open>\<open>m'\<close> differs from \<open>m\<close> only in the pages of \<open>P\<close>.\<close>

definition only :: "u64 set \<Rightarrow> memory \<Rightarrow> memory \<Rightarrow> bool" where
  "only P m m' \<longleftrightarrow> (\<forall>a. (\<forall>q\<in>P. 4096 \<le> unat (a - q)) \<longrightarrow> m' a = m a)"

lemma only_refl [simp]: "only P m m"
  by (simp add: only_def)

lemma only_trans: "only P m m1 \<Longrightarrow> only Q m1 m2 \<Longrightarrow> only (P \<union> Q) m m2"
  by (simp add: only_def)

lemma only_mono: "only P m m' \<Longrightarrow> P \<subseteq> Q \<Longrightarrow> only Q m m'"
  unfolding only_def by blast

lemma pte_addr_nat: "pte_addr p i = p + of_nat (8 * unat i)"
  by (simp add: pte_addr_def)

lemma load64_pte: "load64 m (pte_addr p i) = pte_of m p (unat i)"
  by (simp add: pte_of_def pte_addr_nat)

lemma only_byte:
  assumes "only P m m'" and "\<And>q. q \<in> P \<Longrightarrow> page_ok kend q" and "page_ok kend p" and "p \<notin> P" and "k < 4096"
  shows "m' (p + of_nat k) = m (p + of_nat k)"
proof -
  have "4096 \<le> unat (p + of_nat k - q)" if "q \<in> P" for q
    using page_offset [of q p k] page_ok_aligned [OF assms(2) [OF that]] page_ok_aligned [OF assms(3)] assms(4,5) that by auto
  then show ?thesis using assms(1) unfolding only_def by blast
qed

lemma only_pte:
  assumes "only P m m'" and "\<And>q. q \<in> P \<Longrightarrow> page_ok kend q" and "page_ok kend p" and "p \<notin> P" and "i < 512"
  shows "pte_of m' p i = pte_of m p i"
  unfolding pte_of_def
proof (rule load64_cong)
  fix k :: nat assume "k < 8"
  then have "8 * i + k < 4096" using assms(5) by linarith
  from only_byte [OF assms(1-4) this] show "m' (p + of_nat (8 * i) + of_nat k) = m (p + of_nat (8 * i) + of_nat k)"
    by (simp add: add.assoc)
qed

lemma pte_of_store:
  assumes "page_ok kend p" and "i < 512" and "j < 512"
  shows "pte_of (store64 m (p + of_nat (8 * i)) v) p j = (if j = i then v else pte_of m p j)"
proof (cases "j = i")
  case True
  then show ?thesis by (simp add: pte_of_def load64_store64_same)
next
  case False
  have "load64 (store64 m (p + of_nat (8 * i)) v) (p + of_nat (8 * j)) = load64 m (p + of_nat (8 * j))"
  proof (rule load64_cong)
    fix k :: nat assume k: "k < 8"
    have "8 \<le> unat (of_nat (8 * j + k) - of_nat (8 * i) :: u64)"
    proof (cases "i < j")
      case True
      then have "(of_nat (8 * j + k) - of_nat (8 * i) :: u64) = of_nat (8 * j + k - 8 * i)" by (simp add: of_nat_diff)
      then have "unat (of_nat (8 * j + k) - of_nat (8 * i) :: u64) = 8 * j + k - 8 * i"
        using assms(2,3) k by (simp only:) (rule unat_of_nat_u64, simp)
      then show ?thesis using True by simp
    next
      case f: False
      then have ij: "8 * j + k < 8 * i" using \<open>j \<noteq> i\<close> k by simp
      have "unat (of_nat (8 * j + k) :: u64) = 8 * j + k" by (rule unat_of_nat_u64) (use assms(3) k in simp)
      moreover have "unat (of_nat (8 * i) :: u64) = 8 * i" by (rule unat_of_nat_u64) (use assms(2) in simp)
      ultimately have "unat (of_nat (8 * j + k) - of_nat (8 * i) :: u64) = 2 ^ 64 + (8 * j + k) - 8 * i"
        using ij by (simp only: unat_sub_if') simp
      then show ?thesis using assms(2) by simp
    qed
    then show "store64 m (p + of_nat (8 * i)) v (p + of_nat (8 * j) + of_nat k) = m (p + of_nat (8 * j) + of_nat k)"
      by (intro store64_other) (simp add: algebra_simps)
  qed
  with False show ?thesis by (simp add: pte_of_def)
qed

lemma only_store: "i < 512 \<Longrightarrow> only {p} m (store64 m (p + of_nat (8 * i)) v)"
  unfolding only_def
proof (intro allI impI)
  fix a assume i: "i < 512" and a: "\<forall>q\<in>{p}. 4096 \<le> unat (a - q)"
  have u: "unat (of_nat (8 * i) :: u64) = 8 * i" using i by (intro unat_of_nat_u64) simp
  have "of_nat (8 * i) \<le> a - p" using a i u by (simp add: word_le_nat_alt del: of_nat_mult)
  then have "unat (a - p - of_nat (8 * i)) = unat (a - p) - 8 * i" using u by (simp only: unat_sub)
  then have "8 \<le> unat (a - p - of_nat (8 * i))" using a i by simp
  then show "store64 m (p + of_nat (8 * i)) v a = m a" by (intro store64_other) (simp add: diff_diff_eq)
qed

section \<open>Trees of tables\<close>

fun tables :: "memory \<Rightarrow> nat \<Rightarrow> u64 \<Rightarrow> u64 set" where
  "tables m 0 p = {p}"
| "tables m (Suc l) p = insert p (\<Union>i \<in> {i. i < 512 \<and> valid_pte m p i}. tables m l (child m p i))"

text \<open>The tables above the leaves.\<close>

fun uppers :: "memory \<Rightarrow> nat \<Rightarrow> u64 \<Rightarrow> u64 set" where
  "uppers m 0 p = {}"
| "uppers m (Suc l) p = insert p (\<Union>i \<in> {i. i < 512 \<and> valid_pte m p i}. uppers m l (child m p i))"

fun tree_ok :: "u64 \<Rightarrow> memory \<Rightarrow> nat \<Rightarrow> u64 \<Rightarrow> bool" where
  "tree_ok kend m 0 p \<longleftrightarrow> page_ok kend p"
| "tree_ok kend m (Suc l) p \<longleftrightarrow> page_ok kend p
    \<and> (\<forall>i<512. valid_pte m p i \<longrightarrow> tree_ok kend m l (child m p i) \<and> p \<notin> tables m l (child m p i))
    \<and> (\<forall>i<512. \<forall>j<512. valid_pte m p i \<longrightarrow> valid_pte m p j \<longrightarrow> i \<noteq> j \<longrightarrow> tables m l (child m p i) \<inter> tables m l (child m p j) = {})"

text \<open>The leaf table of an address.\<close>

fun leaf :: "memory \<Rightarrow> nat \<Rightarrow> u64 \<Rightarrow> u64 \<Rightarrow> u64 option" where
  "leaf m 0 p va = Some p"
| "leaf m (Suc l) p va = (if valid_pte m p (unat (PX (Suc l) va)) then leaf m l (child m p (unat (PX (Suc l) va))) va else None)"

definition entry :: "memory \<Rightarrow> nat \<Rightarrow> u64 \<Rightarrow> u64 \<Rightarrow> u64" where
  "entry m l p va = (case leaf m l p va of None \<Rightarrow> 0 | Some q \<Rightarrow> pte_of m q (unat (PX 0 va)))"

lemma uppers_tables: "uppers m l p \<subseteq> tables m l p"
proof (induction l arbitrary: p)
  case (Suc l)
  then show ?case by auto
qed simp

lemma root_table [simp]: "p \<in> tables m l p"
  by (cases l) simp_all

lemma tables_page_ok: "tree_ok kend m l p \<Longrightarrow> q \<in> tables m l p \<Longrightarrow> page_ok kend q"
  by (induction l arbitrary: p) auto

lemma leaf_table: "tree_ok kend m l p \<Longrightarrow> leaf m l p va = Some q \<Longrightarrow> q \<in> tables m l p \<and> q \<notin> uppers m l p"
proof (induction l arbitrary: p)
  case (Suc l)
  let ?i = "unat (PX (Suc l) va)"
  have i: "?i < 512" "valid_pte m p ?i" using Suc.prems(2) PX_less by (auto split: if_splits)
  then have q: "q \<in> tables m l (child m p ?i)" "q \<notin> uppers m l (child m p ?i)" using Suc by auto
  have "q \<noteq> p" using q(1) i Suc.prems(1) by auto
  moreover have "q \<notin> uppers m l (child m p j)" if j: "j < 512" "valid_pte m p j" for j
  proof (cases "j = ?i")
    case False
    then have "tables m l (child m p ?i) \<inter> tables m l (child m p j) = {}" using Suc.prems(1) i j by simp
    then show ?thesis using q(1) uppers_tables [of m l "child m p j"] by blast
  qed (use q(2) in simp)
  ultimately show ?case using q(1) i by auto
qed simp

lemma leaf_inj:
  "tree_ok kend m l p \<Longrightarrow> leaf m l p va = Some q \<Longrightarrow> leaf m l p vb = Some q \<Longrightarrow> 1 \<le> k \<Longrightarrow> k \<le> l \<Longrightarrow> PX k va = PX k vb"
proof (induction l arbitrary: p)
  case (Suc l)
  let ?i = "unat (PX (Suc l) va)" and ?j = "unat (PX (Suc l) vb)"
  have ij: "?i < 512" "valid_pte m p ?i" "?j < 512" "valid_pte m p ?j" using Suc.prems(2,3) PX_less by (auto split: if_splits)
  have ok: "tree_ok kend m l (child m p ?i)" "tree_ok kend m l (child m p ?j)" using Suc.prems(1) ij by simp_all
  have l: "leaf m l (child m p ?i) va = Some q" "leaf m l (child m p ?j) vb = Some q" using Suc.prems(2,3) ij by simp_all
  have "tables m l (child m p ?i) \<inter> tables m l (child m p ?j) \<noteq> {}" using leaf_table [OF ok(1) l(1)] leaf_table [OF ok(2) l(2)] by blast
  then have "?i = ?j" using Suc.prems(1) ij by (metis tree_ok.simps(2))
  then have eq: "PX (Suc l) va = PX (Suc l) vb" by (simp add: word_unat_eq_iff)
  show ?case
  proof (cases "k = Suc l")
    case False
    then show ?thesis using Suc.IH [OF ok(1) l(1)] l(2) eq Suc.prems(4,5) by simp
  qed (use eq in simp)
qed simp

text \<open>Only the entries of the upper tables shape the tree.\<close>

lemma tree_cong:
  assumes "\<And>q i. q \<in> uppers m l p \<Longrightarrow> i < 512 \<Longrightarrow> pte_of m' q i = pte_of m q i"
  shows "tables m' l p = tables m l p" and "uppers m' l p = uppers m l p" and "tree_ok kend m' l p = tree_ok kend m l p"
    and "leaf m' l p va = leaf m l p va"
proof -
  have "tables m' l p = tables m l p \<and> uppers m' l p = uppers m l p \<and> tree_ok kend m' l p = tree_ok kend m l p \<and> (\<forall>va. leaf m' l p va = leaf m l p va)"
    using assms
  proof (induction l arbitrary: p)
    case (Suc l)
    have p: "pte_of m' p i = pte_of m p i" if "i < 512" for i using Suc.prems that by simp
    have c: "tables m' l (child m p i) = tables m l (child m p i)" "uppers m' l (child m p i) = uppers m l (child m p i)"
      "tree_ok kend m' l (child m p i) = tree_ok kend m l (child m p i)" "\<And>va. leaf m' l (child m p i) va = leaf m l (child m p i) va"
      if "i < 512" "valid_pte m p i" for i
      using Suc.IH [of "child m p i"] Suc.prems that by auto
    have "{i. i < 512 \<and> valid_pte m' p i} = {i. i < 512 \<and> valid_pte m p i}" using p by auto
    then have "tables m' (Suc l) p = tables m (Suc l) p" "uppers m' (Suc l) p = uppers m (Suc l) p" using c p by auto
    moreover have "tree_ok kend m' (Suc l) p = tree_ok kend m (Suc l) p" using c p by (auto simp del: Int_iff)
    moreover have "leaf m' (Suc l) p va = leaf m (Suc l) p va" for va using c p PX_less [of "Suc l" va] by simp
    ultimately show ?case by blast
  qed simp
  then show "tables m' l p = tables m l p" "uppers m' l p = uppers m l p" "tree_ok kend m' l p = tree_ok kend m l p" "leaf m' l p va = leaf m l p va"
    by blast+
qed

lemma entry_cong:
  assumes "\<And>q i. q \<in> tables m l p \<Longrightarrow> i < 512 \<Longrightarrow> pte_of m' q i = pte_of m q i" and "tree_ok kend m l p"
  shows "entry m' l p va = entry m l p va"
proof -
  have u: "pte_of m' q i = pte_of m q i" if "q \<in> uppers m l p" "i < 512" for q i using assms(1) uppers_tables that by blast
  have "leaf m' l p va = leaf m l p va" by (rule tree_cong(4)) (rule u)
  then show ?thesis using leaf_table [OF assms(2)] assms(1) PX_less [of 0 va] by (auto simp: entry_def split: option.split)
qed

text \<open>A change outside of the tables changes neither the tree nor its entries.\<close>

lemma tree_only:
  assumes "only P m m'" and "\<And>q. q \<in> P \<Longrightarrow> page_ok kend q" and "tree_ok kend m l p" and "tables m l p \<inter> P = {}"
  shows "tables m' l p = tables m l p" and "tree_ok kend m' l p" and "entry m' l p va = entry m l p va" and "leaf m' l p va = leaf m l p va"
proof -
  have t: "pte_of m' q i = pte_of m q i" if "q \<in> tables m l p" "i < 512" for q i
    using only_pte [OF assms(1,2) tables_page_ok [OF assms(3) that(1)]] that assms(4) by blast
  then have u: "pte_of m' q i = pte_of m q i" if "q \<in> uppers m l p" "i < 512" for q i using uppers_tables that by blast
  show "tables m' l p = tables m l p" "leaf m' l p va = leaf m l p va" using tree_cong [OF u] by blast+
  show "tree_ok kend m' l p" using tree_cong(3) [OF u] assms(3) by blast
  show "entry m' l p va = entry m l p va" by (rule entry_cong [OF t assms(3)])
qed

text \<open>Storing an entry in a leaf table.\<close>

lemma leaf_store:
  assumes "tree_ok kend m l p" and "leaf m l p va = Some q" and "m' = store64 m (q + of_nat (8 * unat (PX 0 va))) v"
  shows "tables m' l p = tables m l p" and "tree_ok kend m' l p" and "entry m' l p va = v"
    and "\<exists>k\<le>l. PX k vb \<noteq> PX k va \<Longrightarrow> entry m' l p vb = entry m l p vb"
proof -
  have q: "q \<in> tables m l p" "q \<notin> uppers m l p" "page_ok kend q"
    using leaf_table [OF assms(1,2)] tables_page_ok [OF assms(1)] by blast+
  have o: "only {q} m m'" unfolding assms(3) by (rule only_store) (rule PX_less)
  have u: "pte_of m' r i = pte_of m r i" if "r \<in> uppers m l p" "i < 512" for r i
    by (rule only_pte [OF o]) (use q that tables_page_ok [OF assms(1)] uppers_tables [THEN subsetD] in auto)
  show "tables m' l p = tables m l p" using tree_cong(1) [OF u] by blast
  show "tree_ok kend m' l p" using tree_cong(3) [OF u] assms(1) by blast
  have l: "leaf m' l p va = leaf m l p va" for va using tree_cong(4) [OF u] by blast
  have "pte_of m' q (unat (PX 0 va)) = v" unfolding assms(3) using pte_of_store [OF q(3) PX_less PX_less] by simp
  then show "entry m' l p va = v" using assms(2) by (simp add: entry_def l)
  assume ne: "\<exists>k\<le>l. PX k vb \<noteq> PX k va"
  show "entry m' l p vb = entry m l p vb"
  proof (cases "leaf m l p vb")
    case (Some r)
    have "pte_of m' r (unat (PX 0 vb)) = pte_of m r (unat (PX 0 vb))"
    proof (cases "r = q")
      case True
      then have "PX k vb = PX k va" if "1 \<le> k" "k \<le> l" for k using leaf_inj [OF assms(1) _ assms(2)] Some that by blast
      then have "PX 0 vb \<noteq> PX 0 va" using ne by (metis One_nat_def Suc_leI gr0I)
      then have "unat (PX 0 vb) \<noteq> unat (PX 0 va)" by (simp add: word_unat_eq_iff)
      then show ?thesis using pte_of_store [OF q(3), of "unat (PX 0 va)" "unat (PX 0 vb)"] PX_less [of 0 va] PX_less [of 0 vb] True by (simp add: assms(3))
    next
      case False
      then show ?thesis by (intro only_pte [OF o]) (use q leaf_table [OF assms(1) Some] tables_page_ok [OF assms(1)] PX_less [of 0 vb] in auto)
    qed
    then show ?thesis using Some by (simp add: entry_def l)
  qed (simp add: entry_def l)
qed

section \<open>Walking and allocating tables\<close>

lemma walk_loop_find: "walk_loop l p va False km = (case leaf (mem km) l p va of None \<Rightarrow> 0 | Some q \<Rightarrow> q + of_nat (8 * unat (PX 0 va)), km)"
proof (induction l arbitrary: p)
  case (Suc l)
  then show ?case unfolding walk_loop.simps Let_def load64_pte by simp
qed (simp add: pte_addr_nat)

lemma kmem_ok_only:
  assumes "kmem_ok kend km xs" and "freelist km' = freelist km" and "only P (mem km) (mem km')" and "\<And>q. q \<in> P \<Longrightarrow> page_ok kend q" and "P \<inter> set xs = {}"
  shows "kmem_ok kend km' xs"
proof -
  have "load64 (mem km') x = load64 (mem km) x" if "x \<in> set xs" for x
  proof -
    have "page_ok kend x" using assms(1) that by (simp add: kmem_ok_def list_all_iff)
    from only_pte [OF assms(3,4) this, of 0] show ?thesis using that assms(5) by (auto simp: pte_of_def)
  qed
  then have "flist (mem km') (freelist km) xs = flist (mem km) (freelist km) xs" by (rule flist_cong)
  then show ?thesis using assms(1,2) by (simp add: kmem_ok_def)
qed

text \<open>Hanging a zeroed page into a free entry of a table above the leaves.\<close>

lemma zero_tree:
  assumes "\<And>i. i < 512 \<Longrightarrow> pte_of m x i = 0" and "page_ok kend x"
  shows "tables m l x = {x}" and "tree_ok kend m l x" and "entry m l x va = 0"
proof -
  show "tables m l x = {x}" "tree_ok kend m l x" using assms by (cases l; auto)+
  show "entry m l x va = 0" using assms PX_less [of "0" va] PX_less [of l va] by (cases l) (auto simp: entry_def)
qed

lemma fresh_child:
  assumes "tree_ok kend m (Suc l) p" and "i < 512" and "\<not> valid_pte m p i" and "page_ok kend x" and "x \<notin> tables m (Suc l) p"
    and "only {x} m m1" and "\<And>j. j < 512 \<Longrightarrow> pte_of m1 x j = 0" and "m2 = store64 m1 (p + of_nat (8 * i)) v" and "v AND PTE_V \<noteq> 0" and "PTE2PA v = x"
  shows "tables m2 (Suc l) p = insert x (tables m (Suc l) p)" and "tree_ok kend m2 (Suc l) p" and "entry m2 (Suc l) p va = entry m (Suc l) p va"
    and "pte_of m2 p i = v" and "only {p, x} m m2"
proof -
  have px: "page_ok kend p" "p \<noteq> x" using assms(1,5) by auto
  have o2: "only {p} m1 m2" unfolding assms(8) by (rule only_store [OF assms(2)])
  show o: "only {p, x} m m2" using only_mono [OF only_trans [OF assms(6) o2]] by blast
  have pm: "pte_of m2 p j = (if j = i then v else pte_of m p j)" if "j < 512" for j
    using pte_of_store [OF px(1) assms(2) that, of m1 v] only_pte [OF assms(6) _ px(1) _ that] assms(4) px(2) by (auto simp: assms(8))
  then show "pte_of m2 p i = v" using assms(2) by simp
  have x2: "pte_of m2 x j = 0" if "j < 512" for j
    using only_pte [OF o2 _ assms(4) _ that] px assms(7) [OF that] by auto
  note Z = zero_tree [OF x2 assms(4)]
  have ch: "tables m2 l (child m p j) = tables m l (child m p j)" "tree_ok kend m2 l (child m p j)" "\<And>va. entry m2 l (child m p j) va = entry m l (child m p j) va"
    if "j < 512" "valid_pte m p j" for j
  proof -
    have t: "tree_ok kend m l (child m p j)" "tables m l (child m p j) \<inter> {p, x} = {}" using assms(1,5) that by auto
    have pg: "\<And>q. q \<in> {p, x} \<Longrightarrow> page_ok kend q" using px assms(4) by auto
    show "tables m2 l (child m p j) = tables m l (child m p j)" "tree_ok kend m2 l (child m p j)"
      "\<And>va. entry m2 l (child m p j) va = entry m l (child m p j) va" using tree_only [OF o pg t] by blast+
  qed
  have V: "{j. j < 512 \<and> valid_pte m2 p j} = insert i {j. j < 512 \<and> valid_pte m p j}" using pm assms(2,9) by (auto split: if_splits)
  show "tables m2 (Suc l) p = insert x (tables m (Suc l) p)"
    unfolding tables.simps V using pm ch assms(2,3,10) Z(1) by (auto split: if_splits)
  show "tree_ok kend m2 (Suc l) p"
    using assms(1,3,5,9,10) px pm ch Z(1,2) by (auto split: if_splits)
  show "entry m2 (Suc l) p va = entry m (Suc l) p va"
  proof (cases "unat (PX (Suc l) va) = i")
    case True
    have "entry m (Suc l) p va = 0" using True assms(3) by (simp add: entry_def)
    moreover have "entry m2 (Suc l) p va = entry m2 l x va" using True pm [OF assms(2)] assms(9,10) by (simp add: entry_def)
    ultimately show ?thesis using Z(3) by simp
  next
    case False
    then show ?thesis using ch(3) [of "unat (PX (Suc l) va)" va] pm [of "unat (PX (Suc l) va)"] PX_less [of "Suc l" va] by (simp add: entry_def)
  qed
qed

text \<open>
  What an operation on a table guarantees that has taken the pages before \<open>zs\<close> from the free list:
  the tree and the free list stay well formed, and memory changes only in the old tables and in
  the pages taken.
\<close>

definition table_step :: "u64 \<Rightarrow> nat \<Rightarrow> u64 \<Rightarrow> kmem \<Rightarrow> u64 list \<Rightarrow> kmem \<Rightarrow> u64 list \<Rightarrow> bool" where
  "table_step kend l p km xs km' zs \<longleftrightarrow> (\<exists>ys. xs = ys @ zs \<and> kmem_ok kend km' zs \<and> tree_ok kend (mem km') l p
    \<and> tables (mem km) l p \<subseteq> tables (mem km') l p \<and> tables (mem km') l p \<subseteq> tables (mem km) l p \<union> set ys
    \<and> only (tables (mem km) l p \<union> set ys) (mem km) (mem km'))"

definition table_state :: "u64 \<Rightarrow> nat \<Rightarrow> u64 \<Rightarrow> kmem \<Rightarrow> u64 list \<Rightarrow> bool" where
  "table_state kend l p km xs \<longleftrightarrow> kmem_ok kend km xs \<and> tree_ok kend (mem km) l p \<and> tables (mem km) l p \<inter> set xs = {}"

lemma kmem_okD: "kmem_ok kend km xs \<Longrightarrow> x \<in> set xs \<Longrightarrow> page_ok kend x" "kmem_ok kend km xs \<Longrightarrow> distinct xs" "kmem_ok kend km xs \<Longrightarrow> 0 < kend"
  by (simp_all add: kmem_ok_def list_all_iff)

lemma table_step_state: "table_state kend l p km xs \<Longrightarrow> table_step kend l p km xs km' zs \<Longrightarrow> table_state kend l p km' zs"
proof -
  assume s: "table_state kend l p km xs" and st: "table_step kend l p km xs km' zs"
  then obtain ys where ys: "xs = ys @ zs" "kmem_ok kend km' zs" "tree_ok kend (mem km') l p" "tables (mem km') l p \<subseteq> tables (mem km) l p \<union> set ys"
    by (auto simp: table_step_def)
  have "set ys \<inter> set zs = {}" using kmem_okD(2) [of kend km xs] s ys(1) by (simp add: table_state_def)
  then show ?thesis using s ys by (auto simp: table_state_def)
qed

lemma table_step_trans:
  assumes "table_step kend l p km xs km1 ys" and "table_step kend l p km1 ys km2 zs"
  shows "table_step kend l p km xs km2 zs"
proof -
  obtain as where a: "xs = as @ ys" "tables (mem km) l p \<subseteq> tables (mem km1) l p" "tables (mem km1) l p \<subseteq> tables (mem km) l p \<union> set as"
    "only (tables (mem km) l p \<union> set as) (mem km) (mem km1)" using assms(1) by (auto simp: table_step_def)
  obtain bs where b: "ys = bs @ zs" "kmem_ok kend km2 zs" "tree_ok kend (mem km2) l p" "tables (mem km1) l p \<subseteq> tables (mem km2) l p"
    "tables (mem km2) l p \<subseteq> tables (mem km1) l p \<union> set bs" "only (tables (mem km1) l p \<union> set bs) (mem km1) (mem km2)"
    using assms(2) by (auto simp: table_step_def)
  have "only (tables (mem km) l p \<union> set (as @ bs)) (mem km) (mem km2)"
    by (rule only_mono [OF only_trans [OF a(4) b(6)]]) (use a(3) in auto)
  then show ?thesis unfolding table_step_def using a b by (intro exI [of _ "as @ bs"]) auto
qed

lemma table_step_refl: "table_state kend l p km xs \<Longrightarrow> table_step kend l p km xs km xs"
  by (simp add: table_step_def table_state_def)

text \<open>A step below one entry of a table is a step of the table.\<close>

lemma table_step_child:
  assumes "table_state kend (Suc l) p km xs" and "i < 512" and "valid_pte (mem km) p i" and "c = child (mem km) p i"
    and "table_step kend l c km xs km' zs" and "\<And>vb. entry (mem km') l c vb = entry (mem km) l c vb"
  shows "table_step kend (Suc l) p km xs km' zs" and "entry (mem km') (Suc l) p vb = entry (mem km) (Suc l) p vb"
    and "j < 512 \<Longrightarrow> pte_of (mem km') p j = pte_of (mem km) p j"
proof -
  let ?m = "mem km" and ?m' = "mem km'"
  have S: "kmem_ok kend km xs" "tree_ok kend ?m (Suc l) p" "tables ?m (Suc l) p \<inter> set xs = {}" using assms(1) by (auto simp: table_state_def)
  obtain ys where ys: "xs = ys @ zs" "kmem_ok kend km' zs" "tree_ok kend ?m' l c" "tables ?m l c \<subseteq> tables ?m' l c"
    "tables ?m' l c \<subseteq> tables ?m l c \<union> set ys" "only (tables ?m l c \<union> set ys) ?m ?m'" using assms(5) by (auto simp: table_step_def)
  define P where "P = tables ?m l c \<union> set ys"
  have c: "tree_ok kend ?m l c" "tables ?m l c \<subseteq> tables ?m (Suc l) p" "p \<notin> tables ?m l c" using S(2) assms(2-4) by auto
  have pg: "page_ok kend q" if "q \<in> P" for q using that tables_page_ok [OF c(1)] kmem_okD(1) [OF S(1)] ys(1) by (auto simp: P_def)
  have "p \<notin> P" using c(3) S(3) ys(1) by (auto simp: P_def)
  then have pp: "pte_of ?m' p j = pte_of ?m p j" if "j < 512" for j using only_pte [OF ys(6) [folded P_def] pg] S(2) that by simp
  then show "j < 512 \<Longrightarrow> pte_of ?m' p j = pte_of ?m p j" .
  have ch: "tables ?m' l (child ?m p j) = tables ?m l (child ?m p j)" "tree_ok kend ?m' l (child ?m p j)" "entry ?m' l (child ?m p j) vb = entry ?m l (child ?m p j) vb"
    "tables ?m l (child ?m p j) \<inter> P = {}"
    if j: "j < 512" "valid_pte ?m p j" "j \<noteq> i" for j vb
  proof -
    have t: "tree_ok kend ?m l (child ?m p j)" "tables ?m l (child ?m p j) \<inter> tables ?m l c = {}" using S(2) assms(2-4) j by auto
    show d: "tables ?m l (child ?m p j) \<inter> P = {}" using t(2) S(3) j ys(1) by (auto simp: P_def)
    show "tables ?m' l (child ?m p j) = tables ?m l (child ?m p j)" "tree_ok kend ?m' l (child ?m p j)" "entry ?m' l (child ?m p j) vb = entry ?m l (child ?m p j) vb"
      using tree_only [OF ys(6) [folded P_def] pg t(1) d] by blast+
  qed
  have V: "{j. j < 512 \<and> valid_pte ?m' p j} = {j. j < 512 \<and> valid_pte ?m p j}" using pp by auto
  have T: "tables ?m' l (child ?m p j) \<subseteq> tables ?m l (child ?m p j) \<union> set ys" "tables ?m l (child ?m p j) \<subseteq> tables ?m' l (child ?m p j)"
    "tree_ok kend ?m' l (child ?m p j)" "p \<notin> tables ?m' l (child ?m p j)" if "j < 512" "valid_pte ?m p j" for j
    using that ch [OF that] ys(3-5) S(2) \<open>p \<notin> P\<close> by (cases "j = i"; auto simp: assms(4) P_def)+
  have D: "tables ?m' l (child ?m p j) \<inter> tables ?m' l (child ?m p k) = {}" if "j < 512" "valid_pte ?m p j" "k < 512" "valid_pte ?m p k" "j \<noteq> k" for j k
  proof -
    have d: "tables ?m l (child ?m p j) \<inter> tables ?m l (child ?m p k) = {}" using S(2) that by simp
    show ?thesis
    proof (cases "j = i \<or> k = i")
      case True
      then show ?thesis using that ch(1,4) ys(5) assms(4) P_def by blast
    next
      case False
      then show ?thesis using d ch(1) that by simp
    qed
  qed
  have "tree_ok kend ?m' (Suc l) p" using S(2) pp T(3,4) D by simp
  moreover have "tables ?m (Suc l) p \<subseteq> tables ?m' (Suc l) p" "tables ?m' (Suc l) p \<subseteq> tables ?m (Suc l) p \<union> set ys"
    unfolding tables.simps V using pp T(1,2) by fastforce+
  moreover have "only (tables ?m (Suc l) p \<union> set ys) ?m ?m'" by (rule only_mono [OF ys(6)]) (use c(2) in auto)
  ultimately show "table_step kend (Suc l) p km xs km' zs" unfolding table_step_def using ys(1,2) by blast
  show "entry ?m' (Suc l) p vb = entry ?m (Suc l) p vb"
    using pp [of "unat (PX (Suc l) vb)"] PX_less [of "Suc l" vb] ch(3) [of "unat (PX (Suc l) vb)" vb] assms(6) [of vb]
    by (cases "unat (PX (Suc l) vb) = i") (auto simp: entry_def assms(4))
qed

lemma memset_page: "only {x} m (memset m x c PGSIZE)" "k < 4096 \<Longrightarrow> memset m x c PGSIZE (x + of_nat k) = ucast c"
proof -
  show "only {x} m (memset m x c PGSIZE)" by (auto simp: only_def PGSIZE_def mem_simps)
  assume "k < 4096"
  then show "memset m x c PGSIZE (x + of_nat k) = ucast c" by (simp add: PGSIZE_def mem_simps unat_of_nat_u64)
qed

lemma memset_page_pte: "i < 512 \<Longrightarrow> pte_of (memset m x 0 PGSIZE) x i = 0"
proof -
  assume "i < 512"
  then have "memset m x 0 PGSIZE (x + of_nat (8 * i) + of_nat k) = 0" if "k < 8" for k
    using memset_page(2) [of "8 * i + k" m x 0] that by (simp add: add.assoc)
  then have "pte_of (memset m x 0 PGSIZE) x i = load64 (\<lambda>_. 0) (x + of_nat (8 * i))" unfolding pte_of_def by (intro load64_cong) simp
  then show ?thesis by (simp add: load64_def)
qed

lemma aligned_mask: "unat (x :: u64) mod 4096 = 0 \<Longrightarrow> x AND mask 12 = 0"
proof -
  assume a: "unat x mod 4096 = 0"
  have "unat (x AND mask 12) = take_bit 12 (unat x)" by (simp only: take_bit_eq_mask [symmetric] unsigned_take_bit_eq)
  then show ?thesis using a by (simp add: take_bit_eq_mod unat_eq_0)
qed

lemma low_mask: "unat (x :: u64) < 2 ^ 56 \<Longrightarrow> x AND NOT (mask 56) = 0"
proof -
  assume "unat x < 2 ^ 56"
  then have "take_bit 56 x = x" by (simp add: word_unat_eq_iff unsigned_take_bit_eq take_bit_nat_eq_self)
  then show ?thesis by (metis and_zero_eq take_bit_eq_mask bit.conj_cancel_right and.assoc)
qed

lemma pte_page: "page_ok kend x \<Longrightarrow> flags AND NOT (mask 10) = 0 \<Longrightarrow> PTE2PA (PA2PTE x OR flags) = x"
proof (rule PTE2PA_PA2PTE)
  assume "page_ok kend x"
  then have "unat x mod 4096 = 0" "unat x < 0x88000000" by (simp_all add: page_ok_def PGSIZE_def layout_defs word_less_nat_alt)
  then show "x AND mask 12 = 0" "x AND NOT (mask 56) = 0" by (auto intro: aligned_mask low_mask)
qed

lemma flag_low: "k < 10 \<Longrightarrow> push_bit k (1 :: u64) AND NOT (mask 10) = 0"
  by (rule bit_word_eqI) (auto simp: bit_simps)

lemma PTE_low: "PTE_V AND NOT (mask 10) = 0" "PTE_R AND NOT (mask 10) = 0" "PTE_W AND NOT (mask 10) = 0" "PTE_X AND NOT (mask 10) = 0"
    "PTE_U AND NOT (mask 10) = 0"
  unfolding PTE_V_def PTE_R_def PTE_W_def PTE_X_def PTE_U_def by (rule flag_low; simp)+

lemma flags_V: "(a OR PTE_V) AND PTE_V \<noteq> 0"
proof -
  have "bit ((a OR PTE_V) AND PTE_V) 0" by (simp add: PTE_V_def bit_simps)
  then show ?thesis by auto
qed

lemma walk_loop_alloc:
  assumes "table_state kend l p km xs"
  shows "\<exists>r km' zs. walk_loop l p va True km = (r, km') \<and> table_step kend l p km xs km' zs \<and> (\<forall>vb. entry (mem km') l p vb = entry (mem km) l p vb)
    \<and> (r = 0 \<and> zs = [] \<or> (\<exists>q. leaf (mem km') l p va = Some q \<and> r = q + of_nat (8 * unat (PX 0 va))))"
  using assms
proof (induction l arbitrary: p km xs)
  case 0
  then show ?case using table_step_refl [OF 0] by (intro exI [of _ "pte_addr p (PX 0 va)"] exI [of _ km] exI [of _ xs]) (simp add: pte_addr_nat)
next
  case (Suc l)
  let ?i = "unat (PX (Suc l) va)"
  have descend: "\<exists>r km' zs. walk_loop (Suc l) p va True km = (r, km') \<and> table_step kend (Suc l) p km xs km' zs
      \<and> (\<forall>vb. entry (mem km') (Suc l) p vb = entry (mem km) (Suc l) p vb)
      \<and> (r = 0 \<and> zs = [] \<or> (\<exists>q. leaf (mem km') (Suc l) p va = Some q \<and> r = q + of_nat (8 * unat (PX 0 va))))"
    if st: "table_state kend (Suc l) p km xs" and v: "valid_pte (mem km) p ?i" for km xs
  proof -
    let ?c = "child (mem km) p ?i"
    have "tables (mem km) l ?c \<subseteq> tables (mem km) (Suc l) p" using v PX_less [of "Suc l" va] by auto
    then have "table_state kend l ?c km xs" using st v PX_less [of "Suc l" va] unfolding table_state_def tree_ok.simps by blast
    then obtain r km' zs where r: "walk_loop l ?c va True km = (r, km')" "table_step kend l ?c km xs km' zs"
      "\<And>vb. entry (mem km') l ?c vb = entry (mem km) l ?c vb"
      "r = 0 \<and> zs = [] \<or> (\<exists>q. leaf (mem km') l ?c va = Some q \<and> r = q + of_nat (8 * unat (PX 0 va)))" using Suc.IH by blast
    note C = table_step_child [OF st PX_less v refl r(2,3)]
    have "walk_loop (Suc l) p va True km = (r, km')" using v r(1) unfolding walk_loop.simps Let_def load64_pte by simp
    moreover have "leaf (mem km') (Suc l) p va = leaf (mem km') l ?c va" using C(3) [OF PX_less] v by simp
    ultimately show ?thesis using C(1,2) r(4) by (intro exI [of _ r] exI [of _ km'] exI [of _ zs]) simp
  qed
  show ?case
  proof (cases "valid_pte (mem km) p ?i")
    case True
    then show ?thesis by (rule descend [OF Suc.prems])
  next
    case False
    have S: "kmem_ok kend km xs" "tree_ok kend (mem km) (Suc l) p" "tables (mem km) (Suc l) p \<inter> set xs = {}" using Suc.prems by (auto simp: table_state_def)
    show ?thesis
    proof (cases xs)
      case Nil
      then have "walk_loop (Suc l) p va True km = (0, km)"
        using False kalloc_empty [of kend km] S(1) unfolding walk_loop.simps Let_def load64_pte by simp
      then show ?thesis using Nil table_step_refl [OF Suc.prems] by (intro exI [of _ 0] exI [of _ km] exI [of _ xs]) simp
    next
      case (Cons x xs')
      obtain km1 where km1: "kalloc km = (x, km1)" "kmem_ok kend km1 xs'" using kalloc_pops S(1) Cons by blast
      have x: "page_ok kend x" "x \<noteq> 0" "x \<notin> tables (mem km) (Suc l) p" "x \<notin> set xs'"
        using kmem_okD [OF S(1)] page_ok_nonzero S(3) Cons by auto
      define m1 where "m1 = memset (mem km1) x 0 PGSIZE"
      define v where "v = PA2PTE x OR PTE_V"
      define km2 where "km2 = km1\<lparr>mem := store64 m1 (p + of_nat (8 * ?i)) v\<rparr>"
      have o1: "only {x} (mem km) m1"
        using only_trans [of "{x}" "mem km" "mem km1" "{x}" m1] kalloc_frame [OF km1(1)] memset_page(1) by (auto simp: only_def m1_def)
      have vv: "v AND PTE_V \<noteq> 0" "PTE2PA v = x" using pte_page [OF x(1) PTE_low(1)] flags_V by (simp_all add: v_def)
      note F = fresh_child [OF S(2) PX_less False x(1,3) o1 memset_page_pte [of _ "mem km1" x, folded m1_def] refl vv]
      have m2: "mem km2 = store64 m1 (p + of_nat (8 * ?i)) v" by (simp add: km2_def)
      have "only {x} (mem km1) m1" "only {p} m1 (mem km2)" unfolding m2 m1_def by (rule memset_page(1), rule only_store [OF PX_less])
      from only_trans [OF this] have o12: "only {p, x} (mem km1) (mem km2)" by (simp add: insert_commute)
      have k2: "kmem_ok kend km2 xs'"
        by (rule kmem_ok_only [OF km1(2) _ o12]) (use x S Cons in \<open>auto simp: km2_def\<close>)
      have st2: "table_state kend (Suc l) p km2 xs'" using k2 F(1,2) S(3) x(4) Cons by (auto simp: table_state_def m2)
      have step2: "table_step kend (Suc l) p km xs km2 xs'" unfolding table_step_def
        using Cons k2 F(1,2) only_mono [OF F(5)] by (intro exI [of _ "[x]"]) (auto simp: m2)
      have v2: "valid_pte (mem km2) p ?i" "child (mem km2) p ?i = x" using F(4) vv by (simp_all add: m2)
      have w: "walk_loop (Suc l) p va True km = walk_loop (Suc l) p va True km2"
      proof -
        have "walk_loop (Suc l) p va True km = walk_loop l x va True km2"
          using False km1(1) x(2) unfolding walk_loop.simps(2) Let_def load64_pte
          by (simp add: km2_def m1_def v_def pte_addr_nat)
        also have "\<dots> = walk_loop (Suc l) p va True km2" using v2 unfolding walk_loop.simps(2) Let_def load64_pte by simp
        finally show ?thesis .
      qed
      obtain r km' zs where r: "walk_loop (Suc l) p va True km2 = (r, km')" "table_step kend (Suc l) p km2 xs' km' zs"
        "\<And>vb. entry (mem km') (Suc l) p vb = entry (mem km2) (Suc l) p vb"
        "r = 0 \<and> zs = [] \<or> (\<exists>q. leaf (mem km') (Suc l) p va = Some q \<and> r = q + of_nat (8 * unat (PX 0 va)))" using descend [OF st2 v2(1)] by blast
      have "entry (mem km') (Suc l) p vb = entry (mem km) (Suc l) p vb" for vb using r(3) F(3) by (simp add: m2)
      then show ?thesis using w r(1,4) table_step_trans [OF step2 r(2)] by (intro exI [of _ r] exI [of _ km'] exI [of _ zs]) simp
    qed
  qed
qed

section \<open>Mapping pages\<close>

lemma pte_slot_nonzero: "page_ok kend q \<Longrightarrow> 0 < kend \<Longrightarrow> i < 512 \<Longrightarrow> q + of_nat (8 * i) \<noteq> 0"
proof
  assume q: "page_ok kend q" "0 < kend" "i < 512" and z: "q + of_nat (8 * i) = 0"
  have u: "unat (of_nat (8 * i) :: u64) = 8 * i" by (rule unat_of_nat_u64) (use q(3) in simp)
  have "unat q < 0x88000000" "0 < unat q" using q(1,2) by (auto simp: page_ok_def layout_defs word_less_nat_alt word_le_nat_alt)
  then have "unat (q + of_nat (8 * i)) = unat q + 8 * i" using q(3) u by (subst unat_word_ariths) simp
  then show False using z \<open>0 < unat q\<close> by simp
qed

lemma leaf_store_step:
  assumes "table_state kend l p km xs" and "leaf (mem km) l p va = Some q" and "km' = km\<lparr>mem := store64 (mem km) (q + of_nat (8 * unat (PX 0 va))) v\<rparr>"
  shows "table_step kend l p km xs km' xs"
proof -
  have S: "kmem_ok kend km xs" "tree_ok kend (mem km) l p" "tables (mem km) l p \<inter> set xs = {}" using assms(1) by (auto simp: table_state_def)
  note L = leaf_store [OF S(2) assms(2) refl, of v]
  have q: "q \<in> tables (mem km) l p" using leaf_table [OF S(2) assms(2)] by simp
  have o: "only {q} (mem km) (mem km')" unfolding assms(3) using only_store [OF PX_less [of 0 va], of q "mem km" v] by simp
  have "kmem_ok kend km' xs"
    by (rule kmem_ok_only [OF S(1) _ o]) (use assms(3) q S(3) tables_page_ok [OF S(2)] in auto)
  then show ?thesis unfolding table_step_def using L(1,2) only_mono [OF o] q by (intro exI [of _ "[]"]) (simp add: assms(3))
qed

text \<open>Page-aligned addresses that differ have different indices.\<close>

lemma aligned_differ:
  assumes "unat va mod 4096 = 0" and "unat vb mod 4096 = 0" and "va < MAXVA" and "vb < MAXVA" and "va \<noteq> vb"
  shows "\<exists>k\<le>2. PX k va \<noteq> PX k vb"
proof (rule ccontr)
  assume "\<not> ?thesis"
  then have "PX 0 va = PX 0 vb" "PX 1 va = PX 1 vb" "PX 2 va = PX 2 vb" by auto
  then show False using PX_inj [OF assms(1-4)] assms(5) by blast
qed

lemma walk_alloc:
  assumes "table_state kend 2 pt km xs" and "a < MAXVA"
  obtains (none) km1 where "walk pt a True km = Inr (0, km1)" and "table_step kend 2 pt km xs km1 []" and "\<And>b. entry (mem km1) 2 pt b = entry (mem km) 2 pt b"
  | (slot) q km1 ys where "walk pt a True km = Inr (q + of_nat (8 * unat (PX 0 a)), km1)" and "table_step kend 2 pt km xs km1 ys"
      and "\<And>b. entry (mem km1) 2 pt b = entry (mem km) 2 pt b" and "leaf (mem km1) 2 pt a = Some q" and "q + of_nat (8 * unat (PX 0 a)) \<noteq> 0"
proof -
  obtain r km1 ys where w: "walk_loop 2 pt a True km = (r, km1)" "table_step kend 2 pt km xs km1 ys"
    "\<And>b. entry (mem km1) 2 pt b = entry (mem km) 2 pt b"
    "r = 0 \<and> ys = [] \<or> (\<exists>q. leaf (mem km1) 2 pt a = Some q \<and> r = q + of_nat (8 * unat (PX 0 a)))"
    using walk_loop_alloc [OF assms(1), of a] by blast
  have wk: "walk pt a True km = Inr (r, km1)" using w(1) assms(2) by (simp add: walk_def)
  from w(4) show ?thesis
  proof
    assume "r = 0 \<and> ys = []"
    then show ?thesis using none wk w(2,3) by blast
  next
    assume "\<exists>q. leaf (mem km1) 2 pt a = Some q \<and> r = q + of_nat (8 * unat (PX 0 a))"
    then obtain q where q: "leaf (mem km1) 2 pt a = Some q" "r = q + of_nat (8 * unat (PX 0 a))" by blast
    have S1: "tree_ok kend (mem km1) 2 pt" "kmem_ok kend km1 ys" using table_step_state [OF assms(1) w(2)] by (auto simp: table_state_def)
    have "page_ok kend q" using tables_page_ok [OF S1(1)] leaf_table [OF S1(1) q(1)] by blast
    then have "q + of_nat (8 * unat (PX 0 a)) \<noteq> 0" by (rule pte_slot_nonzero [OF _ kmem_okD(3) [OF S1(2)] PX_less])
    then show ?thesis using slot wk w(2,3) q by blast
  qed
qed

text \<open>The entries after a call of \<open>mappages\<close> that returned \<open>r\<close>.\<close>

definition range_mapped :: "u64 \<Rightarrow> u64 \<Rightarrow> u64 \<Rightarrow> u64 \<Rightarrow> u64 \<Rightarrow> int \<Rightarrow> memory \<Rightarrow> memory \<Rightarrow> bool" where
  "range_mapped pt a lst pa perm r m m' \<longleftrightarrow> (\<forall>b. unat b mod 4096 = 0 \<longrightarrow> b < MAXVA \<longrightarrow>
     (if a \<le> b \<and> b \<le> lst then r = 0 \<longrightarrow> entry m' 2 pt b = PA2PTE (pa + (b - a)) OR perm OR PTE_V else entry m' 2 pt b = entry m 2 pt b))"

lemma next_page:
  assumes "unat a mod 4096 = 0" and "unat lst mod 4096 = 0" and "a < lst" and "lst < MAXVA"
  shows "unat (a + PGSIZE64) = unat a + 4096" and "a + PGSIZE64 \<le> lst"
    and "unat b mod 4096 = 0 \<Longrightarrow> a \<le> b \<Longrightarrow> b \<noteq> a \<Longrightarrow> a + PGSIZE64 \<le> b"
proof -
  have u: "unat a < unat lst" "unat lst < 2 ^ 38" using assms(3,4) by (simp_all add: MAXVA_def word_less_nat_alt)
  then show ua: "unat (a + PGSIZE64) = unat a + 4096" by (simp add: PGSIZE64_def unat_word_ariths)
  have le: "unat a + 4096 \<le> unat c" if c: "unat c mod 4096 = 0" "unat a < unat c" for c :: u64
  proof -
    obtain i j where "unat a = 4096 * i" "unat c = 4096 * j" using assms(1) c(1) by (metis mod_0_imp_dvd dvdE)
    then show ?thesis using c(2) by simp
  qed
  show "a + PGSIZE64 \<le> lst" using le [OF assms(2) u(1)] by (simp add: word_le_nat_alt ua)
  assume b: "unat b mod 4096 = 0" "a \<le> b" "b \<noteq> a"
  then have "unat a < unat b" by (simp add: word_le_nat_alt word_unat_eq_iff)
  with le b(1) show "a + PGSIZE64 \<le> b" by (simp add: word_le_nat_alt ua)
qed

lemma range_mapped_step:
  assumes "range_mapped pt (a + PGSIZE64) lst (pa + PGSIZE64) perm r m2 m'" and "unat a mod 4096 = 0" and "unat lst mod 4096 = 0" and "a < lst" and "lst < MAXVA"
    and "entry m2 2 pt a = PA2PTE pa OR perm OR PTE_V" and "\<And>b. unat b mod 4096 = 0 \<Longrightarrow> b < MAXVA \<Longrightarrow> b \<noteq> a \<Longrightarrow> entry m2 2 pt b = entry m 2 pt b"
  shows "range_mapped pt a lst pa perm r m m'"
  unfolding range_mapped_def
proof (intro allI impI)
  fix b assume b: "unat b mod 4096 = 0" "b < MAXVA"
  note N = next_page [OF assms(2-5)]
  have lt: "a < a + PGSIZE64" using N(1) by (simp add: word_less_nat_alt)
  note R = assms(1) [unfolded range_mapped_def, rule_format, OF b]
  consider "b = a" | "a < b" "b \<le> lst" | "b \<noteq> a" "\<not> (a \<le> b \<and> b \<le> lst)" by fastforce
  then show "if a \<le> b \<and> b \<le> lst then r = 0 \<longrightarrow> entry m' 2 pt b = PA2PTE (pa + (b - a)) OR perm OR PTE_V else entry m' 2 pt b = entry m 2 pt b"
  proof cases
    case 1
    moreover have "\<not> a + PGSIZE64 \<le> a" using lt by (simp add: not_le)
    moreover have "a \<le> lst" using assms(4) by simp
    ultimately show ?thesis using R assms(6) by simp
  next
    case 2
    have "pa + PGSIZE64 + (b - (a + PGSIZE64)) = pa + (b - a)" by simp
    moreover have "a \<le> b" "a + PGSIZE64 \<le> b" using 2 N(3) [OF b(1)] by simp_all
    ultimately show ?thesis using R 2(2) by simp
  next
    case 3
    then have n: "\<not> (a + PGSIZE64 \<le> b \<and> b \<le> lst)" using lt by (metis less_imp_le order_trans)
    show ?thesis unfolding if_not_P [OF 3(2)] using R [unfolded if_not_P [OF n]] assms(7) [OF b 3(1)] by simp
  qed
qed

lemma mappages_loop_ok:
  assumes "table_state kend 2 pt km xs" and "unat a mod 4096 = 0" and "unat lst mod 4096 = 0" and "a \<le> lst" and "lst < MAXVA"
    and "\<And>b. unat b mod 4096 = 0 \<Longrightarrow> a \<le> b \<Longrightarrow> b \<le> lst \<Longrightarrow> entry (mem km) 2 pt b AND PTE_V = 0"
  shows "\<exists>r km' zs. mappages_loop pt a lst pa perm km = Inr (r, km') \<and> table_step kend 2 pt km xs km' zs \<and> (r = 0 \<or> r = -1 \<and> zs = [])
    \<and> range_mapped pt a lst pa perm r (mem km) (mem km')"
  using assms
proof (induction pt a lst pa perm km arbitrary: xs rule: mappages_loop.induct)
  case (1 pt a lst pa perm km)
  have a: "a < MAXVA" using "1.prems"(4,5) by simp
  note M = mappages_loop.simps [of pt a lst pa perm km]
  show ?case using "1.prems"(1) a
  proof (cases rule: walk_alloc)
    case (none km1)
    then show ?thesis by (intro exI [of _ "-1"] exI [of _ km1] exI [of _ "[]"]) (simp add: M range_mapped_def)
  next
    case (slot q km1 ys)
    note S1 = table_step_state [OF "1.prems"(1) slot(2)]
    define v where "v = PA2PTE pa OR perm OR PTE_V"
    define km2 where "km2 = km1\<lparr>mem := store64 (mem km1) (q + of_nat (8 * unat (PX 0 a))) v\<rparr>"
    have inv: "load64 (mem km1) (q + of_nat (8 * unat (PX 0 a))) AND PTE_V = 0"
      using "1.prems"(6) [of a] "1.prems"(2,4) slot(3) [of a] slot(4) by (simp add: entry_def pte_of_def)
    have t1: "tree_ok kend (mem km1) 2 pt" using S1 by (simp add: table_state_def)
    have m2: "mem km2 = store64 (mem km1) (q + of_nat (8 * unat (PX 0 a))) v" by (simp add: km2_def)
    note L = leaf_store [OF t1 slot(4) m2]
    have step2: "table_step kend 2 pt km xs km2 ys" by (rule table_step_trans [OF slot(2) leaf_store_step [OF S1 slot(4) km2_def]])
    have e2: "entry (mem km2) 2 pt a = v" "\<And>b. unat b mod 4096 = 0 \<Longrightarrow> b < MAXVA \<Longrightarrow> b \<noteq> a \<Longrightarrow> entry (mem km2) 2 pt b = entry (mem km) 2 pt b"
      using L(3,4) aligned_differ [OF _ "1.prems"(2) _ a] slot(3) by auto
    show ?thesis
    proof (cases "a = lst")
      case True
      then have "mappages_loop pt a lst pa perm km = Inr (0, km2)" unfolding M using inv slot(1,5) by (simp add: Let_def km2_def v_def)
      moreover have "range_mapped pt a lst pa perm 0 (mem km) (mem km2)" using e2 True by (auto simp: range_mapped_def v_def)
      ultimately show ?thesis using step2 by blast
    next
      case ne: False
      then have lt: "a < lst" using "1.prems"(4) by simp
      note N = next_page [OF "1.prems"(2,3) lt "1.prems"(5)]
      have al: "unat (a + PGSIZE64) mod 4096 = 0" using N(1) "1.prems"(2) by simp
      have inv': "entry (mem km2) 2 pt b AND PTE_V = 0" if "unat b mod 4096 = 0" "a + PGSIZE64 \<le> b" "b \<le> lst" for b
      proof -
        have "a < b" using that(2) N(1) by (simp add: word_less_nat_alt word_le_nat_alt)
        then show ?thesis using e2(2) [OF that(1)] "1.prems"(6) [OF that(1)] "1.prems"(5) that(3) by auto
      qed
      have eq: "mappages_loop pt a lst pa perm km = mappages_loop pt (a + PGSIZE64) lst (pa + PGSIZE64) perm km2"
        unfolding M using inv ne slot(1,5) by (simp add: Let_def km2_def v_def)
      have "\<exists>r km' zs. mappages_loop pt (a + PGSIZE64) lst (pa + PGSIZE64) perm km2 = Inr (r, km') \<and> table_step kend 2 pt km2 ys km' zs
          \<and> (r = (0 :: int) \<or> r = -1 \<and> zs = []) \<and> range_mapped pt (a + PGSIZE64) lst (pa + PGSIZE64) perm r (mem km2) (mem km')"
        unfolding km2_def v_def
        by (rule "1.IH" [OF slot(1) refl slot(5)])
          (use inv ne table_step_state [OF "1.prems"(1) step2] al N(2) "1.prems"(3,5) inv' in \<open>auto simp: km2_def v_def\<close>)
      then obtain r km' zs where r: "mappages_loop pt a lst pa perm km = Inr (r, km')" "table_step kend 2 pt km2 ys km' zs" "r = 0 \<or> r = -1 \<and> zs = []"
        "range_mapped pt (a + PGSIZE64) lst (pa + PGSIZE64) perm r (mem km2) (mem km')" unfolding eq by blast
      have "range_mapped pt a lst pa perm r (mem km) (mem km')"
        by (rule range_mapped_step [OF r(4) "1.prems"(2,3) lt "1.prems"(5) e2(1) [unfolded v_def] e2(2)])
      then show ?thesis using r(1,3) table_step_trans [OF step2 r(2)] by blast
    qed
  qed
qed

lemma walk_entry:
  assumes "tree_ok kend (mem km) 2 pt" and "0 < kend" and "va < MAXVA"
  shows "\<exists>r. walk pt va False km = Inr (r, km) \<and> entry (mem km) 2 pt va = (if r = 0 then 0 else load64 (mem km) r)
    \<and> (r = 0 \<longleftrightarrow> leaf (mem km) 2 pt va = None)"
proof -
  have "walk pt va False km = Inr (case leaf (mem km) 2 pt va of None \<Rightarrow> 0 | Some q \<Rightarrow> q + of_nat (8 * unat (PX 0 va)), km)"
    using assms(3) by (simp add: walk_def walk_loop_find del: of_nat_mult)
  moreover have "q + of_nat (8 * unat (PX 0 va)) \<noteq> 0" if "leaf (mem km) 2 pt va = Some q" for q
    using pte_slot_nonzero [OF tables_page_ok [OF assms(1)] assms(2) PX_less] leaf_table [OF assms(1) that] by blast
  ultimately show ?thesis by (auto simp: entry_def pte_of_def split: option.split simp del: of_nat_mult)
qed

lemma walkaddr_entry:
  assumes "tree_ok kend (mem km) 2 pt" and "0 < kend" and "va < MAXVA"
  shows "walkaddr pt va km = Inr (if entry (mem km) 2 pt va AND PTE_V \<noteq> 0 \<and> entry (mem km) 2 pt va AND PTE_U \<noteq> 0 then PTE2PA (entry (mem km) 2 pt va) else 0)"
proof -
  obtain r where r: "walk pt va False km = Inr (r, km)" "entry (mem km) 2 pt va = (if r = 0 then 0 else load64 (mem km) r)"
    using walk_entry [OF assms] by blast
  have "\<not> MAXVA \<le> va" using assms(3) by (simp add: not_le)
  with r show ?thesis by (cases "r = 0") (simp_all add: walkaddr_def Let_def)
qed

lemma or_AND_flag: "(x :: u64) AND f \<noteq> 0 \<Longrightarrow> (y OR x OR z) AND f \<noteq> 0"
proof
  assume x: "x AND f \<noteq> 0" and z: "(y OR x OR z) AND f = 0"
  have "bit (x AND f) n \<longrightarrow> bit ((y OR x OR z) AND f) n" for n by (simp add: bit_simps)
  then have "x AND f = 0" unfolding z by (intro bit_word_eqI) auto
  with x show False ..
qed

lemma mapped_address:
  assumes "pa AND mask 12 = 0" and "unat pa < 2 ^ 56" and "perm AND NOT (mask 10) = 0"
  shows "PTE2PA (PA2PTE pa OR perm OR PTE_V) = pa"
proof -
  have "(perm OR PTE_V) AND NOT (mask 10) = 0" using assms(3) PTE_low(1) by (simp add: bit.conj_disj_distrib2)
  from PTE2PA_PA2PTE [OF assms(1) low_mask [OF assms(2)] this] show ?thesis by (simp add: or.assoc)
qed

lemma unat_add_small: "unat (a :: u64) + n < 2 ^ 64 \<Longrightarrow> unat b = n \<Longrightarrow> unat (a + b) = unat a + n"
  by (simp add: unat_word_ariths)

text \<open>The physical address of a page of a mapped range is page aligned and fits into an entry.\<close>

lemma range_page:
  fixes pa va b sz :: u64
  assumes "unat pa mod 4096 = 0" and "unat va mod 4096 = 0" and "unat b mod 4096 = 0" and "va \<le> b" and "unat b < unat va + unat sz"
    and "unat pa + unat sz \<le> 2 ^ 56"
  shows "unat (pa + (b - va)) mod 4096 = 0" and "unat (pa + (b - va)) < 2 ^ 56"
proof -
  define d where "d = unat b - unat va"
  have le: "unat va \<le> unat b" using assms(4) by (simp add: word_le_nat_alt)
  have d: "unat (b - va) = d" unfolding d_def using assms(4) by (rule unat_sub)
  have lt: "d < unat sz" using le assms(5) unfolding d_def by linarith
  have sum: "unat pa + d < 2 ^ 56" using lt assms(6) by linarith
  have "unat pa + d < 2 ^ 64" using sum by simp
  then have up: "unat (pa + (b - va)) = unat pa + d" using d by (rule unat_add_small)
  show "unat (pa + (b - va)) < 2 ^ 56" unfolding up by (rule sum)
  have "4096 dvd unat pa" "4096 dvd d" unfolding d_def using assms(1-3) by (auto intro: dvd_diff_nat)
  then show "unat (pa + (b - va)) mod 4096 = 0" unfolding up by (intro dvd_imp_mod_0 dvd_add)
qed

lemma mod_PGSIZE64: "a mod PGSIZE64 = 0 \<longleftrightarrow> unat a mod 4096 = 0"
  by (simp add: PGSIZE64_def word_unat_eq_iff unat_mod)

text \<open>
  C15: \<open>mappages\<close> on a well-formed page table maps its range: when it returns 0, \<open>walkaddr\<close> gives for
  each page of the range the physical page it was mapped to, and every address outside of the
  range translates as before. It fails only when no page is left for a table. The table and the
  free list stay well formed, and no other page table changes.
\<close>

theorem mappages_maps:
  assumes "table_state kend 2 pt km xs" and "va mod PGSIZE64 = 0" and "sz mod PGSIZE64 = 0" and "sz \<noteq> 0" and "unat va + unat sz \<le> unat MAXVA"
    and "pa mod PGSIZE64 = 0" and "unat pa + unat sz \<le> 2 ^ 56" and "perm AND NOT (mask 10) = 0" and "perm AND PTE_U \<noteq> 0"
    and "\<forall>b. b mod PGSIZE64 = 0 \<longrightarrow> va \<le> b \<longrightarrow> b < va + sz \<longrightarrow> entry (mem km) 2 pt b AND PTE_V = 0"
  shows "\<exists>r km' zs. mappages pt va sz pa perm km = Inr (r, km') \<and> table_state kend 2 pt km' zs \<and> (r = 0 \<or> r = -1 \<and> zs = [])
    \<and> (\<forall>b. b mod PGSIZE64 = 0 \<longrightarrow> b < MAXVA \<longrightarrow>
         (if va \<le> b \<and> b < va + sz then r = 0 \<longrightarrow> walkaddr pt b km' = Inr (pa + (b - va)) else walkaddr pt b km' = walkaddr pt b km))
    \<and> (\<forall>pt2. tree_ok kend (mem km) 2 pt2 \<longrightarrow> tables (mem km) 2 pt2 \<inter> (tables (mem km) 2 pt \<union> set xs) = {} \<longrightarrow>
         (\<forall>b<MAXVA. walkaddr pt2 b km' = walkaddr pt2 b km))"
proof -
  let ?lst = "va + sz - PGSIZE64"
  have S: "kmem_ok kend km xs" "tree_ok kend (mem km) 2 pt" "0 < kend" using assms(1) kmem_okD(3) by (auto simp: table_state_def)
  have al: "unat va mod 4096 = 0" "unat sz mod 4096 = 0" "unat pa mod 4096 = 0" using assms(2,3,6) by (simp_all add: mod_PGSIZE64)
  have szg: "4096 \<le> unat sz" using al(2) assms(4) by (metis dvd_imp_le mod_0_imp_dvd neq0_conv unat_eq_0)
  have M: "unat MAXVA = 2 ^ 38" by (simp add: MAXVA_def)
  have u: "unat (va + sz) = unat va + unat sz" using assms(5) M by (simp add: unat_word_ariths)
  have ul: "unat ?lst = unat va + unat sz - 4096" using u szg by (subst unat_sub) (simp_all add: PGSIZE64_def word_le_nat_alt)
  have lst: "unat ?lst mod 4096 = 0" "va \<le> ?lst" "?lst < MAXVA"
    using ul al szg assms(5) M by (simp_all add: word_le_nat_alt word_less_nat_alt mod_0_imp_dvd dvd_imp_mod_0)
  have range: "b \<le> ?lst \<longleftrightarrow> b < va + sz" if b: "unat b mod 4096 = 0" for b
  proof -
    obtain i j k where k: "unat b = 4096 * i" "unat va = 4096 * j" "unat sz = 4096 * k" using b al by (metis mod_0_imp_dvd dvdE)
    then obtain k' where "k = Suc k'" using szg by (cases k) simp_all
    then have e: "4096 * j + 4096 * k - 4096 = 4096 * (j + k')" "4096 * j + 4096 * k = 4096 * (j + k' + 1)" by simp_all
    show ?thesis unfolding word_le_nat_alt word_less_nat_alt ul u k e nat_mult_le_cancel_disj nat_mult_less_cancel_disj by auto
  qed
  have unmapped: "entry (mem km) 2 pt b AND PTE_V = 0" if "unat b mod 4096 = 0" "va \<le> b" "b \<le> ?lst" for b
    using assms(10) that range by (simp add: mod_PGSIZE64)
  obtain r km' zs where r: "mappages_loop pt va ?lst pa perm km = Inr (r, km')" "table_step kend 2 pt km xs km' zs" "r = 0 \<or> r = -1 \<and> zs = []"
    "range_mapped pt va ?lst pa perm r (mem km) (mem km')"
    using mappages_loop_ok [OF assms(1) al(1) lst, of pa perm] unmapped by blast
  note S' = table_step_state [OF assms(1) r(2)]
  have t': "tree_ok kend (mem km') 2 pt" using S' by (simp add: table_state_def)
  have "if va \<le> b \<and> b < va + sz then r = 0 \<longrightarrow> walkaddr pt b km' = Inr (pa + (b - va)) else walkaddr pt b km' = walkaddr pt b km"
    if b: "b mod PGSIZE64 = 0" "b < MAXVA" for b
  proof -
    have ub: "unat b mod 4096 = 0" using b(1) by (simp add: mod_PGSIZE64)
    note R = r(4) [unfolded range_mapped_def, rule_format, OF ub b(2), unfolded range [OF ub]]
    show ?thesis
    proof (cases "va \<le> b \<and> b < va + sz")
      case True
      have "unat b < unat va + unat sz" using True u by (simp add: word_less_nat_alt)
      note P = range_page [OF al(3,1) ub _ this assms(7)]
      have "PTE2PA (PA2PTE (pa + (b - va)) OR perm OR PTE_V) = pa + (b - va)"
        using P True by (intro mapped_address aligned_mask assms(8)) simp_all
      then show ?thesis using True R walkaddr_entry [OF t' S(3) b(2)] or_AND_flag [OF assms(9)] flags_V [of "PA2PTE (pa + (b - va)) OR perm"]
        by (simp add: or.assoc)
    next
      case False
      then show ?thesis using R walkaddr_entry [OF t' S(3) b(2)] walkaddr_entry [OF S(2,3) b(2)] by auto
    qed
  qed
  moreover have "walkaddr pt2 b km' = walkaddr pt2 b km"
    if p2: "tree_ok kend (mem km) 2 pt2" "tables (mem km) 2 pt2 \<inter> (tables (mem km) 2 pt \<union> set xs) = {}" "b < MAXVA" for pt2 b
  proof -
    obtain ys where ys: "xs = ys @ zs" "only (tables (mem km) 2 pt \<union> set ys) (mem km) (mem km')" using r(2) by (auto simp: table_step_def)
    have pg: "page_ok kend q" if "q \<in> tables (mem km) 2 pt \<union> set ys" for q using that tables_page_ok [OF S(2)] kmem_okD(1) [OF S(1)] ys(1) by auto
    have "tables (mem km) 2 pt2 \<inter> (tables (mem km) 2 pt \<union> set ys) = {}" using p2(2) ys(1) by auto
    note T = tree_only [OF ys(2) pg p2(1) this]
    show ?thesis using walkaddr_entry [OF T(2) S(3) p2(3)] walkaddr_entry [OF p2(1) S(3) p2(3)] T(3) by simp
  qed
  moreover have "mappages pt va sz pa perm km = Inr (r, km')" using r(1) assms(2-4) by (simp add: mappages_def)
  ultimately show ?thesis using S' r(3) by blast
qed

section \<open>A table with two pages to grow\<close>

definition grow_mem :: kmem where
  "grow_mem = \<lparr>mem = store64 (\<lambda>_. 0) 0x80002000 0x80003000, freelist = 0x80002000\<rparr>"

lemma grow_mem_pages: "page_ok 0x80001000 0x80001000" "page_ok 0x80001000 0x80002000" "page_ok 0x80001000 0x80003000"
  by (simp_all add: page_ok_def layout_defs)

lemma grow_mem_zero: "p = 0x80001000 \<or> p = 0x80003000 \<Longrightarrow> i < 512 \<Longrightarrow> pte_of (mem grow_mem) p i = 0"
proof -
  assume p: "p = 0x80001000 \<or> p = 0x80003000" "i < 512"
  have "only {0x80002000} (\<lambda>_. 0) (mem grow_mem)" using only_store [of 0 "0x80002000" "\<lambda>_. 0" "0x80003000"] by (simp add: grow_mem_def)
  then have "pte_of (mem grow_mem) p i = pte_of (\<lambda>_. 0) p i" by (rule only_pte) (use grow_mem_pages p in auto)
  then show ?thesis by (simp add: pte_of_def load64_def)
qed

lemma grow_mem_state: "table_state 0x80001000 2 0x80001000 grow_mem [0x80002000, 0x80003000]" "entry (mem grow_mem) 2 0x80001000 va = 0"
proof -
  have "\<And>i. i < 512 \<Longrightarrow> pte_of (mem grow_mem) 0x80001000 i = 0" by (rule grow_mem_zero) simp_all
  note Z = zero_tree [OF this grow_mem_pages(1)]
  have "load64 (mem grow_mem) 0x80002000 = 0x80003000" by (simp add: grow_mem_def load64_store64_same)
  moreover have "load64 (mem grow_mem) 0x80003000 = 0" using grow_mem_zero [of "0x80003000" 0] by (simp add: pte_of_def)
  ultimately have "kmem_ok 0x80001000 grow_mem [0x80002000, 0x80003000]"
    using grow_mem_pages by (simp add: kmem_ok_def) (simp add: grow_mem_def)
  then show "table_state 0x80001000 2 0x80001000 grow_mem [0x80002000, 0x80003000]" using Z(1,2) by (simp add: table_state_def)
  show "entry (mem grow_mem) 2 0x80001000 va = 0" using Z(3) by simp
qed

theorem mappages_maps_witness:
  "\<exists>r km' zs. mappages 0x80001000 0x1000 0x1000 0x80010000 (PTE_R OR PTE_U) grow_mem = Inr (r, km') \<and> table_state 0x80001000 2 0x80001000 km' zs
    \<and> (r = 0 \<and> walkaddr 0x80001000 0x1000 km' = Inr 0x80010000 \<or> r = -1 \<and> zs = [])"
proof -
  have perm: "(PTE_R OR PTE_U) AND NOT (mask 10) = 0" "(PTE_R OR PTE_U) AND PTE_U \<noteq> 0"
    using PTE_low by (simp_all add: bit.conj_disj_distrib2) (simp add: PTE_R_def PTE_U_def)
  obtain r km' zs where r: "mappages 0x80001000 0x1000 0x1000 0x80010000 (PTE_R OR PTE_U) grow_mem = Inr (r, km')"
    "table_state 0x80001000 2 0x80001000 km' zs" "r = 0 \<or> r = -1 \<and> zs = []"
    "\<forall>b. b mod PGSIZE64 = 0 \<longrightarrow> b < MAXVA \<longrightarrow> (if 0x1000 \<le> b \<and> b < 0x1000 + 0x1000
       then r = 0 \<longrightarrow> walkaddr 0x80001000 b km' = Inr (0x80010000 + (b - 0x1000)) else walkaddr 0x80001000 b km' = walkaddr 0x80001000 b grow_mem)"
    using mappages_maps [OF grow_mem_state(1), of "0x1000" "0x1000" "0x80010000" "PTE_R OR PTE_U"] perm grow_mem_state(2)
    by (auto simp: PGSIZE64_def MAXVA_def)
  have "r = 0 \<longrightarrow> walkaddr 0x80001000 0x1000 km' = Inr 0x80010000" using r(4) [rule_format, of "0x1000"] by (simp add: PGSIZE64_def MAXVA_def)
  with r(1-3) show ?thesis by blast
qed

end
