(* ===== verification/Spinlock.thy ===== *)
theory Spinlock
  imports Prelude
begin

text \<open>
  Spin locks, \<open>xv6/kernel/spinlock.c\<close>. A hart is a number, \<open>cpu\<close> is the part of
  \<open>struct cpu\<close> (\<open>proc.h\<close>) outside the saved context, with the hart's interrupt-enable bit
  \<open>sstatus.SIE\<close> beside it. The operations are split where the code is not atomic: between the
  check at entry, the atomic swap, the store of \<open>lk->cpu\<close>, the atomic store of
  \<open>lk->locked\<close> and \<open>pop_off\<close>, and the harts interleave at these points.
\<close>

record cpu =
  c_proc :: "nat option"
  noff :: int
  intena :: bool
  sie :: bool

record spinlock =
  lk_locked :: bool
  lk_cpu :: "nat option"

section \<open>Operations\<close>

definition initlock :: spinlock where
  "initlock = \<lparr>lk_locked = False, lk_cpu = None\<rparr>"

definition holding :: "nat \<Rightarrow> spinlock \<Rightarrow> bool" where
  "holding c lk \<longleftrightarrow> lk_locked lk \<and> lk_cpu lk = Some c"

definition push_off :: "cpu \<Rightarrow> cpu" where
  "push_off c =
     (let old = sie c;
          c1 = c\<lparr>sie := False\<rparr>;
          c2 = (if noff c1 = 0 then c1\<lparr>intena := old\<rparr> else c1)
      in c2\<lparr>noff := noff c2 + 1\<rparr>)"

definition pop_off :: "cpu \<Rightarrow> cpu kres" where
  "pop_off c =
     (if sie c then Inl (Panic ''pop_off - interruptible'')
      else if noff c < 1 then Inl (Panic ''pop_off'')
      else let c1 = c\<lparr>noff := noff c - 1\<rparr>
           in Inr (if noff c1 = 0 \<and> intena c1 then c1\<lparr>sie := True\<rparr> else c1))"

text \<open>
  \<open>acquire\<close>: \<open>push_off\<close> and the check; one attempt of the atomic exchange (the new value of
  the lock and whether the loop ends); the record of the owner.
\<close>

definition acquire_enter :: "nat \<Rightarrow> spinlock \<Rightarrow> cpu \<Rightarrow> cpu kres" where
  "acquire_enter h lk c = (let c1 = push_off c in if holding h lk then Inl (Panic ''acquire'') else Inr c1)"

definition acquire_swap :: "spinlock \<Rightarrow> spinlock \<times> bool" where
  "acquire_swap lk = (lk\<lparr>lk_locked := True\<rparr>, \<not> lk_locked lk)"

definition acquire_record :: "nat \<Rightarrow> spinlock \<Rightarrow> spinlock" where
  "acquire_record h lk = lk\<lparr>lk_cpu := Some h\<rparr>"

text \<open>\<open>release\<close>: the check and \<open>lk->cpu = 0\<close>; the atomic store; then \<open>pop_off\<close>.\<close>

definition release_enter :: "nat \<Rightarrow> spinlock \<Rightarrow> spinlock kres" where
  "release_enter h lk = (if \<not> holding h lk then Inl (Panic ''release'') else Inr (lk\<lparr>lk_cpu := None\<rparr>))"

definition release_store :: "spinlock \<Rightarrow> spinlock" where
  "release_store lk = lk\<lparr>lk_locked := False\<rparr>"

section \<open>Interleaved harts\<close>

text \<open>
  Where a hart is: running its own code, spinning on a lock, past the exchange, between the two
  stores of \<open>release\<close>, before \<open>pop_off\<close>, or stopped by a panic.
\<close>

datatype lkpc = Run | Spin nat | Got nat | Rel nat | Popping | Stopped

text \<open>
  \<open>w_held\<close> lists the locks a hart has acquired and not begun to release and \<open>w_push\<close> counts
  its own \<open>push_off\<close>s that are not yet matched; the code does not read them.
\<close>

record lkworld =
  w_cpu :: "nat \<Rightarrow> cpu"
  w_lock :: "nat \<Rightarrow> spinlock"
  w_pc :: "nat \<Rightarrow> lkpc"
  w_held :: "nat \<Rightarrow> nat list"
  w_push :: "nat \<Rightarrow> nat"

inductive lk_step :: "lkworld \<Rightarrow> lkworld \<Rightarrow> bool" where
  acq_enter: "w_pc w h = Run \<Longrightarrow> acquire_enter h (w_lock w l) (w_cpu w h) = Inr c
    \<Longrightarrow> lk_step w (w\<lparr>w_cpu := (w_cpu w)(h := c), w_pc := (w_pc w)(h := Spin l)\<rparr>)"
| acq_panic: "w_pc w h = Run \<Longrightarrow> acquire_enter h (w_lock w l) (w_cpu w h) = Inl e
    \<Longrightarrow> lk_step w (w\<lparr>w_cpu := (w_cpu w)(h := push_off (w_cpu w h)), w_pc := (w_pc w)(h := Stopped)\<rparr>)"
| acq_swap: "w_pc w h = Spin l \<Longrightarrow> acquire_swap (w_lock w l) = (k, b)
    \<Longrightarrow> lk_step w (w\<lparr>w_lock := (w_lock w)(l := k), w_pc := (w_pc w)(h := if b then Got l else Spin l)\<rparr>)"
| acq_record: "w_pc w h = Got l
    \<Longrightarrow> lk_step w (w\<lparr>w_lock := (w_lock w)(l := acquire_record h (w_lock w l)),
                   w_pc := (w_pc w)(h := Run), w_held := (w_held w)(h := l # w_held w h)\<rparr>)"
| rel_enter: "w_pc w h = Run \<Longrightarrow> release_enter h (w_lock w l) = Inr k
    \<Longrightarrow> lk_step w (w\<lparr>w_lock := (w_lock w)(l := k), w_pc := (w_pc w)(h := Rel l),
                   w_held := (w_held w)(h := remove1 l (w_held w h))\<rparr>)"
| rel_panic: "w_pc w h = Run \<Longrightarrow> release_enter h (w_lock w l) = Inl e
    \<Longrightarrow> lk_step w (w\<lparr>w_pc := (w_pc w)(h := Stopped)\<rparr>)"
| rel_store: "w_pc w h = Rel l
    \<Longrightarrow> lk_step w (w\<lparr>w_lock := (w_lock w)(l := release_store (w_lock w l)), w_pc := (w_pc w)(h := Popping)\<rparr>)"
| rel_pop: "w_pc w h = Popping \<Longrightarrow> pop_off (w_cpu w h) = Inr c
    \<Longrightarrow> lk_step w (w\<lparr>w_cpu := (w_cpu w)(h := c), w_pc := (w_pc w)(h := Run)\<rparr>)"
| rel_pop_panic: "w_pc w h = Popping \<Longrightarrow> pop_off (w_cpu w h) = Inl e
    \<Longrightarrow> lk_step w (w\<lparr>w_pc := (w_pc w)(h := Stopped)\<rparr>)"
| push: "w_pc w h = Run
    \<Longrightarrow> lk_step w (w\<lparr>w_cpu := (w_cpu w)(h := push_off (w_cpu w h)), w_push := (w_push w)(h := Suc (w_push w h))\<rparr>)"
| pop: "w_pc w h = Run \<Longrightarrow> w_push w h = Suc n \<Longrightarrow> pop_off (w_cpu w h) = Inr c
    \<Longrightarrow> lk_step w (w\<lparr>w_cpu := (w_cpu w)(h := c), w_push := (w_push w)(h := n)\<rparr>)"
| pop_panic: "w_pc w h = Run \<Longrightarrow> w_push w h = Suc n \<Longrightarrow> pop_off (w_cpu w h) = Inl e
    \<Longrightarrow> lk_step w (w\<lparr>w_pc := (w_pc w)(h := Stopped)\<rparr>)"
| intr: "w_pc w h = Run \<Longrightarrow> noff (w_cpu w h) = 0
    \<Longrightarrow> lk_step w (w\<lparr>w_cpu := (w_cpu w)(h := (w_cpu w h)\<lparr>sie := b\<rparr>)\<rparr>)"

inductive_cases lk_stepE: "lk_step w w'"

definition lk_init :: "lkworld \<Rightarrow> bool" where
  "lk_init w \<longleftrightarrow> (\<forall>l. w_lock w l = initlock) \<and>
     (\<forall>h. w_pc w h = Run \<and> w_held w h = [] \<and> w_push w h = 0 \<and> noff (w_cpu w h) = 0)"

section \<open>The invariant\<close>

text \<open>\<open>owns w h l\<close>: hart \<open>h\<close> is inside the region that lock \<open>l\<close> protects.\<close>

definition owns :: "lkworld \<Rightarrow> nat \<Rightarrow> nat \<Rightarrow> bool" where
  "owns w h l \<longleftrightarrow> l \<in> set (w_held w h) \<or> w_pc w h = Got l \<or> w_pc w h = Rel l"

fun pc_noff :: "lkpc \<Rightarrow> int" where
  "pc_noff Run = 0" | "pc_noff Stopped = 0" | "pc_noff _ = 1"

definition lock_inv :: "lkworld \<Rightarrow> bool" where
  "lock_inv w \<longleftrightarrow>
     (\<forall>h l. owns w h l \<longrightarrow> lk_locked (w_lock w l)) \<and>
     (\<forall>h h' l. owns w h l \<longrightarrow> owns w h' l \<longrightarrow> h = h') \<and>
     (\<forall>h l. lk_cpu (w_lock w l) = Some h \<longleftrightarrow> l \<in> set (w_held w h)) \<and>
     (\<forall>h. distinct (w_held w h)) \<and>
     (\<forall>h l. w_pc w h = Got l \<or> w_pc w h = Rel l \<longrightarrow> l \<notin> set (w_held w h))"

definition intr_inv :: "lkworld \<Rightarrow> bool" where
  "intr_inv w \<longleftrightarrow>
     (\<forall>h. w_pc w h \<noteq> Stopped \<longrightarrow>
        noff (w_cpu w h) = int (length (w_held w h)) + pc_noff (w_pc w h) + int (w_push w h)) \<and>
     (\<forall>h. 0 < noff (w_cpu w h) \<longrightarrow> \<not> sie (w_cpu w h)) \<and> (\<forall>h. 0 \<le> noff (w_cpu w h))"

lemmas lock_op_defs = acquire_enter_def acquire_swap_def acquire_record_def release_enter_def
  release_store_def holding_def initlock_def

lemma lock_inv_init: "lk_init w \<Longrightarrow> lock_inv w"
  by (simp add: lk_init_def lock_inv_def owns_def initlock_def)

lemma intr_inv_init: "lk_init w \<Longrightarrow> intr_inv w"
  by (simp add: lk_init_def intr_inv_def)

lemma lock_inv_pc:
  assumes "lock_inv w" and "w_lock w' = w_lock w" and "w_held w' = w_held w"
    and "\<And>h l. w_pc w' h = Got l \<longleftrightarrow> w_pc w h = Got l" and "\<And>h l. w_pc w' h = Rel l \<longleftrightarrow> w_pc w h = Rel l"
  shows "lock_inv w'"
  using assms(1) unfolding lock_inv_def owns_def assms(2-5) .

lemma lock_inv_step: "lk_step w w' \<Longrightarrow> lock_inv w \<Longrightarrow> lock_inv w'"
proof (induction rule: lk_step.induct)
  case (acq_swap w h l k b)
  then show ?case by (auto simp: lock_inv_def owns_def acquire_swap_def)
next
  case (acq_record w h l)
  then show ?case by (auto simp: lock_inv_def owns_def acquire_record_def)
next
  case (rel_enter w h l k)
  then show ?case by (auto simp: lock_inv_def owns_def release_enter_def holding_def split: if_splits)
next
  case (rel_store w h l)
  then show ?case by (auto simp: lock_inv_def owns_def release_store_def)
qed (erule lock_inv_pc; simp)+

lemma push_off_simps [simp]:
  "noff (push_off c) = noff c + 1" "\<not> sie (push_off c)"
  by (simp_all add: push_off_def Let_def)

lemma pop_off_Inr:
  "pop_off c = Inr c' \<Longrightarrow> noff c' = noff c - 1 \<and> 1 \<le> noff c \<and> (noff c' \<noteq> 0 \<longrightarrow> \<not> sie c')"
  by (auto simp: pop_off_def Let_def split: if_splits)

lemma remove1_length_mem: "l \<in> set xs \<Longrightarrow> int (length (remove1 l xs)) = int (length xs) - 1"
  using length_pos_if_in_set [of l xs] by (simp add: length_remove1 of_nat_diff Suc_leI)

lemma intr_inv_step: "lk_step w w' \<Longrightarrow> lock_inv w \<Longrightarrow> intr_inv w \<Longrightarrow> intr_inv w'"
proof (induction rule: lk_step.induct)
  case (acq_enter w h l c)
  then have "c = push_off (w_cpu w h)" by (simp add: acquire_enter_def Let_def split: if_splits)
  with acq_enter show ?case by (auto simp: intr_inv_def)
next
  case (rel_enter w h l k)
  then have "l \<in> set (w_held w h)"
    by (auto simp: lock_inv_def release_enter_def holding_def split: if_splits)
  with rel_enter show ?case by (auto simp: intr_inv_def remove1_length_mem)
next
  case (rel_pop w h c)
  with pop_off_Inr [OF rel_pop(2)] show ?case by (auto simp: intr_inv_def)
next
  case (pop w h n c)
  with pop_off_Inr [OF pop(3)] show ?case by (auto simp: intr_inv_def)
qed (auto simp: intr_inv_def)

definition lk_reach :: "lkworld \<Rightarrow> bool" where
  "lk_reach w \<longleftrightarrow> (\<exists>w0. lk_init w0 \<and> lk_step\<^sup>*\<^sup>* w0 w)"

lemma lk_reach_inv: "lk_reach w \<Longrightarrow> lock_inv w \<and> intr_inv w"
proof -
  assume "lk_reach w"
  then obtain w0 where "lk_init w0" and "lk_step\<^sup>*\<^sup>* w0 w" by (auto simp: lk_reach_def)
  from this(2,1) show ?thesis
    by (induction rule: rtranclp_induct) (auto intro: lock_inv_init intr_inv_init lock_inv_step intr_inv_step)
qed

section \<open>Properties\<close>

text \<open>
  C7: mutual exclusion of spin locks. In every state that any number of harts reach by
  interleaving \<open>acquire\<close>, \<open>release\<close>, \<open>push_off\<close> and \<open>pop_off\<close>, at most one hart is
  between the successful exchange on a lock and the store that frees it.
\<close>

theorem spinlock_mutual_exclusion:
  assumes "lk_reach w" and "owns w h l" and "owns w h' l"
  shows "h = h'"
  using lk_reach_inv [OF assms(1)] assms(2,3) by (auto simp: lock_inv_def)

text \<open>
  C22: locks are held with interrupts off. In every reachable state a hart that holds a lock has
  its interrupts disabled, its nesting depth counts the locks it holds and its own unmatched
  \<open>push_off\<close>s, and the \<open>pop_off\<close> at the end of \<open>release\<close> does not panic.
\<close>

theorem spinlock_interrupts_off:
  assumes "lk_reach w"
  shows "(w_held w h \<noteq> [] \<and> w_pc w h \<noteq> Stopped \<longrightarrow> \<not> sie (w_cpu w h))
    \<and> (w_pc w h = Run \<longrightarrow> noff (w_cpu w h) = int (length (w_held w h) + w_push w h))
    \<and> (w_pc w h = Popping \<longrightarrow> (\<exists>c. pop_off (w_cpu w h) = Inr c))"
proof -
  from lk_reach_inv [OF assms] have inv: "intr_inv w" by simp
  let ?c = "w_cpu w h"
  have pos: "0 \<le> pc_noff (w_pc w h)" by (cases "w_pc w h") simp_all
  have "\<not> sie ?c" if "w_held w h \<noteq> []" "w_pc w h \<noteq> Stopped"
  proof -
    have "0 < int (length (w_held w h))" using that by simp
    then have "0 < int (length (w_held w h)) + pc_noff (w_pc w h) + int (w_push w h)" using pos by linarith
    then have "0 < noff ?c" using inv that(2) by (simp add: intr_inv_def)
    with inv show ?thesis by (simp add: intr_inv_def)
  qed
  moreover have "\<exists>c. pop_off ?c = Inr c" if "w_pc w h = Popping"
  proof -
    have "1 \<le> noff ?c" "\<not> sie ?c" using inv that by (auto simp: intr_inv_def)
    then show ?thesis by (simp add: pop_off_def Let_def)
  qed
  ultimately show ?thesis using inv by (auto simp: intr_inv_def)
qed

text \<open>A world of one lock in which hart 0 has acquired lock 0.\<close>

definition lk_world0 :: lkworld where
  "lk_world0 = \<lparr>w_cpu = (\<lambda>_. \<lparr>c_proc = None, noff = 0, intena = False, sie = True\<rparr>),
     w_lock = (\<lambda>_. initlock), w_pc = (\<lambda>_. Run), w_held = (\<lambda>_. []), w_push = (\<lambda>_. 0)\<rparr>"

definition lk_world1 :: lkworld where
  "lk_world1 = lk_world0\<lparr>
     w_cpu := (w_cpu lk_world0)(0 := push_off (w_cpu lk_world0 0)),
     w_lock := (w_lock lk_world0)(0 := \<lparr>lk_locked = True, lk_cpu = Some 0\<rparr>),
     w_held := (w_held lk_world0)(0 := [0])\<rparr>"

lemma lk_world1_reach: "lk_reach lk_world1"
proof -
  let ?c = "push_off (w_cpu lk_world0 0)"
  let ?wa = "lk_world0\<lparr>w_cpu := (w_cpu lk_world0)(0 := ?c), w_pc := (w_pc lk_world0)(0 := Spin 0)\<rparr>"
  let ?k = "\<lparr>lk_locked = True, lk_cpu = None\<rparr>"
  let ?wb = "?wa\<lparr>w_lock := (w_lock ?wa)(0 := ?k), w_pc := (w_pc ?wa)(0 := if True then Got 0 else Spin 0)\<rparr>"
  have "lk_step lk_world0 ?wa"
    by (rule lk_step.acq_enter [where l = 0]) (simp_all add: lk_world0_def lock_op_defs Let_def)
  moreover have "lk_step ?wa ?wb"
    by (rule lk_step.acq_swap) (simp_all add: lk_world0_def lock_op_defs)
  moreover have "lk_step ?wb lk_world1"
  proof -
    let ?wc = "?wb\<lparr>w_lock := (w_lock ?wb)(0 := acquire_record 0 (w_lock ?wb 0)),
        w_pc := (w_pc ?wb)(0 := Run), w_held := (w_held ?wb)(0 := 0 # w_held ?wb 0)\<rparr>"
    have "lk_step ?wb ?wc" by (rule lk_step.acq_record) simp
    moreover have "?wc = lk_world1"
      by (simp add: lk_world1_def lk_world0_def acquire_record_def fun_eq_iff)
    ultimately show ?thesis by simp
  qed
  moreover have "lk_init lk_world0" by (simp add: lk_init_def lk_world0_def)
  ultimately show ?thesis unfolding lk_reach_def by (blast intro: rtranclp.rtrancl_into_rtrancl)
qed

theorem spinlock_mutual_exclusion_witness:
  "lk_reach lk_world1 \<and> owns lk_world1 0 0 \<and> (\<forall>h. owns lk_world1 h 0 \<longleftrightarrow> h = 0)"
proof -
  have o: "owns lk_world1 0 0" by (simp add: owns_def lk_world1_def)
  with spinlock_mutual_exclusion [OF lk_world1_reach o] lk_world1_reach show ?thesis by blast
qed

theorem spinlock_interrupts_off_witness:
  "w_held lk_world1 0 \<noteq> [] \<and> \<not> sie (w_cpu lk_world1 0) \<and> noff (w_cpu lk_world1 0) = 1"
  using spinlock_interrupts_off [OF lk_world1_reach, of 0] by (simp add: lk_world1_def lk_world0_def)

end
