(* ===== verification/Proc.thy ===== *)
theory Proc
  imports Vm Spinlock
begin

text \<open>
  The process table, \<open>xv6/kernel/proc.c\<close> and \<open>proc.h\<close>: allocation and release of a slot,
  the user page table of a process, growth, the switch to and from the scheduler, sleep and
  wakeup, kill, wait and the timing metrics returned by \<open>waitx\<close>.

  The state is that of the kernel built with \<open>SCHEDULER_MLFQ\<close>. A process is named by its index
  in the table and a hart by its number. The locks \<open>p->lock\<close>, \<open>wait_lock\<close>, \<open>pid_lock\<close> and
  \<open>mlfq_seq_lock\<close> make each operation below one atomic step; where a lock is held across the
  switch to the scheduler (\<open>yield\<close>, \<open>sleep\<close>, \<open>kexit\<close>) its effect on the hart's interrupt
  nesting is kept, since \<open>sched\<close> checks it. The operations are polymorphic in the rest of the
  state, which the file system extends.
\<close>

section \<open>State\<close>

datatype procstate = UNUSED | USED | SLEEPING | RUNNABLE | RUNNING | ZOMBIE

text \<open>The addresses that serve as sleep channels; distinct objects have distinct addresses.\<close>

datatype kaddr = Null | AddrTicks | AddrProc nat | AddrNread u64 | AddrNwrite u64
  | AddrBuf nat | AddrInode nat | AddrLog | AddrDisk nat | AddrDiskFree | AddrUartTx | AddrCons

record kcontext =
  cx_ra :: u64
  cx_sp :: u64
  cx_s :: "u64 list"

text \<open>
  \<open>p_intena\<close> is the local variable \<open>intena\<close> of the \<open>sched\<close> frame a switched-out process is
  stopped in; it is \<open>None\<close> for a process that has never run, which starts in \<open>forkret\<close>.
\<close>

record proc =
  p_state :: procstate
  p_chan :: kaddr
  p_killed :: bool
  p_xstate :: int
  p_pid :: int
  p_parent :: "nat option"
  p_kstack :: u64
  p_sz :: u64
  p_pagetable :: u64
  p_trapframe :: u64
  p_context :: kcontext
  p_intena :: "bool option"
  p_ofile :: "nat option list"
  p_cwd :: "nat option"
  p_name :: string
  p_ctime :: u32
  p_stime :: int
  p_etime :: u32
  p_rtime :: u32
  mlfq_queue :: int
  mlfq_ticks_used :: int
  mlfq_total_ticks :: int
  mlfq_enter_seq :: u64

text \<open>\<open>mlfq_trace\<close> holds the trace lines printed for pids of 3 and more, newest first.\<close>

record kstate =
  procs :: "proc list"
  nextpid :: int
  mlfq_global_seq :: u64
  ticks :: u32
  initproc :: "nat option"
  cpus :: "cpu list"
  kmemory :: kmem
  mlfq_trace :: "(u32 \<times> int \<times> int) list"

abbreviation proc_at :: "nat \<Rightarrow> 'z kstate_scheme \<Rightarrow> proc" where
  "proc_at i st \<equiv> procs st ! i"

definition upd_proc :: "nat \<Rightarrow> (proc \<Rightarrow> proc) \<Rightarrow> 'z kstate_scheme \<Rightarrow> 'z kstate_scheme" where
  "upd_proc i f st = st\<lparr>procs := upd_nth i f (procs st)\<rparr>"

definition upd_cpu :: "nat \<Rightarrow> (cpu \<Rightarrow> cpu) \<Rightarrow> 'z kstate_scheme \<Rightarrow> 'z kstate_scheme" where
  "upd_cpu c f st = st\<lparr>cpus := upd_nth c f (cpus st)\<rparr>"

text \<open>An operation on the memory of the kernel, lifted to the state.\<close>

definition on_mem :: "(kmem \<Rightarrow> ('a \<times> kmem) kres) \<Rightarrow> 'z kstate_scheme \<Rightarrow> ('a \<times> 'z kstate_scheme) kres" where
  "on_mem f st = bindE (f (kmemory st)) (\<lambda>(r, km). Inr (r, st\<lparr>kmemory := km\<rparr>))"

definition on_mem' :: "(kmem \<Rightarrow> kmem kres) \<Rightarrow> 'z kstate_scheme \<Rightarrow> 'z kstate_scheme kres" where
  "on_mem' f st = bindE (f (kmemory st)) (\<lambda>km. Inr (st\<lparr>kmemory := km\<rparr>))"

definition myproc :: "nat \<Rightarrow> 'z kstate_scheme \<Rightarrow> nat option" where
  "myproc c st = c_proc (cpus st ! c)"

text \<open>The current process, where the code dereferences it; null faults.\<close>

definition with_proc :: "nat \<Rightarrow> 'z kstate_scheme \<Rightarrow> (nat \<Rightarrow> 'a kres) \<Rightarrow> 'a kres" where
  "with_proc c st f = (case myproc c st of None \<Rightarrow> Inl (Panic ''kerneltrap'') | Some i \<Rightarrow> f i)"

section \<open>Sequence numbers, pids and initialisation\<close>

definition mlfq_next_seq :: "'z kstate_scheme \<Rightarrow> u64 \<times> 'z kstate_scheme" where
  "mlfq_next_seq st =
     (let s = mlfq_global_seq st + 1 in (s, st\<lparr>mlfq_global_seq := s\<rparr>))"

definition procinit :: "'z kstate_scheme \<Rightarrow> 'z kstate_scheme" where
  "procinit st = st\<lparr>procs := map (\<lambda>(i, p). p\<lparr>p_state := UNUSED, p_kstack := KSTACK i\<rparr>)
                            (List.enumerate 0 (procs st))\<rparr>"

definition allocpid :: "'z kstate_scheme \<Rightarrow> int \<times> 'z kstate_scheme" where
  "allocpid st = (nextpid st, st\<lparr>nextpid := nextpid st + 1\<rparr>)"

section \<open>Page tables of processes\<close>

definition proc_pagetable :: "kenv \<Rightarrow> u64 \<Rightarrow> kmem \<Rightarrow> (u64 \<times> kmem) kres" where
  "proc_pagetable env trapframe km =
     (let (pagetable, km1) = uvmcreate km
      in if pagetable = 0 then Inr (0, km1)
         else bindE (mappages pagetable TRAMPOLINE PGSIZE64 (a_trampoline env) (PTE_R OR PTE_X) km1) (\<lambda>(r, km2).
           if r < 0 then bindE (uvmfree (a_end env) pagetable 0 km2) (\<lambda>km3. Inr (0, km3))
           else bindE (mappages pagetable TRAPFRAME PGSIZE64 trapframe (PTE_R OR PTE_W) km2) (\<lambda>(r, km3).
             if r < 0
             then bindE (uvmunmap (a_end env) pagetable TRAMPOLINE 1 False km3) (\<lambda>km4.
                  bindE (uvmfree (a_end env) pagetable 0 km4) (\<lambda>km5. Inr (0, km5)))
             else Inr (pagetable, km3))))"

definition proc_freepagetable :: "kenv \<Rightarrow> u64 \<Rightarrow> u64 \<Rightarrow> kmem \<Rightarrow> kmem kres" where
  "proc_freepagetable env pagetable sz km =
     bindE (uvmunmap (a_end env) pagetable TRAMPOLINE 1 False km) (\<lambda>km1.
     bindE (uvmunmap (a_end env) pagetable TRAPFRAME 1 False km1) (\<lambda>km2.
     uvmfree (a_end env) pagetable sz km2))"

section \<open>Slots\<close>

definition freed_proc :: "proc \<Rightarrow> proc" where
  "freed_proc p = p\<lparr>p_trapframe := 0, p_pagetable := 0, p_sz := 0, p_pid := 0, p_name := [],
     p_chan := Null, p_killed := False, p_xstate := 0, p_ctime := 0, p_stime := -1, p_etime := 0,
     p_rtime := 0, mlfq_queue := 0, mlfq_ticks_used := 0, mlfq_total_ticks := 0,
     mlfq_enter_seq := 0, p_state := UNUSED\<rparr>"

definition freeproc :: "kenv \<Rightarrow> nat \<Rightarrow> 'z kstate_scheme \<Rightarrow> 'z kstate_scheme kres" where
  "freeproc env i st =
     (let p = proc_at i st
      in bindE (if p_trapframe p \<noteq> 0 then on_mem' (\<lambda>km. kfree (a_end env) km (p_trapframe p)) st else Inr st) (\<lambda>st1.
         bindE (if p_pagetable p \<noteq> 0 then on_mem' (proc_freepagetable env (p_pagetable p) (p_sz p)) st1 else Inr st1) (\<lambda>st2.
         Inr (upd_proc i freed_proc st2))))"

definition fresh_context :: "kenv \<Rightarrow> proc \<Rightarrow> kcontext" where
  "fresh_context env p =
     \<lparr>cx_ra = a_forkret env, cx_sp = p_kstack p + PGSIZE64, cx_s = replicate 12 0\<rparr>"

text \<open>
  \<open>allocproc\<close> after the slot \<open>i\<close> is found: lines \<open>found:\<close> to the end. The result is the
  slot, or \<open>None\<close> for the null pointer.
\<close>

definition allocproc_found :: "kenv \<Rightarrow> nat \<Rightarrow> 'z kstate_scheme \<Rightarrow> (nat option \<times> 'z kstate_scheme) kres" where
  "allocproc_found env i st =
     (let (pid, st1) = allocpid st;
          st2 = upd_proc i (\<lambda>p. p\<lparr>p_pid := pid, p_state := USED\<rparr>) st1;
          (tf, km) = kalloc (kmemory st2);
          st3 = upd_proc i (\<lambda>p. p\<lparr>p_trapframe := tf\<rparr>) (st2\<lparr>kmemory := km\<rparr>)
      in if tf = 0 then bindE (freeproc env i st3) (\<lambda>st4. Inr (None, st4))
         else bindE (on_mem (proc_pagetable env tf) st3) (\<lambda>(pt, st4).
           let st5 = upd_proc i (\<lambda>p. p\<lparr>p_pagetable := pt\<rparr>) st4
           in if pt = 0 then bindE (freeproc env i st5) (\<lambda>st6. Inr (None, st6))
              else let st6 = upd_proc i (\<lambda>p. p\<lparr>p_context := fresh_context env p, p_intena := None,
                                p_ctime := ticks st5, p_stime := -1, p_etime := 0, p_rtime := 0,
                                mlfq_queue := 0, mlfq_ticks_used := 0, mlfq_total_ticks := 0\<rparr>) st5;
                       (s, st7) = mlfq_next_seq st6
                   in Inr (Some i, upd_proc i (\<lambda>p. p\<lparr>mlfq_enter_seq := s\<rparr>) st7)))"

definition allocproc :: "kenv \<Rightarrow> 'z kstate_scheme \<Rightarrow> (nat option \<times> 'z kstate_scheme) kres" where
  "allocproc env st =
     (case find_idx (\<lambda>p. p_state p = UNUSED) (procs st) of
        None \<Rightarrow> Inr (None, st)
      | Some i \<Rightarrow> allocproc_found env i st)"

section \<open>Memory of the current process\<close>

definition growproc :: "kenv \<Rightarrow> nat \<Rightarrow> int \<Rightarrow> 'z kstate_scheme \<Rightarrow> (int \<times> 'z kstate_scheme) kres" where
  "growproc env c n st = with_proc c st (\<lambda>i.
     let p = proc_at i st; sz = p_sz p
     in if n > 0
        then if sz + of_int n > TRAPFRAME then Inr (-1, st)
             else bindE (on_mem (uvmalloc (a_end env) (p_pagetable p) sz (sz + of_int n) PTE_W) st) (\<lambda>(sz1, st1).
               if sz1 = 0 then Inr (-1, st1)
               else Inr (0, upd_proc i (\<lambda>p. p\<lparr>p_sz := sz1\<rparr>) st1))
        else if n < 0
        then bindE (on_mem (uvmdealloc (a_end env) (p_pagetable p) sz (sz + of_int n)) st) (\<lambda>(sz1, st1).
               Inr (0, upd_proc i (\<lambda>p. p\<lparr>p_sz := sz1\<rparr>) st1))
        else Inr (0, upd_proc i (\<lambda>p. p\<lparr>p_sz := sz\<rparr>) st))"

definition either_copyout :: "kenv \<Rightarrow> nat \<Rightarrow> bool \<Rightarrow> u64 \<Rightarrow> u8 list \<Rightarrow> 'z kstate_scheme
    \<Rightarrow> (int \<times> 'z kstate_scheme) kres" where
  "either_copyout env c user_dst dst src st =
     (if user_dst
      then with_proc c st (\<lambda>i. on_mem (copyout (a_end env) (p_pagetable (proc_at i st)) (p_sz (proc_at i st)) dst src) st)
      else Inr (0, st\<lparr>kmemory := (kmemory st)\<lparr>mem := mem_write (mem (kmemory st)) dst src\<rparr>\<rparr>))"

definition either_copyin :: "kenv \<Rightarrow> nat \<Rightarrow> bool \<Rightarrow> u64 \<Rightarrow> u64 \<Rightarrow> 'z kstate_scheme
    \<Rightarrow> (int \<times> u8 list \<times> 'z kstate_scheme) kres" where
  "either_copyin env c user_src src len st =
     (if user_src
      then with_proc c st (\<lambda>i.
        bindE (copyin (a_end env) (p_pagetable (proc_at i st)) (p_sz (proc_at i st)) src len (kmemory st))
          (\<lambda>(r, bs, km). Inr (r, bs, st\<lparr>kmemory := km\<rparr>)))
      else Inr (0, mem_read (mem (kmemory st)) src (unat len), st))"

section \<open>Switching to the scheduler\<close>

text \<open>
  The effect on the hart of \<open>acquire\<close> and \<open>release\<close> of the current process's lock.
\<close>

definition acquire_p :: "nat \<Rightarrow> 'z kstate_scheme \<Rightarrow> 'z kstate_scheme" where
  "acquire_p c st = upd_cpu c push_off st"

definition release_p :: "nat \<Rightarrow> 'z kstate_scheme \<Rightarrow> 'z kstate_scheme kres" where
  "release_p c st = bindE (pop_off (cpus st ! c)) (\<lambda>cp. Inr (upd_cpu c (\<lambda>_. cp) st))"

text \<open>
  The part of \<open>scheduler\<close> after \<open>swtch\<close> returns to it, the same in the three schedulers.
\<close>

definition scheduler_return :: "nat \<Rightarrow> 'z kstate_scheme \<Rightarrow> 'z kstate_scheme kres" where
  "scheduler_return c st = release_p c (upd_cpu c (\<lambda>cp. cp\<lparr>intena := False, c_proc := None\<rparr>) st)"

text \<open>\<open>sched\<close> up to its \<open>swtch\<close>, which continues in the scheduler.\<close>

definition sched :: "nat \<Rightarrow> 'z kstate_scheme \<Rightarrow> 'z kstate_scheme kres" where
  "sched c st = with_proc c st (\<lambda>i.
     if noff (cpus st ! c) \<noteq> 1 then Inl (Panic ''sched locks'')
     else if p_state (proc_at i st) = RUNNING then Inl (Panic ''sched RUNNING'')
     else if sie (cpus st ! c) then Inl (Panic ''sched interruptible'')
     else scheduler_return c (upd_proc i (\<lambda>p. p\<lparr>p_intena := Some (intena (cpus st ! c))\<rparr>) st))"

text \<open>
  What the scheduler does with the process it has chosen, up to its \<open>swtch\<close>: interrupts are
  off (\<open>intr_off\<close> at the top of its loop), it takes the lock, records the first run and marks
  the process \<open>RUNNING\<close> on this hart.
\<close>

definition first_run :: "u32 \<Rightarrow> proc \<Rightarrow> proc" where
  "first_run t p = (if p_stime p = -1 then p\<lparr>p_stime := sint t\<rparr> else p)"

definition dispatch :: "nat \<Rightarrow> nat \<Rightarrow> 'z kstate_scheme \<Rightarrow> 'z kstate_scheme" where
  "dispatch c i st =
     upd_cpu c (\<lambda>cp. cp\<lparr>c_proc := Some i\<rparr>)
       (upd_proc i (\<lambda>p. (first_run (ticks st) p)\<lparr>p_state := RUNNING\<rparr>)
         (acquire_p c (upd_cpu c (\<lambda>cp. cp\<lparr>sie := False\<rparr>) st)))"

text \<open>
  The process continues: after \<open>swtch\<close> in \<open>sched\<close> and the release in its caller, or from the
  start of \<open>forkret\<close>.
\<close>

definition resume :: "nat \<Rightarrow> 'z kstate_scheme \<Rightarrow> 'z kstate_scheme kres" where
  "resume c st = with_proc c st (\<lambda>i.
     case p_intena (proc_at i st) of
       Some b \<Rightarrow> release_p c (upd_cpu c (\<lambda>cp. cp\<lparr>intena := b\<rparr>) st)
     | None \<Rightarrow> release_p c st)"

definition yield :: "nat \<Rightarrow> 'z kstate_scheme \<Rightarrow> 'z kstate_scheme kres" where
  "yield c st = with_proc c st (\<lambda>i.
     sched c (upd_proc i (\<lambda>p. p\<lparr>p_state := RUNNABLE\<rparr>) (acquire_p c st)))"

section \<open>Sleep and wakeup\<close>

definition sleep_prepare :: "nat \<Rightarrow> kaddr \<Rightarrow> 'z kstate_scheme \<Rightarrow> 'z kstate_scheme kres" where
  "sleep_prepare c chan st = with_proc c st (\<lambda>i.
     if chan = Null then Inl (Panic ''sleep_prepare: zero chan'')
     else Inr (upd_proc i (\<lambda>p. p\<lparr>p_chan := chan\<rparr>) st))"

definition sleep :: "nat \<Rightarrow> 'z kstate_scheme \<Rightarrow> 'z kstate_scheme kres" where
  "sleep c st = with_proc c st (\<lambda>i.
     let st1 = acquire_p c st
     in if p_chan (proc_at i st1) \<noteq> Null
        then sched c (upd_proc i (\<lambda>p. p\<lparr>p_state := SLEEPING, mlfq_ticks_used := 0\<rparr>) st1)
        else release_p c st1)"

text \<open>The loop of \<open>wakeup\<close>: the counter is \<open>mlfq_global_seq\<close>.\<close>

fun wakeup_loop :: "kaddr \<Rightarrow> u64 \<Rightarrow> proc list \<Rightarrow> u64 \<times> proc list" where
  "wakeup_loop chan s [] = (s, [])"
| "wakeup_loop chan s (p # ps) =
     (if p_chan p = chan
      then if p_state p = SLEEPING
           then let (s', ps') = wakeup_loop chan (s + 1) ps
                in (s', p\<lparr>p_chan := Null, p_state := RUNNABLE, mlfq_enter_seq := s + 1\<rparr> # ps')
           else let (s', ps') = wakeup_loop chan s ps in (s', p\<lparr>p_chan := Null\<rparr> # ps')
      else let (s', ps') = wakeup_loop chan s ps in (s', p # ps'))"

definition wakeup :: "kaddr \<Rightarrow> 'z kstate_scheme \<Rightarrow> 'z kstate_scheme" where
  "wakeup chan st =
     (let (s, ps) = wakeup_loop chan (mlfq_global_seq st) (procs st)
      in st\<lparr>mlfq_global_seq := s, procs := ps\<rparr>)"

section \<open>Kill\<close>

definition kkill :: "int \<Rightarrow> 'z kstate_scheme \<Rightarrow> int \<times> 'z kstate_scheme" where
  "kkill pid st =
     (case find_idx (\<lambda>p. p_pid p = pid) (procs st) of
        None \<Rightarrow> (-1, st)
      | Some i \<Rightarrow>
          if p_state (proc_at i st) = SLEEPING
          then let (s, st1) = mlfq_next_seq st
               in (0, upd_proc i (\<lambda>p. p\<lparr>p_killed := True, p_state := RUNNABLE, mlfq_enter_seq := s\<rparr>) st1)
          else (0, upd_proc i (\<lambda>p. p\<lparr>p_killed := True\<rparr>) st))"

definition setkilled :: "nat \<Rightarrow> 'z kstate_scheme \<Rightarrow> 'z kstate_scheme" where
  "setkilled i st = upd_proc i (\<lambda>p. p\<lparr>p_killed := True\<rparr>) st"

definition killed :: "nat \<Rightarrow> 'z kstate_scheme \<Rightarrow> bool" where
  "killed i st = p_killed (proc_at i st)"

section \<open>Exit and wait\<close>

text \<open>The loop of \<open>reparent\<close> over the slots \<open>js\<close>.\<close>

definition parent_addr :: "nat option \<Rightarrow> kaddr" where
  "parent_addr q = (case q of None \<Rightarrow> Null | Some i \<Rightarrow> AddrProc i)"

fun reparent_loop :: "nat \<Rightarrow> nat list \<Rightarrow> 'z kstate_scheme \<Rightarrow> 'z kstate_scheme" where
  "reparent_loop i [] st = st"
| "reparent_loop i (j # js) st =
     (if p_parent (proc_at j st) = Some i
      then reparent_loop i js (wakeup (parent_addr (initproc st))
             (upd_proc j (\<lambda>p. p\<lparr>p_parent := initproc st\<rparr>) st))
      else reparent_loop i js st)"

definition reparent :: "nat \<Rightarrow> 'z kstate_scheme \<Rightarrow> 'z kstate_scheme" where
  "reparent i st = reparent_loop i [0..<length (procs st)] st"

text \<open>
  \<open>kexit\<close> from \<open>acquire(&wait_lock)\<close> on, once the files and the directory are closed. The
  panic after \<open>sched\<close> is not reached: a \<open>ZOMBIE\<close> is never scheduled again.
\<close>

definition exit_proc :: "nat \<Rightarrow> int \<Rightarrow> 'z kstate_scheme \<Rightarrow> 'z kstate_scheme kres" where
  "exit_proc c status st = with_proc c st (\<lambda>i.
     let st1 = reparent i st;
         st2 = wakeup (parent_addr (p_parent (proc_at i st1))) st1;
         st3 = acquire_p c st2
     in sched c (upd_proc i (\<lambda>p. p\<lparr>p_etime := ticks st3, p_xstate := status, p_state := ZOMBIE\<rparr>) st3))"

text \<open>The bytes of an \<open>int\<close> or \<open>uint\<close>, as \<open>copyout\<close> sees them.\<close>

definition bytes32 :: "u32 \<Rightarrow> u8 list" where
  "bytes32 w = map (\<lambda>k. ucast (drop_bit (8 * k) w)) [0..<4]"

text \<open>
  One pass of the loop of \<open>kwait\<close>. \<open>Some r\<close> is a return; \<open>None\<close> means that the process has
  registered for wakeups on its own address, will call \<open>sleep\<close> and then pass again.
\<close>

definition kwait :: "kenv \<Rightarrow> nat \<Rightarrow> u64 \<Rightarrow> 'z kstate_scheme \<Rightarrow> (int option \<times> 'z kstate_scheme) kres" where
  "kwait env c addr st = with_proc c st (\<lambda>i.
     let pt = p_pagetable (proc_at i st); sz = p_sz (proc_at i st)
     in case find_idx (\<lambda>pp. p_parent pp = Some i \<and> p_state pp = ZOMBIE) (procs st) of
          Some j \<Rightarrow>
            bindE (if addr \<noteq> 0
                   then on_mem (copyout (a_end env) pt sz addr (bytes32 (word_of_int (p_xstate (proc_at j st))))) st
                   else Inr (0, st)) (\<lambda>(r, st1).
              if r < 0 then Inr (Some (-1), st1)
              else bindE (freeproc env j (upd_proc j (\<lambda>p. p\<lparr>p_parent := None\<rparr>) st1)) (\<lambda>st2.
                     Inr (Some (p_pid (proc_at j st)), st2)))
        | None \<Rightarrow>
            if \<not> list_ex (\<lambda>pp. p_parent pp = Some i) (procs st) \<or> killed i st
            then Inr (Some (-1), st)
            else bindE (sleep_prepare c (AddrProc i) st) (\<lambda>st1. Inr (None, st1)))"

text \<open>The three figures that \<open>kwaitx\<close> reports.\<close>

definition waitx_wtime :: "proc \<Rightarrow> u32" where
  "waitx_wtime pp =
     (let total_time = (if p_etime pp \<ge> p_ctime pp then p_etime pp - p_ctime pp else 0);
          rtime = p_rtime pp
      in if total_time > rtime then total_time - rtime else 0)"

definition waitx_response :: "proc \<Rightarrow> u32" where
  "waitx_response pp =
     (if p_stime pp \<ge> sint (p_ctime pp) then word_of_int (p_stime pp) - p_ctime pp else 0)"

text \<open>\<open>addr != 0 && copyout(...) < 0\<close>, for one of the figures.\<close>

definition copyout_opt :: "kenv \<Rightarrow> u64 \<Rightarrow> u64 \<Rightarrow> u64 \<Rightarrow> u32 \<Rightarrow> 'z kstate_scheme \<Rightarrow> (int \<times> 'z kstate_scheme) kres" where
  "copyout_opt env pt sz addr v st =
     (if addr \<noteq> 0 then on_mem (copyout (a_end env) pt sz addr (bytes32 v)) st else Inr (0, st))"

definition kwaitx :: "kenv \<Rightarrow> nat \<Rightarrow> u64 \<Rightarrow> u64 \<Rightarrow> u64 \<Rightarrow> u64 \<Rightarrow> 'z kstate_scheme
    \<Rightarrow> (int option \<times> 'z kstate_scheme) kres" where
  "kwaitx env c addr addr_wtime addr_rtime addr_stime st = with_proc c st (\<lambda>i.
     let pt = p_pagetable (proc_at i st); sz = p_sz (proc_at i st)
     in case find_idx (\<lambda>pp. p_parent pp = Some i \<and> p_state pp = ZOMBIE) (procs st) of
          Some j \<Rightarrow>
            let pp = proc_at j st
            in bindE (copyout_opt env pt sz addr (word_of_int (p_xstate pp)) st) (\<lambda>(r, st1).
               if r < 0 then Inr (Some (-1), st1) else
               bindE (copyout_opt env pt sz addr_wtime (waitx_wtime pp) st1) (\<lambda>(r, st2).
               if r < 0 then Inr (Some (-1), st2) else
               bindE (copyout_opt env pt sz addr_rtime (p_rtime pp) st2) (\<lambda>(r, st3).
               if r < 0 then Inr (Some (-1), st3) else
               bindE (copyout_opt env pt sz addr_stime (waitx_response pp) st3) (\<lambda>(r, st4).
               if r < 0 then Inr (Some (-1), st4) else
               bindE (freeproc env j (upd_proc j (\<lambda>p. p\<lparr>p_parent := None\<rparr>) st4)) (\<lambda>st5.
                 Inr (Some (p_pid pp), st5))))))
        | None \<Rightarrow>
            if \<not> list_ex (\<lambda>pp. p_parent pp = Some i) (procs st) \<or> killed i st
            then Inr (Some (-1), st)
            else bindE (sleep_prepare c (AddrProc i) st) (\<lambda>st1. Inr (None, st1)))"

section \<open>The switch in closed form\<close>

lemmas proc_op_defs = upd_proc_def upd_cpu_def acquire_p_def release_p_def with_proc_def myproc_def
  sched_def scheduler_return_def

lemma upd_nth_upd_nth [simp]: "upd_nth i f (upd_nth i g xs) = upd_nth i (\<lambda>x. f (g x)) xs"
  by (simp add: upd_nth_def)

lemma upd_nth_cong: "(i < length xs \<Longrightarrow> f (xs ! i) = g (xs ! i)) \<Longrightarrow> upd_nth i f xs = upd_nth i g xs"
  by (simp add: upd_nth_def)

lemma upd_nth_eq_iff: "upd_nth i f xs = upd_nth i g xs \<longleftrightarrow> (i < length xs \<longrightarrow> f (xs ! i) = g (xs ! i))"
  by (auto simp: upd_nth_def list_update_same_conv list_eq_iff_nth_eq nth_list_update)

text \<open>A hart back in the scheduler's loop.\<close>

definition idle_cpu :: "cpu \<Rightarrow> cpu" where
  "idle_cpu cp = cp\<lparr>c_proc := None, noff := 0, intena := False, sie := False\<rparr>"

text \<open>
  A process on hart \<open>c\<close> outside every critical section: what holds when \<open>yield\<close>, \<open>sleep\<close> or
  \<open>kexit\<close> is called.
\<close>

definition running_at :: "nat \<Rightarrow> nat \<Rightarrow> 'z kstate_scheme \<Rightarrow> bool" where
  "running_at c i st \<longleftrightarrow>
     c < length (cpus st) \<and> i < length (procs st) \<and> myproc c st = Some i \<and> noff (cpus st ! c) = 0"

lemma sched_eq:
  assumes "running_at c i st" and "p_state (f (proc_at i st)) \<noteq> RUNNING"
  shows "sched c (upd_proc i f (acquire_p c st)) =
    Inr (st\<lparr>procs := upd_nth i (\<lambda>p. (f p)\<lparr>p_intena := Some (sie (cpus st ! c))\<rparr>) (procs st),
           cpus := upd_nth c idle_cpu (cpus st)\<rparr>)"
proof -
  have "upd_nth c (\<lambda>_. (cpus st ! c)\<lparr>sie := False, intena := False, c_proc := None, noff := 0\<rparr>) (cpus st)
      = upd_nth c idle_cpu (cpus st)"
    by (intro upd_nth_cong) (simp add: idle_cpu_def)
  with assms show ?thesis
    by (simp add: running_at_def proc_op_defs pop_off_def push_off_def Let_def)
qed

lemma yield_eq:
  "running_at c i st \<Longrightarrow> yield c st =
    Inr (st\<lparr>procs := upd_nth i (\<lambda>p. p\<lparr>p_state := RUNNABLE, p_intena := Some (sie (cpus st ! c))\<rparr>) (procs st),
           cpus := upd_nth c idle_cpu (cpus st)\<rparr>)"
  using sched_eq [of c i st "\<lambda>p. p\<lparr>p_state := RUNNABLE\<rparr>"]
  by (simp add: yield_def with_proc_def running_at_def)

lemma sleep_eq_block:
  "running_at c i st \<Longrightarrow> p_chan (proc_at i st) \<noteq> Null \<Longrightarrow> sleep c st =
    Inr (st\<lparr>procs := upd_nth i (\<lambda>p. p\<lparr>p_state := SLEEPING, mlfq_ticks_used := 0,
                                     p_intena := Some (sie (cpus st ! c))\<rparr>) (procs st),
           cpus := upd_nth c idle_cpu (cpus st)\<rparr>)"
  using sched_eq [of c i st "\<lambda>p. p\<lparr>p_state := SLEEPING, mlfq_ticks_used := 0\<rparr>"]
  by (simp add: sleep_def with_proc_def running_at_def Let_def acquire_p_def upd_cpu_def)

text \<open>A critical section that does not switch leaves the hart as it was, but for \<open>intena\<close>.\<close>

lemma release_acquire:
  assumes "c < length (cpus st)" and "noff (cpus st ! c) = 0"
  shows "release_p c (acquire_p c st) = Inr (upd_cpu c (\<lambda>cp. cp\<lparr>intena := sie cp\<rparr>) st)"
  using assms
  by (simp add: proc_op_defs pop_off_def push_off_def Let_def)
    (auto intro!: kstate.equality simp: upd_nth_eq_iff)

lemma sleep_eq_return:
  "running_at c i st \<Longrightarrow> p_chan (proc_at i st) = Null \<Longrightarrow>
    sleep c st = Inr (upd_cpu c (\<lambda>cp. cp\<lparr>intena := sie cp\<rparr>) st)"
  using release_acquire [of c st]
  by (simp add: sleep_def with_proc_def running_at_def Let_def acquire_p_def upd_cpu_def)

lemma dispatch_resume_eq:
  assumes "c < length (cpus st)" and "i < length (procs st)" and "noff (cpus st ! c) = 0"
  shows "\<exists>b. resume c (dispatch c i st) =
    Inr (st\<lparr>procs := upd_nth i (\<lambda>p. (first_run (ticks st) p)\<lparr>p_state := RUNNING\<rparr>) (procs st),
           cpus := upd_nth c (\<lambda>cp. cp\<lparr>c_proc := Some i, noff := 0, intena := b, sie := b\<rparr>) (cpus st)\<rparr>)"
proof -
  define b where "b = (case p_intena (first_run (ticks st) (proc_at i st)) of Some x \<Rightarrow> x | None \<Rightarrow> False)"
  show ?thesis
    using assms by (intro exI [of _ b])
      (auto simp: resume_def dispatch_def proc_op_defs pop_off_def push_off_def Let_def b_def upd_nth_eq_iff
        intro!: kstate.equality split: option.splits)
qed
section \<open>The invariant of the table\<close>

text \<open>
  The processes on the harts, in hart order; a process is \<open>RUNNING\<close> exactly when one hart
  runs it, and no two harts run the same one.
\<close>

definition running :: "cpu list \<Rightarrow> nat list" where
  "running cs = List.map_filter c_proc cs"

definition run_ok :: "proc list \<Rightarrow> cpu list \<Rightarrow> bool" where
  "run_ok ps cs \<longleftrightarrow> distinct (running cs) \<and>
     set (running cs) = {i. i < length ps \<and> p_state (ps ! i) = RUNNING}"

lemma running_simps [simp]:
  "running [] = []"
  "running (c # cs) = (case c_proc c of None \<Rightarrow> running cs | Some i \<Rightarrow> i # running cs)"
  "running (xs @ ys) = running xs @ running ys"
  by (auto simp: running_def List.map_filter_def split: option.splits)

lemma running_split:
  "c < length cs \<Longrightarrow> running cs = running (take c cs) @ running [cs ! c] @ running (drop (Suc c) cs)"
  using arg_cong [OF id_take_nth_drop, of c cs running] by (simp split: option.splits)

lemma running_upd:
  "c < length cs \<Longrightarrow>
    running (upd_nth c g cs) = running (take c cs) @ running [g (cs ! c)] @ running (drop (Suc c) cs)"
  using running_split [of c "upd_nth c g cs"] by (simp add: upd_nth_def)

text \<open>A sleeping process has a channel, and every hart is outside its critical sections.\<close>

definition chan_ok :: "proc \<Rightarrow> bool" where
  "chan_ok p \<longleftrightarrow> (p_state p = SLEEPING \<longrightarrow> p_chan p \<noteq> Null)"

definition proc_inv :: "'z kstate_scheme \<Rightarrow> bool" where
  "proc_inv st \<longleftrightarrow> run_ok (procs st) (cpus st) \<and> list_all chan_ok (procs st)
     \<and> list_all (\<lambda>cp. noff cp = 0) (cpus st)"

lemma proc_inv_running:
  "proc_inv st \<Longrightarrow> c < length (cpus st) \<Longrightarrow> myproc c st = Some i \<Longrightarrow>
    running_at c i st \<and> p_state (proc_at i st) = RUNNING"
  using running_split [of c "cpus st"]
  by (auto simp: proc_inv_def run_ok_def running_at_def myproc_def list_all_length)

text \<open>Operations that change neither who runs nor where.\<close>

lemma run_ok_cong:
  assumes "run_ok ps cs" and "map c_proc cs' = map c_proc cs" and "length ps' = length ps"
    and "\<And>j. j < length ps \<Longrightarrow> p_state (ps' ! j) = RUNNING \<longleftrightarrow> p_state (ps ! j) = RUNNING"
  shows "run_ok ps' cs'"
proof -
  have "running cs' = map the (filter (\<lambda>x. x \<noteq> None) (map c_proc cs'))"
    by (simp add: running_def List.map_filter_def filter_map comp_def)
  also have "\<dots> = running cs"
    by (simp add: assms(2)) (simp add: running_def List.map_filter_def filter_map comp_def)
  finally have "running cs' = running cs" .
  with assms(1,3,4) show ?thesis by (auto simp: run_ok_def)
qed

lemma proc_inv_cong:
  assumes "proc_inv st" and "cpus st' = cpus st" and "length (procs st') = length (procs st)"
    and "\<And>j. j < length (procs st) \<Longrightarrow> p_state (proc_at j st') = RUNNING \<longleftrightarrow> p_state (proc_at j st) = RUNNING"
    and "\<And>j. j < length (procs st) \<Longrightarrow> chan_ok (proc_at j st) \<Longrightarrow> chan_ok (proc_at j st')"
  shows "proc_inv st'"
  using assms run_ok_cong [of "procs st" "cpus st" "cpus st'" "procs st'"]
  by (auto simp: proc_inv_def list_all_length)

lemma proc_inv_upd_proc:
  assumes "proc_inv st"
    and "i < length (procs st) \<Longrightarrow> p_state (f (proc_at i st)) = RUNNING \<longleftrightarrow> p_state (proc_at i st) = RUNNING"
    and "i < length (procs st) \<Longrightarrow> chan_ok (proc_at i st) \<Longrightarrow> chan_ok (f (proc_at i st))"
  shows "proc_inv (upd_proc i f st)"
  by (rule proc_inv_cong [OF assms(1)]) (use assms in \<open>auto simp: upd_proc_def nth_upd_nth\<close>)

lemma proc_inv_mem [simp]: "proc_inv (st\<lparr>kmemory := km\<rparr>) = proc_inv st"
  by (simp add: proc_inv_def)

lemma proc_inv_misc [simp]:
  "proc_inv (st\<lparr>mlfq_global_seq := s\<rparr>) = proc_inv st"
  "proc_inv (st\<lparr>nextpid := n\<rparr>) = proc_inv st"
  "proc_inv (st\<lparr>ticks := t\<rparr>) = proc_inv st"
  "proc_inv (st\<lparr>mlfq_trace := tr\<rparr>) = proc_inv st"
  by (simp_all add: proc_inv_def)

text \<open>Leaving the hart for the scheduler, and entering it.\<close>

lemma run_ok_leave:
  assumes "run_ok ps cs" and "c < length cs" and "c_proc (cs ! c) = Some i" and "p_state (f (ps ! i)) \<noteq> RUNNING"
  shows "run_ok (upd_nth i f ps) (upd_nth c idle_cpu cs)"
proof -
  have r: "running cs = running (take c cs) @ i # running (drop (Suc c) cs)"
    using running_split [OF assms(2)] assms(3) by simp
  then have i: "i < length ps" using assms(1) by (auto simp: run_ok_def)
  have "running (upd_nth c idle_cpu cs) = running (take c cs) @ running (drop (Suc c) cs)"
    using running_upd [OF assms(2)] by (simp add: idle_cpu_def)
  moreover have "{j. j < length (upd_nth i f ps) \<and> p_state (upd_nth i f ps ! j) = RUNNING}
      = {j. j < length ps \<and> p_state (ps ! j) = RUNNING} - {i}"
    using assms(4) i by (auto simp: nth_upd_nth split: if_splits)
  ultimately show ?thesis using assms(1) r by (auto simp: run_ok_def)
qed

lemma run_ok_enter:
  assumes "run_ok ps cs" and "c < length cs" and "c_proc (cs ! c) = None" and "i < length ps"
    and "p_state (ps ! i) \<noteq> RUNNING" and "p_state (f (ps ! i)) = RUNNING" and "\<And>cp. c_proc (g cp) = Some i"
  shows "run_ok (upd_nth i f ps) (upd_nth c g cs)"
proof -
  have r: "running cs = running (take c cs) @ running (drop (Suc c) cs)"
    using running_split [OF assms(2)] assms(3) by simp
  have "running (upd_nth c g cs) = running (take c cs) @ i # running (drop (Suc c) cs)"
    using running_upd [OF assms(2)] assms(7) by simp
  moreover have "{j. j < length (upd_nth i f ps) \<and> p_state (upd_nth i f ps ! j) = RUNNING}
      = insert i {j. j < length ps \<and> p_state (ps ! j) = RUNNING}"
    using assms(4,6) by (auto simp: nth_upd_nth split: if_splits)
  moreover have "i \<notin> set (running cs)" using assms(1,5) by (auto simp: run_ok_def)
  ultimately show ?thesis using assms(1) r by (auto simp: run_ok_def)
qed

lemma noff_upd: "list_all (\<lambda>cp. noff cp = 0) cs \<Longrightarrow> (\<And>cp. noff cp = 0 \<Longrightarrow> noff (g cp) = 0) \<Longrightarrow>
    list_all (\<lambda>cp. noff cp = 0) (upd_nth c g cs)"
  by (rule list_all_upd_nth) (auto simp: list_all_length)

lemma proc_inv_leave:
  assumes "proc_inv st" and "running_at c i st" and "p_state (f (proc_at i st)) \<noteq> RUNNING"
    and "chan_ok (proc_at i st) \<Longrightarrow> chan_ok (f (proc_at i st))"
  shows "proc_inv (st\<lparr>procs := upd_nth i f (procs st), cpus := upd_nth c idle_cpu (cpus st)\<rparr>)"
  using assms run_ok_leave [of "procs st" "cpus st" c i f]
  by (auto simp: proc_inv_def running_at_def myproc_def idle_cpu_def intro!: list_all_upd_nth noff_upd)

lemma proc_inv_enter:
  assumes "proc_inv st" and "c < length (cpus st)" and "myproc c st = None" and "i < length (procs st)"
    and "p_state (proc_at i st) = RUNNABLE" and "resume c (dispatch c i st) = Inr st'"
  shows "proc_inv st'"
proof -
  have "noff (cpus st ! c) = 0" using assms(1,2) by (simp add: proc_inv_def list_all_length)
  from dispatch_resume_eq [OF assms(2,4) this] assms(6) obtain b where st':
    "st' = st\<lparr>procs := upd_nth i (\<lambda>p. (first_run (ticks st) p)\<lparr>p_state := RUNNING\<rparr>) (procs st),
       cpus := upd_nth c (\<lambda>cp. cp\<lparr>c_proc := Some i, noff := 0, intena := b, sie := b\<rparr>) (cpus st)\<rparr>" by auto
  have "run_ok (procs st') (cpus st')"
    unfolding st' using assms by (simp, intro run_ok_enter) (auto simp: proc_inv_def myproc_def)
  then show ?thesis using assms(1)
    by (auto simp: proc_inv_def st' chan_ok_def intro!: list_all_upd_nth noff_upd)
qed
section \<open>What the operations do to the table\<close>

text \<open>
  The woken processes are those asleep on the channel; each takes the next sequence number, in
  table order.
\<close>

abbreviation asleep_on :: "kaddr \<Rightarrow> proc \<Rightarrow> bool" where
  "asleep_on chan p \<equiv> p_chan p = chan \<and> p_state p = SLEEPING"

definition woken :: "kaddr \<Rightarrow> u64 \<Rightarrow> proc \<Rightarrow> proc" where
  "woken chan s p =
     (if p_chan p = chan
      then if p_state p = SLEEPING then p\<lparr>p_chan := Null, p_state := RUNNABLE, mlfq_enter_seq := s\<rparr>
           else p\<lparr>p_chan := Null\<rparr>
      else p)"

text \<open>
  \<open>wakeup\<close> and the boost have the same shape: walk the table, give each selected process the
  next sequence number.
\<close>

fun seq_map :: "(proc \<Rightarrow> bool) \<Rightarrow> (u64 \<Rightarrow> proc \<Rightarrow> proc) \<Rightarrow> u64 \<Rightarrow> proc list \<Rightarrow> u64 \<times> proc list" where
  "seq_map sel f s [] = (s, [])"
| "seq_map sel f s (p # ps) =
     (let s1 = (if sel p then s + 1 else s); (s', ps') = seq_map sel f s1 ps in (s', f s1 p # ps'))"

lemma seq_map_spec:
  "seq_map sel f s ps = (s', ps') \<Longrightarrow>
    length ps' = length ps \<and> s' = s + of_nat (length (filter sel ps)) \<and>
    (\<forall>j<length ps. ps' ! j = f (s + of_nat (length (filter sel (take (Suc j) ps)))) (ps ! j))"
proof (induction ps arbitrary: s s' ps')
  case (Cons p ps)
  let ?s1 = "if sel p then s + 1 else s"
  obtain t qs where r: "seq_map sel f ?s1 ps = (t, qs)" by fastforce
  note IH = Cons.IH [OF r]
  have st: "s' = t" "ps' = f ?s1 p # qs" using Cons.prems r by (auto simp: Let_def)
  have "ps' ! j = f (s + of_nat (length (filter sel (take (Suc j) (p # ps))))) ((p # ps) ! j)"
    if "j < length (p # ps)" for j
    using that st(2) IH by (cases j) (auto simp: add.assoc)
  with st IH show ?case by simp
qed simp

lemma wakeup_loop_seq_map: "wakeup_loop chan s ps = seq_map (asleep_on chan) (woken chan) s ps"
  by (induction chan s ps rule: wakeup_loop.induct) (auto simp: woken_def Let_def split: prod.splits)

lemma wakeup_procs:
  "length (procs (wakeup chan st)) = length (procs st)"
  "j < length (procs st) \<Longrightarrow> proc_at j (wakeup chan st) =
     woken chan (mlfq_global_seq st + of_nat (length (filter (asleep_on chan) (take (Suc j) (procs st))))) (proc_at j st)"
  "mlfq_global_seq (wakeup chan st) = mlfq_global_seq st + of_nat (length (filter (asleep_on chan) (procs st)))"
  using seq_map_spec [of "asleep_on chan" "woken chan" "mlfq_global_seq st" "procs st"]
  by (auto simp: wakeup_def wakeup_loop_seq_map split: prod.splits)

lemma wakeup_frame [simp]:
  "cpus (wakeup chan st) = cpus st" "ticks (wakeup chan st) = ticks st" "nextpid (wakeup chan st) = nextpid st"
  "kmemory (wakeup chan st) = kmemory st" "initproc (wakeup chan st) = initproc st"
  "mlfq_trace (wakeup chan st) = mlfq_trace st"
  by (simp_all add: wakeup_def split: prod.splits)

lemma woken_props:
  "p_state (woken chan s p) = RUNNING \<longleftrightarrow> p_state p = RUNNING"
  "chan_ok p \<Longrightarrow> chan_ok (woken chan s p)"
  "p_pid (woken chan s p) = p_pid p" "p_parent (woken chan s p) = p_parent p"
  "mlfq_queue (woken chan s p) = mlfq_queue p" "mlfq_ticks_used (woken chan s p) = mlfq_ticks_used p"
  by (auto simp: woken_def chan_ok_def)

lemma proc_inv_wakeup: "proc_inv st \<Longrightarrow> proc_inv (wakeup chan st)"
  by (erule proc_inv_cong) (auto simp: wakeup_procs woken_props)

lemma proc_inv_kkill: "proc_inv st \<Longrightarrow> proc_inv (snd (kkill pid st))"
  by (auto simp: kkill_def mlfq_next_seq_def Let_def chan_ok_def intro!: proc_inv_upd_proc split: option.splits)

lemma proc_inv_setkilled: "proc_inv st \<Longrightarrow> proc_inv (setkilled i st)"
  by (auto simp: setkilled_def chan_ok_def intro!: proc_inv_upd_proc)

lemma reparent_loop_inv: "proc_inv st \<Longrightarrow> proc_inv (reparent_loop i js st)"
proof (induction js arbitrary: st)
  case (Cons j js)
  have "proc_inv (upd_proc j (\<lambda>p. p\<lparr>p_parent := initproc st\<rparr>) st)"
    using Cons.prems by (rule proc_inv_upd_proc) (simp_all add: chan_ok_def)
  then show ?case using Cons by (simp add: proc_inv_wakeup)
qed simp

lemma reparent_loop_frame [simp]:
  "cpus (reparent_loop i js st) = cpus st" "length (procs (reparent_loop i js st)) = length (procs st)"
  "ticks (reparent_loop i js st) = ticks st" "nextpid (reparent_loop i js st) = nextpid st"
  by (induction js arbitrary: st) (simp_all add: upd_proc_def wakeup_procs)

lemma running_at_frame:
  "running_at c i st \<Longrightarrow> cpus st' = cpus st \<Longrightarrow> length (procs st') = length (procs st) \<Longrightarrow> running_at c i st'"
  by (simp add: running_at_def myproc_def)

lemma exit_proc_eq:
  assumes "running_at c i st"
  defines "st2 \<equiv> wakeup (parent_addr (p_parent (proc_at i (reparent i st)))) (reparent i st)"
  shows "exit_proc c status st =
    Inr (st2\<lparr>procs := upd_nth i (\<lambda>p. p\<lparr>p_etime := ticks st2, p_xstate := status, p_state := ZOMBIE,
                                      p_intena := Some (sie (cpus st2 ! c))\<rparr>) (procs st2),
            cpus := upd_nth c idle_cpu (cpus st2)\<rparr>)"
proof -
  have "running_at c i st2"
    using assms(1) by (rule running_at_frame) (simp_all add: st2_def reparent_def wakeup_procs)
  from sched_eq [OF this, of "\<lambda>p. p\<lparr>p_etime := ticks st2, p_xstate := status, p_state := ZOMBIE\<rparr>"]
  show ?thesis using assms(1)
    by (simp add: exit_proc_def with_proc_def running_at_def Let_def st2_def acquire_p_def upd_cpu_def)
qed

lemma freeproc_eq:
  "freeproc env i st = Inr st' \<Longrightarrow> \<exists>km. st' = upd_proc i freed_proc (st\<lparr>kmemory := km\<rparr>)"
  by (auto simp: freeproc_def on_mem'_def Let_def split: if_splits)
    (metis kstate.surjective kstate.update_convs(7))

lemma proc_inv_freeproc:
  assumes "proc_inv st" and "p_state (proc_at i st) \<noteq> RUNNING" and "freeproc env i st = Inr st'"
  shows "proc_inv st'"
  using freeproc_eq [OF assms(3)] assms(1,2)
  by (auto intro!: proc_inv_upd_proc simp: freed_proc_def chan_ok_def)

text \<open>A slot that \<open>allocproc\<close> returns, and what a failed \<open>allocproc\<close> leaves behind.\<close>

definition fresh_proc :: "kenv \<Rightarrow> 'z kstate_scheme \<Rightarrow> u64 \<Rightarrow> u64 \<Rightarrow> proc \<Rightarrow> proc" where
  "fresh_proc env st tf pt p = p\<lparr>p_pid := nextpid st, p_state := USED, p_trapframe := tf, p_pagetable := pt,
     p_context := fresh_context env p, p_intena := None, p_ctime := ticks st, p_stime := -1, p_etime := 0,
     p_rtime := 0, mlfq_queue := 0, mlfq_ticks_used := 0, mlfq_total_ticks := 0,
     mlfq_enter_seq := mlfq_global_seq st + 1\<rparr>"

lemma freed_proc_absorb:
  "upd_nth i (\<lambda>p. freed_proc (p\<lparr>p_pid := a, p_state := b, p_trapframe := c\<rparr>)) ps = upd_nth i freed_proc ps"
  "upd_nth i (\<lambda>p. freed_proc (p\<lparr>p_pid := a, p_state := b, p_trapframe := c, p_pagetable := d\<rparr>)) ps = upd_nth i freed_proc ps"
  by (simp_all add: upd_nth_eq_iff freed_proc_def)

lemma allocproc_found_cases:
  assumes "allocproc_found env i st = Inr (r, st')"
  shows "(\<exists>km. r = None \<and> st' = upd_proc i freed_proc (st\<lparr>nextpid := nextpid st + 1, kmemory := km\<rparr>)) \<or>
    (\<exists>km tf pt. r = Some i \<and> tf \<noteq> 0 \<and> pt \<noteq> 0 \<and> st' = upd_proc i (fresh_proc env st tf pt)
         (st\<lparr>nextpid := nextpid st + 1, kmemory := km, mlfq_global_seq := mlfq_global_seq st + 1\<rparr>))"
proof -
  obtain tf km where k: "kalloc (kmemory st) = (tf, km)" by fastforce
  let ?st3 = "st\<lparr>nextpid := nextpid st + 1, kmemory := km,
     procs := upd_nth i (\<lambda>p. p\<lparr>p_pid := nextpid st, p_state := USED, p_trapframe := tf\<rparr>) (procs st)\<rparr>"
  show ?thesis
  proof (cases "tf = 0")
    case True
    with assms k have "freeproc env i ?st3 = Inr st'" "r = None"
      by (auto simp: allocproc_found_def allocpid_def upd_proc_def Let_def)
    from freeproc_eq [OF this(1)] \<open>r = None\<close> show ?thesis
      by (auto simp: upd_proc_def freed_proc_absorb)
  next
    case tf: False
    with assms k obtain pt km4 where pt: "proc_pagetable env tf km = Inr (pt, km4)"
      by (auto simp: allocproc_found_def allocpid_def upd_proc_def Let_def on_mem_def)
    show ?thesis
    proof (cases "pt = 0")
      case True
      let ?st5 = "?st3\<lparr>kmemory := km4, procs := upd_nth i (\<lambda>p. p\<lparr>p_pagetable := pt\<rparr>) (procs ?st3)\<rparr>"
      from True assms k tf pt have "freeproc env i ?st5 = Inr st'" "r = None"
        by (auto simp: allocproc_found_def allocpid_def upd_proc_def Let_def on_mem_def)
      from freeproc_eq [OF this(1)] \<open>r = None\<close> show ?thesis
        by (auto simp: upd_proc_def freed_proc_absorb)
    next
      case False
      with assms k tf pt show ?thesis
        by (intro disjI2 exI [of _ km4] exI [of _ tf] exI [of _ pt])
          (auto simp: allocproc_found_def allocpid_def upd_proc_def Let_def on_mem_def mlfq_next_seq_def
            upd_nth_eq_iff fresh_proc_def fresh_context_def intro!: kstate.equality)
    qed
  qed
qed

lemma allocproc_cases:
  assumes "allocproc env st = Inr (r, st')"
  obtains (full) "r = None" "st' = st" "\<forall>p\<in>set (procs st). p_state p \<noteq> UNUSED"
  | (nomem) i km where "r = None" "i < length (procs st)" "p_state (proc_at i st) = UNUSED"
      "st' = upd_proc i freed_proc (st\<lparr>nextpid := nextpid st + 1, kmemory := km\<rparr>)"
  | (ok) i km tf pt where "r = Some i" "i < length (procs st)" "p_state (proc_at i st) = UNUSED" "tf \<noteq> 0" "pt \<noteq> 0"
      "st' = upd_proc i (fresh_proc env st tf pt)
         (st\<lparr>nextpid := nextpid st + 1, kmemory := km, mlfq_global_seq := mlfq_global_seq st + 1\<rparr>)"
proof (cases "find_idx (\<lambda>p. p_state p = UNUSED) (procs st)")
  case None
  with assms that(1) show ?thesis by (auto simp: allocproc_def find_idx_None)
next
  case (Some i)
  with assms have "allocproc_found env i st = Inr (r, st')" by (simp add: allocproc_def)
  from allocproc_found_cases [OF this] find_idxD [OF Some] that(2,3) show ?thesis by blast
qed

text \<open>The outcomes of \<open>kwait\<close> and of \<open>kwaitx\<close>.\<close>

definition zombie_child :: "nat \<Rightarrow> proc \<Rightarrow> bool" where
  "zombie_child i pp \<longleftrightarrow> p_parent pp = Some i \<and> p_state pp = ZOMBIE"

definition wait_outcome :: "nat \<Rightarrow> int option \<Rightarrow> 'z kstate_scheme \<Rightarrow> 'z kstate_scheme \<Rightarrow> bool" where
  "wait_outcome i r st st' \<longleftrightarrow>
     (\<exists>km. r = Some (-1) \<and> st' = st\<lparr>kmemory := km\<rparr>) \<or>
     (\<exists>j km. r = Some (p_pid (proc_at j st)) \<and> j < length (procs st) \<and> zombie_child i (proc_at j st) \<and>
        (\<forall>k<j. \<not> zombie_child i (proc_at k st)) \<and>
        st' = upd_proc j (\<lambda>p. freed_proc (p\<lparr>p_parent := None\<rparr>)) (st\<lparr>kmemory := km\<rparr>)) \<or>
     (r = None \<and> list_ex (\<lambda>pp. p_parent pp = Some i) (procs st) \<and> \<not> list_ex (zombie_child i) (procs st) \<and>
        \<not> killed i st \<and> st' = upd_proc i (\<lambda>p. p\<lparr>p_chan := AddrProc i\<rparr>) st)"

lemma wait_reap:
  assumes "freeproc env j (upd_proc j (\<lambda>p. p\<lparr>p_parent := None\<rparr>) (st\<lparr>kmemory := km\<rparr>)) = Inr st'"
  shows "\<exists>km'. st' = upd_proc j (\<lambda>p. freed_proc (p\<lparr>p_parent := None\<rparr>)) (st\<lparr>kmemory := km'\<rparr>)"
  using freeproc_eq [OF assms] by (auto simp: upd_proc_def)

lemma on_mem_km: "on_mem f st = Inr (r, st') \<Longrightarrow> \<exists>km. st' = st\<lparr>kmemory := km\<rparr>"
  by (auto simp: on_mem_def)

lemma copyout_opt_km: "copyout_opt env pt sz a v st = Inr (r, st') \<Longrightarrow> \<exists>km. st' = st\<lparr>kmemory := km\<rparr>"
  by (cases "a = 0") (auto simp: copyout_opt_def on_mem_def intro: exI [of _ "kmemory st"])

lemma find_zombie:
  "find_idx (\<lambda>pp. p_parent pp = Some i \<and> p_state pp = ZOMBIE) (procs st) = find_idx (zombie_child i) (procs st)"
  by (rule arg_cong [of _ _ "\<lambda>f. find_idx f (procs st)"]) (simp add: fun_eq_iff zombie_child_def)

text \<open>The common shape, with \<open>out i j\<close> the copies to the caller's memory.\<close>

definition wait_gen :: "kenv \<Rightarrow> nat \<Rightarrow> (nat \<Rightarrow> nat \<Rightarrow> 'z kstate_scheme \<Rightarrow> (int \<times> 'z kstate_scheme) kres)
    \<Rightarrow> 'z kstate_scheme \<Rightarrow> (int option \<times> 'z kstate_scheme) kres" where
  "wait_gen env c out st = with_proc c st (\<lambda>i.
     case find_idx (zombie_child i) (procs st) of
       Some j \<Rightarrow>
         bindE (out i j st) (\<lambda>(r, st1).
           if r < 0 then Inr (Some (-1), st1)
           else bindE (freeproc env j (upd_proc j (\<lambda>p. p\<lparr>p_parent := None\<rparr>) st1)) (\<lambda>st2.
                  Inr (Some (p_pid (proc_at j st)), st2)))
     | None \<Rightarrow>
         if \<not> list_ex (\<lambda>pp. p_parent pp = Some i) (procs st) \<or> killed i st
         then Inr (Some (-1), st)
         else bindE (sleep_prepare c (AddrProc i) st) (\<lambda>st1. Inr (None, st1)))"

definition waitx_out :: "kenv \<Rightarrow> u64 \<Rightarrow> u64 \<Rightarrow> u64 \<Rightarrow> u64 \<Rightarrow> nat \<Rightarrow> nat \<Rightarrow> 'z kstate_scheme
    \<Rightarrow> (int \<times> 'z kstate_scheme) kres" where
  "waitx_out env addr aw ar as i j st =
     (let pt = p_pagetable (proc_at i st); sz = p_sz (proc_at i st); pp = proc_at j st
      in bindE (copyout_opt env pt sz addr (word_of_int (p_xstate pp)) st) (\<lambda>(r, st1).
         if r < 0 then Inr (-1, st1) else
         bindE (copyout_opt env pt sz aw (waitx_wtime pp) st1) (\<lambda>(r, st2).
         if r < 0 then Inr (-1, st2) else
         bindE (copyout_opt env pt sz ar (p_rtime pp) st2) (\<lambda>(r, st3).
         if r < 0 then Inr (-1, st3) else
         copyout_opt env pt sz as (waitx_response pp) st3))))"

lemma bindE_assoc: "bindE (bindE m f) g = bindE m (\<lambda>x. bindE (f x) g)"
  by (cases m) simp_all

lemma kwait_gen:
  "kwait env c addr st = wait_gen env c (\<lambda>i j st. copyout_opt env (p_pagetable (proc_at i st)) (p_sz (proc_at i st))
     addr (word_of_int (p_xstate (proc_at j st))) st) st"
  by (simp add: kwait_def wait_gen_def find_zombie copyout_opt_def Let_def)

lemma bindE_if: "bindE (if b then m else n) f = (if b then bindE m f else bindE n f)"
  by simp

lemma kwaitx_gen: "kwaitx env c addr aw ar as st = wait_gen env c (waitx_out env addr aw ar as) st"
  unfolding kwaitx_def wait_gen_def waitx_out_def find_zombie Let_def bindE_assoc
  by (auto simp: with_proc_def bindE_assoc bindE_if bindE_def split: option.splits sum.splits prod.splits)

lemma waitx_out_km: "waitx_out env addr aw ar as i j st = Inr (r, st') \<Longrightarrow> \<exists>km. st' = st\<lparr>kmemory := km\<rparr>"
  by (auto simp: waitx_out_def Let_def split: if_splits dest!: copyout_opt_km)

lemma wait_gen_outcome:
  assumes "wait_gen env c out st = Inr (r, st')" and "myproc c st = Some i"
    and out: "\<And>i j r st st'. out i j st = Inr (r, st') \<Longrightarrow> \<exists>km. st' = st\<lparr>kmemory := km\<rparr>"
  shows "wait_outcome i r st st'"
proof (cases "find_idx (zombie_child i) (procs st)")
  case None
  then have nz: "\<not> list_ex (zombie_child i) (procs st)" by (simp add: find_idx_None list_ex_iff)
  show ?thesis
  proof (cases "\<not> list_ex (\<lambda>pp. p_parent pp = Some i) (procs st) \<or> killed i st")
    case True
    with None assms(1,2) have "r = Some (-1)" "st' = st\<lparr>kmemory := kmemory st\<rparr>"
      by (simp_all add: wait_gen_def with_proc_def)
    then show ?thesis unfolding wait_outcome_def by blast
  next
    case False
    with None assms(1,2) have "r = None" "st' = upd_proc i (\<lambda>p. p\<lparr>p_chan := AddrProc i\<rparr>) st"
      by (simp_all add: wait_gen_def with_proc_def sleep_prepare_def)
    with False nz show ?thesis unfolding wait_outcome_def by blast
  qed
next
  case (Some j)
  then have j: "j < length (procs st)" "zombie_child i (proc_at j st)" "\<forall>k<j. \<not> zombie_child i (proc_at k st)"
    by (simp_all add: find_idx_Some)
  from assms(1,2) Some obtain q st1 where q: "out i j st = Inr (q, st1)"
    by (auto simp: wait_gen_def with_proc_def)
  with out obtain km where km: "st1 = st\<lparr>kmemory := km\<rparr>" by blast
  show ?thesis
  proof (cases "q < 0")
    case True
    with assms(1,2) Some q km have "r = Some (-1) \<and> st' = st\<lparr>kmemory := km\<rparr>"
      by (simp add: wait_gen_def with_proc_def)
    then show ?thesis unfolding wait_outcome_def by blast
  next
    case False
    with assms(1,2) Some q km have "freeproc env j (upd_proc j (\<lambda>p. p\<lparr>p_parent := None\<rparr>) (st\<lparr>kmemory := km\<rparr>)) = Inr st'"
      "r = Some (p_pid (proc_at j st))"
      by (simp_all add: wait_gen_def with_proc_def)
    with wait_reap [OF this(1)] j show ?thesis unfolding wait_outcome_def by blast
  qed
qed

lemma kwait_outcome:
  "kwait env c addr st = Inr (r, st') \<Longrightarrow> myproc c st = Some i \<Longrightarrow> wait_outcome i r st st'"
  unfolding kwait_gen by (rule wait_gen_outcome) (auto dest: copyout_opt_km)

lemma kwaitx_outcome:
  "kwaitx env c addr aw ar as st = Inr (r, st') \<Longrightarrow> myproc c st = Some i \<Longrightarrow> wait_outcome i r st st'"
  unfolding kwaitx_gen by (rule wait_gen_outcome) (auto dest: waitx_out_km)

lemma proc_inv_wait:
  assumes "proc_inv st" and "wait_outcome i r st st'"
  shows "proc_inv st'"
  using assms(2) unfolding wait_outcome_def zombie_child_def
  by (elim disjE exE conjE)
    (use assms(1) in \<open>auto intro!: proc_inv_upd_proc simp: freed_proc_def chan_ok_def\<close>)

end
