(* ===== verification/Mlfq.thy ===== *)
theory Mlfq
  imports Proc
begin

text \<open>
  The schedulers: the multi-level feedback queue of \<open>xv6/kernel/proc.c\<close> (\<open>SCHEDULER_MLFQ\<close>)
  with its timer handler, priority boost and the clock interrupt of \<open>trap.c\<close> that drives
  them, and the first-in-first-out and round-robin schedulers that the other builds compile in
  its place. A queue is not a data structure of the code: it is the set of \<open>RUNNABLE\<close>
  processes with the same \<open>mlfq_queue\<close>, ordered by \<open>mlfq_enter_seq\<close>.
\<close>

section \<open>Boost, preemption test and timer handler\<close>

fun mlfq_boost_loop :: "u64 \<Rightarrow> proc list \<Rightarrow> u64 \<times> proc list" where
  "mlfq_boost_loop s [] = (s, [])"
| "mlfq_boost_loop s (p # ps) =
     (if p_state p \<noteq> UNUSED \<and> p_state p \<noteq> ZOMBIE
      then let (s', ps') = mlfq_boost_loop (s + 1) ps
           in (s', p\<lparr>mlfq_queue := 0, mlfq_ticks_used := 0, mlfq_enter_seq := s + 1\<rparr> # ps')
      else let (s', ps') = mlfq_boost_loop s ps in (s', p # ps'))"

definition mlfq_boost :: "'z kstate_scheme \<Rightarrow> 'z kstate_scheme" where
  "mlfq_boost st =
     (let (s, ps) = mlfq_boost_loop (mlfq_global_seq st) (procs st)
      in st\<lparr>mlfq_global_seq := s, procs := ps\<rparr>)"

definition mlfq_has_higher_priority :: "int \<Rightarrow> 'z kstate_scheme \<Rightarrow> bool" where
  "mlfq_has_higher_priority cur_q st =
     list_ex (\<lambda>p. p_state p = RUNNABLE \<and> mlfq_queue p < cur_q) (procs st)"

definition mlfq_timeslice :: "int \<Rightarrow> int" where
  "mlfq_timeslice q = [1, 4, 8, 16] ! nat q"

definition boost_tick :: "u32 \<Rightarrow> bool" where
  "boost_tick t \<longleftrightarrow> t > 0 \<and> t mod 48 = 0"

definition mlfq_print :: "nat \<Rightarrow> 'z kstate_scheme \<Rightarrow> 'z kstate_scheme" where
  "mlfq_print i st =
     (if p_pid (proc_at i st) \<ge> 3
      then st\<lparr>mlfq_trace := (ticks st, p_pid (proc_at i st), mlfq_queue (proc_at i st)) # mlfq_trace st\<rparr>
      else st)"

definition mlfq_tick_handler :: "nat \<Rightarrow> 'z kstate_scheme \<Rightarrow> bool \<times> 'z kstate_scheme" where
  "mlfq_tick_handler i st =
     (let st1 = upd_proc i (\<lambda>p. p\<lparr>mlfq_ticks_used := mlfq_ticks_used p + 1,
                                 mlfq_total_ticks := mlfq_total_ticks p + 1,
                                 p_rtime := p_rtime p + 1\<rparr>) st;
          st2 = mlfq_print i st1;
          boosted = boost_tick (ticks st2);
          p = proc_at i st2
      in if mlfq_ticks_used p \<ge> mlfq_timeslice (mlfq_queue p)
         then let (s, st3) = mlfq_next_seq st2
              in (True, upd_proc i (\<lambda>p. p\<lparr>mlfq_ticks_used := 0,
                                         mlfq_queue := (if mlfq_queue p < 3 then mlfq_queue p + 1 else mlfq_queue p),
                                         mlfq_enter_seq := s\<rparr>) st3)
         else (boosted \<or> mlfq_has_higher_priority (mlfq_queue p) st2, st2))"

section \<open>Choosing a process\<close>

text \<open>
  The inner loop of the scheduler: the best candidate of queue \<open>q\<close> in the rest of the table,
  which starts at index \<open>k\<close>.
\<close>

fun mlfq_scan :: "int \<Rightarrow> nat \<Rightarrow> proc list \<Rightarrow> (nat \<times> u64) option \<Rightarrow> (nat \<times> u64) option" where
  "mlfq_scan q k [] best = best"
| "mlfq_scan q k (p # ps) best =
     mlfq_scan q (Suc k) ps
       (if p_state p = RUNNABLE \<and> mlfq_queue p = q
        then case best of
               None \<Rightarrow> Some (k, mlfq_enter_seq p)
             | Some (b, best_seq) \<Rightarrow> if mlfq_enter_seq p < best_seq then Some (k, mlfq_enter_seq p) else best
        else best)"

fun mlfq_select :: "int list \<Rightarrow> proc list \<Rightarrow> nat option" where
  "mlfq_select [] ps = None"
| "mlfq_select (q # qs) ps =
     (case mlfq_scan q 0 ps None of
        Some (b, _) \<Rightarrow> if p_state (ps ! b) = RUNNABLE \<and> mlfq_queue (ps ! b) = q then Some b else mlfq_select qs ps
      | None \<Rightarrow> mlfq_select qs ps)"

abbreviation mlfq_pick :: "proc list \<Rightarrow> nat option" where
  "mlfq_pick ps \<equiv> mlfq_select [0, 1, 2, 3] ps"

text \<open>The loop of the FIFO scheduler: the smallest pid.\<close>

fun fifo_scan :: "nat \<Rightarrow> proc list \<Rightarrow> nat option \<times> int \<Rightarrow> nat option" where
  "fifo_scan k [] (best, min_pid) = best"
| "fifo_scan k (p # ps) (best, min_pid) =
     fifo_scan (Suc k) ps
       (if p_state p = RUNNABLE \<and> p_pid p < min_pid then (Some k, p_pid p) else (best, min_pid))"

definition fifo_pick :: "proc list \<Rightarrow> nat option" where
  "fifo_pick ps = fifo_scan 0 ps (None, 0x7fffffff)"

text \<open>
  The round-robin scheduler walks the table and runs each \<open>RUNNABLE\<close> process it meets: from
  position \<open>k\<close> the next one is the first at \<open>k\<close> or after it, and a pass that reaches the end
  starts again at 0.
\<close>

definition rr_next :: "nat \<Rightarrow> proc list \<Rightarrow> nat option" where
  "rr_next k ps = map_option ((+) k) (find_idx (\<lambda>p. p_state p = RUNNABLE) (drop k ps))"

definition rr_pick :: "nat \<Rightarrow> proc list \<Rightarrow> nat option" where
  "rr_pick k ps = (case rr_next k ps of Some i \<Rightarrow> Some i | None \<Rightarrow> rr_next 0 ps)"

text \<open>
  One turn of the scheduler's loop on hart \<open>c\<close> up to \<open>swtch\<close>; \<open>None\<close> is the wait for an
  interrupt.
\<close>

definition scheduler_mlfq :: "nat \<Rightarrow> 'z kstate_scheme \<Rightarrow> 'z kstate_scheme option" where
  "scheduler_mlfq c st =
     (case mlfq_pick (procs st) of
        None \<Rightarrow> None
      | Some i \<Rightarrow> Some (dispatch c i (mlfq_print i st)))"

definition scheduler_fifo :: "nat \<Rightarrow> 'z kstate_scheme \<Rightarrow> 'z kstate_scheme option" where
  "scheduler_fifo c st =
     (case fifo_pick (procs st) of None \<Rightarrow> None
      | Some i \<Rightarrow> if p_state (proc_at i st) = RUNNABLE then Some (dispatch c i st) else None)"

definition scheduler_rr :: "nat \<Rightarrow> nat \<Rightarrow> 'z kstate_scheme \<Rightarrow> 'z kstate_scheme option" where
  "scheduler_rr k c st =
     (case rr_pick k (procs st) of None \<Rightarrow> None | Some i \<Rightarrow> Some (dispatch c i st))"

section \<open>The clock\<close>

definition clockintr :: "nat \<Rightarrow> 'z kstate_scheme \<Rightarrow> 'z kstate_scheme" where
  "clockintr c st =
     (if c = 0
      then let st1 = st\<lparr>ticks := ticks st + 1\<rparr>;
               st2 = wakeup AddrTicks st1
           in if boost_tick (ticks st2) then mlfq_boost st2 else st2
      else st)"

text \<open>
  What the traps do on a timer interrupt once \<open>devintr\<close> has run \<open>clockintr\<close>: the tail of
  \<open>usertrap\<close> and of \<open>kerneltrap\<close> with \<open>which_dev == 2\<close>, in the three builds.
\<close>

definition timer_mlfq :: "nat \<Rightarrow> 'z kstate_scheme \<Rightarrow> 'z kstate_scheme kres" where
  "timer_mlfq c st =
     (case myproc c st of
        None \<Rightarrow> Inr st
      | Some i \<Rightarrow> let (b, st1) = mlfq_tick_handler i st in if b then yield c st1 else Inr st1)"

definition count_rtime :: "nat \<Rightarrow> 'z kstate_scheme \<Rightarrow> 'z kstate_scheme" where
  "count_rtime i st = upd_proc i (\<lambda>p. p\<lparr>p_rtime := p_rtime p + 1\<rparr>) st"

definition timer_fifo :: "nat \<Rightarrow> 'z kstate_scheme \<Rightarrow> 'z kstate_scheme kres" where
  "timer_fifo c st = (case myproc c st of None \<Rightarrow> Inr st | Some i \<Rightarrow> Inr (count_rtime i st))"

definition timer_rr :: "nat \<Rightarrow> 'z kstate_scheme \<Rightarrow> 'z kstate_scheme kres" where
  "timer_rr c st = (case myproc c st of None \<Rightarrow> Inr st | Some i \<Rightarrow> yield c (count_rtime i st))"

section \<open>The choice is by priority, then by arrival\<close>

text \<open>The order of the queues: smaller queue first, then smaller sequence number, then index.\<close>

definition before :: "proc list \<Rightarrow> nat \<Rightarrow> nat \<Rightarrow> bool" where
  "before ps i j \<longleftrightarrow>
     mlfq_queue (ps ! i) < mlfq_queue (ps ! j) \<or>
     mlfq_queue (ps ! i) = mlfq_queue (ps ! j) \<and>
       (mlfq_enter_seq (ps ! i) < mlfq_enter_seq (ps ! j) \<or>
        mlfq_enter_seq (ps ! i) = mlfq_enter_seq (ps ! j) \<and> i \<le> j)"

text \<open>What the scan keeps: the best of the candidates seen so far.\<close>

definition is_best :: "(nat \<Rightarrow> bool) \<Rightarrow> (nat \<Rightarrow> u64) \<Rightarrow> nat \<Rightarrow> (nat \<times> u64) option \<Rightarrow> bool" where
  "is_best C sq k r \<longleftrightarrow>
     (case r of
        None \<Rightarrow> \<forall>j<k. \<not> C j
      | Some (b, v) \<Rightarrow> b < k \<and> C b \<and> v = sq b \<and> (\<forall>j<k. C j \<longrightarrow> sq b < sq j \<or> sq b = sq j \<and> b \<le> j))"

lemma is_best_step:
  assumes "is_best C sq k r"
  shows "is_best C sq (Suc k)
    (if C k then case r of None \<Rightarrow> Some (k, sq k)
                 | Some (b, v) \<Rightarrow> if sq k < v then Some (k, sq k) else r
     else r)"
proof (cases r)
  case None
  with assms show ?thesis by (auto simp: is_best_def less_Suc_eq)
next
  case (Some bv)
  then obtain b where r: "r = Some (b, sq b)" "b < k" "C b"
    and best: "\<forall>j<k. C j \<longrightarrow> sq b < sq j \<or> sq b = sq j \<and> b \<le> j"
    using assms by (auto simp: is_best_def split: prod.splits)
  then have "\<forall>j<k. C j \<longrightarrow> sq b \<le> sq j" by (auto simp: le_less)
  then have "sq k < sq b \<Longrightarrow> \<forall>j<k. C j \<longrightarrow> sq k < sq j" by (auto intro: order.strict_trans2)
  with r best show ?thesis by (auto simp: is_best_def less_Suc_eq not_less le_less)
qed

lemma mlfq_scan_best:
  assumes "is_best (\<lambda>j. p_state (ps ! j) = RUNNABLE \<and> mlfq_queue (ps ! j) = q) (\<lambda>j. mlfq_enter_seq (ps ! j)) k r"
    and "k \<le> length ps"
  shows "is_best (\<lambda>j. p_state (ps ! j) = RUNNABLE \<and> mlfq_queue (ps ! j) = q) (\<lambda>j. mlfq_enter_seq (ps ! j))
    (length ps) (mlfq_scan q k (drop k ps) r)"
  using assms
proof (induction "length ps - k" arbitrary: k r)
  case 0
  then show ?case by simp
next
  case (Suc n)
  then have k: "k < length ps" by simp
  then have "drop k ps = ps ! k # drop (Suc k) ps" by (simp add: Cons_nth_drop_Suc)
  with Suc.hyps(1) [of "Suc k", OF _ is_best_step [OF Suc.prems(1)]] Suc.hyps(2) k show ?case by simp
qed

lemma mlfq_scan_spec:
  "is_best (\<lambda>j. p_state (ps ! j) = RUNNABLE \<and> mlfq_queue (ps ! j) = q) (\<lambda>j. mlfq_enter_seq (ps ! j))
    (length ps) (mlfq_scan q 0 ps None)"
  using mlfq_scan_best [of ps q 0 None] by (simp add: is_best_def)

lemma mlfq_select_Some:
  assumes "mlfq_select qs ps = Some i" and "sorted_wrt (<) qs"
  shows "i < length ps \<and> p_state (ps ! i) = RUNNABLE \<and> mlfq_queue (ps ! i) \<in> set qs \<and>
    (\<forall>j<length ps. p_state (ps ! j) = RUNNABLE \<and> mlfq_queue (ps ! j) \<in> set qs \<longrightarrow> before ps i j)"
  using assms
proof (induction qs)
  case (Cons q qs)
  have spec: "is_best (\<lambda>j. p_state (ps ! j) = RUNNABLE \<and> mlfq_queue (ps ! j) = q) (\<lambda>j. mlfq_enter_seq (ps ! j))
    (length ps) (mlfq_scan q 0 ps None)" by (rule mlfq_scan_spec)
  show ?case
  proof (cases "mlfq_scan q 0 ps None")
    case None
    with Cons spec show ?thesis by (auto simp: is_best_def before_def)
  next
    case (Some r)
    obtain b v where r: "r = (b, v)" by fastforce
    with Some spec Cons.prems(1) have i: "i = b" by (auto simp: is_best_def)
    with Some r spec Cons.prems(2) show ?thesis by (auto simp: is_best_def before_def)
  qed
qed simp

lemma mlfq_select_None:
  "mlfq_select qs ps = None \<longleftrightarrow> (\<forall>j<length ps. p_state (ps ! j) = RUNNABLE \<longrightarrow> mlfq_queue (ps ! j) \<notin> set qs)"
proof (induction qs)
  case (Cons q qs)
  with mlfq_scan_spec [of ps q] show ?case
    by (cases "mlfq_scan q 0 ps None") (auto simp: is_best_def)
qed simp

section \<open>Invariant of the scheduler's fields\<close>

definition mlfq_ok :: "proc \<Rightarrow> bool" where
  "mlfq_ok p \<longleftrightarrow> 0 \<le> mlfq_queue p \<and> mlfq_queue p \<le> 3 \<and>
     0 \<le> mlfq_ticks_used p \<and> mlfq_ticks_used p < mlfq_timeslice (mlfq_queue p)"

text \<open>Sequence numbers tell the used slots apart and are not ahead of the counter.\<close>

definition seq_of :: "proc \<Rightarrow> u64 option" where
  "seq_of p = (if p_state p = UNUSED then None else Some (mlfq_enter_seq p))"

definition seqs_ok :: "proc list \<Rightarrow> u64 \<Rightarrow> bool" where
  "seqs_ok ps g \<longleftrightarrow>
     (\<forall>i<length ps. \<forall>v. seq_of (ps ! i) = Some v \<longrightarrow> v \<le> g) \<and>
     (\<forall>i<length ps. \<forall>j<length ps. \<forall>v. seq_of (ps ! i) = Some v \<longrightarrow> seq_of (ps ! j) = Some v \<longrightarrow> i = j)"

definition mlfq_inv :: "'z kstate_scheme \<Rightarrow> bool" where
  "mlfq_inv st \<longleftrightarrow> list_all mlfq_ok (procs st) \<and> seqs_ok (procs st) (mlfq_global_seq st)"

lemma timeslice_simps [simp]:
  "mlfq_timeslice 0 = 1" "mlfq_timeslice 1 = 4" "mlfq_timeslice 2 = 8" "mlfq_timeslice 3 = 16"
  by (simp_all add: mlfq_timeslice_def eval_nat_numeral)

lemma queue_cases: "mlfq_ok p \<Longrightarrow> mlfq_queue p = 0 \<or> mlfq_queue p = 1 \<or> mlfq_queue p = 2 \<or> mlfq_queue p = 3"
  by (auto simp: mlfq_ok_def)

lemma seqs_okI:
  assumes "\<And>i v. i < length ps \<Longrightarrow> seq_of (ps ! i) = Some v \<Longrightarrow> v \<le> g"
    and "\<And>i j v. i < length ps \<Longrightarrow> j < length ps \<Longrightarrow> seq_of (ps ! i) = Some v \<Longrightarrow> seq_of (ps ! j) = Some v \<Longrightarrow> i = j"
  shows "seqs_ok ps g"
  using assms unfolding seqs_ok_def by blast

lemma seqs_okD:
  assumes "seqs_ok ps g"
  shows "i < length ps \<Longrightarrow> seq_of (ps ! i) = Some v \<Longrightarrow> v \<le> g"
    and "i < length ps \<Longrightarrow> j < length ps \<Longrightarrow> seq_of (ps ! i) = Some v \<Longrightarrow> seq_of (ps ! j) = Some v \<Longrightarrow> i = j"
  using assms unfolding seqs_ok_def by blast+

lemma seqs_ok_sub:
  assumes "seqs_ok ps g" and "length ps' = length ps"
    and "\<And>i. i < length ps \<Longrightarrow> seq_of (ps' ! i) = seq_of (ps ! i) \<or> seq_of (ps' ! i) = None"
  shows "seqs_ok ps' g"
  by (rule seqs_okI) (use assms(2,3) seqs_okD [OF assms(1)] in \<open>metis option.distinct(1)\<close>)+

lemma seqs_ok_same:
  assumes "seqs_ok ps g" and "i < length ps \<Longrightarrow> seq_of (f (ps ! i)) = seq_of (ps ! i) \<or> seq_of (f (ps ! i)) = None"
  shows "seqs_ok (upd_nth i f ps) g"
  by (rule seqs_ok_sub [OF assms(1)]) (use assms(2) in \<open>auto simp: nth_upd_nth\<close>)

lemma seqs_ok_fresh:
  assumes "seqs_ok ps g" and "g < g + 1" and "mlfq_enter_seq (f (ps ! i)) = g + 1"
  shows "seqs_ok (upd_nth i f ps) (g + 1)"
proof -
  have new: "seq_of (f (ps ! i)) = Some v \<Longrightarrow> v = g + 1" for v
    using assms(3) by (auto simp: seq_of_def split: if_splits)
  have old: "v < g + 1" if "j < length ps" "seq_of (ps ! j) = Some v" for j v
    using seqs_okD(1) [OF assms(1) that] assms(2) by (rule order.strict_trans1)
  show ?thesis
  proof (rule seqs_okI)
    fix j v assume "j < length (upd_nth i f ps)" "seq_of (upd_nth i f ps ! j) = Some v"
    then show "v \<le> g + 1" using new old [of j v] by (cases "j = i") (auto simp: nth_upd_nth)
  next
    fix j k v
    assume a: "j < length (upd_nth i f ps)" "k < length (upd_nth i f ps)"
      "seq_of (upd_nth i f ps ! j) = Some v" "seq_of (upd_nth i f ps ! k) = Some v"
    show "j = k"
    proof (cases "j = i"; cases "k = i")
      assume "j \<noteq> i" "k \<noteq> i"
      with a show ?thesis using seqs_okD(2) [OF assms(1), of j k v] by simp
    next
      assume "j = i" "k \<noteq> i"
      with a new [of v] old [of k v] show ?thesis by simp
    next
      assume "j \<noteq> i" "k = i"
      with a new [of v] old [of j v] show ?thesis by simp
    qed simp
  qed
qed

text \<open>Room for \<open>n\<close> increments before the 64-bit counter would wrap.\<close>

definition seq_room :: "nat \<Rightarrow> 'z kstate_scheme \<Rightarrow> bool" where
  "seq_room n st \<longleftrightarrow> unat (mlfq_global_seq st) + n < 2 ^ 64"

lemma less_plus_1: "unat (g :: u64) + 1 < 2 ^ 64 \<Longrightarrow> g < g + 1"
  by (simp add: word_less_nat_alt unat_word_ariths)

lemma seq_room_less: "seq_room n st \<Longrightarrow> 1 \<le> n \<Longrightarrow> mlfq_global_seq st < mlfq_global_seq st + 1"
  by (intro less_plus_1) (simp add: seq_room_def)

lemma seq_room_add:
  "seq_room n st \<Longrightarrow> mlfq_global_seq st' = mlfq_global_seq st + of_nat k \<Longrightarrow> k \<le> n \<Longrightarrow> seq_room (n - k) st'"
  by (auto simp: seq_room_def unat_word_ariths unat_of_nat_u64)

lemma unat_plus_1: "unat (g :: u64) + 1 < 2 ^ 64 \<Longrightarrow> unat (g + 1) = unat g + 1"
  by (simp add: unat_word_ariths)

lemma seqs_ok_seq_map:
  assumes "seqs_ok (pre @ ps) s" and "seq_map sel f s ps = (s', ps')" and "unat s + length ps < 2 ^ 64"
    and sel: "\<And>p s. sel p \<Longrightarrow> mlfq_enter_seq (f s p) = s"
    and unsel: "\<And>p s. \<not> sel p \<Longrightarrow> mlfq_enter_seq (f s p) = mlfq_enter_seq p \<and> (p_state p = UNUSED \<longrightarrow> p_state (f s p) = UNUSED)"
  shows "seqs_ok (pre @ ps') s'"
  using assms(1-3)
proof (induction ps arbitrary: pre s s' ps')
  case (Cons p ps)
  let ?s1 = "if sel p then s + 1 else s"
  obtain t qs where r: "seq_map sel f ?s1 ps = (t, qs)" by fastforce
  have st: "s' = t" "ps' = f ?s1 p # qs" using Cons.prems(2) r by (auto simp: Let_def)
  have step: "pre @ f ?s1 p # ps = upd_nth (length pre) (f ?s1) (pre @ p # ps)" by (simp add: upd_nth_def)
  have "seqs_ok (pre @ f ?s1 p # ps) ?s1"
  proof (cases "sel p")
    case True
    have "s < s + 1" using Cons.prems(3) by (intro less_plus_1) simp
    from seqs_ok_fresh [OF Cons.prems(1) this, of "f (s + 1)" "length pre"] True sel show ?thesis
      unfolding step by simp
  next
    case False
    with unsel [OF this, of ?s1] show ?thesis unfolding step
      by (intro seqs_ok_same) (use Cons.prems(1) in \<open>auto simp: seq_of_def\<close>)
  qed
  moreover have "unat ?s1 + length ps < 2 ^ 64"
    using Cons.prems(3) unat_plus_1 [of s] by (cases "sel p") simp_all
  ultimately have "seqs_ok ((pre @ [f ?s1 p]) @ qs) t"
    using Cons.IH [of "pre @ [f ?s1 p]" ?s1 t qs] r by simp
  then show ?case using st by simp
qed simp

lemma mlfq_inv_same:
  assumes "mlfq_inv st" and "procs st' = upd_nth i f (procs st)" and "mlfq_global_seq st' = mlfq_global_seq st"
    and "i < length (procs st) \<Longrightarrow> mlfq_ok (proc_at i st) \<Longrightarrow> mlfq_ok (f (proc_at i st))"
    and "i < length (procs st) \<Longrightarrow> seq_of (f (proc_at i st)) = seq_of (proc_at i st) \<or> seq_of (f (proc_at i st)) = None"
  shows "mlfq_inv st'"
  using assms by (auto simp: mlfq_inv_def intro!: list_all_upd_nth seqs_ok_same)

lemma mlfq_inv_upd_proc:
  assumes "mlfq_inv st"
    and "i < length (procs st) \<Longrightarrow> mlfq_ok (proc_at i st) \<Longrightarrow> mlfq_ok (f (proc_at i st))"
    and "i < length (procs st) \<Longrightarrow> seq_of (f (proc_at i st)) = seq_of (proc_at i st) \<or> seq_of (f (proc_at i st)) = None"
  shows "mlfq_inv (upd_proc i f st)"
  by (rule mlfq_inv_same [OF assms(1), of _ i f]) (use assms(2,3) in \<open>simp_all add: upd_proc_def\<close>)

lemma mlfq_inv_fresh:
  assumes "mlfq_inv st" and "seq_room n st" and "1 \<le> n" and "procs st' = upd_nth i f (procs st)"
    and "mlfq_global_seq st' = mlfq_global_seq st + 1"
    and "i < length (procs st) \<Longrightarrow> mlfq_ok (proc_at i st) \<Longrightarrow> mlfq_ok (f (proc_at i st))"
    and "mlfq_enter_seq (f (proc_at i st)) = mlfq_global_seq st + 1"
  shows "mlfq_inv st'"
  using assms seq_room_less [OF assms(2,3)]
  by (auto simp: mlfq_inv_def intro!: list_all_upd_nth seqs_ok_fresh)

lemma mlfq_inv_frame:
  "mlfq_inv st \<Longrightarrow> procs st' = procs st \<Longrightarrow> mlfq_global_seq st' = mlfq_global_seq st \<Longrightarrow> mlfq_inv st'"
  by (simp add: mlfq_inv_def)

lemma mlfq_inv_seq_map:
  assumes "mlfq_inv st" and "seq_room n st" and "length (procs st) \<le> n"
    and "seq_map sel f (mlfq_global_seq st) (procs st) = (s', ps')"
    and "\<And>p s. sel p \<Longrightarrow> mlfq_enter_seq (f s p) = s"
    and "\<And>p s. \<not> sel p \<Longrightarrow> mlfq_enter_seq (f s p) = mlfq_enter_seq p \<and> (p_state p = UNUSED \<longrightarrow> p_state (f s p) = UNUSED)"
    and "\<And>p s. mlfq_ok p \<Longrightarrow> mlfq_ok (f s p)"
  shows "mlfq_inv (st\<lparr>mlfq_global_seq := s', procs := ps'\<rparr>)"
proof -
  have "seqs_ok ([] @ ps') s'"
    by (rule seqs_ok_seq_map [OF _ assms(4) _ assms(5,6)])
      (use assms(1-3) in \<open>simp_all add: mlfq_inv_def seq_room_def\<close>)
  moreover have "list_all mlfq_ok ps'"
    using seq_map_spec [OF assms(4)] assms(1,7) by (auto simp: list_all_length mlfq_inv_def)
  ultimately show ?thesis by (simp add: mlfq_inv_def)
qed

lemma mlfq_inv_wakeup: "mlfq_inv st \<Longrightarrow> seq_room n st \<Longrightarrow> length (procs st) \<le> n \<Longrightarrow> mlfq_inv (wakeup chan st)"
  unfolding wakeup_def wakeup_loop_seq_map
  by (auto split: prod.splits if_splits intro!: mlfq_inv_seq_map simp: woken_def mlfq_ok_def)

text \<open>The boost in the common shape.\<close>

definition live :: "proc \<Rightarrow> bool" where
  "live p \<longleftrightarrow> p_state p \<noteq> UNUSED \<and> p_state p \<noteq> ZOMBIE"

definition boosted :: "u64 \<Rightarrow> proc \<Rightarrow> proc" where
  "boosted s p = (if live p then p\<lparr>mlfq_queue := 0, mlfq_ticks_used := 0, mlfq_enter_seq := s\<rparr> else p)"

lemma mlfq_boost_loop_seq_map: "mlfq_boost_loop s ps = seq_map live boosted s ps"
  by (induction s ps rule: mlfq_boost_loop.induct) (auto simp: live_def boosted_def Let_def split: prod.splits)

lemma mlfq_boost_procs:
  "length (procs (mlfq_boost st)) = length (procs st)"
  "j < length (procs st) \<Longrightarrow> proc_at j (mlfq_boost st) =
     boosted (mlfq_global_seq st + of_nat (length (filter live (take (Suc j) (procs st))))) (proc_at j st)"
  "mlfq_global_seq (mlfq_boost st) = mlfq_global_seq st + of_nat (length (filter live (procs st)))"
  using seq_map_spec [of live boosted "mlfq_global_seq st" "procs st"]
  by (auto simp: mlfq_boost_def mlfq_boost_loop_seq_map split: prod.splits)

lemma mlfq_boost_frame [simp]:
  "cpus (mlfq_boost st) = cpus st" "ticks (mlfq_boost st) = ticks st" "nextpid (mlfq_boost st) = nextpid st"
  "kmemory (mlfq_boost st) = kmemory st" "initproc (mlfq_boost st) = initproc st"
  "mlfq_trace (mlfq_boost st) = mlfq_trace st"
  by (simp_all add: mlfq_boost_def split: prod.splits)

lemma mlfq_inv_boost: "mlfq_inv st \<Longrightarrow> seq_room n st \<Longrightarrow> length (procs st) \<le> n \<Longrightarrow> mlfq_inv (mlfq_boost st)"
  unfolding mlfq_boost_def mlfq_boost_loop_seq_map
  by (auto split: prod.splits intro!: mlfq_inv_seq_map simp: boosted_def mlfq_ok_def live_def)

lemma proc_inv_boost: "proc_inv st \<Longrightarrow> proc_inv (mlfq_boost st)"
  by (erule proc_inv_cong) (auto simp: mlfq_boost_procs boosted_def chan_ok_def)

section \<open>The timer handler in closed form\<close>

definition ticked :: "proc \<Rightarrow> proc" where
  "ticked p = p\<lparr>mlfq_ticks_used := mlfq_ticks_used p + 1, mlfq_total_ticks := mlfq_total_ticks p + 1,
     p_rtime := p_rtime p + 1\<rparr>"

definition demoted :: "u64 \<Rightarrow> proc \<Rightarrow> proc" where
  "demoted s p = (ticked p)\<lparr>mlfq_ticks_used := 0,
     mlfq_queue := (if mlfq_queue p < 3 then mlfq_queue p + 1 else mlfq_queue p), mlfq_enter_seq := s\<rparr>"

definition expires :: "proc \<Rightarrow> bool" where
  "expires p \<longleftrightarrow> mlfq_ticks_used p + 1 \<ge> mlfq_timeslice (mlfq_queue p)"

definition mlfq_traced :: "nat \<Rightarrow> 'z kstate_scheme \<Rightarrow> (u32 \<times> int \<times> int) list" where
  "mlfq_traced i st =
     (if p_pid (proc_at i st) \<ge> 3
      then (ticks st, p_pid (proc_at i st), mlfq_queue (proc_at i st)) # mlfq_trace st else mlfq_trace st)"

lemma mlfq_print_eq: "mlfq_print i st = st\<lparr>mlfq_trace := mlfq_traced i st\<rparr>"
  by (simp add: mlfq_print_def mlfq_traced_def)

lemma tick_handler_unfold:
  assumes "i < length (procs st)"
  shows "mlfq_tick_handler i st =
    (let st2 = st\<lparr>procs := upd_nth i ticked (procs st), mlfq_trace := mlfq_traced i st\<rparr>
     in if expires (proc_at i st)
        then (True, st2\<lparr>procs := upd_nth i (demoted (mlfq_global_seq st + 1)) (procs st),
                        mlfq_global_seq := mlfq_global_seq st + 1\<rparr>)
        else (boost_tick (ticks st) \<or> mlfq_has_higher_priority (mlfq_queue (proc_at i st)) st2, st2))"
proof -
  have tr: "mlfq_traced i (st\<lparr>procs := upd_nth i ticked (procs st)\<rparr>) = mlfq_traced i st"
    using assms by (simp add: mlfq_traced_def ticked_def)
  have ex: "mlfq_ticks_used (ticked p) \<ge> mlfq_timeslice (mlfq_queue (ticked p)) \<longleftrightarrow> expires p" for p
    by (simp add: expires_def ticked_def)
  have "upd_nth i (\<lambda>p. (ticked p)\<lparr>mlfq_ticks_used := 0,
      mlfq_queue := (if mlfq_queue (ticked p) < 3 then mlfq_queue (ticked p) + 1 else mlfq_queue (ticked p)),
      mlfq_enter_seq := s\<rparr>) (procs st) = upd_nth i (demoted s) (procs st)" for s
    by (simp add: upd_nth_eq_iff demoted_def ticked_def)
  then show ?thesis
    unfolding mlfq_tick_handler_def ticked_def [abs_def, symmetric] mlfq_print_eq
    using assms ex [of "proc_at i st"] tr
    by (simp add: Let_def upd_proc_def mlfq_next_seq_def) (auto simp: ticked_def intro!: kstate.equality)
qed

lemma tick_handler_expired:
  assumes "i < length (procs st)" and "expires (proc_at i st)"
  shows "mlfq_tick_handler i st = (True, st\<lparr>procs := upd_nth i (demoted (mlfq_global_seq st + 1)) (procs st),
    mlfq_trace := mlfq_traced i st, mlfq_global_seq := mlfq_global_seq st + 1\<rparr>)"
  using tick_handler_unfold [OF assms(1)] assms(2) by (simp add: Let_def)

lemma tick_handler_continues:
  assumes "i < length (procs st)" and "\<not> expires (proc_at i st)"
  shows "mlfq_tick_handler i st =
    (boost_tick (ticks st) \<or>
       (\<exists>j<length (procs st). j \<noteq> i \<and> p_state (proc_at j st) = RUNNABLE \<and> mlfq_queue (proc_at j st) < mlfq_queue (proc_at i st)),
     st\<lparr>procs := upd_nth i ticked (procs st), mlfq_trace := mlfq_traced i st\<rparr>)"
proof -
  let ?st2 = "st\<lparr>procs := upd_nth i ticked (procs st), mlfq_trace := mlfq_traced i st\<rparr>"
  have "mlfq_has_higher_priority (mlfq_queue (proc_at i st)) ?st2 \<longleftrightarrow>
    (\<exists>j<length (procs st). j \<noteq> i \<and> p_state (proc_at j st) = RUNNABLE \<and> mlfq_queue (proc_at j st) < mlfq_queue (proc_at i st))"
    by (auto simp: mlfq_has_higher_priority_def list_ex_length nth_upd_nth ticked_def split: if_splits)
  with tick_handler_unfold [OF assms(1)] assms(2) show ?thesis by (simp add: Let_def)
qed

lemma mlfq_ok_ticked: "mlfq_ok p \<Longrightarrow> \<not> expires p \<Longrightarrow> mlfq_ok (ticked p)"
  by (auto simp: mlfq_ok_def expires_def ticked_def)

lemma mlfq_ok_demoted: "mlfq_ok p \<Longrightarrow> mlfq_ok (demoted s p)"
  using queue_cases [of p] by (auto simp: mlfq_ok_def demoted_def ticked_def)

lemma mlfq_inv_tick:
  assumes "mlfq_inv st" and "seq_room n st" and "1 \<le> n" and "i < length (procs st)"
  shows "mlfq_inv (snd (mlfq_tick_handler i st))"
proof (cases "expires (proc_at i st)")
  case True
  then show ?thesis unfolding tick_handler_expired [OF assms(4) True]
    by (intro mlfq_inv_fresh [OF assms(1-3), of _ i "demoted (mlfq_global_seq st + 1)"])
      (auto simp: mlfq_ok_demoted, simp add: demoted_def)
next
  case False
  then show ?thesis unfolding tick_handler_continues [OF assms(4) False]
    by (intro mlfq_inv_same [OF assms(1), of _ i ticked])
      (auto simp: mlfq_ok_ticked, auto simp: seq_of_def ticked_def)
qed

lemma proc_inv_tick:
  assumes "proc_inv st" and "i < length (procs st)"
  shows "proc_inv (snd (mlfq_tick_handler i st))"
proof (cases "expires (proc_at i st)")
  case True
  have "proc_inv (upd_proc i (demoted (mlfq_global_seq st + 1)) st)"
    using assms(1) by (rule proc_inv_upd_proc) (auto simp: demoted_def ticked_def chan_ok_def)
  then show ?thesis unfolding tick_handler_expired [OF assms(2) True] by (simp add: upd_proc_def)
next
  case False
  have "proc_inv (upd_proc i ticked st)"
    using assms(1) by (rule proc_inv_upd_proc) (auto simp: ticked_def chan_ok_def)
  then show ?thesis unfolding tick_handler_continues [OF assms(2) False] by (simp add: upd_proc_def)
qed

text \<open>A wakeup or a boost raises the counter by at most the size of the table.\<close>

lemma seq_room_wakeup:
  assumes "seq_room (n + length (procs st)) st"
  shows "seq_room n (wakeup chan st)"
proof -
  let ?k = "length (filter (asleep_on chan) (procs st))"
  have "?k \<le> length (procs st)" by simp
  with seq_room_add [OF assms wakeup_procs(3), of chan] show ?thesis unfolding seq_room_def by linarith
qed

lemma mlfq_inv_reparent:
  assumes "mlfq_inv st" and "seq_room (n + length js * length (procs st)) st"
  shows "mlfq_inv (reparent_loop i js st) \<and> seq_room n (reparent_loop i js st)"
  using assms
proof (induction js arbitrary: st)
  case (Cons j js)
  show ?case
  proof (cases "p_parent (proc_at j st) = Some i")
    case True
    let ?st1 = "upd_proc j (\<lambda>p. p\<lparr>p_parent := initproc st\<rparr>) st"
    let ?st2 = "wakeup (parent_addr (initproc st)) ?st1"
    have len: "length (procs ?st1) = length (procs st)" by (simp add: upd_proc_def)
    have "mlfq_inv ?st1"
      using Cons.prems(1) by (rule mlfq_inv_upd_proc) (auto simp: mlfq_ok_def seq_of_def)
    moreover have r: "seq_room ((n + length js * length (procs st)) + length (procs ?st1)) ?st1"
      using Cons.prems(2) by (simp add: seq_room_def upd_proc_def algebra_simps)
    ultimately have "mlfq_inv ?st2" by (rule mlfq_inv_wakeup) (simp add: len)
    moreover have "seq_room (n + length js * length (procs ?st2)) ?st2"
      using seq_room_wakeup [OF r] by (simp add: len wakeup_procs)
    ultimately show ?thesis using Cons.IH True by simp
  next
    case False
    with Cons.IH [of st] Cons.prems show ?thesis by (simp add: seq_room_def)
  qed
qed (simp add: seq_room_def)

end
