(* ===== verification/Sched.thy ===== *)
theory Sched
  imports Mlfq
begin

text \<open>
  The process table as a transition system: every operation of \<open>proc.c\<close> and the clock, in any
  order and on any hart, with the MLFQ scheduler. The invariants of the table and of the
  scheduler's fields hold in every reachable state, and the properties of the schedulers are
  stated over it. The three schedulers are instances of one interface.
\<close>

section \<open>Scheduling policies\<close>

text \<open>
  A policy chooses a \<open>RUNNABLE\<close> process, and finds one whenever there is one among the tables
  it is used on.
\<close>

locale sched_policy =
  fixes pick :: "proc list \<Rightarrow> nat option"
    and ok :: "proc \<Rightarrow> bool"
  assumes pick_runnable: "pick ps = Some i \<Longrightarrow> i < length ps \<and> p_state (ps ! i) = RUNNABLE"
    and pick_total: "pick ps = None \<Longrightarrow> list_all ok ps \<Longrightarrow> p \<in> set ps \<Longrightarrow> p_state p \<noteq> RUNNABLE"
begin

lemma dispatch_keeps_inv:
  assumes "proc_inv st" and "c < length (cpus st)" and "myproc c st = None" and "pick (procs st) = Some i"
  shows "\<exists>st'. resume c (dispatch c i st) = Inr st' \<and> proc_inv st' \<and> myproc c st' = Some i"
proof -
  have i: "i < length (procs st)" "p_state (proc_at i st) = RUNNABLE" using pick_runnable [OF assms(4)] by auto
  have "noff (cpus st ! c) = 0" using assms(1,2) by (simp add: proc_inv_def list_all_length)
  from dispatch_resume_eq [OF assms(2) i(1) this] obtain st' where
    "resume c (dispatch c i st) = Inr st'" "myproc c st' = Some i"
    using assms(2) by (auto simp: myproc_def)
  with proc_inv_enter [OF assms(1-3) i] show ?thesis by blast
qed

lemma work_conserving:
  assumes "list_all ok ps" and "p \<in> set ps" and "p_state p = RUNNABLE"
  shows "\<exists>i. pick ps = Some i"
  using pick_total [OF _ assms(1,2)] assms(3) by (cases "pick ps") auto

end

interpretation mlfq: sched_policy mlfq_pick mlfq_ok
proof
  fix ps i assume "mlfq_pick ps = Some i"
  from mlfq_select_Some [OF this] show "i < length ps \<and> p_state (ps ! i) = RUNNABLE" by simp
next
  fix ps p assume none: "mlfq_pick ps = None" and ok: "list_all mlfq_ok ps" and p: "p \<in> set ps"
  then obtain j where j: "j < length ps" "ps ! j = p" by (auto simp: in_set_conv_nth)
  have "mlfq_queue p \<in> set [0, 1, 2, 3]" using ok p queue_cases [of p] by (auto simp: list_all_iff)
  with none j show "p_state p \<noteq> RUNNABLE" by (auto simp only: mlfq_select_None)
qed

text \<open>The FIFO scan keeps the smallest pid below the initial bound.\<close>

definition fifo_best :: "proc list \<Rightarrow> nat \<Rightarrow> nat option \<times> int \<Rightarrow> bool" where
  "fifo_best ps k r \<longleftrightarrow>
     (\<forall>j<k. p_state (ps ! j) = RUNNABLE \<longrightarrow> snd r \<le> p_pid (ps ! j)) \<and> snd r \<le> 0x7fffffff \<and>
     (case fst r of None \<Rightarrow> snd r = 0x7fffffff
      | Some b \<Rightarrow> b < k \<and> p_state (ps ! b) = RUNNABLE \<and> p_pid (ps ! b) = snd r \<and> snd r < 0x7fffffff)"

lemma fifo_scan_best:
  assumes "fifo_best ps k r" and "k \<le> length ps"
  shows "\<exists>m. fifo_best ps (length ps) (fifo_scan k (drop k ps) r, m)"
  using assms
proof (induction "length ps - k" arbitrary: k r)
  case 0
  then show ?case by (cases r) auto
next
  case (Suc n)
  then have k: "k < length ps" by simp
  obtain b m where r: "r = (b, m)" by fastforce
  let ?p = "ps ! k"
  let ?r = "if p_state ?p = RUNNABLE \<and> p_pid ?p < m then (Some k, p_pid ?p) else (b, m)"
  have "fifo_best ps (Suc k) ?r"
    using Suc.prems(1) r by (auto simp: fifo_best_def less_Suc_eq split: option.splits)
  moreover have "drop k ps = ?p # drop (Suc k) ps" using k by (simp add: Cons_nth_drop_Suc)
  ultimately show ?case using Suc.hyps(1) [of "Suc k" ?r] Suc.hyps(2) k r by simp
qed

lemma fifo_pick_best: "\<exists>m. fifo_best ps (length ps) (fifo_pick ps, m)"
  using fifo_scan_best [of ps 0 "(None, 0x7fffffff)"] by (simp add: fifo_pick_def fifo_best_def)

interpretation fifo: sched_policy fifo_pick "\<lambda>p. p_pid p < 0x7fffffff"
proof
  fix ps i assume "fifo_pick ps = Some i"
  with fifo_pick_best [of ps] show "i < length ps \<and> p_state (ps ! i) = RUNNABLE" by (auto simp: fifo_best_def)
next
  fix ps p assume none: "fifo_pick ps = None" and ok: "list_all (\<lambda>p. p_pid p < 0x7fffffff) ps" and p: "p \<in> set ps"
  then obtain j where j: "j < length ps" "ps ! j = p" by (auto simp: in_set_conv_nth)
  with none fifo_pick_best [of ps] have "p_state p = RUNNABLE \<longrightarrow> 0x7fffffff \<le> p_pid p"
    by (auto simp: fifo_best_def)
  with ok p show "p_state p \<noteq> RUNNABLE" by (auto simp: list_all_iff)
qed

lemma rr_next_Some: "rr_next k ps = Some i \<Longrightarrow> k \<le> i \<and> i < length ps \<and> p_state (ps ! i) = RUNNABLE"
  by (auto simp: rr_next_def find_idx_Some)

lemma rr_next_0_None: "rr_next 0 ps = None \<Longrightarrow> p \<in> set ps \<Longrightarrow> p_state p \<noteq> RUNNABLE"
  by (auto simp: rr_next_def find_idx_None)

interpretation rr: sched_policy "rr_pick k" "\<lambda>_. True" for k
  by unfold_locales (auto simp: rr_pick_def dest: rr_next_Some rr_next_0_None split: option.splits)

section \<open>The transition system\<close>

text \<open>
  \<open>start\<close> is the end of \<open>kfork\<close> and of \<open>userinit\<close> (the new slot becomes \<open>RUNNABLE\<close>),
  \<open>fork_fail\<close> is \<open>kfork\<close> giving the slot back when the copy of the address space fails, and
  \<open>user_mem\<close> stands for the operations that only touch user memory.
\<close>

inductive kstep :: "kenv \<Rightarrow> kstate \<Rightarrow> kstate \<Rightarrow> bool" for env where
  schedule: "c < length (cpus st) \<Longrightarrow> myproc c st = None \<Longrightarrow> scheduler_mlfq c st = Some st1
    \<Longrightarrow> resume c st1 = Inr st' \<Longrightarrow> kstep env st st'"
| clock: "kstep env st (clockintr c st)"
| timer: "c < length (cpus st) \<Longrightarrow> timer_mlfq c st = Inr st' \<Longrightarrow> kstep env st st'"
| prepare: "c < length (cpus st) \<Longrightarrow> sleep_prepare c chan st = Inr st' \<Longrightarrow> kstep env st st'"
| sleeps: "c < length (cpus st) \<Longrightarrow> sleep c st = Inr st' \<Longrightarrow> kstep env st st'"
| wakes: "kstep env st (wakeup chan st)"
| kill: "kstep env st (snd (kkill pid st))"
| mark_killed: "kstep env st (setkilled i st)"
| exits: "c < length (cpus st) \<Longrightarrow> exit_proc c status st = Inr st' \<Longrightarrow> kstep env st st'"
| waits: "kwait env c addr st = Inr (r, st') \<Longrightarrow> kstep env st st'"
| waitxs: "kwaitx env c addr aw ar as st = Inr (r, st') \<Longrightarrow> kstep env st st'"
| alloc: "allocproc env st = Inr (r, st') \<Longrightarrow> kstep env st st'"
| start: "i < length (procs st) \<Longrightarrow> p_state (proc_at i st) = USED
    \<Longrightarrow> kstep env st (upd_proc i (\<lambda>p. p\<lparr>p_parent := par, p_name := nm, p_sz := sz, p_state := RUNNABLE\<rparr>) st)"
| fork_fail: "i < length (procs st) \<Longrightarrow> p_state (proc_at i st) = USED \<Longrightarrow> freeproc env i st = Inr st' \<Longrightarrow> kstep env st st'"
| user_mem: "kstep env st (st\<lparr>kmemory := km\<rparr>)"
| grow: "growproc env c n st = Inr (r, st') \<Longrightarrow> kstep env st st'"

text \<open>
  Initial states: \<open>NPROC\<close> unused slots with their fields zeroed, no process on any hart. A
  step needs room on the 64-bit sequence counter: one step raises it by less than 8192.
\<close>

definition kinit_state :: "kstate \<Rightarrow> bool" where
  "kinit_state st \<longleftrightarrow> length (procs st) = NPROC \<and> 1 \<le> nextpid st \<and>
     list_all (\<lambda>p. p_state p = UNUSED \<and> p_pid p = 0 \<and> p_chan p = Null \<and> mlfq_queue p = 0 \<and> mlfq_ticks_used p = 0) (procs st) \<and>
     list_all (\<lambda>cp. noff cp = 0 \<and> c_proc cp = None) (cpus st)"

inductive kreach :: "kenv \<Rightarrow> kstate \<Rightarrow> bool" for env where
  init: "kinit_state st \<Longrightarrow> kreach env st"
| step: "kreach env st \<Longrightarrow> seq_room 8192 st \<Longrightarrow> kstep env st st' \<Longrightarrow> kreach env st'"

definition table_inv :: "kstate \<Rightarrow> bool" where
  "table_inv st \<longleftrightarrow> length (procs st) = NPROC \<and> proc_inv st \<and> mlfq_inv st"

lemma table_inv_init: "kinit_state st \<Longrightarrow> table_inv st"
proof -
  assume i: "kinit_state st"
  have "running (cpus st) = []"
    using i by (auto simp: kinit_state_def running_def List.map_filter_def filter_empty_conv list_all_iff)
  with i have "proc_inv st"
    by (auto simp: proc_inv_def run_ok_def chan_ok_def kinit_state_def list_all_length)
  moreover have "mlfq_inv st"
    using i by (auto simp: mlfq_inv_def seqs_ok_def mlfq_ok_def seq_of_def kinit_state_def list_all_length)
  ultimately show ?thesis using i by (simp add: table_inv_def kinit_state_def)
qed

text \<open>Each operation keeps the invariant.\<close>

lemma table_inv_wakeup: "table_inv st \<Longrightarrow> seq_room n st \<Longrightarrow> 64 \<le> n \<Longrightarrow> table_inv (wakeup chan st)"
  by (auto simp: table_inv_def wakeup_procs NPROC_def intro: proc_inv_wakeup mlfq_inv_wakeup)

lemma table_inv_boost: "table_inv st \<Longrightarrow> seq_room n st \<Longrightarrow> 64 \<le> n \<Longrightarrow> table_inv (mlfq_boost st)"
  by (auto simp: table_inv_def mlfq_boost_procs NPROC_def intro: proc_inv_boost mlfq_inv_boost)

lemma table_inv_frame:
  "table_inv st \<Longrightarrow> procs st' = procs st \<Longrightarrow> cpus st' = cpus st \<Longrightarrow> mlfq_global_seq st' = mlfq_global_seq st \<Longrightarrow> table_inv st'"
  by (simp add: table_inv_def proc_inv_def mlfq_inv_def)

lemma table_inv_clock:
  assumes "table_inv st" and "seq_room 8192 st"
  shows "table_inv (clockintr c st)"
proof -
  let ?st2 = "wakeup AddrTicks (st\<lparr>ticks := ticks st + 1\<rparr>)"
  have a: "table_inv (st\<lparr>ticks := ticks st + 1\<rparr>)" using assms(1) by (rule table_inv_frame) simp_all
  have r: "seq_room (8128 + length (procs (st\<lparr>ticks := ticks st + 1\<rparr>))) (st\<lparr>ticks := ticks st + 1\<rparr>)"
    using assms by (simp add: seq_room_def table_inv_def NPROC_def)
  have "table_inv ?st2" using a r by (rule table_inv_wakeup) simp
  moreover from this seq_room_wakeup [OF r] have "table_inv (mlfq_boost ?st2)" by (rule table_inv_boost) simp
  ultimately show ?thesis using assms(1) by (simp add: clockintr_def Let_def)
qed

lemma table_inv_upd_proc:
  assumes "table_inv st"
    and "i < length (procs st) \<Longrightarrow> p_state (f (proc_at i st)) = RUNNING \<longleftrightarrow> p_state (proc_at i st) = RUNNING"
    and "i < length (procs st) \<Longrightarrow> chan_ok (proc_at i st) \<Longrightarrow> chan_ok (f (proc_at i st))"
    and "i < length (procs st) \<Longrightarrow> mlfq_ok (proc_at i st) \<Longrightarrow> mlfq_ok (f (proc_at i st))"
    and "i < length (procs st) \<Longrightarrow> seq_of (f (proc_at i st)) = seq_of (proc_at i st) \<or> seq_of (f (proc_at i st)) = None"
  shows "table_inv (upd_proc i f st)"
  using assms proc_inv_upd_proc [of st i f] mlfq_inv_upd_proc [of st i f]
  by (simp add: table_inv_def) (simp add: upd_proc_def)

lemma table_inv_fresh:
  assumes "table_inv st" and "seq_room n st" and "1 \<le> n"
    and "i < length (procs st) \<Longrightarrow> p_state (f (proc_at i st)) = RUNNING \<longleftrightarrow> p_state (proc_at i st) = RUNNING"
    and "i < length (procs st) \<Longrightarrow> chan_ok (proc_at i st) \<Longrightarrow> chan_ok (f (proc_at i st))"
    and "i < length (procs st) \<Longrightarrow> mlfq_ok (proc_at i st) \<Longrightarrow> mlfq_ok (f (proc_at i st))"
    and "mlfq_enter_seq (f (proc_at i st)) = mlfq_global_seq st + 1"
  shows "table_inv (upd_proc i f (st\<lparr>mlfq_global_seq := mlfq_global_seq st + 1\<rparr>))"
proof -
  let ?st' = "upd_proc i f (st\<lparr>mlfq_global_seq := mlfq_global_seq st + 1\<rparr>)"
  have "proc_inv ?st'" using assms(1,4,5) by (intro proc_inv_upd_proc) (auto simp: table_inv_def)
  moreover have "mlfq_inv ?st'"
    by (rule mlfq_inv_fresh [of st n _ i f]) (use assms in \<open>auto simp: table_inv_def upd_proc_def\<close>)
  ultimately show ?thesis using assms(1) by (simp add: table_inv_def upd_proc_def)
qed

lemma table_inv_leave:
  assumes "table_inv st" and "running_at c i st" and "p_state (f (proc_at i st)) \<noteq> RUNNING"
    and "chan_ok (proc_at i st) \<Longrightarrow> chan_ok (f (proc_at i st))"
    and "mlfq_ok (proc_at i st) \<Longrightarrow> mlfq_ok (f (proc_at i st))"
    and "seq_of (f (proc_at i st)) = seq_of (proc_at i st)"
  shows "table_inv (st\<lparr>procs := upd_nth i f (procs st), cpus := upd_nth c idle_cpu (cpus st)\<rparr>)"
  using assms proc_inv_leave [of st c i f]
    mlfq_inv_same [of st "st\<lparr>procs := upd_nth i f (procs st), cpus := upd_nth c idle_cpu (cpus st)\<rparr>" i f]
  by (simp add: table_inv_def)

lemma table_inv_running:
  "table_inv st \<Longrightarrow> c < length (cpus st) \<Longrightarrow> myproc c st = Some i \<Longrightarrow> running_at c i st \<and> p_state (proc_at i st) = RUNNING"
  by (rule proc_inv_running) (simp_all add: table_inv_def)

lemma with_proc_Inr: "with_proc c st f = Inr x \<Longrightarrow> \<exists>i. myproc c st = Some i \<and> f i = Inr x"
  by (auto simp: with_proc_def split: option.splits)

lemma table_inv_yield:
  assumes "table_inv st" and "c < length (cpus st)" and "yield c st = Inr st'"
  shows "table_inv st'"
proof -
  from assms(3) obtain i where "myproc c st = Some i" by (auto simp: yield_def dest: with_proc_Inr)
  with table_inv_running assms have r: "running_at c i st" "p_state (proc_at i st) = RUNNING" by blast+
  with assms(1,3) yield_eq [OF r(1)] show ?thesis
    by (auto intro!: table_inv_leave simp: chan_ok_def mlfq_ok_def seq_of_def)
qed

lemma table_inv_intena: "table_inv st \<Longrightarrow> table_inv (upd_cpu c (\<lambda>cp. cp\<lparr>intena := sie cp\<rparr>) st)"
proof -
  assume a: "table_inv st"
  have "run_ok (procs st) (upd_nth c (\<lambda>cp. cp\<lparr>intena := sie cp\<rparr>) (cpus st))"
    by (rule run_ok_cong [of "procs st" "cpus st"])
      (use a in \<open>simp_all add: table_inv_def proc_inv_def map_upd_nth_same\<close>)
  then show ?thesis using a
    by (auto simp: table_inv_def upd_cpu_def proc_inv_def mlfq_inv_def intro!: noff_upd)
qed

lemma table_inv_sleep:
  assumes "table_inv st" and "c < length (cpus st)" and "sleep c st = Inr st'"
  shows "table_inv st'"
proof -
  from assms(3) obtain i where "myproc c st = Some i" by (auto simp: sleep_def dest: with_proc_Inr)
  with table_inv_running assms have r: "running_at c i st" "p_state (proc_at i st) = RUNNING" by blast+
  show ?thesis
  proof (cases "p_chan (proc_at i st) = Null")
    case True
    with sleep_eq_return [OF r(1)] assms table_inv_intena show ?thesis by auto
  next
    case False
    have "0 < mlfq_timeslice (mlfq_queue p)" if "mlfq_ok p" for p
      using queue_cases [OF that] by auto
    with sleep_eq_block [OF r(1) False] r assms(1,3) False show ?thesis
      by (auto intro!: table_inv_leave simp: chan_ok_def mlfq_ok_def seq_of_def)
  qed
qed

lemma table_inv_exit:
  assumes "table_inv st" and "seq_room 8192 st" and "c < length (cpus st)" and "exit_proc c status st = Inr st'"
  shows "table_inv st'"
proof -
  from assms(4) obtain i where "myproc c st = Some i" by (auto simp: exit_proc_def dest: with_proc_Inr)
  with table_inv_running assms have r: "running_at c i st" "p_state (proc_at i st) = RUNNING" by blast+
  define st2 where "st2 = wakeup (parent_addr (p_parent (proc_at i (reparent i st)))) (reparent i st)"
  have len: "length (procs st) = 64" using assms(1) by (simp add: table_inv_def NPROC_def)
  have "mlfq_inv (reparent i st) \<and> seq_room 4096 (reparent i st)" unfolding reparent_def
    by (rule mlfq_inv_reparent) (use assms(1,2) in \<open>simp_all add: table_inv_def NPROC_def\<close>)
  moreover have "proc_inv (reparent i st)"
    using assms(1) by (auto simp: reparent_def table_inv_def intro: reparent_loop_inv)
  ultimately have t2: "table_inv st2" unfolding st2_def
    using len by (intro table_inv_wakeup [of _ 4096]) (auto simp: table_inv_def NPROC_def reparent_def)
  have r2: "running_at c i st2" unfolding st2_def
    using r(1) by (rule running_at_frame) (simp_all add: reparent_def wakeup_procs)
  have s2: "p_state (proc_at i st2) = RUNNING"
    using table_inv_running [OF t2, of c i] r2 by (simp add: running_at_def)
  have "exit_proc c status st = Inr (st2\<lparr>procs := upd_nth i (\<lambda>p. p\<lparr>p_etime := ticks st2, p_xstate := status,
      p_state := ZOMBIE, p_intena := Some (sie (cpus st2 ! c))\<rparr>) (procs st2), cpus := upd_nth c idle_cpu (cpus st2)\<rparr>)"
    using exit_proc_eq [OF r(1), of status] unfolding st2_def [symmetric] .
  with assms(4) t2 r2 s2 show ?thesis
    by (auto intro!: table_inv_leave simp: chan_ok_def mlfq_ok_def seq_of_def)
qed

lemma table_inv_timer:
  assumes "table_inv st" and "seq_room n st" and "1 \<le> n" and "c < length (cpus st)" and "timer_mlfq c st = Inr st'"
  shows "table_inv st'"
proof (cases "myproc c st")
  case None
  with assms show ?thesis by (simp add: timer_mlfq_def)
next
  case (Some i)
  have i: "i < length (procs st)" using table_inv_running [OF assms(1,4) Some] by (simp add: running_at_def)
  obtain b st1 where t: "mlfq_tick_handler i st = (b, st1)" by fastforce
  have frame: "length (procs st1) = length (procs st)" "cpus st1 = cpus st"
    using t tick_handler_expired [OF i] tick_handler_continues [OF i]
    by (cases "expires (proc_at i st)"; auto)+
  have "table_inv st1"
    using assms(1) t proc_inv_tick [of st i] mlfq_inv_tick [of st n i] i assms(2,3) frame
    by (simp add: table_inv_def)
  with Some t assms(4,5) frame table_inv_yield [of st1 c st'] show ?thesis
    by (auto simp: timer_mlfq_def split: if_splits)
qed

lemma mlfq_ok_zero: "mlfq_queue p = 0 \<Longrightarrow> mlfq_ticks_used p = 0 \<Longrightarrow> mlfq_ok p"
  by (simp add: mlfq_ok_def)

lemma table_inv_freed:
  assumes "table_inv st" and "p_state (proc_at i st) \<noteq> RUNNING"
  shows "table_inv (upd_proc i (\<lambda>p. freed_proc (f p)) st)"
  by (rule table_inv_upd_proc [OF assms(1)])
    (use assms(2) in \<open>auto simp: freed_proc_def chan_ok_def seq_of_def intro: mlfq_ok_zero\<close>)

lemma table_inv_mem: "table_inv st \<Longrightarrow> table_inv (st\<lparr>kmemory := km\<rparr>)"
  by (rule table_inv_frame) simp_all

lemma table_inv_wait:
  assumes "table_inv st" and "wait_outcome i r st st'"
  shows "table_inv st'"
proof -
  from assms(2) consider (err) km where "st' = st\<lparr>kmemory := km\<rparr>"
    | (reap) j km where "p_state (proc_at j st) = ZOMBIE"
        "st' = upd_proc j (\<lambda>p. freed_proc (p\<lparr>p_parent := None\<rparr>)) (st\<lparr>kmemory := km\<rparr>)"
    | (prep) "st' = upd_proc i (\<lambda>p. p\<lparr>p_chan := AddrProc i\<rparr>) st"
    unfolding wait_outcome_def zombie_child_def by blast
  then show ?thesis
  proof cases
    case err
    with assms(1) table_inv_mem show ?thesis by simp
  next
    case reap
    with table_inv_freed [OF table_inv_mem [OF assms(1), of km], of j "\<lambda>p. p\<lparr>p_parent := None\<rparr>"]
    show ?thesis by simp
  next
    case prep
    show ?thesis unfolding prep
      by (rule table_inv_upd_proc [OF assms(1)]) (auto simp: chan_ok_def mlfq_ok_def seq_of_def)
  qed
qed

lemma table_inv_alloc:
  assumes "table_inv st" and "seq_room n st" and "1 \<le> n" and "allocproc env st = Inr (r, st')"
  shows "table_inv st'"
  using assms(4)
proof (cases rule: allocproc_cases)
  case full
  with assms(1) show ?thesis by simp
next
  case (nomem i km)
  have "table_inv (st\<lparr>nextpid := nextpid st + 1, kmemory := km\<rparr>)" using assms(1) by (rule table_inv_frame) simp_all
  then show ?thesis unfolding nomem(4)
    by (rule table_inv_upd_proc) (use nomem in \<open>auto simp: freed_proc_def chan_ok_def seq_of_def intro: mlfq_ok_zero\<close>)
next
  case (ok i km tf pt)
  let ?st1 = "st\<lparr>nextpid := nextpid st + 1, kmemory := km\<rparr>"
  have "table_inv ?st1" using assms(1) by (rule table_inv_frame) simp_all
  then have "table_inv (upd_proc i (fresh_proc env st tf pt) (?st1\<lparr>mlfq_global_seq := mlfq_global_seq ?st1 + 1\<rparr>))"
    by (rule table_inv_fresh [of _ n])
      (use ok assms(2,3) in \<open>auto simp: fresh_proc_def chan_ok_def seq_room_def intro: mlfq_ok_zero\<close>)
  then show ?thesis unfolding ok(6) by simp
qed

lemma table_inv_schedule:
  assumes "table_inv st" and "c < length (cpus st)" and "myproc c st = None" and "scheduler_mlfq c st = Some st1"
    and "resume c st1 = Inr st'"
  shows "table_inv st'"
proof -
  from assms(4) obtain i where i: "mlfq_pick (procs st) = Some i" "st1 = dispatch c i (mlfq_print i st)"
    by (auto simp: scheduler_mlfq_def simp del: mlfq_select.simps split: option.splits)
  let ?st = "mlfq_print i st"
  have inv: "table_inv ?st" using assms(1) by (rule table_inv_frame) (simp_all add: mlfq_print_eq)
  have same: "procs ?st = procs st" "cpus ?st = cpus st" by (simp_all add: mlfq_print_eq)
  have il: "i < length (procs ?st)" "p_state (proc_at i ?st) = RUNNABLE"
    using mlfq.pick_runnable [OF i(1)] same by simp_all
  have "proc_inv st'"
    using proc_inv_enter [of ?st c i st'] inv assms(2,3,5) i(2) il same by (simp add: table_inv_def myproc_def)
  moreover from dispatch_resume_eq [of c ?st i] inv assms(2,5) i(2) il same
  obtain b where st': "st' = ?st\<lparr>procs := upd_nth i (\<lambda>p. (first_run (ticks ?st) p)\<lparr>p_state := RUNNING\<rparr>) (procs ?st),
      cpus := upd_nth c (\<lambda>cp. cp\<lparr>c_proc := Some i, noff := 0, intena := b, sie := b\<rparr>) (cpus ?st)\<rparr>"
    by (auto simp: table_inv_def proc_inv_def list_all_length)
  have "mlfq_inv st'"
    by (rule mlfq_inv_same [of ?st st' i "\<lambda>p. (first_run (ticks ?st) p)\<lparr>p_state := RUNNING\<rparr>"])
      (use inv il in \<open>auto simp: st' table_inv_def mlfq_ok_def first_run_def seq_of_def\<close>)
  ultimately show ?thesis using inv by (simp add: table_inv_def st')
qed

lemma table_inv_prepare:
  "table_inv st \<Longrightarrow> sleep_prepare c chan st = Inr st' \<Longrightarrow> table_inv st'"
  by (auto simp: sleep_prepare_def chan_ok_def mlfq_ok_def seq_of_def split: if_splits
      intro!: table_inv_upd_proc dest!: with_proc_Inr)

lemma table_inv_kkill:
  assumes "table_inv st" and "seq_room n st" and "1 \<le> n"
  shows "table_inv (snd (kkill pid st))"
proof (cases "find_idx (\<lambda>p. p_pid p = pid) (procs st)")
  case None
  with assms(1) show ?thesis by (simp add: kkill_def)
next
  case (Some i)
  show ?thesis
  proof (cases "p_state (proc_at i st) = SLEEPING")
    case True
    let ?f = "\<lambda>p. p\<lparr>p_killed := True, p_state := RUNNABLE, mlfq_enter_seq := mlfq_global_seq st + 1\<rparr>"
    have "table_inv (upd_proc i ?f (st\<lparr>mlfq_global_seq := mlfq_global_seq st + 1\<rparr>))"
      by (rule table_inv_fresh [OF assms]) (use True in \<open>auto simp: chan_ok_def mlfq_ok_def\<close>)
    with Some True show ?thesis by (simp add: kkill_def mlfq_next_seq_def Let_def)
  next
    case False
    have "table_inv (upd_proc i (\<lambda>p. p\<lparr>p_killed := True\<rparr>) st)"
      by (rule table_inv_upd_proc [OF assms(1)]) (auto simp: chan_ok_def mlfq_ok_def seq_of_def)
    with Some False show ?thesis by (simp add: kkill_def)
  qed
qed

lemma table_inv_grow:
  assumes "table_inv st" and "growproc env c n st = Inr (r, st')"
  shows "table_inv st'"
proof -
  have sz: "table_inv (upd_proc i (\<lambda>p. p\<lparr>p_sz := sz\<rparr>) s)" if "table_inv s" for i sz s
    by (rule table_inv_upd_proc [OF that]) (auto simp: chan_ok_def mlfq_ok_def seq_of_def)
  from assms(2,1) show ?thesis
    by (auto simp: growproc_def with_proc_def Let_def on_mem_def
        split: if_splits option.splits intro!: sz table_inv_mem)
qed

lemma kstep_inv:
  assumes "kstep env st st'" and "table_inv st" and "seq_room 8192 st"
  shows "table_inv st'"
  using assms(1)
proof cases
  case (schedule c st1)
  with assms(2) show ?thesis by (blast intro: table_inv_schedule)
next
  case (clock c)
  with assms(2,3) show ?thesis by (simp add: table_inv_clock)
next
  case (timer c)
  with assms(2,3) show ?thesis by - (rule table_inv_timer [of st 8192], simp_all)
next
  case (prepare c chan)
  with assms(2) show ?thesis by (blast intro: table_inv_prepare)
next
  case (sleeps c)
  with assms(2) show ?thesis by (blast intro: table_inv_sleep)
next
  case (wakes chan)
  with assms(2,3) show ?thesis by (simp add: table_inv_wakeup)
next
  case (kill pid)
  with assms(2,3) show ?thesis by (simp add: table_inv_kkill)
next
  case (mark_killed i)
  show ?thesis unfolding mark_killed setkilled_def
    by (rule table_inv_upd_proc [OF assms(2)]) (auto simp: chan_ok_def mlfq_ok_def seq_of_def)
next
  case (exits c status)
  with assms(2,3) show ?thesis by (blast intro: table_inv_exit)
next
  case (waits c addr r)
  from waits(1) obtain i where "myproc c st = Some i" by (auto simp: kwait_def dest: with_proc_Inr)
  with waits assms(2) show ?thesis by (blast intro: table_inv_wait kwait_outcome)
next
  case (waitxs c addr aw ar as r)
  from waitxs(1) obtain i where "myproc c st = Some i" by (auto simp: kwaitx_def dest: with_proc_Inr)
  with waitxs assms(2) show ?thesis by (blast intro: table_inv_wait kwaitx_outcome)
next
  case (alloc r)
  with assms(2,3) show ?thesis by - (rule table_inv_alloc [of st 8192], simp_all)
next
  case (start i par nm sz)
  show ?thesis unfolding start
    by (rule table_inv_upd_proc [OF assms(2)]) (use start in \<open>auto simp: chan_ok_def mlfq_ok_def seq_of_def\<close>)
next
  case (fork_fail i)
  from freeproc_eq [OF fork_fail(3)] obtain km where "st' = upd_proc i freed_proc (st\<lparr>kmemory := km\<rparr>)" by blast
  with table_inv_freed [OF table_inv_mem [OF assms(2), of km], of i "\<lambda>p. p"] fork_fail(2) show ?thesis by simp
next
  case (user_mem km)
  with assms(2) show ?thesis by (simp add: table_inv_mem)
next
  case (grow c n r)
  with assms(2) show ?thesis by (blast intro: table_inv_grow)
qed

lemma kreach_inv: "kreach env st \<Longrightarrow> table_inv st"
  by (induction rule: kreach.induct) (auto intro: table_inv_init kstep_inv)

end
