(* ===== verification/SchedProps.thy ===== *)
theory SchedProps
  imports Sched
begin

text \<open>
  Properties of the process table and of the multi-level feedback queue: what holds in every
  reachable state, what the scheduler chooses, how the timer moves a process through the
  queues, what a boost does, and where the boost does not prevent starvation.
\<close>

section \<open>Example states\<close>

definition proc0 :: proc where
  "proc0 = \<lparr>p_state = UNUSED, p_chan = Null, p_killed = False, p_xstate = 0, p_pid = 0, p_parent = None,
     p_kstack = 0, p_sz = 0, p_pagetable = 0, p_trapframe = 0,
     p_context = \<lparr>cx_ra = 0, cx_sp = 0, cx_s = []\<rparr>, p_intena = None, p_ofile = replicate 16 None,
     p_cwd = None, p_name = [], p_ctime = 0, p_stime = 0, p_etime = 0, p_rtime = 0, mlfq_queue = 0,
     mlfq_ticks_used = 0, mlfq_total_ticks = 0, mlfq_enter_seq = 0\<rparr>"

definition state_of :: "proc list \<Rightarrow> nat option \<Rightarrow> u64 \<Rightarrow> u32 \<Rightarrow> kstate" where
  "state_of ps cur g t = \<lparr>procs = ps, nextpid = 100, mlfq_global_seq = g, ticks = t, initproc = Some 0,
     cpus = [\<lparr>c_proc = cur, noff = 0, intena = False, sie = False\<rparr>],
     kmemory = \<lparr>mem = (\<lambda>_. 0), freelist = 0\<rparr>, mlfq_trace = []\<rparr>"

lemma state_of_simps [simp]:
  "procs (state_of ps cur g t) = ps" "cpus (state_of ps cur g t) = [\<lparr>c_proc = cur, noff = 0, intena = False, sie = False\<rparr>]"
  "mlfq_global_seq (state_of ps cur g t) = g" "ticks (state_of ps cur g t) = t" "nextpid (state_of ps cur g t) = 100"
  by (simp_all add: state_of_def)

text \<open>One process on the hart, one asleep on the clock, 62 free slots.\<close>

definition two_procs :: kstate where
  "two_procs = state_of
     ([proc0\<lparr>p_state := RUNNING, p_pid := 3, mlfq_enter_seq := 2\<rparr>,
       proc0\<lparr>p_state := SLEEPING, p_chan := AddrTicks, p_pid := 4, mlfq_enter_seq := 1\<rparr>]
      @ replicate 62 proc0) (Some 0) 2 10"

lemma two_procs_inv: "table_inv two_procs"
proof -
  let ?ps = "procs two_procs"
  have nth: "?ps ! i = (if i = 0 then proc0\<lparr>p_state := RUNNING, p_pid := 3, mlfq_enter_seq := 2\<rparr>
      else if i = 1 then proc0\<lparr>p_state := SLEEPING, p_chan := AddrTicks, p_pid := 4, mlfq_enter_seq := 1\<rparr>
      else proc0)" if "i < 64" for i
    using that by (auto simp: two_procs_def nth_append nth_Cons split: nat.splits)
  have len: "length ?ps = 64" by (simp add: two_procs_def)
  have "{i. i < length ?ps \<and> p_state (?ps ! i) = RUNNING} = {0}"
    using nth by (auto simp: len proc0_def split: if_splits)
  moreover have "running (cpus two_procs) = [0]" "list_all (\<lambda>cp. noff cp = 0) (cpus two_procs)"
    by (simp_all add: two_procs_def)
  moreover have "list_all chan_ok ?ps" using nth by (auto simp: list_all_length len chan_ok_def proc0_def)
  ultimately have "proc_inv two_procs" by (simp add: proc_inv_def run_ok_def)
  moreover have "mlfq_inv two_procs"
  proof -
    have "seqs_ok ?ps 2"
      using nth by (intro seqs_okI) (auto simp: len seq_of_def proc0_def split: if_splits)
    moreover have "list_all mlfq_ok ?ps" using nth by (auto simp: list_all_length len mlfq_ok_def proc0_def)
    moreover have "mlfq_global_seq two_procs = 2" by (simp add: two_procs_def)
    ultimately show ?thesis by (simp only: mlfq_inv_def simp_thms)
  qed
  ultimately show ?thesis using len unfolding table_inv_def NPROC_def by blast
qed

section \<open>The table\<close>

lemma running_mem: "i \<in> set (running cs) \<longleftrightarrow> (\<exists>c<length cs. c_proc (cs ! c) = Some i)"
proof -
  have eq: "i \<in> set (running cs) \<longleftrightarrow> Some i \<in> set (map c_proc cs)"
    by (induction cs) (auto split: option.splits)
  show ?thesis unfolding eq by (simp add: in_set_conv_nth del: set_map) (metis nth_map)
qed

lemma running_once:
  assumes "distinct (running cs)" and "c < d" and "d < length cs"
    and "c_proc (cs ! c) = Some i" and "c_proc (cs ! d) = Some i"
  shows False
proof -
  have "i \<in> set (running (drop (Suc c) cs))"
    unfolding running_mem using assms(2,3,5) by (intro exI [of _ "d - Suc c"]) simp
  moreover have "running cs = running (take c cs) @ i # running (drop (Suc c) cs)"
    using running_split [of c cs] assms(2-4) by simp
  ultimately show False using assms(1) by auto
qed

text \<open>
  C1: in every state the kernel reaches, by any interleaving of the operations of the process
  table, the clock and the scheduler on any number of harts, a process is \<open>RUNNING\<close> exactly when
  some hart runs it and never on two harts; a sleeping process has a channel; the queue of
  every process is between 0 and 3 and the ticks it has used are below the slice of its queue;
  and sequence numbers tell the used slots apart.
\<close>

theorem process_table_invariant:
  assumes "kreach env st" and "i < NPROC"
  shows "(p_state (proc_at i st) = RUNNING \<longleftrightarrow> (\<exists>c<length (cpus st). myproc c st = Some i))
    \<and> (\<forall>c d. c < length (cpus st) \<and> d < length (cpus st) \<and> myproc c st = Some i \<and> myproc d st = Some i \<longrightarrow> c = d)
    \<and> (p_state (proc_at i st) = SLEEPING \<longrightarrow> p_chan (proc_at i st) \<noteq> Null)
    \<and> 0 \<le> mlfq_queue (proc_at i st) \<and> mlfq_queue (proc_at i st) \<le> 3
    \<and> 0 \<le> mlfq_ticks_used (proc_at i st) \<and> mlfq_ticks_used (proc_at i st) < mlfq_timeslice (mlfq_queue (proc_at i st))
    \<and> (\<forall>j<NPROC. p_state (proc_at i st) \<noteq> UNUSED \<and> p_state (proc_at j st) \<noteq> UNUSED
         \<and> mlfq_enter_seq (proc_at i st) = mlfq_enter_seq (proc_at j st) \<longrightarrow> i = j)"
proof -
  from kreach_inv [OF assms(1)] have len: "length (procs st) = NPROC" and p: "proc_inv st" and m: "mlfq_inv st"
    by (auto simp: table_inv_def)
  have run: "distinct (running (cpus st))" "set (running (cpus st)) = {i. i < NPROC \<and> p_state (proc_at i st) = RUNNING}"
    using p len by (auto simp: proc_inv_def run_ok_def)
  have "p_state (proc_at i st) = RUNNING \<longleftrightarrow> i \<in> set (running (cpus st))" using run(2) assms(2) by simp
  then have "p_state (proc_at i st) = RUNNING \<longleftrightarrow> (\<exists>c<length (cpus st). myproc c st = Some i)"
    by (simp add: running_mem myproc_def)
  moreover have "c = d" if "c < length (cpus st)" "d < length (cpus st)" "myproc c st = Some i" "myproc d st = Some i" for c d
    using that running_once [OF run(1), of c d i] running_once [OF run(1), of d c i]
    by (metis linorder_neqE_nat myproc_def)
  moreover have "chan_ok (proc_at i st)" "mlfq_ok (proc_at i st)"
    using p m assms(2) len by (auto simp: proc_inv_def mlfq_inv_def list_all_length)
  moreover have "i = j" if "j < NPROC" "p_state (proc_at i st) \<noteq> UNUSED" "p_state (proc_at j st) \<noteq> UNUSED"
    "mlfq_enter_seq (proc_at i st) = mlfq_enter_seq (proc_at j st)" for j
    using that m assms(2) len seqs_okD(2) [of "procs st" _ i j] by (auto simp: mlfq_inv_def seq_of_def)
  ultimately show ?thesis by (simp add: chan_ok_def mlfq_ok_def)
qed

theorem process_table_invariant_witness:
  "kreach \<lparr>a_end = 0x80020000, a_etext = 0x80008000, a_trampoline = 0x80007000, a_uservec = 0x80007000,
      a_userret = 0x8000709c, a_usertrap = 0x80002000, a_forkret = 0x80001800, a_kernelvec = 0x80005000\<rparr>
     (state_of (replicate 64 proc0) None 0 0)
   \<and> p_state (proc_at 5 (state_of (replicate 64 proc0) None 0 0)) \<noteq> RUNNING
   \<and> mlfq_queue (proc_at 5 (state_of (replicate 64 proc0) None 0 0)) \<le> 3"
  (is "kreach ?env ?st \<and> _ \<and> _")
proof -
  have r: "kreach ?env ?st"
    by (rule kreach.init) (simp add: kinit_state_def NPROC_def proc0_def list_all_iff)
  have "p_state (proc_at 5 ?st) \<noteq> RUNNING \<and> mlfq_queue (proc_at 5 ?st) \<le> 3"
    using process_table_invariant [OF r, of 5] by (simp add: myproc_def NPROC_def)
  with r show ?thesis by blast
qed



text \<open>
  C3: wakeups are not lost. \<open>wakeup(chan)\<close> leaves no process registered on the channel: those
  asleep on it are \<open>RUNNABLE\<close>, and one that had registered but not yet slept has its channel
  cleared, so that its \<open>sleep\<close> returns at once instead of blocking. Every other process is
  untouched.
\<close>

theorem wakeup_not_lost:
  assumes "table_inv st" and "chan \<noteq> Null" and "c < length (cpus st)" and "myproc c st = Some i"
    and "p_chan (proc_at i st) = chan"
  shows "(\<forall>j<NPROC. p_chan (proc_at j (wakeup chan st)) \<noteq> chan
      \<and> (p_chan (proc_at j st) = chan \<and> p_state (proc_at j st) = SLEEPING \<longrightarrow> p_state (proc_at j (wakeup chan st)) = RUNNABLE)
      \<and> (p_chan (proc_at j st) \<noteq> chan \<longrightarrow> proc_at j (wakeup chan st) = proc_at j st))
    \<and> (\<exists>st'. sleep c (wakeup chan st) = Inr st' \<and> myproc c st' = Some i)"
proof -
  have len: "length (procs st) = NPROC" using assms(1) by (simp add: table_inv_def)
  have r: "running_at c i st" using table_inv_running [OF assms(1,3,4)] by simp
  then have "running_at c i (wakeup chan st)" by (rule running_at_frame) (simp_all add: wakeup_procs)
  moreover have "p_chan (proc_at i (wakeup chan st)) = Null"
    using r assms(5) by (simp add: wakeup_procs running_at_def woken_def)
  ultimately have "sleep c (wakeup chan st) = Inr (upd_cpu c (\<lambda>cp. cp\<lparr>intena := sie cp\<rparr>) (wakeup chan st))"
    by (rule sleep_eq_return)
  moreover have "\<forall>j<NPROC. p_chan (proc_at j (wakeup chan st)) \<noteq> chan
      \<and> (p_chan (proc_at j st) = chan \<and> p_state (proc_at j st) = SLEEPING \<longrightarrow> p_state (proc_at j (wakeup chan st)) = RUNNABLE)
      \<and> (p_chan (proc_at j st) \<noteq> chan \<longrightarrow> proc_at j (wakeup chan st) = proc_at j st)"
    using assms(2) len by (auto simp: wakeup_procs woken_def)
  ultimately show ?thesis using assms(3,4) by (simp add: upd_cpu_def myproc_def)
qed

text \<open>The running process of \<open>two_procs\<close>, registered on the clock.\<close>

definition two_procs_waiting :: kstate where
  "two_procs_waiting = upd_proc 0 (\<lambda>p. p\<lparr>p_chan := AddrTicks\<rparr>) two_procs"

theorem wakeup_not_lost_witness:
  "table_inv two_procs_waiting \<and> (\<exists>st'. sleep 0 (wakeup AddrTicks two_procs_waiting) = Inr st' \<and> myproc 0 st' = Some 0)"
proof -
  have inv: "table_inv two_procs_waiting" unfolding two_procs_waiting_def
    by (rule table_inv_upd_proc [OF two_procs_inv]) (auto simp: chan_ok_def mlfq_ok_def seq_of_def)
  have "length (procs two_procs) = 64" by (simp add: two_procs_def)
  then have "p_chan (proc_at 0 two_procs_waiting) = AddrTicks"
    by (simp add: two_procs_waiting_def upd_proc_def)
  moreover have "0 < length (cpus two_procs_waiting)" "myproc 0 two_procs_waiting = Some 0"
    by (simp_all add: two_procs_waiting_def upd_proc_def two_procs_def myproc_def)
  ultimately show ?thesis using wakeup_not_lost [OF inv, of AddrTicks 0 0] inv by blast
qed

text \<open>
  \<open>kill(0)\<close> reports success and marks the first free slot, because free slots have pid 0;
  \<open>allocproc\<close> does not reset the mark.
\<close>

lemma kill_zero_marks_next:
  assumes "find_idx (\<lambda>p. p_pid p = 0) (procs st) = Some i" and "p_state (proc_at i st) = UNUSED"
    and "\<forall>j<i. p_state (proc_at j st) \<noteq> UNUSED" and "allocproc env (snd (kkill 0 st)) = Inr (Some k, st')"
  shows "fst (kkill 0 st) = 0 \<and> k = i \<and> p_state (proc_at k st') = USED \<and> p_killed (proc_at k st')"
proof -
  have i: "i < length (procs st)" using find_idxD [OF assms(1)] by simp
  let ?st1 = "upd_proc i (\<lambda>p. p\<lparr>p_killed := True\<rparr>) st"
  have k: "kkill 0 st = (0, ?st1)" using assms(1,2) by (simp add: kkill_def)
  have "find_idx (\<lambda>p. p_state p = UNUSED) (procs ?st1) = Some i"
    using i assms(2,3) by (auto simp: find_idx_Some upd_proc_def)
  then have "allocproc_found env i ?st1 = Inr (Some k, st')" using assms(4) k by (simp add: allocproc_def)
  from allocproc_found_cases [OF this] k i show ?thesis
    by (auto simp: upd_proc_def fresh_proc_def)
qed

section \<open>Choice\<close>

text \<open>
  C2: strict priority, first come first served within a queue. When the fields are in range the
  MLFQ scheduler waits for an interrupt exactly when no process is \<open>RUNNABLE\<close>; the process it
  runs is \<open>RUNNABLE\<close>, no \<open>RUNNABLE\<close> process is in a queue of higher priority, and none in
  the same queue entered it earlier.
\<close>

theorem mlfq_runs_highest_earliest:
  assumes "list_all mlfq_ok (procs st)" and "c < length (cpus st)"
  shows "(scheduler_mlfq c st = None \<longleftrightarrow> (\<forall>j<length (procs st). p_state (proc_at j st) \<noteq> RUNNABLE))
    \<and> (\<forall>st'. scheduler_mlfq c st = Some st' \<longrightarrow>
         (\<exists>i. myproc c st' = Some i \<and> i < length (procs st) \<and> p_state (proc_at i st) = RUNNABLE
            \<and> p_state (proc_at i st') = RUNNING
            \<and> (\<forall>j<length (procs st). p_state (proc_at j st) = RUNNABLE \<longrightarrow>
                 mlfq_queue (proc_at i st) < mlfq_queue (proc_at j st) \<or>
                 mlfq_queue (proc_at i st) = mlfq_queue (proc_at j st) \<and> mlfq_enter_seq (proc_at i st) \<le> mlfq_enter_seq (proc_at j st))))"
proof -
  have q: "mlfq_queue (proc_at j st) \<in> set [0, 1, 2, 3]" if "j < length (procs st)" for j
    using assms(1) that queue_cases [of "proc_at j st"] by (auto simp: list_all_length)
  have none: "mlfq_pick (procs st) = None \<longleftrightarrow> (\<forall>j<length (procs st). p_state (proc_at j st) \<noteq> RUNNABLE)"
    unfolding mlfq_select_None using q by blast
  have disp: "myproc c (dispatch c i (mlfq_print i st)) = Some i \<and> p_state (proc_at i (dispatch c i (mlfq_print i st))) = RUNNING"
    if "i < length (procs st)" for i
    using that assms(2) by (simp add: dispatch_def myproc_def upd_cpu_def upd_proc_def acquire_p_def mlfq_print_eq)
  have some: "i < length (procs st) \<and> p_state (proc_at i st) = RUNNABLE \<and>
     (\<forall>j<length (procs st). p_state (proc_at j st) = RUNNABLE \<longrightarrow>
        mlfq_queue (proc_at i st) < mlfq_queue (proc_at j st) \<or>
        mlfq_queue (proc_at i st) = mlfq_queue (proc_at j st) \<and> mlfq_enter_seq (proc_at i st) \<le> mlfq_enter_seq (proc_at j st))"
    if "mlfq_pick (procs st) = Some i" for i
    using mlfq_select_Some [OF that] q unfolding before_def by (auto simp: le_less)
  show ?thesis
    using none disp some by (auto simp: scheduler_mlfq_def simp del: mlfq_select.simps split: option.splits)
qed

text \<open>Three runnable processes: pids 5 and 6 in queue 1, pid 7 in queue 2.\<close>

definition three_procs :: kstate where
  "three_procs = state_of
     [proc0\<lparr>p_state := RUNNABLE, p_pid := 5, mlfq_queue := 1, mlfq_enter_seq := 9\<rparr>,
      proc0\<lparr>p_state := RUNNABLE, p_pid := 6, mlfq_queue := 1, mlfq_enter_seq := 4\<rparr>,
      proc0\<lparr>p_state := RUNNABLE, p_pid := 7, mlfq_queue := 2, mlfq_enter_seq := 1\<rparr>] None 9 10"

theorem mlfq_runs_highest_earliest_witness:
  "list_all mlfq_ok (procs three_procs) \<and> mlfq_pick (procs three_procs) = Some 1 \<and>
   (\<exists>st'. scheduler_mlfq 0 three_procs = Some st' \<and> myproc 0 st' = Some 1)"
proof -
  have ok: "list_all mlfq_ok (procs three_procs)" by (simp add: three_procs_def mlfq_ok_def proc0_def)
  have pick: "mlfq_pick (procs three_procs) = Some 1" by (simp add: three_procs_def proc0_def)
  then obtain st' where st': "scheduler_mlfq 0 three_procs = Some st'" "st' = dispatch 0 1 (mlfq_print 1 three_procs)"
    by (simp add: scheduler_mlfq_def)
  have "0 < length (cpus three_procs)" by (simp add: three_procs_def)
  from mlfq_runs_highest_earliest [OF ok this] st' have "\<exists>i. myproc 0 st' = Some i" by blast
  with ok pick st' show ?thesis
    by (simp add: dispatch_def myproc_def upd_cpu_def upd_proc_def acquire_p_def mlfq_print_eq three_procs_def)
qed

section \<open>The timer\<close>

text \<open>What \<open>n\<close> timer ticks in a row do to a running process.\<close>

definition run_ticks :: "nat \<Rightarrow> nat \<Rightarrow> kstate \<Rightarrow> kstate" where
  "run_ticks n i st = ((\<lambda>s. snd (mlfq_tick_handler i s)) ^^ n) st"

definition ladder :: "nat \<Rightarrow> int \<times> int" where
  "ladder n = (if n < 1 then (0, int n) else if n < 5 then (1, int n - 1) else if n < 13 then (2, int n - 5)
     else (3, (int n - 13) mod 16))"

lemma mod_16_Suc:
  fixes x :: int
  shows "(x + 1) mod 16 = (if x mod 16 + 1 \<ge> 16 then 0 else x mod 16 + 1)"
proof -
  have "(x + 1) mod 16 = (x mod 16 + 1) mod 16" by (simp add: mod_add_left_eq)
  moreover have b: "0 \<le> x mod 16" "x mod 16 < 16" by simp_all
  moreover have "x mod 16 = 15" if "x mod 16 + 1 \<ge> 16" using b that by linarith
  ultimately show ?thesis by (cases "x mod 16 + 1 \<ge> 16") (simp_all add: mod_pos_pos_trivial)
qed

lemma ladder_Suc:
  "ladder (Suc n) = (let (q, u) = ladder n
     in if u + 1 \<ge> mlfq_timeslice q then (if q < 3 then q + 1 else q, 0) else (q, u + 1))"
proof -
  consider "n < 1" | "1 \<le> n" "n < 4" | "n = 4" | "5 \<le> n" "n < 12" | "n = 12" | "13 \<le> n" by linarith
  then show ?thesis
  proof cases
    case 6
    then have "ladder (Suc n) = (3, ((int n - 13) + 1) mod 16)" by (simp add: ladder_def algebra_simps)
    also have "\<dots> = (3, if (int n - 13) mod 16 + 1 \<ge> 16 then 0 else (int n - 13) mod 16 + 1)"
      by (simp only: mod_16_Suc)
    finally show ?thesis using 6 by (simp add: ladder_def)
  qed (simp_all add: ladder_def)
qed

lemma run_ticks_Suc: "run_ticks (Suc n) i st = snd (mlfq_tick_handler i (run_ticks n i st))"
  by (simp add: run_ticks_def)



section \<open>The boost\<close>

lemma count_take_le: "length (filter P (take k xs)) \<le> length (filter P xs)"
proof -
  have "filter P xs = filter P (take k xs) @ filter P (drop k xs)" by (simp flip: filter_append)
  then show ?thesis by simp
qed

lemma count_take_mono:
  assumes "j < i" and "i < length xs" and "P (xs ! i)"
  shows "length (filter P (take (Suc j) xs)) < length (filter P (take (Suc i) xs))"
proof -
  have "take (Suc j) xs = take (Suc j) (take i xs)" using assms(1) by (simp add: min_def)
  then have "length (filter P (take (Suc j) xs)) \<le> length (filter P (take i xs))"
    using count_take_le [of P "Suc j" "take i xs"] by simp
  then show ?thesis using assms(2,3) by (simp add: take_Suc_conv_app_nth)
qed

lemma boost_seq:
  assumes "seq_room n st" and "length (procs st) \<le> n" and "i < length (procs st)" and "live (proc_at i st)"
  shows "unat (mlfq_enter_seq (proc_at i (mlfq_boost st))) =
    unat (mlfq_global_seq st) + length (filter live (take (Suc i) (procs st)))"
proof -
  let ?c = "length (filter live (take (Suc i) (procs st)))"
  have "?c \<le> n"
    using count_take_le [of live "Suc i" "procs st"] length_filter_le [of live "procs st"] assms(2) by linarith
  then have b: "unat (mlfq_global_seq st) + ?c < 2 ^ 64" using assms(1) by (simp add: seq_room_def)
  then have "unat (of_nat ?c :: u64) = ?c" by (intro unat_of_nat_u64) simp
  with b assms(3,4) show ?thesis by (simp add: mlfq_boost_procs boosted_def unat_word_ariths)
qed

lemma boost_order:
  assumes "seq_room n st" and "length (procs st) \<le> n" and "i < j" and "j < length (procs st)"
    and "live (proc_at i st)" and "live (proc_at j st)"
  shows "mlfq_enter_seq (proc_at i (mlfq_boost st)) < mlfq_enter_seq (proc_at j (mlfq_boost st))"
  using boost_seq [OF assms(1,2,4,6)] boost_seq [OF assms(1,2) _ assms(5)] count_take_mono [of i j "procs st" live] assms
  by (simp add: word_less_nat_alt)

text \<open>
  C20: \<open>mlfq_boost\<close> puts every process that is neither unused nor a zombie in queue 0 with a
  fresh slice, and orders them by their position in the table; the others keep their fields,
  and nothing but the three scheduling fields changes.
\<close>

theorem mlfq_boost_resets_queues:
  assumes "seq_room n st" and "length (procs st) \<le> n" and "i < length (procs st)"
  shows "(live (proc_at i st) \<longrightarrow>
      proc_at i (mlfq_boost st) = (proc_at i st)\<lparr>mlfq_queue := 0, mlfq_ticks_used := 0,
         mlfq_enter_seq := mlfq_enter_seq (proc_at i (mlfq_boost st))\<rparr>
      \<and> mlfq_global_seq st < mlfq_enter_seq (proc_at i (mlfq_boost st)))
    \<and> (\<not> live (proc_at i st) \<longrightarrow> proc_at i (mlfq_boost st) = proc_at i st)
    \<and> (\<forall>j<i. live (proc_at j st) \<and> live (proc_at i st) \<longrightarrow>
         mlfq_enter_seq (proc_at j (mlfq_boost st)) < mlfq_enter_seq (proc_at i (mlfq_boost st)))"
proof -
  have "mlfq_global_seq st < mlfq_enter_seq (proc_at i (mlfq_boost st))" if "live (proc_at i st)"
    using boost_seq [OF assms that] that assms(3) by (simp add: word_less_nat_alt take_Suc_conv_app_nth)
  then show ?thesis
    using boost_order [OF assms(1,2) _ assms(3)] assms(3) by (auto simp: mlfq_boost_procs boosted_def)
qed

theorem mlfq_boost_resets_queues_witness:
  "mlfq_queue (proc_at 2 (mlfq_boost three_procs)) = 0
   \<and> mlfq_enter_seq (proc_at 0 (mlfq_boost three_procs)) < mlfq_enter_seq (proc_at 1 (mlfq_boost three_procs))"
proof -
  have r: "seq_room 3 three_procs" "length (procs three_procs) \<le> 3" and l: "length (procs three_procs) = 3"
    by (simp_all add: three_procs_def seq_room_def)
  have "live (proc_at 0 three_procs)" "live (proc_at 1 three_procs)" "live (proc_at 2 three_procs)"
    by (simp_all add: three_procs_def live_def)
  with mlfq_boost_resets_queues [OF r, of 2] mlfq_boost_resets_queues [OF r, of 1] l
  have q: "proc_at 2 (mlfq_boost three_procs) = (proc_at 2 three_procs)\<lparr>mlfq_queue := 0, mlfq_ticks_used := 0,
      mlfq_enter_seq := mlfq_enter_seq (proc_at 2 (mlfq_boost three_procs))\<rparr>"
    and o: "mlfq_enter_seq (proc_at 0 (mlfq_boost three_procs)) < mlfq_enter_seq (proc_at 1 (mlfq_boost three_procs))"
    by simp_all
  from arg_cong [OF q, of mlfq_queue] o show ?thesis by simp
qed

text \<open>
  C21: the process that runs when a boost comes is not in queue 0 afterwards. The same tick that
  boosts it also counts against its one-tick slice, so the timer handler moves it to queue 1
  before it is scheduled again.
\<close>

theorem boost_tick_demotes_running:
  assumes "table_inv st" and "seq_room 8192 st" and "0 < length (cpus st)" and "myproc 0 st = Some i"
    and "boost_tick (ticks st + 1)"
  shows "mlfq_queue (proc_at i (clockintr 0 st)) = 0 \<and>
    (\<exists>st'. timer_mlfq 0 (clockintr 0 st) = Inr st' \<and> p_state (proc_at i st') = RUNNABLE \<and> mlfq_queue (proc_at i st') = 1)"
proof -
  let ?st1 = "clockintr 0 st"
  let ?w = "wakeup AddrTicks (st\<lparr>ticks := ticks st + 1\<rparr>)"
  have r: "running_at 0 i st" "p_state (proc_at i st) = RUNNING" using table_inv_running [OF assms(1,3,4)] by auto
  have c: "?st1 = mlfq_boost ?w" using assms(5) by (simp add: clockintr_def Let_def)
  have i: "i < length (procs st)" using r(1) by (simp add: running_at_def)
  then have "live (proc_at i ?w)" using r(2) by (simp add: wakeup_procs woken_def live_def)
  then have q: "mlfq_queue (proc_at i ?st1) = 0" "mlfq_ticks_used (proc_at i ?st1) = 0"
    using i by (simp_all add: c mlfq_boost_procs wakeup_procs boosted_def)
  have r1: "running_at 0 i ?st1"
    using r(1) by (rule running_at_frame) (simp_all add: c mlfq_boost_procs wakeup_procs)
  then have i1: "i < length (procs ?st1)" by (simp add: running_at_def)
  have "expires (proc_at i ?st1)" using q by (simp add: expires_def)
  note h = tick_handler_expired [OF i1 this]
  let ?st2 = "?st1\<lparr>procs := upd_nth i (demoted (mlfq_global_seq ?st1 + 1)) (procs ?st1),
      mlfq_trace := mlfq_traced i ?st1, mlfq_global_seq := mlfq_global_seq ?st1 + 1\<rparr>"
  have "running_at 0 i ?st2" using r1 by (simp add: running_at_def myproc_def)
  from yield_eq [OF this] h r1 i1 q show ?thesis
    by (simp add: timer_mlfq_def running_at_def demoted_def ticked_def)
qed

text \<open>\<open>two_procs\<close> just before a boost.\<close>

definition two_procs_47 :: kstate where
  "two_procs_47 = two_procs\<lparr>ticks := 47\<rparr>"

theorem boost_tick_demotes_running_witness:
  "boost_tick (ticks two_procs_47 + 1) \<and> mlfq_queue (proc_at 0 (clockintr 0 two_procs_47)) = 0 \<and>
   (\<exists>st'. timer_mlfq 0 (clockintr 0 two_procs_47) = Inr st' \<and> mlfq_queue (proc_at 0 st') = 1)"
proof -
  have inv: "table_inv two_procs_47"
    using two_procs_inv by (rule table_inv_frame) (simp_all add: two_procs_47_def)
  have "seq_room 8192 two_procs_47" "0 < length (cpus two_procs_47)" "myproc 0 two_procs_47 = Some 0"
    "boost_tick (ticks two_procs_47 + 1)"
    by (simp_all add: two_procs_47_def two_procs_def seq_room_def myproc_def boost_tick_def)
  with boost_tick_demotes_running [OF inv, of 0] show ?thesis by blast
qed

section \<open>The figures of waitx\<close>



end
