(* ===== verification/Starve.thy ===== *)
theory Starve
  imports SchedProps
begin

text \<open>
  Where the boost does not prevent starvation. \<open>mlfq_boost\<close> hands out new sequence numbers in
  table order, so after each boost the processes of queue 0 run in table order again. A slice
  of queue 0 is one tick and a boost period is 48 ticks: with more than 49 processes that only
  compute, those at the end of the table are never reached before the next boost.
\<close>

section \<open>One timer tick of a single hart\<close>

text \<open>
  The clock interrupt on hart 0, the timer part of the trap, and the scheduler if the process
  gave up the hart.
\<close>

definition tick_round :: "kstate \<Rightarrow> kstate kres" where
  "tick_round st = bindE (timer_mlfq 0 (clockintr 0 st)) (\<lambda>st1.
     case myproc 0 st1 of
       Some _ \<Rightarrow> Inr st1
     | None \<Rightarrow> (case scheduler_mlfq 0 st1 of None \<Rightarrow> Inr st1 | Some st2 \<Rightarrow> resume 0 st2))"

fun rounds :: "nat \<Rightarrow> kstate \<Rightarrow> kstate kres" where
  "rounds 0 st = Inr st"
| "rounds (Suc n) st = bindE (rounds n st) tick_round"

text \<open>
  \<open>front ps k e\<close>: the processes before slot \<open>k\<close>, and the one in slot \<open>e\<close>, have left queue 0;
  the others are in queue 0 with a fresh slice, in table order.
\<close>

definition front :: "proc list \<Rightarrow> nat \<Rightarrow> nat \<Rightarrow> bool" where
  "front ps k e \<longleftrightarrow>
     (\<forall>j<64. j < k \<or> j = e \<longrightarrow> 1 \<le> mlfq_queue (ps ! j)) \<and>
     (\<forall>j<64. k \<le> j \<and> j \<noteq> e \<longrightarrow> mlfq_queue (ps ! j) = 0 \<and> mlfq_ticks_used (ps ! j) = 0) \<and>
     (\<forall>i<64. \<forall>j<64. k \<le> i \<and> i < j \<and> i \<noteq> e \<and> j \<noteq> e \<longrightarrow> mlfq_enter_seq (ps ! i) < mlfq_enter_seq (ps ! j))"

definition busy :: "proc list \<Rightarrow> bool" where
  "busy ps \<longleftrightarrow> length ps = 64 \<and> (\<forall>j<64. p_chan (ps ! j) = Null \<and> mlfq_ok (ps ! j) \<and>
     (p_state (ps ! j) = RUNNABLE \<or> p_state (ps ! j) = RUNNING))"

definition fresh63 :: "proc list \<Rightarrow> bool" where
  "fresh63 ps \<longleftrightarrow> p_stime (ps ! 63) = -1 \<and> p_rtime (ps ! 63) = 0"

section \<open>The choice\<close>

lemma before_antisym: "before ps i j \<Longrightarrow> before ps j i \<Longrightarrow> i = j"
  by (auto simp: before_def)

lemma mlfq_pick_eqI:
  assumes "i < length ps" and "p_state (ps ! i) = RUNNABLE" and "list_all mlfq_ok ps"
    and "\<And>j. j < length ps \<Longrightarrow> p_state (ps ! j) = RUNNABLE \<Longrightarrow> before ps i j"
  shows "mlfq_pick ps = Some i"
proof -
  have "ps ! i \<in> set ps" using assms(1) by simp
  from mlfq.work_conserving [OF assms(3) this assms(2)] obtain k where k: "mlfq_pick ps = Some k" by blast
  have "mlfq_queue (ps ! i) \<in> set [0, 1, 2, 3]"
    using assms(1,3) queue_cases [of "ps ! i"] by (auto simp: list_all_length)
  with mlfq_select_Some [OF k] assms have "before ps k i" "before ps i k" by simp_all
  then show ?thesis using k before_antisym by blast
qed

lemma busy_ok: "busy ps \<Longrightarrow> list_all mlfq_ok ps"
  by (simp add: busy_def list_all_length)

lemma front_pick:
  assumes "busy ps" and "front ps k e" and "k < 64" and "k \<noteq> e" and "p_state (ps ! k) = RUNNABLE"
  shows "mlfq_pick ps = Some k"
proof (rule mlfq_pick_eqI)
  fix j assume j: "j < length ps"
  then have j: "j < 64" using assms(1) by (simp add: busy_def)
  have k: "mlfq_queue (ps ! k) = 0" using assms(2-4) by (simp add: front_def)
  consider "j < k \<or> j = e" | "j = k" | "k < j" "j \<noteq> e" by linarith
  then show "before ps k j"
  proof cases
    case 1
    then have "1 \<le> mlfq_queue (ps ! j)" using assms(2) j unfolding front_def by blast
    then show ?thesis using k by (simp add: before_def)
  next
    case 3
    then have "mlfq_queue (ps ! j) = 0" "mlfq_enter_seq (ps ! k) < mlfq_enter_seq (ps ! j)"
      using assms(2-4) j by (simp_all add: front_def)
    then show ?thesis using k by (simp add: before_def)
  qed (simp add: before_def)
qed (use assms busy_ok in \<open>auto simp: busy_def\<close>)

text \<open>The slot that is served next: the first after \<open>k\<close> that is not \<open>e\<close>.\<close>

definition skip :: "nat \<Rightarrow> nat \<Rightarrow> nat" where
  "skip k e = (if k = e then Suc k else k)"

lemma front_skip: "front ps k e \<Longrightarrow> front ps (skip k e) e"
  unfolding front_def skip_def by (auto simp: less_Suc_eq Suc_le_eq)

section \<open>The parts of a round\<close>

lemma wakeup_nobody: "\<forall>p\<in>set (procs st). p_chan p \<noteq> chan \<Longrightarrow> wakeup chan st = st"
proof -
  have "\<forall>p\<in>set ps. p_chan p \<noteq> chan \<Longrightarrow> wakeup_loop chan s ps = (s, ps)" for s ps
    by (induction ps) auto
  then show "\<forall>p\<in>set (procs st). p_chan p \<noteq> chan \<Longrightarrow> wakeup chan st = st" by (simp add: wakeup_def)
qed

lemma front_cong:
  assumes "\<And>j. j < 64 \<Longrightarrow> mlfq_queue (ps' ! j) = mlfq_queue (ps ! j) \<and> mlfq_ticks_used (ps' ! j) = mlfq_ticks_used (ps ! j)
    \<and> mlfq_enter_seq (ps' ! j) = mlfq_enter_seq (ps ! j)"
  shows "front ps' k e = front ps k e"
  using assms unfolding front_def by (auto cong: conj_cong imp_cong)

text \<open>The process \<open>y\<close> uses up its slice and goes back to the scheduler.\<close>

lemma slice_used_up:
  assumes "y < length (procs st)" and "mlfq_queue (proc_at y st) = 0" and "mlfq_ticks_used (proc_at y st) = 0"
    and "length (cpus st) = 1" and "myproc 0 st = Some y" and "noff (cpus st ! 0) = 0"
  obtains st1 b where "timer_mlfq 0 st = Inr st1" "myproc 0 st1 = None" "length (cpus st1) = 1" "noff (cpus st1 ! 0) = 0"
    "ticks st1 = ticks st" "mlfq_global_seq st1 = mlfq_global_seq st + 1"
    "procs st1 = upd_nth y (\<lambda>p. (demoted (mlfq_global_seq st + 1) p)\<lparr>p_state := RUNNABLE, p_intena := Some b\<rparr>) (procs st)"
proof -
  have "expires (proc_at y st)" using assms(2,3) by (simp add: expires_def)
  with tick_handler_expired [of y st] assms(1) have t: "mlfq_tick_handler y st = (True, st\<lparr>
      procs := upd_nth y (demoted (mlfq_global_seq st + 1)) (procs st),
      mlfq_trace := mlfq_traced y st, mlfq_global_seq := mlfq_global_seq st + 1\<rparr>)" (is "_ = (True, ?st1)") by simp
  have "running_at 0 y ?st1" using assms by (simp add: running_at_def myproc_def)
  from yield_eq [OF this] obtain st2 where e: "yield 0 ?st1 = Inr st2" and
    st2: "st2 = ?st1\<lparr>procs := upd_nth y (\<lambda>p. p\<lparr>p_state := RUNNABLE, p_intena := Some (sie (cpus ?st1 ! 0))\<rparr>) (procs ?st1),
           cpus := upd_nth 0 idle_cpu (cpus ?st1)\<rparr>" by blast
  have "timer_mlfq 0 st = Inr st2" using t e assms(5) by (simp add: timer_mlfq_def)
  then show thesis
    by (rule that [of _ "sie (cpus st ! 0)"]) (use assms(4) in \<open>simp_all add: st2 myproc_def idle_cpu_def\<close>)
qed

text \<open>The scheduler serves slot \<open>k\<close>.\<close>

lemma slot_served:
  assumes "mlfq_pick (procs st) = Some k" and "k < length (procs st)" and "length (cpus st) = 1" and "noff (cpus st ! 0) = 0"
  obtains st' where "(case scheduler_mlfq 0 st of None \<Rightarrow> Inr st | Some st2 \<Rightarrow> resume 0 st2) = Inr st'"
    "myproc 0 st' = Some k" "length (cpus st') = 1" "noff (cpus st' ! 0) = 0"
    "ticks st' = ticks st" "mlfq_global_seq st' = mlfq_global_seq st"
    "procs st' = upd_nth k (\<lambda>p. (first_run (ticks st) p)\<lparr>p_state := RUNNING\<rparr>) (procs st)"
proof -
  let ?st = "mlfq_print k st"
  have c: "0 < length (cpus ?st)" "k < length (procs ?st)" "noff (cpus ?st ! 0) = 0"
    using assms(2-4) by (simp_all add: mlfq_print_eq)
  from dispatch_resume_eq [OF this] obtain b st2 where e: "resume 0 (dispatch 0 k ?st) = Inr st2" and
    st2: "st2 = ?st\<lparr>procs := upd_nth k (\<lambda>p. (first_run (ticks ?st) p)\<lparr>p_state := RUNNING\<rparr>) (procs ?st),
           cpus := upd_nth 0 (\<lambda>cp. cp\<lparr>c_proc := Some k, noff := 0, intena := b, sie := b\<rparr>) (cpus ?st)\<rparr>" by blast
  have "(case scheduler_mlfq 0 st of None \<Rightarrow> Inr st | Some st2 \<Rightarrow> resume 0 st2) = Inr st2"
    using e assms(1) by (simp add: scheduler_mlfq_def del: mlfq_select.simps)
  then show thesis
    by (rule that) (use assms(3) in \<open>simp_all add: st2 mlfq_print_eq myproc_def\<close>)
qed

text \<open>The tail of a round: process \<open>y\<close> gives way to slot \<open>k\<close>.\<close>

definition on_hart0 :: "kstate \<Rightarrow> nat \<Rightarrow> bool" where
  "on_hart0 st y \<longleftrightarrow> busy (procs st) \<and> fresh63 (procs st) \<and> (\<forall>j<64. p_state (proc_at j st) = RUNNING \<longleftrightarrow> j = y) \<and>
     length (cpus st) = 1 \<and> myproc 0 st = Some y \<and> noff (cpus st ! 0) = 0"

lemma round_tail:
  assumes "on_hart0 st y" and "front (upd_nth y (demoted (mlfq_global_seq st + 1)) (procs st)) k e" and "k < 63" and "k \<noteq> e"
    and "y < 63" and "mlfq_queue (proc_at y st) = 0" and "mlfq_ticks_used (proc_at y st) = 0"
  obtains st1 st' where "timer_mlfq 0 st = Inr st1" "myproc 0 st1 = None"
    "(case scheduler_mlfq 0 st1 of None \<Rightarrow> Inr st1 | Some st2 \<Rightarrow> resume 0 st2) = Inr st'"
    "on_hart0 st' k" "front (procs st') k e" "mlfq_global_seq st' = mlfq_global_seq st + 1" "ticks st' = ticks st"
proof -
  have len: "length (procs st) = 64" using assms(1) by (simp add: on_hart0_def busy_def)
  obtain st1 b where t: "timer_mlfq 0 st = Inr st1" "myproc 0 st1 = None" "length (cpus st1) = 1" "noff (cpus st1 ! 0) = 0"
    "ticks st1 = ticks st" "mlfq_global_seq st1 = mlfq_global_seq st + 1"
    "procs st1 = upd_nth y (\<lambda>p. (demoted (mlfq_global_seq st + 1) p)\<lparr>p_state := RUNNABLE, p_intena := Some b\<rparr>) (procs st)"
    by (rule slice_used_up [of y st]) (use assms len in \<open>auto simp: on_hart0_def\<close>)
  have p1: "proc_at j st1 = (if j = y then (demoted (mlfq_global_seq st + 1) (proc_at j st))\<lparr>p_state := RUNNABLE, p_intena := Some b\<rparr>
     else proc_at j st)" if "j < 64" for j
    using that len t(7) by (simp add: nth_upd_nth)
  have runnable: "p_state (proc_at j st1) = RUNNABLE" if "j < 64" for j
    using that p1 assms(1) by (auto simp: busy_def on_hart0_def)
  have b1: "busy (procs st1)"
    using assms(1) p1 runnable len t(7) mlfq_ok_demoted [of "proc_at y st" "mlfq_global_seq st + 1"]
    by (auto simp: busy_def on_hart0_def demoted_def ticked_def mlfq_ok_def)
  have "front (procs st1) k e = front (upd_nth y (demoted (mlfq_global_seq st + 1)) (procs st)) k e"
    by (rule front_cong) (use p1 len in \<open>auto simp: nth_upd_nth\<close>)
  then have f1: "front (procs st1) k e" using assms(2) by simp
  have len1: "length (procs st1) = 64" using t(7) len by simp
  have "mlfq_pick (procs st1) = Some k"
    using b1 f1 assms(3,4) runnable by (intro front_pick) auto
  then obtain st' where s: "(case scheduler_mlfq 0 st1 of None \<Rightarrow> Inr st1 | Some st2 \<Rightarrow> resume 0 st2) = Inr st'"
    "myproc 0 st' = Some k" "length (cpus st') = 1" "noff (cpus st' ! 0) = 0"
    "ticks st' = ticks st1" "mlfq_global_seq st' = mlfq_global_seq st1"
    "procs st' = upd_nth k (\<lambda>p. (first_run (ticks st1) p)\<lparr>p_state := RUNNING\<rparr>) (procs st1)"
    by (rule slot_served) (use assms(3) len1 t in auto)
  have p2: "proc_at j st' = (if j = k then (first_run (ticks st1) (proc_at j st1))\<lparr>p_state := RUNNING\<rparr> else proc_at j st1)"
    if "j < 64" for j
    using that len1 s(7) by (simp add: nth_upd_nth)
  have len2: "length (procs st') = 64" using s(7) len1 by simp
  have "front (procs st') k e = front (procs st1) k e"
    by (rule front_cong) (use p2 in \<open>auto simp: first_run_def\<close>)
  moreover have "busy (procs st')"
    using b1 p2 len2 by (auto simp: busy_def first_run_def mlfq_ok_def)
  moreover have "fresh63 (procs st')"
    using assms(1,3,5) p1 [of 63] p2 [of 63] by (auto simp: fresh63_def on_hart0_def)
  ultimately have "on_hart0 st' k" "front (procs st') k e"
    using s(2-4) runnable p2 f1 by (auto simp: on_hart0_def)
  then show thesis using t s by (intro that [of st1 st']) simp_all
qed

section \<open>A round keeps the last slot waiting\<close>

lemma front_demote:
  assumes "front ps y e" and "y < 64" and "length ps = 64"
  shows "front (upd_nth y (demoted s) ps) (Suc y) e"
proof -
  have q: "mlfq_queue (ps ! y) = 0 \<or> 1 \<le> mlfq_queue (ps ! y)" using assms(1,2) unfolding front_def by blast
  have n: "upd_nth y (demoted s) ps ! j = (if j = y then demoted s (ps ! j) else ps ! j)" if "j < 64" for j
    using that assms(3) by (simp add: nth_upd_nth)
  have out: "1 \<le> mlfq_queue (upd_nth y (demoted s) ps ! j)" if "j < 64" "j < Suc y \<or> j = e" for j
  proof (cases "j = y")
    case True
    then show ?thesis using n [of j] that(1) q by (auto simp: demoted_def ticked_def)
  next
    case False
    then have "j < y \<or> j = e" using that(2) by auto
    then have "1 \<le> mlfq_queue (ps ! j)" using assms(1) that(1) unfolding front_def by blast
    then show ?thesis using n [of j] that(1) False by simp
  qed
  moreover have "mlfq_queue (upd_nth y (demoted s) ps ! j) = 0 \<and> mlfq_ticks_used (upd_nth y (demoted s) ps ! j) = 0"
    if "j < 64" "Suc y \<le> j \<and> j \<noteq> e" for j
    using that n [of j] assms(1) unfolding front_def by (metis Suc_leD Suc_n_not_le_n)
  moreover have "mlfq_enter_seq (upd_nth y (demoted s) ps ! i) < mlfq_enter_seq (upd_nth y (demoted s) ps ! j)"
    if "i < 64" "j < 64" "Suc y \<le> i \<and> i < j \<and> i \<noteq> e \<and> j \<noteq> e" for i j
    using that n [of i] n [of j] assms(1) unfolding front_def by (metis Suc_leD Suc_le_lessD less_irrefl less_trans)
  ultimately show ?thesis unfolding front_def by blast
qed

lemma front_boost:
  assumes "busy (procs st)" and "seq_room n st" and "64 \<le> n" and "y < 64"
  shows "front (upd_nth y (demoted s) (procs (mlfq_boost st))) 0 y"
proof -
  have len: "length (procs st) = 64" using assms(1) by (simp add: busy_def)
  have live: "live (proc_at j st)" if "j < 64" for j using assms(1) that by (auto simp: busy_def live_def)
  have b: "mlfq_queue (proc_at j (mlfq_boost st)) = 0 \<and> mlfq_ticks_used (proc_at j (mlfq_boost st)) = 0" if "j < 64" for j
    using that live len by (simp add: mlfq_boost_procs boosted_def)
  have lt: "mlfq_enter_seq (proc_at i (mlfq_boost st)) < mlfq_enter_seq (proc_at j (mlfq_boost st))" if "i < j" "j < 64" for i j
  proof -
    have "i < 64" using that by simp
    with boost_order [OF assms(2), of i j] that live len assms(3) show ?thesis by simp
  qed
  show ?thesis
    using b lt assms(4) len by (auto simp: front_def nth_upd_nth mlfq_boost_procs(1) demoted_def ticked_def)
qed

lemma on_hart0_boost:
  assumes "on_hart0 st y"
  shows "on_hart0 (mlfq_boost st) y"
proof -
  have len: "length (procs st) = 64" using assms by (simp add: on_hart0_def busy_def)
  have p: "\<exists>s. proc_at j (mlfq_boost st) = boosted s (proc_at j st)" if "j < 64" for j
    using that len mlfq_boost_procs(2) [of j st] by auto
  have keep: "p_state (proc_at j (mlfq_boost st)) = p_state (proc_at j st) \<and> p_chan (proc_at j (mlfq_boost st)) = p_chan (proc_at j st)
      \<and> p_stime (proc_at j (mlfq_boost st)) = p_stime (proc_at j st) \<and> p_rtime (proc_at j (mlfq_boost st)) = p_rtime (proc_at j st)
      \<and> (mlfq_ok (proc_at j st) \<longrightarrow> mlfq_ok (proc_at j (mlfq_boost st)))" if "j < 64" for j
    using p [OF that] by (auto simp: boosted_def mlfq_ok_def)
  then have "busy (procs (mlfq_boost st))" "fresh63 (procs (mlfq_boost st))"
    using assms len keep [of 63] by (auto simp: on_hart0_def busy_def fresh63_def mlfq_boost_procs(1))
  with assms keep show ?thesis by (simp add: on_hart0_def myproc_def)
qed

lemma boost_tick_unat: "boost_tick t \<longleftrightarrow> 0 < unat t \<and> unat t mod 48 = 0"
  by (simp add: boost_tick_def word_less_nat_alt unat_mod word_unat_eq_iff)

text \<open>
  The state after a round: slot \<open>y\<close> runs, and at most one slot per tick since the last boost
  has been served, slot \<open>e\<close> (the process that the boost found running) apart.
\<close>

definition starved :: "kstate \<Rightarrow> nat \<Rightarrow> nat \<Rightarrow> bool" where
  "starved st y e \<longleftrightarrow>
     on_hart0 st y \<and> front (procs st) y e \<and> y < 64 \<and> y \<noteq> e \<and>
     y \<le> unat (ticks st) mod 48 + (if e \<le> y then 1 else 0) \<and>
     unat (mlfq_global_seq st) \<le> 65 * unat (ticks st) + 64"

lemma clock_quiet:
  assumes "busy (procs st)"
  shows "clockintr 0 st = (let st0 = st\<lparr>ticks := ticks st + 1\<rparr> in if boost_tick (ticks st + 1) then mlfq_boost st0 else st0)"
proof -
  have "wakeup AddrTicks (st\<lparr>ticks := ticks st + 1\<rparr>) = st\<lparr>ticks := ticks st + 1\<rparr>"
    using assms by (intro wakeup_nobody) (auto simp: busy_def in_set_conv_nth)
  then show ?thesis by (simp add: clockintr_def Let_def)
qed

lemma tick_roundI:
  "clockintr 0 st = st0 \<Longrightarrow> timer_mlfq 0 st0 = Inr st1 \<Longrightarrow> myproc 0 st1 = None \<Longrightarrow>
   (case scheduler_mlfq 0 st1 of None \<Rightarrow> Inr st1 | Some st2 \<Rightarrow> resume 0 st2) = Inr st' \<Longrightarrow> tick_round st = Inr st'"
  by (simp add: tick_round_def)

lemma starved_tick:
  assumes "starved st y e" and "unat (ticks st) + 1 < 2 ^ 32" and "\<not> boost_tick (ticks st + 1)"
  shows "\<exists>st' y'. tick_round st = Inr st' \<and> ticks st' = ticks st + 1 \<and> starved st' y' e"
proof -
  let ?st0 = "st\<lparr>ticks := ticks st + 1\<rparr>" and ?k = "skip (Suc y) e"
  have s: "on_hart0 st y" "front (procs st) y e" "y < 64" "y \<noteq> e"
    "y \<le> unat (ticks st) mod 48 + (if e \<le> y then 1 else 0)" "unat (mlfq_global_seq st) \<le> 65 * unat (ticks st) + 64"
    using assms(1) by (auto simp: starved_def)
  have t: "unat (ticks st + 1) = unat (ticks st) + 1" using assms(2) by (simp add: unat_word_ariths)
  have "unat (ticks st) mod 48 < 48" by simp
  then have m: "(unat (ticks st) + 1) mod 48 = unat (ticks st) mod 48 + 1" "unat (ticks st) mod 48 \<le> 46"
    using assms(3) t by (auto simp: boost_tick_unat mod_Suc split: if_splits)
  have c: "clockintr 0 st = ?st0" using clock_quiet [of st] s(1) assms(3) by (simp add: on_hart0_def Let_def)
  have len: "length (procs st) = 64" using s(1) by (simp add: on_hart0_def busy_def)
  have y: "mlfq_queue (proc_at y st) = 0" "mlfq_ticks_used (proc_at y st) = 0" using s(2-4) by (simp_all add: front_def)
  have b: "y < 63" "?k < 63" "?k \<noteq> e" "?k \<le> unat (ticks st) mod 48 + 1 + (if e \<le> ?k then 1 else 0)"
    using s(4,5) m(2) by (auto simp: skip_def split: if_splits)
  have f: "front (upd_nth y (demoted (mlfq_global_seq ?st0 + 1)) (procs ?st0)) ?k e"
    using front_skip [OF front_demote [OF s(2,3) len]] by simp
  obtain st1 st' where r: "timer_mlfq 0 ?st0 = Inr st1" "myproc 0 st1 = None"
    "(case scheduler_mlfq 0 st1 of None \<Rightarrow> Inr st1 | Some st2 \<Rightarrow> resume 0 st2) = Inr st'"
    "on_hart0 st' ?k" "front (procs st') ?k e" "mlfq_global_seq st' = mlfq_global_seq ?st0 + 1" "ticks st' = ticks ?st0"
    by (rule round_tail [OF _ f b(2,3,1)]) (use s(1) y in \<open>auto simp: on_hart0_def myproc_def\<close>)
  have "unat (mlfq_global_seq st + 1) = unat (mlfq_global_seq st) + 1"
    using s(6) assms(2) by (intro unat_plus_1) simp
  then have "starved st' ?k e" using r b m(1) t s(6) by (simp add: starved_def)
  with tick_roundI [OF c r(1-3)] r(7) show ?thesis by auto
qed

lemma starved_boost:
  assumes "starved st y e" and "unat (ticks st) + 1 < 2 ^ 32" and "boost_tick (ticks st + 1)"
  shows "\<exists>st' y'. tick_round st = Inr st' \<and> ticks st' = ticks st + 1 \<and> starved st' y' y"
proof -
  let ?st0 = "mlfq_boost (st\<lparr>ticks := ticks st + 1\<rparr>)" and ?k = "skip 0 y"
  have s: "on_hart0 st y" "y < 64" "y \<le> unat (ticks st) mod 48 + (if e \<le> y then 1 else 0)"
    "unat (mlfq_global_seq st) \<le> 65 * unat (ticks st) + 64"
    using assms(1) by (auto simp: starved_def)
  have t: "unat (ticks st + 1) = unat (ticks st) + 1" using assms(2) by (simp add: unat_word_ariths)
  have "unat (ticks st) mod 48 \<le> 47" by (simp add: less_Suc_eq_le [symmetric])
  then have b: "y < 63" "?k < 63" "?k \<noteq> y" "?k \<le> (if y \<le> ?k then 1 else 0)"
    using s(3) by (auto simp: skip_def split: if_splits)
  have busy: "busy (procs st)" using s(1) by (simp add: on_hart0_def)
  then have len: "length (procs st) = 64" by (simp add: busy_def)
  have live: "live (proc_at j st)" if "j < 64" for j using busy that by (auto simp: busy_def live_def)
  have c: "clockintr 0 st = ?st0" using clock_quiet [of st] s(1) assms(3) by (simp add: on_hart0_def Let_def)
  have room: "seq_room 65 (st\<lparr>ticks := ticks st + 1\<rparr>)" using s(4) assms(2) by (simp add: seq_room_def)
  have y: "mlfq_queue (proc_at y ?st0) = 0" "mlfq_ticks_used (proc_at y ?st0) = 0"
    using s(2) live len by (simp_all add: mlfq_boost_procs boosted_def)
  have h: "on_hart0 ?st0 y" using s(1) by (intro on_hart0_boost) (simp add: on_hart0_def myproc_def)
  have f: "front (upd_nth y (demoted (mlfq_global_seq ?st0 + 1)) (procs ?st0)) ?k y"
    using front_skip [OF front_boost [OF _ room _ s(2)]] busy by simp
  obtain st1 st' where r: "timer_mlfq 0 ?st0 = Inr st1" "myproc 0 st1 = None"
    "(case scheduler_mlfq 0 st1 of None \<Rightarrow> Inr st1 | Some st2 \<Rightarrow> resume 0 st2) = Inr st'"
    "on_hart0 st' ?k" "front (procs st') ?k y" "mlfq_global_seq st' = mlfq_global_seq ?st0 + 1" "ticks st' = ticks ?st0"
    by (rule round_tail [OF h f b(2,3,1) y])
  have "length (filter live (procs st)) = 64" using live len by (simp add: filter_id_conv all_set_conv_all_nth)
  then have "mlfq_global_seq st' = mlfq_global_seq st + 65" using r(6) by (simp add: mlfq_boost_procs)
  moreover have "unat (mlfq_global_seq st + 65) = unat (mlfq_global_seq st) + 65"
    using s(4) assms(2) by (simp add: unat_word_ariths)
  ultimately have "unat (mlfq_global_seq st') \<le> 65 * unat (ticks st') + 64" using r(7) t s(4) by simp
  moreover have "unat (ticks st') mod 48 = 0" using assms(3) r(7) by (simp add: boost_tick_unat)
  ultimately have "starved st' ?k y" using r(4,5) b by (simp add: starved_def)
  with tick_roundI [OF c r(1-3)] r(7) show ?thesis by auto
qed

section \<open>The property\<close>

text \<open>64 processes that only compute, in queue 0 in table order; the first one runs.\<close>

definition crowd :: kstate where
  "crowd = state_of (map (\<lambda>j. proc0\<lparr>p_state := (if j = 0 then RUNNING else RUNNABLE), p_pid := int j + 1,
      p_stime := -1, mlfq_enter_seq := of_nat (Suc j)\<rparr>) [0..<64]) (Some 0) 64 0"

lemma crowd_starved: "starved crowd 0 64"
proof -
  have p: "proc_at j crowd = proc0\<lparr>p_state := (if j = 0 then RUNNING else RUNNABLE), p_pid := int j + 1,
      p_stime := -1, mlfq_enter_seq := of_nat (Suc j)\<rparr>" if "j < 64" for j
    using that by (simp add: crowd_def)
  have len: "length (procs crowd) = 64" by (simp add: crowd_def)
  have "on_hart0 crowd 0"
    using p len by (auto simp: on_hart0_def busy_def fresh63_def proc0_def mlfq_ok_def myproc_def crowd_def)
  moreover have "(of_nat (Suc i) :: u64) < of_nat (Suc j)" if "i < j" "j < 64" for i j
    using that by (simp add: word_less_nat_alt unat_of_nat_u64 del: of_nat_Suc)
  then have "front (procs crowd) 0 64" using p by (auto simp: front_def proc0_def)
  ultimately show ?thesis by (simp add: starved_def crowd_def)
qed

lemma crowd_rounds: "n < 2 ^ 32 \<Longrightarrow> \<exists>st y e. rounds n crowd = Inr st \<and> unat (ticks st) = n \<and> starved st y e"
proof (induction n)
  case 0
  then show ?case using crowd_starved by (auto simp: crowd_def)
next
  case (Suc n)
  then obtain st y e where r: "rounds n crowd = Inr st" "unat (ticks st) = n" "starved st y e" by auto
  have b: "unat (ticks st) + 1 < 2 ^ 32" using r(2) Suc.prems by simp
  have "unat (ticks st + 1) = Suc n" using r(2) Suc.prems by (simp add: unat_word_ariths)
  with starved_tick [OF r(3) b] starved_boost [OF r(3) b] r(1) show ?case
    by (cases "boost_tick (ticks st + 1)") fastforce+
qed

text \<open>
  C4: with 64 processes that only compute, the one in the last slot of the table never runs:
  for every number of timer ticks below \<open>2 ^ 32\<close> (the range of the tick counter) it is
  \<open>RUNNABLE\<close>, has never been scheduled and has no run time, although a boost has taken place
  every 48 ticks.
\<close>

theorem mlfq_boost_starves_last_slot:
  assumes "n < 2 ^ 32"
  shows "\<exists>st. rounds n crowd = Inr st \<and> unat (ticks st) = n \<and> p_state (proc_at 63 st) = RUNNABLE
    \<and> p_stime (proc_at 63 st) = -1 \<and> p_rtime (proc_at 63 st) = 0"
proof -
  from crowd_rounds [OF assms] obtain st y e where r: "rounds n crowd = Inr st" "unat (ticks st) = n" "starved st y e" by blast
  have "unat (ticks st) mod 48 < 48" by simp
  then have "y < 63" using r(3) by (auto simp: starved_def split: if_splits)
  then have "p_state (proc_at 63 st) \<noteq> RUNNING" "busy (procs st)" "fresh63 (procs st)"
    using r(3) by (auto simp: starved_def on_hart0_def)
  moreover have "(63 :: nat) < 64" by simp
  ultimately have "p_state (proc_at 63 st) = RUNNABLE \<and> fresh63 (procs st)" unfolding busy_def by blast
  with r show ?thesis by (auto simp: fresh63_def)
qed

theorem mlfq_boost_starves_last_slot_witness:
  "\<exists>st. rounds 1000000 crowd = Inr st \<and> unat (ticks st) = 1000000 \<and> p_state (proc_at 63 st) = RUNNABLE
    \<and> p_stime (proc_at 63 st) = -1 \<and> p_rtime (proc_at 63 st) = 0"
  by (rule mlfq_boost_starves_last_slot) simp

end
