(* ===== verification/Pipe.thy ===== *)
theory Pipe
  imports Proc
begin

text \<open>
  Pipes, \<open>xv6/kernel/pipe.c\<close> (\<open>pipealloc\<close> is in \<open>File\<close>). A \<open>struct pipe\<close> fills a page of its own; \<open>pipes\<close> maps
  the address of the page to the structure. \<open>pipewrite_iter\<close> is one turn of the loop of \<open>pipewrite\<close>,
  and \<open>pipewrite\<close> runs the loop until it returns or waits: \<open>Wait i\<close> means that the process has
  registered with \<open>sleep_prepare\<close> and released the lock; it calls \<open>sleep\<close> and goes on with \<open>i\<close> when
  it runs again. \<open>piperead\<close> is the same for reading.
\<close>

definition PIPESIZE :: nat where "PIPESIZE = 512"

record pipe =
  pi_data :: "u8 list"
  nread :: u32
  nwrite :: u32
  readopen :: bool
  writeopen :: bool

record pstate = kstate +
  pipes :: "u64 \<Rightarrow> pipe"

datatype pipe_res = Return int | Wait int | Again int

definition upd_pipe :: "u64 \<Rightarrow> (pipe \<Rightarrow> pipe) \<Rightarrow> 'z pstate_scheme \<Rightarrow> 'z pstate_scheme" where
  "upd_pipe pi f st = st\<lparr>pipes := (pipes st)(pi := f (pipes st pi))\<rparr>"

definition pipe_put :: "u8 \<Rightarrow> pipe \<Rightarrow> pipe" where
  "pipe_put ch p = p\<lparr>pi_data := (pi_data p)[unat (nwrite p) mod PIPESIZE := ch], nwrite := nwrite p + 1\<rparr>"

definition pipeclose :: "kenv \<Rightarrow> u64 \<Rightarrow> bool \<Rightarrow> 'z pstate_scheme \<Rightarrow> 'z pstate_scheme kres" where
  "pipeclose env pi writable st =
     (let st1 = (if writable then wakeup (AddrNread pi) (upd_pipe pi (\<lambda>p. p\<lparr>writeopen := False\<rparr>) st)
                 else wakeup (AddrNwrite pi) (upd_pipe pi (\<lambda>p. p\<lparr>readopen := False\<rparr>) st))
      in if \<not> readopen (pipes st1 pi) \<and> \<not> writeopen (pipes st1 pi)
         then on_mem' (\<lambda>km. kfree (a_end env) km pi) st1
         else Inr st1)"

definition pipewrite_iter :: "kenv \<Rightarrow> nat \<Rightarrow> u64 \<Rightarrow> u64 \<Rightarrow> int \<Rightarrow> int \<Rightarrow> 'z pstate_scheme \<Rightarrow> (pipe_res \<times> 'z pstate_scheme) kres" where
  "pipewrite_iter env c pi addr n i st = with_proc c st (\<lambda>pr.
     if i < n
     then if \<not> readopen (pipes st pi) \<or> killed pr st then Inr (Return (-1), st)
          else if nwrite (pipes st pi) = nread (pipes st pi) + of_nat PIPESIZE
          then bindE (sleep_prepare c (AddrNwrite pi) (wakeup (AddrNread pi) st)) (\<lambda>st1. Inr (Wait i, st1))
          else bindE (copyin (a_end env) (p_pagetable (proc_at pr st)) (p_sz (proc_at pr st)) (addr + of_int i) 1 (kmemory st))
                 (\<lambda>(r, bs, km).
                   let st1 = st\<lparr>kmemory := km\<rparr>
                   in if r = -1 then Inr (Return (if i = 0 then -1 else i), wakeup (AddrNread pi) st1)
                      else Inr (Again (i + 1), upd_pipe pi (pipe_put (hd bs)) st1))
     else Inr (Return i, wakeup (AddrNread pi) st))"

text \<open>The loop runs on while an iteration ends with the next one.\<close>

lemma pipewrite_iter_Again: "pipewrite_iter env c pi addr n i st = Inr (Again j, st') \<Longrightarrow> i < n \<and> j = i + 1"
  by (auto simp: pipewrite_iter_def with_proc_def bindE_def Let_def split: option.splits if_splits sum.splits)

function pipewrite :: "kenv \<Rightarrow> nat \<Rightarrow> u64 \<Rightarrow> u64 \<Rightarrow> int \<Rightarrow> int \<Rightarrow> 'z pstate_scheme \<Rightarrow> (pipe_res \<times> 'z pstate_scheme) kres" where
  "pipewrite env c pi addr n i st =
     bindE (pipewrite_iter env c pi addr n i st) (\<lambda>(r, st1).
       case r of Again j \<Rightarrow> pipewrite env c pi addr n j st1 | _ \<Rightarrow> Inr (r, st1))"
  by pat_completeness auto
termination
  by (relation "measure (\<lambda>(env, c, pi, addr, n, i, st). nat (n - i))") (auto dest: pipewrite_iter_Again)

declare pipewrite.simps [simp del]

text \<open>The second loop of \<open>piperead\<close>, which does not wait, and what comes after it.\<close>

function piperead_copy :: "kenv \<Rightarrow> nat \<Rightarrow> u64 \<Rightarrow> u64 \<Rightarrow> int \<Rightarrow> int \<Rightarrow> 'z pstate_scheme \<Rightarrow> (pipe_res \<times> 'z pstate_scheme) kres" where
  "piperead_copy env pr pi addr n i st =
     (let p = pipes st pi
      in if i < n \<and> nread p \<noteq> nwrite p
         then bindE (on_mem (copyout (a_end env) (p_pagetable (proc_at pr st)) (p_sz (proc_at pr st)) (addr + of_int i)
                       [pi_data p ! (unat (nread p) mod PIPESIZE)]) st) (\<lambda>(r, st1).
                if r = -1 then Inr (Return (if i = 0 then -1 else i), wakeup (AddrNwrite pi) st1)
                else piperead_copy env pr pi addr n (i + 1) (upd_pipe pi (\<lambda>p. p\<lparr>nread := nread p + 1\<rparr>) st1))
         else Inr (Return i, wakeup (AddrNwrite pi) st))"
  by pat_completeness auto
termination
  by (relation "measure (\<lambda>(env, pr, pi, addr, n, i, st). nat (n - i))") auto

declare piperead_copy.simps [simp del]

definition piperead :: "kenv \<Rightarrow> nat \<Rightarrow> u64 \<Rightarrow> u64 \<Rightarrow> int \<Rightarrow> 'z pstate_scheme \<Rightarrow> (pipe_res \<times> 'z pstate_scheme) kres" where
  "piperead env c pi addr n st = with_proc c st (\<lambda>pr.
     if nread (pipes st pi) = nwrite (pipes st pi) \<and> writeopen (pipes st pi)
     then if killed pr st then Inr (Return (-1), st)
          else bindE (sleep_prepare c (AddrNread pi) st) (\<lambda>st1. Inr (Wait 0, st1))
     else piperead_copy env pr pi addr n 0 st)"

section \<open>The ring buffer is a bounded queue\<close>

text \<open>A queue of at most \<open>cap\<close> elements, by what its operations do to its contents.\<close>

locale bounded_queue =
  fixes put :: "'a \<Rightarrow> 'q \<Rightarrow> 'q" and drop_first :: "'q \<Rightarrow> 'q" and first :: "'q \<Rightarrow> 'a" and contents :: "'q \<Rightarrow> 'a list"
    and ok :: "'q \<Rightarrow> bool" and cap :: nat
  assumes put_ok: "ok q \<Longrightarrow> length (contents q) < cap \<Longrightarrow> ok (put x q) \<and> contents (put x q) = contents q @ [x]"
    and drop_ok: "ok q \<Longrightarrow> contents q \<noteq> [] \<Longrightarrow> ok (drop_first q) \<and> contents q = first q # contents (drop_first q)"
    and bound: "ok q \<Longrightarrow> length (contents q) \<le> cap"
begin

lemma puts:
  "ok q \<Longrightarrow> length (contents q) + length xs \<le> cap \<Longrightarrow> ok (fold put xs q) \<and> contents (fold put xs q) = contents q @ xs"
proof (induction xs arbitrary: q)
  case (Cons x xs)
  then have "length (contents q) < cap" by simp
  from put_ok [OF Cons.prems(1) this, of x] Cons show ?case by simp
qed simp

lemma drops: "ok q \<Longrightarrow> k \<le> length (contents q) \<Longrightarrow> ok ((drop_first ^^ k) q) \<and> contents ((drop_first ^^ k) q) = drop k (contents q)"
proof (induction k)
  case (Suc k)
  then have k: "ok ((drop_first ^^ k) q)" "contents ((drop_first ^^ k) q) = drop k (contents q)" by simp_all
  then have "contents ((drop_first ^^ k) q) \<noteq> []" using Suc.prems(2) by simp
  from drop_ok [OF k(1) this] show ?case unfolding k(2) by (simp add: drop_Suc flip: tl_drop)
qed simp

end

definition pipe_ok :: "pipe \<Rightarrow> bool" where
  "pipe_ok p \<longleftrightarrow> length (pi_data p) = PIPESIZE \<and> unat (nwrite p - nread p) \<le> PIPESIZE"

definition queued :: "pipe \<Rightarrow> u8 list" where
  "queued p = map (\<lambda>k. pi_data p ! (unat (nread p + of_nat k) mod PIPESIZE)) [0..<unat (nwrite p - nread p)]"

lemma unat_mod_PIPESIZE: "unat (a + of_nat k :: u32) mod PIPESIZE = (unat a + k) mod PIPESIZE"
proof -
  have "unat (a + of_nat k) = (unat a + k) mod 2 ^ 32" by (simp add: unat_word_ariths unat_of_nat mod_add_right_eq)
  then show ?thesis by (simp add: PIPESIZE_def mod_mod_cancel)
qed

lemma ring_distinct: "k < n \<Longrightarrow> n < PIPESIZE \<Longrightarrow> (a + k) mod PIPESIZE \<noteq> (a + n) mod PIPESIZE"
proof
  assume a: "k < n" "n < PIPESIZE" "(a + k) mod PIPESIZE = (a + n) mod PIPESIZE"
  then have "PIPESIZE dvd (a + n) - (a + k)" by (metis mod_eq_dvd_iff_nat add_le_cancel_left less_imp_le)
  then show False using a(1,2) by (auto dest: dvd_imp_le)
qed

lemma length_queued [simp]: "length (queued p) = unat (nwrite p - nread p)"
  by (simp add: queued_def)

lemma queued_empty: "queued p = [] \<longleftrightarrow> nread p = nwrite p"
proof -
  have "queued p = [] \<longleftrightarrow> length (queued p) = 0" by (rule length_0_conv [symmetric])
  then show ?thesis unfolding length_queued unat_eq_0 by auto
qed

lemma queued_full: "length (queued p) = PIPESIZE \<longleftrightarrow> nwrite p = nread p + of_nat PIPESIZE"
proof -
  have "unat (nwrite p - nread p) = PIPESIZE \<longleftrightarrow> nwrite p - nread p = of_nat PIPESIZE"
    by (simp add: word_unat_eq_iff PIPESIZE_def)
  then show ?thesis by (auto simp: diff_eq_eq add.commute)
qed

lemma pipe_put_ok:
  assumes "pipe_ok p" and "length (queued p) < PIPESIZE"
  shows "pipe_ok (pipe_put ch p) \<and> queued (pipe_put ch p) = queued p @ [ch]"
proof -
  let ?n = "unat (nwrite p - nread p)"
  have n: "?n < PIPESIZE" using assms(2) by simp
  have d: "nwrite (pipe_put ch p) - nread (pipe_put ch p) = nwrite p - nread p + 1" by (simp add: pipe_put_def)
  have n': "unat (nwrite (pipe_put ch p) - nread (pipe_put ch p)) = Suc ?n"
    unfolding d using n by (subst unat_word_ariths) (simp add: PIPESIZE_def)
  have w: "unat (nwrite p) mod PIPESIZE = (unat (nread p) + ?n) mod PIPESIZE"
    using unat_mod_PIPESIZE [of "nread p" ?n] by simp
  have "queued (pipe_put ch p) ! k = (queued p @ [ch]) ! k" if "k < Suc ?n" for k
  proof -
    have "queued (pipe_put ch p) ! k = (pi_data p)[(unat (nread p) + ?n) mod PIPESIZE := ch] ! ((unat (nread p) + k) mod PIPESIZE)"
      using that n' by (simp add: queued_def pipe_put_def w unat_mod_PIPESIZE del: upt_Suc)
    moreover have "(unat (nread p) + k) mod PIPESIZE < length (pi_data p)" using assms(1) by (simp add: pipe_ok_def PIPESIZE_def)
    ultimately show ?thesis using that ring_distinct [of k ?n "unat (nread p)"] n
      by (auto simp: less_Suc_eq nth_append queued_def unat_mod_PIPESIZE nth_list_update)
  qed
  then have "queued (pipe_put ch p) = queued p @ [ch]" using n' by (intro nth_equalityI) simp_all
  moreover have "pipe_ok (pipe_put ch p)" using assms(1) n n' by (simp add: pipe_ok_def) (simp add: pipe_put_def)
  ultimately show ?thesis by blast
qed

definition pipe_first :: "pipe \<Rightarrow> u8" where
  "pipe_first p = pi_data p ! (unat (nread p) mod PIPESIZE)"

definition pipe_drop :: "pipe \<Rightarrow> pipe" where
  "pipe_drop p = p\<lparr>nread := nread p + 1\<rparr>"

lemma pipe_drop_ok:
  assumes "pipe_ok p" and "queued p \<noteq> []"
  shows "pipe_ok (pipe_drop p) \<and> queued p = pipe_first p # queued (pipe_drop p)"
proof -
  let ?n = "unat (nwrite p - nread p)"
  have ne: "nwrite p - nread p \<noteq> 0" using assms(2) by (simp add: queued_empty)
  have "unat (nwrite p - (nread p + 1)) = ?n - 1" unfolding diff_diff_eq [symmetric] using ne by (rule unat_minus_one)
  then have n': "unat (nwrite (pipe_drop p) - nread (pipe_drop p)) = ?n - 1" "?n = Suc (?n - 1)"
    using ne by (simp add: pipe_drop_def) (metis Suc_pred' ne not_gr_zero unat_eq_0)
  have "queued p = map (\<lambda>k. pi_data p ! ((unat (nread p) + k) mod PIPESIZE)) [0..<Suc (?n - 1)]"
    using n'(2) by (simp add: queued_def unat_mod_PIPESIZE)
  also have "\<dots> = pipe_first p # map (\<lambda>k. pi_data p ! ((unat (nread p) + Suc k) mod PIPESIZE)) [0..<?n - 1]"
    by (simp add: pipe_first_def upt_conv_Cons map_Suc_upt [symmetric] comp_def del: upt_Suc)
  also have "map (\<lambda>k. pi_data p ! ((unat (nread p) + Suc k) mod PIPESIZE)) [0..<?n - 1] = queued (pipe_drop p)"
  proof -
    have "unat (nread p + 1 + of_nat k) mod PIPESIZE = (unat (nread p) + Suc k) mod PIPESIZE" for k
      using unat_mod_PIPESIZE [of "nread p" "Suc k"] by (simp add: add.assoc)
    then show ?thesis unfolding queued_def n'(1) by (simp add: pipe_drop_def)
  qed
  finally show ?thesis using assms(1) n' by (simp add: pipe_ok_def) (simp add: pipe_drop_def)
qed

interpretation ring: bounded_queue pipe_put pipe_drop pipe_first queued pipe_ok PIPESIZE
proof
  show "pipe_ok p \<Longrightarrow> length (queued p) \<le> PIPESIZE" for p by (simp add: pipe_ok_def)
qed (use pipe_put_ok pipe_drop_ok in blast)+

section \<open>What a pass of \<open>pipewrite\<close> does\<close>

text \<open>
  The bytes that single-byte copies from, or to, user memory at \<open>a\<close> move one after the other, with
  the memory before and after.
\<close>

inductive user_read :: "u64 \<Rightarrow> u64 \<Rightarrow> u64 \<Rightarrow> u64 \<Rightarrow> kmem \<Rightarrow> u8 list \<Rightarrow> kmem \<Rightarrow> bool" for kend pt sz where
  nil: "user_read kend pt sz a km [] km"
| cons: "copyin kend pt sz a 1 km = Inr (r, bs, km1) \<Longrightarrow> r \<noteq> -1 \<Longrightarrow> user_read kend pt sz (a + 1) km1 rest km2 \<Longrightarrow>
    user_read kend pt sz a km (hd bs # rest) km2"

inductive user_write :: "u64 \<Rightarrow> u64 \<Rightarrow> u64 \<Rightarrow> u64 \<Rightarrow> kmem \<Rightarrow> u8 list \<Rightarrow> kmem \<Rightarrow> bool" for kend pt sz where
  nil: "user_write kend pt sz a km [] km"
| cons: "copyout kend pt sz a [b] km = Inr (r, km1) \<Longrightarrow> r \<noteq> -1 \<Longrightarrow> user_write kend pt sz (a + 1) km1 rest km2 \<Longrightarrow>
    user_write kend pt sz a km (b # rest) km2"

text \<open>The state after \<open>bs\<close> have been put into the pipe, with memory \<open>km\<close>.\<close>

definition pipe_filled :: "u64 \<Rightarrow> u8 list \<Rightarrow> kmem \<Rightarrow> 'z pstate_scheme \<Rightarrow> 'z pstate_scheme" where
  "pipe_filled pi bs km st = upd_pipe pi (fold pipe_put bs) (st\<lparr>kmemory := km\<rparr>)"

definition pipe_drained :: "u64 \<Rightarrow> nat \<Rightarrow> kmem \<Rightarrow> 'z pstate_scheme \<Rightarrow> 'z pstate_scheme" where
  "pipe_drained pi k km st = upd_pipe pi (pipe_drop ^^ k) (st\<lparr>kmemory := km\<rparr>)"

lemma pipe_filled_simps [simp]:
  "procs (pipe_filled pi bs km st) = procs st" "kmemory (pipe_filled pi bs km st) = km" "cpus (pipe_filled pi bs km st) = cpus st"
  "pipes (pipe_filled pi bs km st) pi = fold pipe_put bs (pipes st pi)"
  by (simp_all add: pipe_filled_def upd_pipe_def)

lemma pipe_filled_none [simp]: "pipe_filled pi [] (kmemory st) st = st"
  by (cases st) (simp add: pipe_filled_def upd_pipe_def)

lemma pipe_filled_filled: "pipe_filled pi bs' km' (pipe_filled pi bs km st) = pipe_filled pi (bs @ bs') km' st"
  by (simp add: pipe_filled_def upd_pipe_def)

lemma pipe_put_open [simp]: "readopen (pipe_put b p) = readopen p" "writeopen (pipe_put b p) = writeopen p"
  by (simp_all add: pipe_put_def)

text \<open>How a pass ends that has reached position \<open>k\<close> in state \<open>st\<close>.\<close>

definition write_end :: "kenv \<Rightarrow> nat \<Rightarrow> u64 \<Rightarrow> u64 \<Rightarrow> int \<Rightarrow> int \<Rightarrow> 'z pstate_scheme \<Rightarrow> pipe_res \<Rightarrow> 'z pstate_scheme \<Rightarrow> bool" where
  "write_end env pr pi addr n k st r st' \<longleftrightarrow>
     (if n \<le> k then r = Return k \<and> st' = wakeup (AddrNread pi) st
      else if \<not> readopen (pipes st pi) \<or> killed pr st then r = Return (-1) \<and> st' = st
      else if length (queued (pipes st pi)) = PIPESIZE
      then r = Wait k \<and> st' = upd_proc pr (\<lambda>p. p\<lparr>p_chan := AddrNwrite pi\<rparr>) (wakeup (AddrNread pi) st)
      else \<exists>x km. copyin (a_end env) (p_pagetable (proc_at pr st)) (p_sz (proc_at pr st)) (addr + of_int k) 1 (kmemory st) = Inr (-1, x, km)
        \<and> r = Return (if k = 0 then -1 else k) \<and> st' = wakeup (AddrNread pi) (st\<lparr>kmemory := km\<rparr>))"

lemma pipewrite_iter_cases:
  assumes "pipewrite_iter env c pi addr n i st = Inr (q, st1)" and "myproc c st = Some pr"
  obtains (finish) "\<And>j. q \<noteq> Again j" "write_end env pr pi addr n i st q st1"
  | (again) v bs km where "copyin (a_end env) (p_pagetable (proc_at pr st)) (p_sz (proc_at pr st)) (addr + of_int i) 1 (kmemory st) = Inr (v, bs, km)"
      "v \<noteq> -1" "q = Again (i + 1)" "st1 = pipe_filled pi [hd bs] km st" "i < n" "readopen (pipes st pi)" "\<not> killed pr st"
      "length (queued (pipes st pi)) \<noteq> PIPESIZE"
proof -
  note I = assms(1) [unfolded pipewrite_iter_def with_proc_def assms(2) option.case, folded queued_full]
  show ?thesis
  proof (cases "i < n \<and> readopen (pipes st pi) \<and> \<not> killed pr st \<and> length (queued (pipes st pi)) \<noteq> PIPESIZE")
    case True
    then obtain v bs km where v: "copyin (a_end env) (p_pagetable (proc_at pr st)) (p_sz (proc_at pr st)) (addr + of_int i) 1 (kmemory st) = Inr (v, bs, km)"
      "(q, st1) = (if v = -1 then (Return (if i = 0 then -1 else i), wakeup (AddrNread pi) (st\<lparr>kmemory := km\<rparr>))
        else (Again (i + 1), upd_pipe pi (pipe_put (hd bs)) (st\<lparr>kmemory := km\<rparr>)))"
      using I by (auto simp: Let_def split: if_splits)
    show ?thesis
    proof (cases "v = -1")
      case f: True
      show ?thesis by (rule finish) (use v f True in \<open>auto simp: write_end_def\<close>)
    next
      case False
      then show ?thesis using v True by (intro again [OF v(1)]) (auto simp: pipe_filled_def)
    qed
  next
    case False
    have "myproc c (wakeup (AddrNread pi) st) = Some pr" using assms(2) by (simp add: wakeup_def myproc_def split: prod.split)
    with False show ?thesis using I by (intro finish) (auto simp: write_end_def sleep_prepare_def with_proc_def split: if_splits)
  qed
qed

lemma pipewrite_spec:
  assumes "pipewrite env c pi addr n i st = Inr (r, st')" and "myproc c st = Some pr" and "pipe_ok (pipes st pi)"
  shows "\<exists>bs km. user_read (a_end env) (p_pagetable (proc_at pr st)) (p_sz (proc_at pr st)) (addr + of_int i) (kmemory st) bs km
    \<and> length (queued (pipes st pi)) + length bs \<le> PIPESIZE \<and> (bs \<noteq> [] \<longrightarrow> readopen (pipes st pi) \<and> \<not> killed pr st)
    \<and> write_end env pr pi addr n (i + int (length bs)) (pipe_filled pi bs km st) r st'"
  using assms
proof (induction env c pi addr n i st rule: pipewrite.induct)
  case (1 env c pi addr n i st)
  obtain q st1 where it: "pipewrite_iter env c pi addr n i st = Inr (q, st1)"
    using 1(2) unfolding pipewrite.simps [of env c pi addr n i] by auto
  show ?case using it 1(3)
  proof (cases rule: pipewrite_iter_cases)
    case finish
    then have "r = q" "st' = st1" using it 1(2) unfolding pipewrite.simps [of env c pi addr n i] by (cases q; auto)+
    then show ?thesis using finish(2) ring.bound [OF 1(4)] by (intro exI [of _ "[]"] exI [of _ "kmemory st"]) (simp add: user_read.nil)
  next
    case (again v bs km)
    have lt: "length (queued (pipes st pi)) < PIPESIZE" using again(8) ring.bound [OF 1(4)] by linarith
    have p: "pipe_ok (pipes st1 pi)" "length (queued (pipes st1 pi)) = Suc (length (queued (pipes st pi)))"
      using ring.put_ok [OF 1(4) lt] by (simp_all add: again(4) del: length_queued)
    have "pipewrite env c pi addr n (i + 1) st1 = Inr (r, st')" using 1(2) it again(3) unfolding pipewrite.simps [of env c pi addr n i] by simp
    then obtain rest km2 where rest: "user_read (a_end env) (p_pagetable (proc_at pr st)) (p_sz (proc_at pr st)) (addr + of_int i + 1) km rest km2"
      "length (queued (pipes st1 pi)) + length rest \<le> PIPESIZE"
      "write_end env pr pi addr n (i + 1 + int (length rest)) (pipe_filled pi rest km2 st1) r st'"
      using 1(1) [OF it refl again(3)] 1(3) p(1) by (auto simp: again(4) myproc_def add.assoc)
    then show ?thesis using user_read.cons [OF again(1,2) rest(1)] p(2) again(6,7)
      by (intro exI [of _ "hd bs # rest"] exI [of _ km2]) (simp add: again(4) pipe_filled_filled algebra_simps del: length_queued)
  qed
qed

section \<open>What a pass of \<open>piperead\<close> does\<close>

lemma pipe_drained_simps [simp]:
  "procs (pipe_drained pi k km st) = procs st" "kmemory (pipe_drained pi k km st) = km" "cpus (pipe_drained pi k km st) = cpus st"
  "pipes (pipe_drained pi k km st) pi = (pipe_drop ^^ k) (pipes st pi)"
  by (simp_all add: pipe_drained_def upd_pipe_def)

lemma pipe_drained_none [simp]: "pipe_drained pi 0 (kmemory st) st = st"
  by (cases st) (simp add: pipe_drained_def upd_pipe_def)

lemma pipe_drained_drained: "pipe_drained pi k' km' (pipe_drained pi k km st) = pipe_drained pi (k' + k) km' st"
  by (simp add: pipe_drained_def upd_pipe_def funpow_add)

definition read_end :: "kenv \<Rightarrow> nat \<Rightarrow> u64 \<Rightarrow> u64 \<Rightarrow> int \<Rightarrow> int \<Rightarrow> 'z pstate_scheme \<Rightarrow> pipe_res \<Rightarrow> 'z pstate_scheme \<Rightarrow> bool" where
  "read_end env pr pi addr n k st r st' \<longleftrightarrow>
     (if n \<le> k \<or> queued (pipes st pi) = [] then r = Return k \<and> st' = wakeup (AddrNwrite pi) st
      else \<exists>km. copyout (a_end env) (p_pagetable (proc_at pr st)) (p_sz (proc_at pr st)) (addr + of_int k) [pipe_first (pipes st pi)] (kmemory st) = Inr (-1, km)
        \<and> r = Return (if k = 0 then -1 else k) \<and> st' = wakeup (AddrNwrite pi) (st\<lparr>kmemory := km\<rparr>))"

lemma piperead_copy_spec:
  assumes "piperead_copy env pr pi addr n i st = Inr (r, st')" and "pipe_ok (pipes st pi)"
  shows "\<exists>bs km. user_write (a_end env) (p_pagetable (proc_at pr st)) (p_sz (proc_at pr st)) (addr + of_int i) (kmemory st) bs km
    \<and> length bs \<le> length (queued (pipes st pi)) \<and> take (length bs) (queued (pipes st pi)) = bs \<and> read_end env pr pi addr n (i + int (length bs)) (pipe_drained pi (length bs) km st) r st'"
  using assms
proof (induction env pr pi addr n i st rule: piperead_copy.induct)
  case (1 env pr pi addr n i st)
  let ?p = "pipes st pi"
  note I = 1(2) [unfolded piperead_copy.simps [of env pr pi addr n i] Let_def]
  show ?case
  proof (cases "i < n \<and> nread ?p \<noteq> nwrite ?p")
    case True
    then obtain v km where v: "copyout (a_end env) (p_pagetable (proc_at pr st)) (p_sz (proc_at pr st)) (addr + of_int i) [pipe_first ?p] (kmemory st) = Inr (v, km)"
      using I by (auto simp: on_mem_def pipe_first_def)
    have ne: "queued ?p \<noteq> []" using True by (simp add: queued_empty)
    note D = ring.drop_ok [OF 1(3) ne]
    show ?thesis
    proof (cases "v = -1")
      case f: True
      then have "read_end env pr pi addr n i st r st'" using I v True ne by (auto simp: read_end_def on_mem_def pipe_first_def)
      then show ?thesis 
        by (intro exI [of _ "[]"] exI [of _ "kmemory st"]) (simp add: user_write.nil)
    next
      case False
      let ?st1 = "pipe_drained pi (Suc 0) km st"
      have st1: "?st1 = upd_pipe pi (\<lambda>p. p\<lparr>nread := nread p + 1\<rparr>) (st\<lparr>kmemory := km\<rparr>)" by (simp add: pipe_drained_def upd_pipe_def pipe_drop_def)
      have om: "on_mem (copyout (a_end env) (p_pagetable (proc_at pr st)) (p_sz (proc_at pr st)) (addr + of_int i) [pi_data ?p ! (unat (nread ?p) mod PIPESIZE)]) st
          = Inr (v, st\<lparr>kmemory := km\<rparr>)" using v by (simp add: on_mem_def pipe_first_def)
      have "piperead_copy env pr pi addr n (i + 1) ?st1 = Inr (r, st')" unfolding st1 using I True False om by simp
      then obtain bs km2 where b: "user_write (a_end env) (p_pagetable (proc_at pr st)) (p_sz (proc_at pr st)) (addr + of_int i + 1) km bs km2"
        "length bs \<le> length (queued (pipe_drop ?p))" "take (length bs) (queued (pipe_drop ?p)) = bs"
        "read_end env pr pi addr n (i + 1 + int (length bs)) (pipe_drained pi (length bs) km2 ?st1) r st'"
        using 1(1) [OF refl True om refl False, folded st1] D by (auto simp: add.assoc)
      then show ?thesis using user_write.cons [OF v False b(1)] D
        by (intro exI [of _ "pipe_first ?p # bs"] exI [of _ km2]) (simp add: pipe_drained_drained algebra_simps del: length_queued)
    qed
  next
    case False
    then have "read_end env pr pi addr n i st r st'" using I by (auto simp: read_end_def queued_empty)
    then show ?thesis 
        by (intro exI [of _ "[]"] exI [of _ "kmemory st"]) (simp add: user_write.nil)
  qed
qed

section \<open>Waiting for a pipe\<close>

definition waiting :: "kaddr \<Rightarrow> 'z kstate_scheme \<Rightarrow> bool" where
  "waiting chan st \<longleftrightarrow> (\<exists>j < length (procs st). p_chan (proc_at j st) = chan)"

text \<open>A process that is registered on a pipe waits for something that is not there yet.\<close>

definition pipe_waits :: "u64 \<Rightarrow> 'z pstate_scheme \<Rightarrow> bool" where
  "pipe_waits pi st \<longleftrightarrow>
     (waiting (AddrNread pi) st \<longrightarrow> queued (pipes st pi) = [] \<and> writeopen (pipes st pi)) \<and>
     (waiting (AddrNwrite pi) st \<longrightarrow> length (queued (pipes st pi)) = PIPESIZE \<and> readopen (pipes st pi))"

lemma woken_chan: "p_chan (woken chan s p) = (if p_chan p = chan then Null else p_chan p)"
  by (simp add: woken_def)

lemma waiting_wakeup: "ch \<noteq> Null \<Longrightarrow> waiting ch (wakeup chan st) \<longleftrightarrow> ch \<noteq> chan \<and> waiting ch st"
  by (auto simp: waiting_def wakeup_procs woken_chan split: if_splits)

lemma waiting_prepare: "waiting ch (upd_proc i (\<lambda>p. p\<lparr>p_chan := ch'\<rparr>) st) \<Longrightarrow> ch = ch' \<or> waiting ch st"
  by (auto simp: waiting_def upd_proc_def nth_upd_nth split: if_splits)

lemma pipes_wakeup [simp]: "pipes (wakeup chan st) = pipes st"
  by (simp add: wakeup_def split: prod.split)

lemma pipes_upd_proc [simp]: "pipes (upd_proc i f st) = pipes st"
  by (simp add: upd_proc_def)

lemma waiting_cong: "procs st' = procs st \<Longrightarrow> waiting ch st' = waiting ch st"
  by (simp add: waiting_def)

text \<open>A pass of the writer or of the reader keeps this: what it makes true it announces.\<close>

lemma pipe_waits_write_end:
  assumes "write_end env pr pi addr n k (pipe_filled pi bs km st) r st'" and "pipe_waits pi st" and "pipe_ok (pipes st pi)"
    and "length (queued (pipes st pi)) + length bs \<le> PIPESIZE" and "bs \<noteq> [] \<longrightarrow> readopen (pipes st pi) \<and> \<not> killed pr st"
  shows "pipe_waits pi st'"
proof -
  let ?f = "pipe_filled pi bs km st"
  have q: "queued (pipes ?f pi) = queued (pipes st pi) @ bs" using ring.puts [OF assms(3), of bs] assms(4) by simp
  have ro: "readopen (pipes ?f pi) = readopen (pipes st pi)" by (induction bs rule: rev_induct) simp_all
  have w: "waiting ch ?f = waiting ch st" for ch by (rule waiting_cong) simp
  have nw: "length (queued (pipes ?f pi)) = PIPESIZE \<and> readopen (pipes ?f pi)" if "waiting (AddrNwrite pi) st"
    using that assms(2,4) q ro by (simp add: pipe_waits_def del: length_queued)
  have up: "pipe_waits pi (wakeup (AddrNread pi) st1)" if "pipes st1 = pipes ?f" "procs st1 = procs ?f" for st1
    using nw w waiting_cong [of st1 ?f] that by (auto simp: pipe_waits_def waiting_wakeup simp del: length_queued)
  consider "st' = wakeup (AddrNread pi) ?f" | "st' = ?f" "bs = []"
    | "st' = upd_proc pr (\<lambda>p. p\<lparr>p_chan := AddrNwrite pi\<rparr>) (wakeup (AddrNread pi) ?f)" "length (queued (pipes ?f pi)) = PIPESIZE" "readopen (pipes ?f pi)"
    | km1 where "st' = wakeup (AddrNread pi) (?f\<lparr>kmemory := km1\<rparr>)"
    using assms(1,5) by (auto simp: write_end_def killed_def ro split: if_splits simp del: length_queued pipe_filled_simps(4))
  then show ?thesis
  proof cases
    case 1
    then show ?thesis using up [OF refl refl] by simp
  next
    case 2
    then show ?thesis using assms(2) w q by (simp add: pipe_waits_def)
  next
    case 3
    then show ?thesis using waiting_prepare [of "AddrNread pi" pr "AddrNwrite pi" "wakeup (AddrNread pi) ?f"]
      by (auto simp: pipe_waits_def waiting_wakeup simp del: length_queued)
  next
    case 4
    then show ?thesis using up [of "?f\<lparr>kmemory := km1\<rparr>"] by simp
  qed
qed

lemma pipe_drop_open [simp]: "readopen (pipe_drop p) = readopen p" "writeopen (pipe_drop p) = writeopen p"
  by (simp_all add: pipe_drop_def)

lemma pipe_drained_queue:
  assumes "pipe_ok (pipes st pi)" and "k \<le> length (queued (pipes st pi))"
  shows "pipe_ok (pipes (pipe_drained pi k km st) pi)" and "queued (pipes (pipe_drained pi k km st) pi) = drop k (queued (pipes st pi))"
    and "writeopen (pipes (pipe_drained pi k km st) pi) = writeopen (pipes st pi)"
proof -
  show "writeopen (pipes (pipe_drained pi k km st) pi) = writeopen (pipes st pi)" by (induction k) simp_all
qed (use ring.drops [OF assms] in simp_all)

lemma pipe_waits_read_end:
  assumes "read_end env pr pi addr n k (pipe_drained pi j km st) r st'" and "pipe_waits pi st" and "pipe_ok (pipes st pi)"
    and "j \<le> length (queued (pipes st pi))"
  shows "pipe_waits pi st'"
proof -
  let ?d = "pipe_drained pi j km st"
  note D = pipe_drained_queue [OF assms(3,4), of km]
  have "queued (pipes ?d pi) = [] \<and> writeopen (pipes ?d pi)" if "waiting (AddrNread pi) ?d"
    using that assms(2) D waiting_cong [of ?d st] by (auto simp: pipe_waits_def simp del: length_queued)
  then have up: "pipe_waits pi (wakeup (AddrNwrite pi) st1)" if "pipes st1 = pipes ?d" "procs st1 = procs ?d" for st1
    using waiting_cong [of st1 ?d] that by (auto simp: pipe_waits_def waiting_wakeup simp del: length_queued)
  consider "st' = wakeup (AddrNwrite pi) ?d" | km1 where "st' = wakeup (AddrNwrite pi) (?d\<lparr>kmemory := km1\<rparr>)"
    using assms(1) by (auto simp: read_end_def split: if_splits)
  then show ?thesis
  proof cases
    case 1
    then show ?thesis using up [OF refl refl] by simp
  next
    case 2
    then show ?thesis using up [of "?d\<lparr>kmemory := km1\<rparr>"] by simp
  qed
qed

lemma pipewrite_keeps:
  assumes "pipewrite env c pi addr n i st = Inr (r, st')" and "pipe_ok (pipes st pi)" and "pipe_waits pi st"
  shows "pipe_ok (pipes st' pi)" and "pipe_waits pi st'"
proof -
  obtain pr where pr: "myproc c st = Some pr"
    using assms(1) unfolding pipewrite.simps [of env c pi addr n i] by (auto simp: pipewrite_iter_def with_proc_def split: option.splits)
  obtain bs km where w: "length (queued (pipes st pi)) + length bs \<le> PIPESIZE" "bs \<noteq> [] \<longrightarrow> readopen (pipes st pi) \<and> \<not> killed pr st"
    "write_end env pr pi addr n (i + int (length bs)) (pipe_filled pi bs km st) r st'"
    using pipewrite_spec [OF assms(1) pr assms(2)] by blast
  show "pipe_waits pi st'" by (rule pipe_waits_write_end [OF w(3) assms(3,2) w(1,2)])
  have "pipes st' pi = pipes (pipe_filled pi bs km st) pi" using w(3) by (auto simp: write_end_def split: if_splits)
  then show "pipe_ok (pipes st' pi)" using ring.puts [OF assms(2) w(1)] by simp
qed

lemma piperead_cases:
  assumes "piperead env c pi addr n st = Inr (r, st')" and "pipe_ok (pipes st pi)"
  obtains (killed) pr where "myproc c st = Some pr" "killed pr st" "r = Return (-1)" "st' = st" "queued (pipes st pi) = []" "writeopen (pipes st pi)"
  | (wait) pr where "myproc c st = Some pr" "r = Wait 0" "queued (pipes st pi) = []" "writeopen (pipes st pi)"
      "st' = upd_proc pr (\<lambda>p. p\<lparr>p_chan := AddrNread pi\<rparr>) st"
  | (copy) pr bs km where "myproc c st = Some pr" "queued (pipes st pi) \<noteq> [] \<or> \<not> writeopen (pipes st pi)"
      "user_write (a_end env) (p_pagetable (proc_at pr st)) (p_sz (proc_at pr st)) addr (kmemory st) bs km"
      "length bs \<le> length (queued (pipes st pi))" "take (length bs) (queued (pipes st pi)) = bs"
      "read_end env pr pi addr n (int (length bs)) (pipe_drained pi (length bs) km st) r st'"
proof -
  obtain pr where pr: "myproc c st = Some pr" using assms(1) by (auto simp: piperead_def with_proc_def split: option.splits)
  show ?thesis
  proof (cases "queued (pipes st pi) = [] \<and> writeopen (pipes st pi)")
    case True
    then have "(if killed pr st then Inr (Return (-1), st) else Inr (Wait 0, upd_proc pr (\<lambda>p. p\<lparr>p_chan := AddrNread pi\<rparr>) st)) = Inr (r, st')"
      using assms(1) pr by (cases "killed pr st") (simp_all add: piperead_def with_proc_def queued_empty sleep_prepare_def)
    then consider "killed pr st" "r = Return (-1)" "st' = st" | "r = Wait 0" "st' = upd_proc pr (\<lambda>p. p\<lparr>p_chan := AddrNread pi\<rparr>) st"
      by (auto split: if_split_asm)
    then show ?thesis using killed [OF pr] wait [OF pr] True by cases blast+
  next
    case False
    then have "piperead_copy env pr pi addr n 0 st = Inr (r, st')" using assms(1) pr by (auto simp: piperead_def with_proc_def queued_empty)
    from piperead_copy_spec [OF this assms(2)] obtain bs km where
      "user_write (a_end env) (p_pagetable (proc_at pr st)) (p_sz (proc_at pr st)) addr (kmemory st) bs km"
      "length bs \<le> length (queued (pipes st pi))" "take (length bs) (queued (pipes st pi)) = bs"
      "read_end env pr pi addr n (int (length bs)) (pipe_drained pi (length bs) km st) r st'" by auto
    with copy [OF pr] False show ?thesis by blast
  qed
qed

lemma piperead_keeps:
  assumes "piperead env c pi addr n st = Inr (r, st')" and "pipe_ok (pipes st pi)" and "pipe_waits pi st"
  shows "pipe_ok (pipes st' pi)" and "pipe_waits pi st'"
proof -
  have "pipe_ok (pipes st' pi) \<and> pipe_waits pi st'"
    using assms(1,2)
  proof (cases rule: piperead_cases)
    case killed
    then show ?thesis using assms by simp
  next
    case (wait pr)
    then show ?thesis using assms(2,3) waiting_prepare [of _ pr "AddrNread pi" st] by (auto simp: pipe_waits_def)
  next
    case (copy pr bs km)
    have "pipes st' pi = pipes (pipe_drained pi (length bs) km st) pi" using copy(6) by (auto simp: read_end_def split: if_splits)
    then show ?thesis using pipe_drained_queue(1) [OF assms(2) copy(4), of km] pipe_waits_read_end [OF copy(6) assms(3,2) copy(4)] by simp
  qed
  then show "pipe_ok (pipes st' pi)" and "pipe_waits pi st'" by blast+
qed

lemma upd_pipe_simps [simp]: "pipes (upd_pipe pi f st) = (pipes st)(pi := f (pipes st pi))" "procs (upd_pipe pi f st) = procs st"
  by (simp_all add: upd_pipe_def)

lemma pipeclose_keeps:
  assumes "pipeclose env pi w st = Inr st'" and "pipe_ok (pipes st pi)" and "pipe_waits pi st"
  shows "pipe_ok (pipes st' pi)" and "pipe_waits pi st'"
proof -
  let ?st1 = "if w then wakeup (AddrNread pi) (upd_pipe pi (\<lambda>p. p\<lparr>writeopen := False\<rparr>) st)
    else wakeup (AddrNwrite pi) (upd_pipe pi (\<lambda>p. p\<lparr>readopen := False\<rparr>) st)"
  have w1: "waiting ch (upd_pipe pi f st) = waiting ch st" for ch f by (rule waiting_cong) simp
  have "pipe_ok (pipes ?st1 pi) \<and> pipe_waits pi ?st1"
    using assms(2,3) by (cases w) (simp_all add: pipe_waits_def waiting_wakeup w1 pipe_ok_def queued_def)
  moreover have "(if \<not> readopen (pipes ?st1 pi) \<and> \<not> writeopen (pipes ?st1 pi) then on_mem' (\<lambda>km. kfree (a_end env) km pi) ?st1 else Inr ?st1) = Inr st'"
    using assms(1) unfolding pipeclose_def Let_def .
  then have "pipes st' = pipes ?st1" "procs st' = procs ?st1" by (auto simp: on_mem'_def simp del: if_split split: if_split_asm)
  ultimately show "pipe_ok (pipes st' pi)" and "pipe_waits pi st'" using waiting_cong [of st' ?st1] by (simp_all add: pipe_waits_def)
qed

text \<open>
  The life of a pipe: passes of writers and readers and closes of its ends, in any order, and
  steps of other code, which neither changes the pipe nor registers processes on it.
\<close>

inductive pipe_run :: "kenv \<Rightarrow> u64 \<Rightarrow> 'z pstate_scheme \<Rightarrow> 'z pstate_scheme \<Rightarrow> bool" for env pi st0 where
  run_start: "pipe_run env pi st0 st0"
| run_write: "pipe_run env pi st0 st \<Longrightarrow> pipewrite env c pi addr n i st = Inr (r, st') \<Longrightarrow> pipe_run env pi st0 st'"
| run_read: "pipe_run env pi st0 st \<Longrightarrow> piperead env c pi addr n st = Inr (r, st') \<Longrightarrow> pipe_run env pi st0 st'"
| run_close: "pipe_run env pi st0 st \<Longrightarrow> pipeclose env pi w st = Inr st' \<Longrightarrow> pipe_run env pi st0 st'"
| run_other: "pipe_run env pi st0 st \<Longrightarrow> pipes st' pi = pipes st pi \<Longrightarrow> (waiting (AddrNread pi) st' \<Longrightarrow> waiting (AddrNread pi) st)
    \<Longrightarrow> (waiting (AddrNwrite pi) st' \<Longrightarrow> waiting (AddrNwrite pi) st) \<Longrightarrow> pipe_run env pi st0 st'"

text \<open>
  C17: No wakeup of a pipe is lost: in every sequence of passes of readers and writers, closes and
  other steps, a process that is registered as waiting to read finds the pipe empty and its write
  end open, and one that waits to write finds the pipe full and its read end open.
\<close>

theorem pipe_no_lost_wakeup:
  assumes "pipe_run env pi st0 st" and "pipe_ok (pipes st0 pi)" and "pipe_waits pi st0"
  shows "pipe_ok (pipes st pi) \<and> pipe_waits pi st"
  using assms
proof induction
  case (run_write st c addr n i r st')
  then show ?case using pipewrite_keeps [OF run_write.hyps(2)] by simp
next
  case (run_read st c addr n r st')
  then show ?case using piperead_keeps [OF run_read.hyps(2)] by simp
next
  case (run_close st w st')
  then show ?case using pipeclose_keeps [OF run_close.hyps(2)] by simp
next
  case (run_other st st')
  then show ?case by (auto simp: pipe_waits_def)
qed simp


section \<open>A process and a pipe\<close>

definition pipe_proc :: proc where
  "pipe_proc = \<lparr>p_state = RUNNING, p_chan = Null, p_killed = False, p_xstate = 0, p_pid = 1, p_parent = None, p_kstack = 0, p_sz = 0,
     p_pagetable = 0, p_trapframe = 0, p_context = \<lparr>cx_ra = 0, cx_sp = 0, cx_s = []\<rparr>, p_intena = None, p_ofile = replicate 16 None,
     p_cwd = None, p_name = [], p_ctime = 0, p_stime = 0, p_etime = 0, p_rtime = 0, mlfq_queue = 0, mlfq_ticks_used = 0,
     mlfq_total_ticks = 0, mlfq_enter_seq = 0\<rparr>"

definition pipe_state :: "u32 \<Rightarrow> pstate" where
  "pipe_state w = \<lparr>procs = [pipe_proc], nextpid = 2, mlfq_global_seq = 0, ticks = 0, initproc = Some 0,
     cpus = [\<lparr>c_proc = Some 0, noff = 0, intena = True, sie = True\<rparr>], kmemory = \<lparr>mem = (\<lambda>_. 0), freelist = 0\<rparr>, mlfq_trace = [],
     pipes = (\<lambda>_. \<lparr>pi_data = replicate PIPESIZE 7, nread = 0, nwrite = w, readopen = True, writeopen = True\<rparr>)\<rparr>"

definition pipe_env :: kenv where
  "pipe_env = \<lparr>a_end = 0x80001000, a_etext = 0, a_trampoline = 0, a_uservec = 0, a_userret = 0, a_usertrap = 0, a_forkret = 0, a_kernelvec = 0\<rparr>"

lemma pipe_state_facts:
  "myproc 0 (pipe_state w) = Some 0" "\<not> killed 0 (pipe_state w)" "unat w \<le> PIPESIZE \<Longrightarrow> pipe_ok (pipes (pipe_state w) pi)"
  by (simp_all add: myproc_def pipe_state_def killed_def pipe_proc_def pipe_ok_def)

theorem pipe_no_lost_wakeup_witness:
  "\<exists>st. piperead pipe_env 0 0x80002000 0 1 (pipe_state 0) = Inr (Wait 0, st) \<and> waiting (AddrNread 0x80002000) st \<and> pipe_waits 0x80002000 st"
proof -
  let ?st = "upd_proc 0 (\<lambda>p. p\<lparr>p_chan := AddrNread 0x80002000\<rparr>) (pipe_state 0)"
  have r: "piperead pipe_env 0 0x80002000 0 1 (pipe_state 0) = Inr (Wait 0, ?st)"
    using pipe_state_facts(1,2) [of 0] by (simp add: piperead_def with_proc_def sleep_prepare_def) (simp add: pipe_state_def)
  have "pipe_run pipe_env 0x80002000 (pipe_state 0) ?st" by (rule run_read [OF run_start r])
  moreover have "pipe_waits 0x80002000 (pipe_state 0)" by (simp add: pipe_waits_def waiting_def) (simp add: pipe_state_def pipe_proc_def)
  ultimately have "pipe_waits 0x80002000 ?st" using pipe_no_lost_wakeup [of pipe_env "0x80002000" "pipe_state 0" ?st] pipe_state_facts(3) [of 0] by simp
  moreover have "waiting (AddrNread 0x80002000) ?st" by (auto simp: waiting_def upd_proc_def upd_nth_def pipe_state_def)
  ultimately show ?thesis using r by blast
qed


end
