(* ===== verification/Console.thy ===== *)
theory Console
  imports Pipe
begin

text \<open>
  The console, \<open>xv6/kernel/console.c\<close>, above the serial port, \<open>uart.c\<close>.

  The registers of the port are those of the hardware: \<open>uart_rx\<close> holds the characters that have
  arrived, \<open>uart_tx\<close> the answers that \<open>LSR & LSR_TX_IDLE\<close> gives to the reads to come, and
  \<open>uart_out\<close> what has been written to \<open>THR\<close>. A spin on the transmitter skips the answers that are
  0; it is \<open>Blocked\<close> when they are used up. The spin locks make the operations atomic, and the sleep
  lock \<open>tx_lock\<close> is the pid that holds it. The table \<open>devsw\<close> of function pointers holds names of
  the device functions. What \<open>printk\<close> prints is not part of the state.
\<close>

section \<open>State\<close>

datatype devread = Dev_consoleread
datatype devwrite = Dev_consolewrite

record cstate = pstate +
  uart_rx :: "u8 list"
  uart_tx :: "bool list"
  uart_out :: "u8 list"
  tx_lock :: "int option"
  cons_buf :: "u8 list"
  cons_r :: u32
  cons_w :: u32
  cons_e :: u32
  devsw :: "(devread option \<times> devwrite option) list"

definition INPUT_BUF_SIZE :: nat where "INPUT_BUF_SIZE = 128"
definition NDEV :: nat where "NDEV = 10"
definition CONSOLE :: nat where "CONSOLE = 1"

section \<open>The serial port\<close>

fun uart_spin :: "bool list \<Rightarrow> bool list kres" where
  "uart_spin [] = Inl Blocked"
| "uart_spin (b # bs) = (if b then Inr bs else uart_spin bs)"

definition uartputc_sync :: "u8 \<Rightarrow> 'z cstate_scheme \<Rightarrow> 'z cstate_scheme kres" where
  "uartputc_sync c st = bindE (uart_spin (uart_tx st)) (\<lambda>tx. Inr (st\<lparr>uart_tx := tx, uart_out := uart_out st @ [c]\<rparr>))"

text \<open>
  The loop of \<open>uartwrite\<close> over the bytes still to send. It returns those that are left when it calls
  \<open>sleep\<close>, where it goes on when the process runs again.
\<close>

function uartwrite_loop :: "nat \<Rightarrow> u8 list \<Rightarrow> 'z cstate_scheme \<Rightarrow> (u8 list \<times> 'z cstate_scheme) kres" where
  "uartwrite_loop c [] st = Inr ([], st)"
| "uartwrite_loop c (b # bs) st =
     bindE (sleep_prepare c AddrUartTx st) (\<lambda>st1.
       case uart_tx st1 of
         [] \<Rightarrow> Inl Blocked
       | idle # tx \<Rightarrow>
           if idle then uartwrite_loop c bs (st1\<lparr>uart_tx := tx, uart_out := uart_out st1 @ [b]\<rparr>)
           else Inr (b # bs, st1\<lparr>uart_tx := tx\<rparr>))"
  by pat_completeness auto
termination by (relation "measure (\<lambda>(c, bs, st). length bs)") auto

text \<open>The whole call: the lock is still held when bytes are left.\<close>

definition uartwrite :: "nat \<Rightarrow> u8 list \<Rightarrow> 'z cstate_scheme \<Rightarrow> (u8 list \<times> 'z cstate_scheme) kres" where
  "uartwrite c bs st = with_proc c st (\<lambda>pr.
     if tx_lock st \<noteq> None then Inl Blocked
     else bindE (uartwrite_loop c bs (st\<lparr>tx_lock := Some (p_pid (proc_at pr st))\<rparr>)) (\<lambda>(left, st1).
       Inr (left, if left = [] then st1\<lparr>tx_lock := None\<rparr> else st1)))"

section \<open>Output\<close>

text \<open>The characters that are sent for \<open>BACKSPACE\<close>.\<close>

definition consputc_bs :: "'z cstate_scheme \<Rightarrow> 'z cstate_scheme kres" where
  "consputc_bs st = bindE (uartputc_sync 8 st) (\<lambda>st1. bindE (uartputc_sync 32 st1) (uartputc_sync 8))"

definition BACKSPACE :: int where "BACKSPACE = 0x100"

definition consputc :: "int \<Rightarrow> 'z cstate_scheme \<Rightarrow> 'z cstate_scheme kres" where
  "consputc c st = (if c = BACKSPACE then consputc_bs st else uartputc_sync (of_int c) st)"

text \<open>
  The loop of \<open>consolewrite\<close> from \<open>i\<close> on. When the port makes it wait in \<open>uartwrite\<close>, \<open>Wait k\<close> says that
  \<open>k\<close> bytes have been sent.
\<close>

function consolewrite_loop :: "kenv \<Rightarrow> nat \<Rightarrow> bool \<Rightarrow> u64 \<Rightarrow> int \<Rightarrow> int \<Rightarrow> 'z cstate_scheme \<Rightarrow> (pipe_res \<times> 'z cstate_scheme) kres" where
  "consolewrite_loop env c user_src src n i st =
     (if i < n
      then let nn = (if 32 > n - i then n - i else 32)
        in bindE (either_copyin env c user_src (src + of_int i) (of_int nn) st) (\<lambda>(r, bs, st1).
             if r = -1 then Inr (Return i, st1)
             else bindE (uartwrite c bs st1) (\<lambda>(left, st2).
               if left = [] then consolewrite_loop env c user_src src n (i + nn) st2
               else Inr (Wait (i + nn - int (length left)), st2)))
      else Inr (Return i, st))"
  by pat_completeness auto
termination by (relation "measure (\<lambda>(env, c, us, src, n, i, st). nat (n - i))") (auto split: if_splits)

declare consolewrite_loop.simps [simp del]

definition consolewrite :: "kenv \<Rightarrow> nat \<Rightarrow> bool \<Rightarrow> u64 \<Rightarrow> int \<Rightarrow> 'z cstate_scheme \<Rightarrow> (pipe_res \<times> 'z cstate_scheme) kres" where
  "consolewrite env c user_src src n st = consolewrite_loop env c user_src src n 0 st"

section \<open>Input\<close>

text \<open>
  The loop of \<open>consoleread\<close>, with \<open>n\<close> bytes still wanted of \<open>target\<close>. \<open>Wait n\<close> means that it has registered on
  \<open>&cons.r\<close>; it goes on with \<open>n\<close> when it has slept.
\<close>

function consoleread_loop :: "kenv \<Rightarrow> nat \<Rightarrow> bool \<Rightarrow> u64 \<Rightarrow> int \<Rightarrow> int \<Rightarrow> 'z cstate_scheme \<Rightarrow> (pipe_res \<times> 'z cstate_scheme) kres" where
  "consoleread_loop env c user_dst dst target n st =
     (if n > 0
      then if cons_r st = cons_w st
        then with_proc c st (\<lambda>pr.
          if killed pr st then Inr (Return (-1), st)
          else bindE (sleep_prepare c AddrCons st) (\<lambda>st1. Inr (Wait n, st1)))
        else let ch = cons_buf st ! (unat (cons_r st) mod INPUT_BUF_SIZE); st1 = st\<lparr>cons_r := cons_r st + 1\<rparr>
          in if ch = 4
             then Inr (Return (target - n), if n < target then st1\<lparr>cons_r := cons_r st1 - 1\<rparr> else st1)
             else bindE (either_copyout env c user_dst dst [ch] st1) (\<lambda>(r, st2).
               if r = -1 then Inr (Return (target - n), st2)
               else if ch = 10 then Inr (Return (target - (n - 1)), st2)
               else consoleread_loop env c user_dst (dst + 1) target (n - 1) st2)
      else Inr (Return (target - n), st))"
  by pat_completeness auto
termination by (relation "measure (\<lambda>(env, c, ud, dst, target, n, st). nat n)") auto

declare consoleread_loop.simps [simp del]

definition consoleread :: "kenv \<Rightarrow> nat \<Rightarrow> bool \<Rightarrow> u64 \<Rightarrow> int \<Rightarrow> 'z cstate_scheme \<Rightarrow> (pipe_res \<times> 'z cstate_scheme) kres" where
  "consoleread env c user_dst dst n st = consoleread_loop env c user_dst dst n n st"

text \<open>
  The loop of \<open>C('U')\<close>. The edit index goes back to the write index at the latest; \<open>k\<close> bounds the
  distance.
\<close>

fun kill_line :: "nat \<Rightarrow> 'z cstate_scheme \<Rightarrow> 'z cstate_scheme kres" where
  "kill_line 0 st = Inr st"
| "kill_line (Suc k) st =
     (if cons_e st \<noteq> cons_w st \<and> cons_buf st ! (unat (cons_e st - 1) mod INPUT_BUF_SIZE) \<noteq> 10
      then bindE (consputc BACKSPACE (st\<lparr>cons_e := cons_e st - 1\<rparr>)) (kill_line k)
      else Inr st)"

text \<open>\<open>C('P')\<close> only prints the process list.\<close>

definition consoleintr :: "int \<Rightarrow> 'z cstate_scheme \<Rightarrow> 'z cstate_scheme kres" where
  "consoleintr c st =
     (if c = 16 then Inr st
      else if c = 21 then kill_line (unat (cons_e st - cons_w st)) st
      else if c = 8 \<or> c = 127
      then if cons_e st \<noteq> cons_w st then consputc BACKSPACE (st\<lparr>cons_e := cons_e st - 1\<rparr>) else Inr st
      else if c \<noteq> 0 \<and> unat (cons_e st - cons_r st) < INPUT_BUF_SIZE
      then let c' = (if c = 13 then 10 else c)
        in bindE (consputc c' st) (\<lambda>st1.
             let st2 = st1\<lparr>cons_buf := (cons_buf st1)[unat (cons_e st1) mod INPUT_BUF_SIZE := of_int c'], cons_e := cons_e st1 + 1\<rparr>
             in Inr (if c' = 10 \<or> c' = 4 \<or> unat (cons_e st2 - cons_r st2) = INPUT_BUF_SIZE
                     then wakeup AddrCons (st2\<lparr>cons_w := cons_e st2\<rparr>)
                     else st2))
      else Inr st)"

text \<open>The loop of \<open>uartintr\<close> over the characters that have arrived; each read of \<open>RHR\<close> takes one.\<close>

fun uartintr_loop :: "u8 list \<Rightarrow> 'z cstate_scheme \<Rightarrow> 'z cstate_scheme kres" where
  "uartintr_loop [] st = Inr st"
| "uartintr_loop (ch # rx) st = bindE (consoleintr (uint ch) (st\<lparr>uart_rx := rx\<rparr>)) (uartintr_loop rx)"

definition uartintr :: "'z cstate_scheme \<Rightarrow> 'z cstate_scheme kres" where
  "uartintr st =
     (case uart_tx st of
        [] \<Rightarrow> Inl Blocked
      | idle # tx \<Rightarrow>
          let st1 = st\<lparr>uart_tx := tx\<rparr>; st2 = (if idle then wakeup AddrUartTx st1 else st1)
          in uartintr_loop (uart_rx st2) st2)"

text \<open>\<open>uartinit\<close> programs the hardware and initialises the lock.\<close>

definition consoleinit :: "'z cstate_scheme \<Rightarrow> 'z cstate_scheme" where
  "consoleinit st =
     st\<lparr>tx_lock := None, devsw := (devsw st)[CONSOLE := (Some Dev_consoleread, Some Dev_consolewrite)]\<rparr>"

end
