(* ===== verification/Bio.thy ===== *)
theory Bio
  imports Prelude "HOL-Library.Sublist"
begin

text \<open>
  The buffer cache, \<open>xv6/kernel/bio.c\<close> and \<open>buf.h\<close>, above a disk that is an array of blocks. The
  buffers are linked into a ring through their \<open>prev\<close> and \<open>next\<close> fields, as in the code: a pointer
  is an index into the list of buffers, whose last entry is \<open>bcache.head\<close>. The lemmas show that
  the ring is a list of all buffers in the order of their use, and say what every operation
  does to the contents of the blocks as the rest of the kernel sees them.

  The operations are those of one process, whose pid is an argument. A sleep lock that is taken
  is the value \<open>Blocked\<close>; the spin lock of the cache makes the list operations atomic. The disk
  driver is used through its contract: it reads and writes one block. The list \<open>dwrites\<close> has the
  writes in their order, for statements about a crash between them.
\<close>

section \<open>Parameters and state\<close>

definition BSIZE :: nat where "BSIZE = 1024"
definition MAXOPBLOCKS :: nat where "MAXOPBLOCKS = 10"
definition LOGBLOCKS :: nat where "LOGBLOCKS = MAXOPBLOCKS * 3"
definition NBUF :: nat where "NBUF = MAXOPBLOCKS * 3"
definition ROOTDEV :: u32 where "ROOTDEV = 1"

type_synonym block = "u8 list"

record buf =
  b_valid :: bool
  b_dev :: u32
  b_blockno :: u32
  b_locked :: bool
  b_pid :: int
  b_refcnt :: u32
  b_prev :: nat
  b_next :: nat
  b_data :: block

record bio =
  disk :: "u32 \<Rightarrow> block"
  dwrites :: "(u32 \<times> block) list"
  bufs :: "buf list"

abbreviation buf_at :: "nat \<Rightarrow> bio \<Rightarrow> buf" where
  "buf_at i s \<equiv> bufs s ! i"

definition upd_buf :: "nat \<Rightarrow> (buf \<Rightarrow> buf) \<Rightarrow> bio \<Rightarrow> bio" where
  "upd_buf i f s = s\<lparr>bufs := upd_nth i f (bufs s)\<rparr>"

definition zero_buf :: buf where
  "zero_buf = \<lparr>b_valid = False, b_dev = 0, b_blockno = 0, b_locked = False, b_pid = 0, b_refcnt = 0,
     b_prev = 0, b_next = 0, b_data = replicate BSIZE 0\<rparr>"

section \<open>Sleep locks of buffers and the disk\<close>

definition buf_acquire :: "int \<Rightarrow> nat \<Rightarrow> bio \<Rightarrow> bio kres" where
  "buf_acquire pid i s =
    (if b_locked (buf_at i s) then Inl Blocked
     else Inr (upd_buf i (\<lambda>b. b\<lparr>b_locked := True, b_pid := pid\<rparr>) s))"

definition buf_release :: "nat \<Rightarrow> bio \<Rightarrow> bio" where
  "buf_release i s = upd_buf i (\<lambda>b. b\<lparr>b_locked := False, b_pid := 0\<rparr>) s"

definition buf_holding :: "int \<Rightarrow> nat \<Rightarrow> bio \<Rightarrow> bool" where
  "buf_holding pid i s \<longleftrightarrow> b_locked (buf_at i s) \<and> b_pid (buf_at i s) = pid"

definition disk_read :: "nat \<Rightarrow> bio \<Rightarrow> bio" where
  "disk_read i s = upd_buf i (\<lambda>b. b\<lparr>b_data := disk s (b_blockno b)\<rparr>) s"

definition disk_write :: "nat \<Rightarrow> bio \<Rightarrow> bio" where
  "disk_write i s =
    s\<lparr>disk := (disk s)(b_blockno (buf_at i s) := b_data (buf_at i s)),
      dwrites := dwrites s @ [(b_blockno (buf_at i s), b_data (buf_at i s))]\<rparr>"

section \<open>The ring of buffers\<close>

definition set_next :: "nat \<Rightarrow> nat \<Rightarrow> bio \<Rightarrow> bio" where
  "set_next i j = upd_buf i (\<lambda>b. b\<lparr>b_next := j\<rparr>)"

definition set_prev :: "nat \<Rightarrow> nat \<Rightarrow> bio \<Rightarrow> bio" where
  "set_prev i j = upd_buf i (\<lambda>b. b\<lparr>b_prev := j\<rparr>)"

text \<open>\<open>b\<close> becomes the first element behind the head.\<close>

definition link_front :: "nat \<Rightarrow> bio \<Rightarrow> bio" where
  "link_front b s =
    (let s1 = set_next b (b_next (buf_at NBUF s)) s;
         s2 = set_prev b NBUF s1;
         s3 = set_prev (b_next (buf_at NBUF s2)) b s2
     in set_next NBUF b s3)"

definition unlink :: "nat \<Rightarrow> bio \<Rightarrow> bio" where
  "unlink b s =
    (let s1 = set_prev (b_next (buf_at b s)) (b_prev (buf_at b s)) s
     in set_next (b_prev (buf_at b s1)) (b_next (buf_at b s1)) s1)"

fun binit_loop :: "nat list \<Rightarrow> bio \<Rightarrow> bio" where
  "binit_loop [] s = s"
| "binit_loop (b # bs) s = binit_loop bs (link_front b (upd_buf b (\<lambda>x. x\<lparr>b_locked := False, b_pid := 0\<rparr>) s))"

definition binit :: "bio \<Rightarrow> bio" where
  "binit s = binit_loop [0..<NBUF] (set_next NBUF NBUF (set_prev NBUF NBUF s))"

text \<open>
  The scans of \<open>bget\<close>: from buffer \<open>i\<close> along \<open>nxt\<close> to the first that satisfies the test, or to
  the head.
\<close>

partial_function (option) bscan :: "(buf \<Rightarrow> bool) \<Rightarrow> (buf \<Rightarrow> nat) \<Rightarrow> buf list \<Rightarrow> nat \<Rightarrow> nat option option" where
  "bscan P nxt bs i =
    (if i = NBUF then Some None
     else if P (bs ! i) then Some (Some i)
     else bscan P nxt bs (nxt (bs ! i)))"

section \<open>bio.c\<close>

definition bget :: "int \<Rightarrow> u32 \<Rightarrow> u32 \<Rightarrow> bio \<Rightarrow> (nat \<times> bio) kres" where
  "bget pid dev blockno s =
    (case bscan (\<lambda>b. b_dev b = dev \<and> b_blockno b = blockno) b_next (bufs s) (b_next (buf_at NBUF s)) of
       None \<Rightarrow> Inl OutOfFuel
     | Some (Some i) \<Rightarrow>
         bindE (buf_acquire pid i (upd_buf i (\<lambda>b. b\<lparr>b_refcnt := b_refcnt b + 1\<rparr>) s)) (\<lambda>s'. Inr (i, s'))
     | Some None \<Rightarrow>
         (case bscan (\<lambda>b. b_refcnt b = 0) b_prev (bufs s) (b_prev (buf_at NBUF s)) of
            None \<Rightarrow> Inl OutOfFuel
          | Some None \<Rightarrow> Inl (Panic ''bget: no buffers'')
          | Some (Some i) \<Rightarrow>
              bindE (buf_acquire pid i (upd_buf i (\<lambda>b. b\<lparr>b_dev := dev, b_blockno := blockno, b_valid := False, b_refcnt := 1\<rparr>) s))
                (\<lambda>s'. Inr (i, s'))))"

definition bread :: "int \<Rightarrow> u32 \<Rightarrow> u32 \<Rightarrow> bio \<Rightarrow> (nat \<times> bio) kres" where
  "bread pid dev blockno s =
    bindE (bget pid dev blockno s) (\<lambda>(i, s1).
      Inr (i, if b_valid (buf_at i s1) then s1
              else upd_buf i (\<lambda>b. b\<lparr>b_valid := True\<rparr>) (disk_read i s1)))"

definition bwrite :: "int \<Rightarrow> nat \<Rightarrow> bio \<Rightarrow> bio kres" where
  "bwrite pid i s = (if \<not> buf_holding pid i s then Inl (Panic ''bwrite'') else Inr (disk_write i s))"

definition brelse :: "int \<Rightarrow> nat \<Rightarrow> bio \<Rightarrow> bio kres" where
  "brelse pid i s =
    (if \<not> buf_holding pid i s then Inl (Panic ''brelse'')
     else let s1 = buf_release i s;
              s2 = upd_buf i (\<lambda>b. b\<lparr>b_refcnt := b_refcnt b - 1\<rparr>) s1
          in Inr (if b_refcnt (buf_at i s2) = 0 then link_front i (unlink i s2) else s2))"

definition bpin :: "nat \<Rightarrow> bio \<Rightarrow> bio" where
  "bpin i = upd_buf i (\<lambda>b. b\<lparr>b_refcnt := b_refcnt b + 1\<rparr>)"

definition bunpin :: "nat \<Rightarrow> bio \<Rightarrow> bio" where
  "bunpin i = upd_buf i (\<lambda>b. b\<lparr>b_refcnt := b_refcnt b - 1\<rparr>)"

text \<open>A change of \<open>b->data\<close> by the holder of the buffer.\<close>

definition set_data :: "nat \<Rightarrow> block \<Rightarrow> bio \<Rightarrow> bio" where
  "set_data i d = upd_buf i (\<lambda>b. b\<lparr>b_data := d\<rparr>)"

section \<open>The ring as a list\<close>

definition links :: "buf list \<Rightarrow> nat list \<Rightarrow> bool" where
  "links bs xs \<longleftrightarrow> successively (\<lambda>a b. b_next (bs ! a) = b \<and> b_prev (bs ! b) = a) xs"

definition ring :: "buf list \<Rightarrow> nat list \<Rightarrow> bool" where
  "ring bs order \<longleftrightarrow> length bs = NBUF + 1 \<and> distinct order \<and> set order \<subseteq> {0..<NBUF}
    \<and> links bs (NBUF # order @ [NBUF])"

lemma links_simps [simp]: "links bs []" "links bs [x]"
  "links bs (x # y # xs) \<longleftrightarrow> b_next (bs ! x) = y \<and> b_prev (bs ! y) = x \<and> links bs (y # xs)"
  by (simp_all add: links_def)

lemma links_cong:
  assumes "\<And>u. u \<in> set (butlast xs) \<Longrightarrow> b_next (bs' ! u) = b_next (bs ! u)"
    and "\<And>v. v \<in> set (tl xs) \<Longrightarrow> b_prev (bs' ! v) = b_prev (bs ! v)"
  shows "links bs' xs = links bs xs"
  using assms
proof (induction xs rule: induct_list012)
  case (3 x y zs)
  have "links bs' (y # zs) = links bs (y # zs)" by (rule "3.IH"(2)) (use "3.prems" in auto)
  then show ?case using "3.prems"(1) [of x] "3.prems"(2) [of y] by simp
qed simp_all

lemma links_append:
  "links bs (xs @ y # ys) \<longleftrightarrow> links bs xs \<and> links bs (y # ys) \<and> (xs \<noteq> [] \<longrightarrow> b_next (bs ! last xs) = y \<and> b_prev (bs ! y) = last xs)"
  by (auto simp: links_def successively_append_iff)

lemma bufs_set_next: "bufs (set_next i j s) = upd_nth i (\<lambda>b. b\<lparr>b_next := j\<rparr>) (bufs s)"
  and bufs_set_prev: "bufs (set_prev i j s) = upd_nth i (\<lambda>b. b\<lparr>b_prev := j\<rparr>) (bufs s)"
  by (simp_all add: set_next_def set_prev_def upd_buf_def)

lemma links_ends:
  assumes "links bs (NBUF # xs @ [NBUF])"
  shows "b_next (bs ! NBUF) = hd (xs @ [NBUF])" and "b_prev (bs ! NBUF) = last (NBUF # xs)"
proof -
  show "b_next (bs ! NBUF) = hd (xs @ [NBUF])" using assms by (cases xs) simp_all
  have "links bs ((NBUF # xs) @ [NBUF])" using assms by simp
  then show "b_prev (bs ! NBUF) = last (NBUF # xs)" unfolding links_append by simp
qed

lemma links_mid:
  assumes "links bs (NBUF # xs @ i # ys @ [NBUF])"
  shows "b_next (bs ! i) = hd (ys @ [NBUF])" and "b_prev (bs ! i) = last (NBUF # xs)"
proof -
  have "links bs ((NBUF # xs) @ i # (ys @ [NBUF]))" using assms by simp
  then have l: "links bs (i # ys @ [NBUF])" "b_prev (bs ! i) = last (NBUF # xs)" unfolding links_append by auto
  then show "b_prev (bs ! i) = last (NBUF # xs)" by simp
  show "b_next (bs ! i) = hd (ys @ [NBUF])" using l(1) by (cases ys) (simp_all add: links_def)
qed

lemma nth_upd_next: "b_next (upd_nth i (\<lambda>b. b\<lparr>b_next := j\<rparr>) bs ! k) = (if k = i \<and> i < length bs then j else b_next (bs ! k))"
  and nth_upd_prev: "b_prev (upd_nth i (\<lambda>b. b\<lparr>b_prev := j\<rparr>) bs ! k) = (if k = i \<and> i < length bs then j else b_prev (bs ! k))"
  and nth_upd_next': "b_prev (upd_nth i (\<lambda>b. b\<lparr>b_next := j\<rparr>) bs ! k) = b_prev (bs ! k)"
  and nth_upd_prev': "b_next (upd_nth i (\<lambda>b. b\<lparr>b_prev := j\<rparr>) bs ! k) = b_next (bs ! k)"
  by (simp_all add: upd_nth_def nth_list_update)

lemmas nth_link = nth_upd_next nth_upd_prev nth_upd_next' nth_upd_prev'

lemma distinct_ends:
  "distinct xs \<Longrightarrow> xs \<noteq> [] \<Longrightarrow> last xs \<notin> set (butlast xs)"
  "distinct xs \<Longrightarrow> xs \<noteq> [] \<Longrightarrow> hd xs \<notin> set (tl xs)"
  by (cases xs rule: rev_cases; simp) (cases xs; simp)

lemma unlink_links:
  assumes "ring (bufs s) (xs @ i # ys)"
  shows "ring (bufs (unlink i s)) (xs @ ys)"
proof -
  have len: "length (bufs s) = NBUF + 1" and d: "distinct (xs @ i # ys)" and sub: "set (xs @ i # ys) \<subseteq> {0..<NBUF}"
    and l: "links (bufs s) (NBUF # xs @ i # ys @ [NBUF])"
    using assms by (auto simp: ring_def)
  note m = links_mid [OF l]
  have h: "hd (ys @ [NBUF]) \<in> insert NBUF (set ys)" "last (NBUF # xs) \<in> insert NBUF (set xs)"
    by (cases ys) auto
  then have pos: "hd (ys @ [NBUF]) < length (bufs s)" "last (NBUF # xs) < length (bufs s)"
    using sub unfolding len by fastforce+
  have ne: "hd (ys @ [NBUF]) \<noteq> i" "last (NBUF # xs) \<noteq> i" using d sub h by auto
  define a where "a = last (NBUF # xs)"
  define c where "c = hd (ys @ [NBUF])"
  have nx: "b_next (bufs (unlink i s) ! k) = (if k = a then c else b_next (bufs s ! k))"
    and pv: "b_prev (bufs (unlink i s) ! k) = (if k = c then a else b_prev (bufs s ! k))" for k
    using m pos ne by (auto simp: unlink_def Let_def bufs_set_next bufs_set_prev nth_link a_def c_def)
  have parts: "links (bufs s) (NBUF # xs)" "links (bufs s) (i # ys @ [NBUF])"
    using l links_append [of "bufs s" "NBUF # xs" i "ys @ [NBUF]"] by auto
  then have ysl: "links (bufs s) (ys @ [NBUF])" by (cases ys) simp_all
  have D: "distinct (NBUF # xs)" "distinct (ys @ [NBUF])" "set (NBUF # xs) \<inter> set ys = {}" "NBUF \<notin> set xs"
    using d sub by auto
  have "a \<notin> set (butlast (NBUF # xs))" "c \<notin> set (tl (ys @ [NBUF]))"
    unfolding a_def c_def using distinct_ends(1) [OF D(1)] distinct_ends(2) [OF D(2)] by simp_all
  moreover have "c \<notin> set xs" "a \<notin> set ys" using h D by (auto simp: a_def c_def)
  ultimately have "links (bufs (unlink i s)) (NBUF # xs) = links (bufs s) (NBUF # xs)"
    "links (bufs (unlink i s)) (ys @ [NBUF]) = links (bufs s) (ys @ [NBUF])"
    by (intro links_cong; auto simp: nx pv)+
  then have "links (bufs (unlink i s)) (NBUF # xs)" "links (bufs (unlink i s)) (ys @ [NBUF])"
    using parts(1) ysl by simp_all
  moreover have "ys @ [NBUF] = c # tl (ys @ [NBUF])" by (simp add: c_def)
  moreover have "b_next (bufs (unlink i s) ! a) = c" "b_prev (bufs (unlink i s) ! c) = a" by (simp_all add: nx pv)
  ultimately have "links (bufs (unlink i s)) ((NBUF # xs) @ ys @ [NBUF])"
    using links_append [of "bufs (unlink i s)" "NBUF # xs" c "tl (ys @ [NBUF])"] a_def by simp
  moreover have "length (bufs (unlink i s)) = NBUF + 1" by (simp add: unlink_def Let_def bufs_set_next bufs_set_prev len)
  ultimately show ?thesis using d sub by (auto simp: ring_def)
qed

lemma link_front_links:
  assumes "ring (bufs s) zs" and "i \<notin> set zs" and "i < NBUF"
  shows "ring (bufs (link_front i s)) (i # zs)"
proof -
  have len: "length (bufs s) = NBUF + 1" and d: "distinct zs" and sub: "set zs \<subseteq> {0..<NBUF}"
    and l: "links (bufs s) (NBUF # zs @ [NBUF])"
    using assms by (auto simp: ring_def)
  define c where "c = hd (zs @ [NBUF])"
  have "c \<in> insert NBUF (set zs)" unfolding c_def by (cases zs) auto
  then have c: "c < length (bufs s)" "c \<noteq> i" using sub assms(2,3) unfolding len by fastforce+
  note e = links_ends(1) [OF l, folded c_def]
  have nx: "b_next (bufs (link_front i s) ! k) = (if k = NBUF then i else if k = i then c else b_next (bufs s ! k))"
    and pv: "b_prev (bufs (link_front i s) ! k) = (if k = c then i else if k = i then NBUF else b_prev (bufs s ! k))" for k
    using e c assms(3) len by (auto simp: link_front_def Let_def bufs_set_next bufs_set_prev nth_link)
  have zl: "links (bufs s) (zs @ [NBUF])" using l by (cases zs) simp_all
  have D: "distinct (zs @ [NBUF])" "i \<notin> set (zs @ [NBUF])" "NBUF \<notin> set zs" using d sub assms by auto
  have "i \<notin> set (tl (zs @ [NBUF]))" using D(2) by (cases zs) auto
  moreover have "c \<notin> set (tl (zs @ [NBUF]))" unfolding c_def using distinct_ends(2) [OF D(1)] by simp
  ultimately have "links (bufs (link_front i s)) (zs @ [NBUF]) = links (bufs s) (zs @ [NBUF])"
    using D by (intro links_cong) (auto simp: nx pv)
  with zl have "links (bufs (link_front i s)) (zs @ [NBUF])" by simp
  moreover have "zs @ [NBUF] = c # tl (zs @ [NBUF])" by (simp add: c_def)
  moreover have "b_next (bufs (link_front i s) ! i) = c" "b_prev (bufs (link_front i s) ! c) = i"
    "b_next (bufs (link_front i s) ! NBUF) = i" "b_prev (bufs (link_front i s) ! i) = NBUF"
    using c assms(3) by (auto simp: nx pv)
  ultimately have "links (bufs (link_front i s)) (NBUF # i # zs @ [NBUF])"
    by (metis links_simps(3))
  moreover have "length (bufs (link_front i s)) = NBUF + 1"
    by (simp add: link_front_def Let_def bufs_set_next bufs_set_prev len)
  ultimately show ?thesis using d sub assms by (simp add: ring_def)
qed

text \<open>An update that keeps the pointers keeps the ring.\<close>

lemma ring_upd:
  assumes "\<And>b. b_next (f b) = b_next b" and "\<And>b. b_prev (f b) = b_prev b"
  shows "ring (upd_nth i f bs) order = ring bs order"
proof -
  have "links (upd_nth i f bs) xs = links bs xs" for xs
    by (rule links_cong) (simp_all add: upd_nth_def nth_list_update assms)
  then show ?thesis by (simp add: ring_def)
qed

text \<open>The scans find the first match in the order of the list, or in the reverse order.\<close>

lemma bscan_next:
  "links bs (ys @ [NBUF]) \<Longrightarrow> set ys \<subseteq> {0..<NBUF} \<Longrightarrow>
    bscan P b_next bs (hd (ys @ [NBUF])) = Some (find (\<lambda>i. P (bs ! i)) ys)"
proof (induction ys)
  case (Cons y ys)
  then have "links bs (ys @ [NBUF])" "b_next (bs ! y) = hd (ys @ [NBUF])" by (cases ys; simp)+
  with Cons show ?case by (subst bscan.simps) auto
qed (simp add: bscan.simps)

lemma bscan_prev:
  "links bs (NBUF # xs) \<Longrightarrow> set xs \<subseteq> {0..<NBUF} \<Longrightarrow>
    bscan P b_prev bs (last (NBUF # xs)) = Some (find (\<lambda>i. P (bs ! i)) (rev xs))"
proof (induction xs rule: rev_induct)
  case (snoc x xs)
  have "links bs ((NBUF # xs) @ [x])" using snoc.prems by simp
  then have "links bs (NBUF # xs)" "b_prev (bs ! x) = last (NBUF # xs)" unfolding links_append by simp_all
  with snoc show ?case by (subst bscan.simps) auto
qed (simp add: bscan.simps)

lemma bscan_ring:
  assumes "ring bs order"
  shows "bscan P b_next bs (b_next (bs ! NBUF)) = Some (find (\<lambda>i. P (bs ! i)) order)"
    and "bscan P b_prev bs (b_prev (bs ! NBUF)) = Some (find (\<lambda>i. P (bs ! i)) (rev order))"
proof -
  have l: "links bs (NBUF # order @ [NBUF])" and sub: "set order \<subseteq> {0..<NBUF}" using assms by (auto simp: ring_def)
  then have "links bs (order @ [NBUF])" by (cases order) simp_all
  then show "bscan P b_next bs (b_next (bs ! NBUF)) = Some (find (\<lambda>i. P (bs ! i)) order)"
    using bscan_next sub links_ends(1) [OF l] by simp
  have "links bs ((NBUF # order) @ [NBUF])" using l by simp
  then have "links bs (NBUF # order)" unfolding links_append by simp
  then show "bscan P b_prev bs (b_prev (bs ! NBUF)) = Some (find (\<lambda>i. P (bs ! i)) (rev order))"
    using bscan_prev sub links_ends(2) [OF l] by simp
qed

section \<open>Blocks as the kernel sees them\<close>

definition cslot :: "bio \<Rightarrow> u32 \<Rightarrow> nat option" where
  "cslot s b = find_idx (\<lambda>x. b_dev x = ROOTDEV \<and> b_blockno x = b) (take NBUF (bufs s))"

definition content :: "bio \<Rightarrow> u32 \<Rightarrow> block" where
  "content s b = (case cslot s b of None \<Rightarrow> disk s b | Some i \<Rightarrow> if b_valid (buf_at i s) then b_data (buf_at i s) else disk s b)"

definition refs :: "bio \<Rightarrow> u32 \<Rightarrow> nat" where
  "refs s b = (case cslot s b of None \<Rightarrow> 0 | Some i \<Rightarrow> unat (b_refcnt (buf_at i s)))"

definition holder :: "bio \<Rightarrow> u32 \<Rightarrow> int option" where
  "holder s b = (case cslot s b of None \<Rightarrow> None | Some i \<Rightarrow> if b_locked (buf_at i s) then Some (b_pid (buf_at i s)) else None)"

definition nfree :: "bio \<Rightarrow> nat" where
  "nfree s = length (filter (\<lambda>x. b_refcnt x = 0) (take NBUF (bufs s)))"

text \<open>
  The cache is well formed: the ring has all buffers, a block is in one buffer only, a buffer in
  use has been read, and a buffer that nobody uses is not locked and agrees with the disk, so
  that it can be reused.
\<close>

definition buf_ok :: "(u32 \<Rightarrow> block) \<Rightarrow> buf \<Rightarrow> bool" where
  "buf_ok d x \<longleftrightarrow>
    (if b_refcnt x = 0 then \<not> b_locked x \<and> (b_valid x \<longrightarrow> b_dev x = ROOTDEV \<and> b_data x = d (b_blockno x))
     else b_valid x \<and> b_dev x = ROOTDEV)"

definition bio_ok :: "bio \<Rightarrow> bool" where
  "bio_ok s \<longleftrightarrow> (\<exists>order. ring (bufs s) order \<and> set order = {0..<NBUF})
    \<and> (\<forall>i<NBUF. buf_ok (disk s) (buf_at i s))
    \<and> (\<forall>i<NBUF. \<forall>j<NBUF. b_dev (buf_at i s) = ROOTDEV \<and> b_dev (buf_at j s) = ROOTDEV
         \<and> b_blockno (buf_at i s) = b_blockno (buf_at j s) \<longrightarrow> i = j)"

lemma bio_ok_length [simp]: "bio_ok s \<Longrightarrow> length (bufs s) = NBUF + 1"
  by (auto simp: bio_ok_def ring_def)

lemma cslot_Some:
  assumes "bio_ok s"
  shows "cslot s b = Some i \<longleftrightarrow> i < NBUF \<and> b_dev (buf_at i s) = ROOTDEV \<and> b_blockno (buf_at i s) = b"
proof
  assume "cslot s b = Some i"
  then show "i < NBUF \<and> b_dev (buf_at i s) = ROOTDEV \<and> b_blockno (buf_at i s) = b"
    unfolding cslot_def using find_idxD [of _ "take NBUF (bufs s)" i] by auto
next
  assume i: "i < NBUF \<and> b_dev (buf_at i s) = ROOTDEV \<and> b_blockno (buf_at i s) = b"
  then have "\<forall>j<i. \<not> (b_dev (buf_at j s) = ROOTDEV \<and> b_blockno (buf_at j s) = b)"
    using assms unfolding bio_ok_def by (metis nat_neq_iff order.strict_trans)
  with i assms show "cslot s b = Some i" by (auto simp: cslot_def find_idx_Some)
qed

lemma cslot_None:
  assumes "bio_ok s"
  shows "cslot s b = None \<longleftrightarrow> (\<forall>i<NBUF. \<not> (b_dev (buf_at i s) = ROOTDEV \<and> b_blockno (buf_at i s) = b))"
proof -
  have l: "length (take NBUF (bufs s)) = NBUF" using assms by simp
  show ?thesis unfolding cslot_def find_idx_None all_set_conv_all_nth l by simp
qed

text \<open>A step that keeps the keys of the buffers keeps the places of the blocks.\<close>

lemma cslot_cong:
  assumes "length (bufs s') = length (bufs s)"
    and "\<And>i. i < NBUF \<Longrightarrow> b_dev (buf_at i s') = b_dev (buf_at i s) \<and> b_blockno (buf_at i s') = b_blockno (buf_at i s)"
  shows "cslot s' b = cslot s b"
proof -
  have "find_idx P xs = find_idx Q ys" if "length xs = length ys" "\<forall>i<length xs. P (xs ! i) = Q (ys ! i)"
    for P Q and xs ys :: "buf list"
    using that
  proof (induction xs ys rule: list_induct2)
    case (Cons x xs y ys)
    then show ?case by (auto simp: All_less_Suc2)
  qed simp
  then show ?thesis unfolding cslot_def using assms by simp
qed

lemma bio_ok_buf: "bio_ok s \<Longrightarrow> i < NBUF \<Longrightarrow> buf_ok (disk s) (buf_at i s)"
  by (simp add: bio_ok_def)

lemma slot_facts:
  assumes "bio_ok s" and "cslot s b = Some i"
  shows "i < NBUF" and "i < length (bufs s)" and "b_dev (buf_at i s) = ROOTDEV" and "b_blockno (buf_at i s) = b"
    and "refs s b = unat (b_refcnt (buf_at i s))"
    and "refs s b \<noteq> 0 \<Longrightarrow> b_valid (buf_at i s) \<and> content s b = b_data (buf_at i s)"
    and "holder s b = (if b_locked (buf_at i s) then Some (b_pid (buf_at i s)) else None)"
proof -
  show i: "i < NBUF" "b_dev (buf_at i s) = ROOTDEV" "b_blockno (buf_at i s) = b" using assms by (auto simp: cslot_Some)
  show "i < length (bufs s)" using i(1) assms(1) by simp
  show r: "refs s b = unat (b_refcnt (buf_at i s))"
    and "holder s b = (if b_locked (buf_at i s) then Some (b_pid (buf_at i s)) else None)"
    using assms(2) by (simp_all add: refs_def holder_def)
  assume "refs s b \<noteq> 0"
  with r bio_ok_buf [OF assms(1) i(1)] show "b_valid (buf_at i s) \<and> content s b = b_data (buf_at i s)"
    using assms(2) by (auto simp: content_def buf_ok_def split: if_splits)
qed

lemma refs_slot: "refs s b \<noteq> 0 \<Longrightarrow> \<exists>i. cslot s b = Some i"
  by (auto simp: refs_def split: option.splits)

lemma holder_slot: "holder s b \<noteq> None \<Longrightarrow> \<exists>i. cslot s b = Some i"
  by (auto simp: holder_def split: option.splits)

text \<open>An update of one buffer that keeps its block.\<close>

definition keeps_key :: "(buf \<Rightarrow> buf) \<Rightarrow> bool" where
  "keeps_key f \<longleftrightarrow> (\<forall>b. b_dev (f b) = b_dev b \<and> b_blockno (f b) = b_blockno b \<and> b_next (f b) = b_next b \<and> b_prev (f b) = b_prev b)"

lemma buf_at_upd: "j < length (bufs s) \<Longrightarrow> buf_at j (upd_buf i f s) = (if i = j then f (buf_at j s) else buf_at j s)"
  by (simp add: upd_buf_def nth_upd_nth)

lemma upd_buf_simps [simp]: "disk (upd_buf i f s) = disk s" "dwrites (upd_buf i f s) = dwrites s"
  "length (bufs (upd_buf i f s)) = length (bufs s)"
  by (simp_all add: upd_buf_def)

lemma length_filter_upd_nth:
  "i < length xs \<Longrightarrow> length (filter P (upd_nth i f xs)) + (if P (xs ! i) then 1 else 0)
    = length (filter P xs) + (if P (f (xs ! i)) then 1 else 0)"
proof (induction xs arbitrary: i)
  case (Cons x xs)
  show ?case
  proof (cases i)
    case (Suc k)
    with Cons.IH [of k] Cons.prems show ?thesis by (auto simp: upd_nth_def)
  qed (simp add: upd_nth_def)
qed simp

lemma nfree_upd:
  assumes "i < NBUF" and "length (bufs s) = NBUF + 1"
  shows "nfree (upd_buf i f s) + (if b_refcnt (buf_at i s) = 0 then 1 else 0)
    = nfree s + (if b_refcnt (f (buf_at i s)) = 0 then 1 else 0)"
proof -
  have "take NBUF (upd_nth i f (bufs s)) = upd_nth i f (take NBUF (bufs s))"
    using assms by (simp add: upd_nth_def take_update_swap)
  then show ?thesis
    using length_filter_upd_nth [of i "take NBUF (bufs s)" "\<lambda>x. b_refcnt x = 0" f] assms by (simp add: nfree_def upd_buf_def)
qed

lemma upd_buf_ok:
  assumes "bio_ok s" and "i < NBUF" and "keeps_key f" and "buf_ok (disk s) (f (buf_at i s))"
  shows "bio_ok (upd_buf i f s)" and "cslot (upd_buf i f s) c = cslot s c"
proof -
  have k: "b_dev (buf_at j (upd_buf i f s)) = b_dev (buf_at j s) \<and> b_blockno (buf_at j (upd_buf i f s)) = b_blockno (buf_at j s)"
    if "j < NBUF" for j using that assms by (simp add: buf_at_upd keeps_key_def)
  have "ring (bufs (upd_buf i f s)) order = ring (bufs s) order" for order
    using assms(3) by (simp add: upd_buf_def ring_upd keeps_key_def)
  with assms k show "bio_ok (upd_buf i f s)" by (simp add: bio_ok_def buf_at_upd)
  show "cslot (upd_buf i f s) c = cslot s c" using k by (intro cslot_cong) simp_all
qed

lemma upd_buf_views:
  assumes "bio_ok s" and "cslot s b = Some i" and "keeps_key f" and "buf_ok (disk s) (f (buf_at i s))"
  shows "content (upd_buf i f s) = (content s)(b := if b_valid (f (buf_at i s)) then b_data (f (buf_at i s)) else disk s b)"
    and "refs (upd_buf i f s) = (refs s)(b := unat (b_refcnt (f (buf_at i s))))"
    and "holder (upd_buf i f s) = (holder s)(b := if b_locked (f (buf_at i s)) then Some (b_pid (f (buf_at i s))) else None)"
proof -
  note i = slot_facts(1,2) [OF assms(1,2)]
  note u = upd_buf_ok [OF assms(1) i(1) assms(3,4)]
  have "cslot s c = Some j \<Longrightarrow> c \<noteq> b \<Longrightarrow> buf_at j (upd_buf i f s) = buf_at j s" for c j
    using assms(1,2) by (auto simp: cslot_Some buf_at_upd)
  then show "content (upd_buf i f s) = (content s)(b := if b_valid (f (buf_at i s)) then b_data (f (buf_at i s)) else disk s b)"
    "refs (upd_buf i f s) = (refs s)(b := unat (b_refcnt (f (buf_at i s))))"
    "holder (upd_buf i f s) = (holder s)(b := if b_locked (f (buf_at i s)) then Some (b_pid (f (buf_at i s))) else None)"
    using assms(2) i by (auto simp: content_def refs_def holder_def u(2) buf_at_upd fun_eq_iff split: option.splits)
qed

section \<open>What the operations do\<close>

lemma upd_buf_twice: "upd_buf i f (upd_buf i g s) = upd_buf i (\<lambda>x. f (g x)) s"
  by (simp add: upd_buf_def upd_nth_def)

lemma upd_buf_cong: "(i < length (bufs s) \<Longrightarrow> f (buf_at i s) = g (buf_at i s)) \<Longrightarrow> upd_buf i f s = upd_buf i g s"
  by (simp add: upd_buf_def upd_nth_def)

lemma upd_buf_id: "(i < length (bufs s) \<Longrightarrow> f (buf_at i s) = buf_at i s) \<Longrightarrow> upd_buf i f s = s"
  by (simp add: upd_buf_def upd_nth_def)

lemma find_first: "find P xs = Some x \<Longrightarrow> x \<in> set xs \<and> P x"
  by (induction xs) (auto split: if_splits)

lemma bscan_hit:
  assumes "bio_ok s" and "cslot s b = Some i"
  shows "bscan (\<lambda>x. b_dev x = ROOTDEV \<and> b_blockno x = b) b_next (bufs s) (b_next (buf_at NBUF s)) = Some (Some i)"
proof -
  obtain order where o: "ring (bufs s) order" "set order = {0..<NBUF}" using assms(1) by (auto simp: bio_ok_def)
  have "find (\<lambda>i. b_dev (buf_at i s) = ROOTDEV \<and> b_blockno (buf_at i s) = b) order \<noteq> None"
    using o(2) assms by (auto simp: find_None_iff cslot_Some)
  then obtain j where "find (\<lambda>i. b_dev (buf_at i s) = ROOTDEV \<and> b_blockno (buf_at i s) = b) order = Some j" by blast
  moreover from find_first [OF this] have "cslot s b = Some j" using o(2) assms(1) by (auto simp: cslot_Some)
  ultimately show ?thesis using bscan_ring(1) [OF o(1)] assms(2) by simp
qed

lemma bscan_miss:
  assumes "bio_ok s" and "cslot s b = None"
  shows "bscan (\<lambda>x. b_dev x = ROOTDEV \<and> b_blockno x = b) b_next (bufs s) (b_next (buf_at NBUF s)) = Some None"
proof -
  obtain order where o: "ring (bufs s) order" "set order = {0..<NBUF}" using assms(1) by (auto simp: bio_ok_def)
  have "find (\<lambda>i. b_dev (buf_at i s) = ROOTDEV \<and> b_blockno (buf_at i s) = b) order = None"
    using o(2) assms by (auto simp: find_None_iff cslot_None)
  then show ?thesis using bscan_ring(1) [OF o(1)] by simp
qed

lemma nfree_pos: "bio_ok s \<Longrightarrow> 0 < nfree s \<longleftrightarrow> (\<exists>i<NBUF. b_refcnt (buf_at i s) = 0)"
proof -
  assume ok: "bio_ok s"
  have l: "length (take NBUF (bufs s)) = NBUF" using ok by simp
  have "0 < nfree s \<longleftrightarrow> \<not> (\<forall>x\<in>set (take NBUF (bufs s)). b_refcnt x \<noteq> 0)"
    by (simp add: nfree_def filter_empty_conv)
  then show ?thesis unfolding all_set_conv_all_nth l by auto
qed

lemma bscan_free:
  assumes "bio_ok s"
  shows "0 < nfree s \<Longrightarrow> \<exists>i<NBUF. b_refcnt (buf_at i s) = 0 \<and> bscan (\<lambda>x. b_refcnt x = 0) b_prev (bufs s) (b_prev (buf_at NBUF s)) = Some (Some i)"
    and "nfree s = 0 \<Longrightarrow> bscan (\<lambda>x. b_refcnt x = 0) b_prev (bufs s) (b_prev (buf_at NBUF s)) = Some None"
proof -
  obtain order where o: "ring (bufs s) order" "set order = {0..<NBUF}" using assms(1) by (auto simp: bio_ok_def)
  note sc = bscan_ring(2) [OF o(1), of "\<lambda>x. b_refcnt x = 0"]
  show "\<exists>i<NBUF. b_refcnt (buf_at i s) = 0 \<and> bscan (\<lambda>x. b_refcnt x = 0) b_prev (bufs s) (b_prev (buf_at NBUF s)) = Some (Some i)"
    if "0 < nfree s"
  proof (cases "find (\<lambda>i. b_refcnt (buf_at i s) = 0) (rev order)")
    case None
    then show ?thesis using that nfree_pos [OF assms] o(2) by (auto simp: find_None_iff)
  next
    case (Some i)
    with find_first [OF Some] o(2) sc show ?thesis by auto
  qed
  show "bscan (\<lambda>x. b_refcnt x = 0) b_prev (bufs s) (b_prev (buf_at NBUF s)) = Some None" if "nfree s = 0"
  proof -
    have "find (\<lambda>i. b_refcnt (buf_at i s) = 0) (rev order) = None"
      using that nfree_pos [OF assms] o(2) by (auto simp: find_None_iff)
    then show ?thesis using sc by simp
  qed
qed

definition take_buf :: "int \<Rightarrow> block \<Rightarrow> buf \<Rightarrow> buf" where
  "take_buf pid d x = x\<lparr>b_refcnt := b_refcnt x + 1, b_locked := True, b_pid := pid, b_valid := True,
     b_data := if b_valid x then b_data x else d\<rparr>"

lemma take_buf_simps [simp]:
  "b_valid (take_buf pid d x)" "b_locked (take_buf pid d x)" "b_pid (take_buf pid d x) = pid"
  "b_data (take_buf pid d x) = (if b_valid x then b_data x else d)" "b_refcnt (take_buf pid d x) = b_refcnt x + 1"
  "b_dev (take_buf pid d x) = b_dev x" "b_blockno (take_buf pid d x) = b_blockno x"
  "b_next (take_buf pid d x) = b_next x" "b_prev (take_buf pid d x) = b_prev x"
  by (simp_all add: take_buf_def)

definition fill_buf :: "int \<Rightarrow> u32 \<Rightarrow> block \<Rightarrow> buf \<Rightarrow> buf" where
  "fill_buf pid b d x = x\<lparr>b_dev := ROOTDEV, b_blockno := b, b_valid := True, b_refcnt := 1, b_locked := True,
     b_pid := pid, b_data := d\<rparr>"

lemma fill_buf_simps [simp]:
  "b_valid (fill_buf pid b d x)" "b_locked (fill_buf pid b d x)" "b_pid (fill_buf pid b d x) = pid"
  "b_data (fill_buf pid b d x) = d" "b_refcnt (fill_buf pid b d x) = 1"
  "b_dev (fill_buf pid b d x) = ROOTDEV" "b_blockno (fill_buf pid b d x) = b"
  "b_next (fill_buf pid b d x) = b_next x" "b_prev (fill_buf pid b d x) = b_prev x"
  by (simp_all add: fill_buf_def)

lemma bread_hit:
  assumes "bio_ok s" and "cslot s b = Some i" and "holder s b = None"
  shows "bread pid ROOTDEV b s = Inr (i, upd_buf i (take_buf pid (disk s b)) s)"
proof -
  note i = slot_facts [OF assms(1,2)]
  have "\<not> b_locked (buf_at i s)" using i(7) assms(3) by (simp split: if_splits)
  then have "bget pid ROOTDEV b s = Inr (i, upd_buf i (\<lambda>x. x\<lparr>b_refcnt := b_refcnt x + 1, b_locked := True, b_pid := pid\<rparr>) s)"
    using i(2) by (simp add: bget_def bscan_hit [OF assms(1,2)] buf_acquire_def buf_at_upd upd_buf_twice)
  then show ?thesis using i(2,4)
    by (auto simp: bread_def disk_read_def buf_at_upd upd_buf_twice take_buf_def intro!: upd_buf_cong)
qed

lemma bread_miss:
  assumes "bio_ok s" and "cslot s b = None" and "0 < nfree s"
  shows "\<exists>i<NBUF. b_refcnt (buf_at i s) = 0 \<and> bread pid ROOTDEV b s = Inr (i, upd_buf i (fill_buf pid b (disk s b)) s)"
proof -
  obtain i where i: "i < NBUF" "b_refcnt (buf_at i s) = 0"
    "bscan (\<lambda>x. b_refcnt x = 0) b_prev (bufs s) (b_prev (buf_at NBUF s)) = Some (Some i)"
    using bscan_free(1) [OF assms(1,3)] by blast
  have l: "i < length (bufs s)" using i(1) assms(1) by simp
  have "\<not> b_locked (buf_at i s)" using bio_ok_buf [OF assms(1) i(1)] i(2) by (simp add: buf_ok_def)
  then have "bread pid ROOTDEV b s = Inr (i, upd_buf i (fill_buf pid b (disk s b)) s)"
    using l by (auto simp: bread_def bget_def bscan_miss [OF assms(1,2)] i(3) buf_acquire_def buf_at_upd upd_buf_twice
        disk_read_def fill_buf_def intro!: upd_buf_cong)
  with i show ?thesis by blast
qed

lemma bread_full:
  assumes "bio_ok s" and "cslot s b = None" and "nfree s = 0"
  shows "bread pid ROOTDEV b s = Inl (Panic ''bget: no buffers'')"
  by (simp add: bread_def bget_def bscan_miss [OF assms(1,2)] bscan_free(2) [OF assms(1,3)])

text \<open>
  \<open>bread\<close> takes a reference and the lock and shows the contents of the block; it changes no
  block, and blocks that are in use stay where they are.
\<close>

definition bread_post :: "int \<Rightarrow> u32 \<Rightarrow> bio \<Rightarrow> nat \<Rightarrow> bio \<Rightarrow> bool" where
  "bread_post pid b s i s' \<longleftrightarrow> bio_ok s' \<and> cslot s' b = Some i \<and> content s' = content s \<and> disk s' = disk s
    \<and> dwrites s' = dwrites s \<and> refs s' = (refs s)(b := Suc (refs s b)) \<and> holder s' = (holder s)(b := Some pid)
    \<and> (\<forall>c. refs s c \<noteq> 0 \<longrightarrow> cslot s' c = cslot s c)
    \<and> nfree s' = nfree s - (if refs s b = 0 then 1 else 0)"

lemma unat_Suc: "unat (w :: u32) + 1 < 2 ^ 32 \<Longrightarrow> unat (w + 1) = Suc (unat w)"
  by (simp add: unat_plus_if')

lemma bread_hit_spec:
  assumes "bio_ok s" and "cslot s b = Some i" and "holder s b = None" and "refs s b + 1 < 2 ^ 32"
  shows "bread_post pid b s i (upd_buf i (take_buf pid (disk s b)) s)"
proof -
  note i = slot_facts [OF assms(1,2)]
  let ?f = "take_buf pid (disk s b)"
  have k: "keeps_key ?f" by (simp add: keeps_key_def)
  have r: "unat (b_refcnt (?f (buf_at i s))) = Suc (refs s b)" using assms(4) i(5) by (simp add: unat_Suc)
  then have nz: "b_refcnt (?f (buf_at i s)) \<noteq> 0" by (metis nat.distinct(1) unat_0)
  then have ok: "buf_ok (disk s) (?f (buf_at i s))" using i(3) by (simp add: buf_ok_def)
  note u = upd_buf_ok [OF assms(1) i(1) k ok] and v = upd_buf_views [OF assms(1,2) k ok]
  have "content s b = (if b_valid (buf_at i s) then b_data (buf_at i s) else disk s b)"
    using assms(2) by (simp add: content_def)
  then have "content (upd_buf i ?f s) = content s" using v(1) by (simp add: fun_upd_idem)
  moreover have "nfree (upd_buf i ?f s) = nfree s - (if refs s b = 0 then 1 else 0)"
    using nfree_upd [of i s ?f] i(1,5) assms(1) nz by (auto simp: unat_eq_zero)
  moreover have "holder (upd_buf i ?f s) = (holder s)(b := Some pid)" using v(3) by simp
  moreover have "refs (upd_buf i ?f s) = (refs s)(b := Suc (refs s b))" using v(2) r by simp
  ultimately show ?thesis using u assms(2) by (simp add: bread_post_def)
qed

lemma recycle_slot:
  fixes pid :: int
  assumes "bio_ok s" and "cslot s b = None" and "i < NBUF"
  defines "s' \<equiv> upd_buf i (fill_buf pid b (disk s b)) s"
  shows "bio_ok s'" and "cslot s' c = (if c = b then Some i else if cslot s c = Some i then None else cslot s c)"
proof -
  have at: "buf_at j s' = (if i = j then fill_buf pid b (disk s b) (buf_at i s) else buf_at j s)" if "j < NBUF" for j
    using that assms(1) by (auto simp: s'_def buf_at_upd)
  have ring: "ring (bufs s') order = ring (bufs s) order" for order by (simp add: s'_def upd_buf_def ring_upd)
  have other: "j < NBUF \<Longrightarrow> b_dev (buf_at j s) = ROOTDEV \<Longrightarrow> b_blockno (buf_at j s) \<noteq> b" for j
    using assms(1,2) cslot_None by blast
  have [simp]: "disk s' = disk s" by (simp add: s'_def)
  show ok: "bio_ok s'" using assms(1) other by (auto simp: bio_ok_def ring at buf_ok_def)
  show "cslot s' c = (if c = b then Some i else if cslot s c = Some i then None else cslot s c)"
  proof (cases "c = b")
    case True
    then show ?thesis using assms(3) by (simp add: cslot_Some [OF ok] at)
  next
    case False
    show ?thesis
    proof (cases "cslot s c = None \<or> cslot s c = Some i")
      case True
      then have no: "cslot s c \<noteq> Some k" if "k \<noteq> i" for k using that by auto
      have "\<not> (b_dev (buf_at k s') = ROOTDEV \<and> b_blockno (buf_at k s') = c)" if "k < NBUF" for k
        using no [of k] that False cslot_Some [OF assms(1), of c k] by (cases "k = i") (simp_all add: at)
      then have "cslot s' c = None" unfolding cslot_None [OF ok] by blast
      with True False show ?thesis by auto
    next
      case no: False
      then obtain j where j: "cslot s c = Some j" "j \<noteq> i" by auto
      then have "cslot s' c = Some j" using cslot_Some [OF assms(1), of c j] by (simp add: cslot_Some [OF ok] at)
      with j False show ?thesis by simp
    qed
  qed
qed

lemma bread_miss_spec:
  assumes "bio_ok s" and "cslot s b = None" and "i < NBUF" and "b_refcnt (buf_at i s) = 0"
  shows "bread_post pid b s i (upd_buf i (fill_buf pid b (disk s b)) s)" (is "bread_post pid b s i ?s'")
proof -
  note sl = recycle_slot [OF assms(1-3), where pid = pid]
  have i0: "content s c = disk s c \<and> refs s c = 0 \<and> holder s c = None" if "cslot s c = Some i" for c
    using that bio_ok_buf [OF assms(1,3)] assms(4) slot_facts(4) [OF assms(1) that]
    by (auto simp: content_def refs_def holder_def buf_ok_def)
  have at_i: "buf_at i ?s' = fill_buf pid b (disk s b) (buf_at i s)" using assms(1,3) by (simp add: buf_at_upd)
  have cs: "cslot s c = Some j \<Longrightarrow> j \<noteq> i \<Longrightarrow> buf_at j ?s' = buf_at j s" for c j
    using assms(1) by (auto simp: cslot_Some buf_at_upd)
  have cont: "content ?s' c = content s c" for c
    using i0 [of c] cs [of c] sl(2) [of c] assms(2) at_i by (cases "c = b"; cases "cslot s c") (auto simp: content_def)
  have rf: "refs ?s' c = ((refs s)(b := Suc (refs s b))) c" for c
    using i0 [of c] cs [of c] sl(2) [of c] assms(2) at_i by (cases "c = b"; cases "cslot s c") (auto simp: refs_def)
  have hd: "holder ?s' c = ((holder s)(b := Some pid)) c" for c
    using i0 [of c] cs [of c] sl(2) [of c] assms(2) at_i by (cases "c = b"; cases "cslot s c") (auto simp: holder_def)
  have keep: "refs s c \<noteq> 0 \<longrightarrow> cslot ?s' c = cslot s c" for c
    using i0 [of c] assms(2) by (auto simp: sl(2) refs_def)
  have "nfree ?s' = nfree s - (if refs s b = 0 then 1 else 0)"
    using nfree_upd [OF assms(3), of s "fill_buf pid b (disk s b)"] assms(1,2,4) by (simp add: refs_def)
  then show ?thesis using sl cont rf hd keep by (simp add: bread_post_def fun_eq_iff)
qed

lemma bread_spec:
  assumes "bio_ok s" and "holder s b = None" and "refs s b + 1 < 2 ^ 32" and "refs s b \<noteq> 0 \<or> 0 < nfree s"
  shows "\<exists>i s'. bread pid ROOTDEV b s = Inr (i, s') \<and> bread_post pid b s i s'"
proof (cases "cslot s b")
  case None
  then have "0 < nfree s" using assms(4) by (simp add: refs_def)
  then show ?thesis using bread_miss [OF assms(1) None] bread_miss_spec [OF assms(1) None] by blast
next
  case (Some i)
  then show ?thesis using bread_hit [OF assms(1) Some assms(2)] bread_hit_spec [OF assms(1) Some assms(2,3)] by blast
qed

text \<open>States that differ only in the order of the ring.\<close>

definition unlinked :: "buf \<Rightarrow> buf" where
  "unlinked x = x\<lparr>b_prev := 0, b_next := 0\<rparr>"

definition same_blocks :: "bio \<Rightarrow> bio \<Rightarrow> bool" where
  "same_blocks s s' \<longleftrightarrow> disk s' = disk s \<and> dwrites s' = dwrites s \<and> map unlinked (bufs s') = map unlinked (bufs s)"

lemma unlinked_fields:
  assumes "unlinked x = unlinked y"
  shows "b_valid x = b_valid y" "b_dev x = b_dev y" "b_blockno x = b_blockno y" "b_locked x = b_locked y"
    "b_pid x = b_pid y" "b_refcnt x = b_refcnt y" "b_data x = b_data y"
  using assms by (cases x; cases y; simp add: unlinked_def)+

lemma same_blocks_links: "same_blocks s (set_next i j s)" "same_blocks s (set_prev i j s)"
  by (auto simp: same_blocks_def set_next_def set_prev_def upd_buf_def intro!: map_upd_nth_same) (simp_all add: unlinked_def)

lemma same_blocks_trans: "same_blocks s t \<Longrightarrow> same_blocks t u \<Longrightarrow> same_blocks s u"
  by (simp add: same_blocks_def)

lemma same_blocks_move: "same_blocks s (link_front i (unlink j s))"
  unfolding link_front_def unlink_def Let_def by (intro same_blocks_trans [OF _ same_blocks_links(1)] same_blocks_trans [OF _ same_blocks_links(2)] same_blocks_links)

lemma same_blocks_at:
  assumes "same_blocks s s'" and "i < length (bufs s)"
  shows "unlinked (buf_at i s') = unlinked (buf_at i s)" and "length (bufs s') = length (bufs s)"
proof -
  have m: "map unlinked (bufs s') = map unlinked (bufs s)" using assms(1) by (simp add: same_blocks_def)
  then show l: "length (bufs s') = length (bufs s)" by (rule map_eq_imp_length_eq)
  from m have "map unlinked (bufs s') ! i = map unlinked (bufs s) ! i" by simp
  with l assms(2) show "unlinked (buf_at i s') = unlinked (buf_at i s)" by simp
qed

lemma same_blocks_views:
  assumes "same_blocks s s'" and "length (bufs s) = NBUF + 1"
  shows "cslot s' = cslot s" and "content s' = content s" and "refs s' = refs s" and "holder s' = holder s" and "nfree s' = nfree s"
    and "disk s' = disk s" and "dwrites s' = dwrites s"
proof -
  have f: "unlinked (buf_at i s') = unlinked (buf_at i s)" if "i < NBUF" for i
    using same_blocks_at(1) [OF assms(1)] that assms(2) by simp
  have l: "length (bufs s') = length (bufs s)" using same_blocks_at(2) [OF assms(1), of 0] assms(2) by simp
  show c: "cslot s' = cslot s" using l unlinked_fields [OF f] by (intro ext cslot_cong) simp_all
  have c': "cslot s b = Some i \<Longrightarrow> i < NBUF" for b i
    unfolding cslot_def using find_idxD(1) by fastforce
  show d: "disk s' = disk s" "dwrites s' = dwrites s" using assms(1) by (simp_all add: same_blocks_def)
  show "content s' = content s" "refs s' = refs s" "holder s' = holder s"
    using unlinked_fields [OF f] c' d by (auto simp: content_def refs_def holder_def c fun_eq_iff split: option.splits)
  have "map b_refcnt (take NBUF (bufs s')) = map b_refcnt (take NBUF (bufs s))"
    using l assms(2) unlinked_fields(6) [OF f] by (intro nth_equalityI) simp_all
  then have "filter (\<lambda>r. r = 0) (map b_refcnt (take NBUF (bufs s'))) = filter (\<lambda>r. r = 0) (map b_refcnt (take NBUF (bufs s)))" by simp
  then show "nfree s' = nfree s" unfolding nfree_def filter_map comp_def by (metis length_map)
qed

lemma move_front_ok:
  assumes "bio_ok s" and "i < NBUF"
  shows "bio_ok (link_front i (unlink i s))"
proof -
  let ?s' = "link_front i (unlink i s)"
  obtain order where o: "ring (bufs s) order" "set order = {0..<NBUF}" using assms(1) by (auto simp: bio_ok_def)
  then obtain xs ys where xy: "order = xs @ i # ys" using assms(2) split_list [of i order] by auto
  have "distinct order" using o(1) by (simp add: ring_def)
  then have "ring (bufs ?s') (i # xs @ ys)" using link_front_links unlink_links o(1) xy assms(2) by auto
  moreover have "set (i # xs @ ys) = {0..<NBUF}" using o(2) xy by auto
  moreover have f: "unlinked (buf_at k ?s') = unlinked (buf_at k s)" if "k < NBUF" for k
    using same_blocks_at(1) [OF same_blocks_move] that assms(1) by simp
  moreover have "disk ?s' = disk s" using same_blocks_move by (simp add: same_blocks_def)
  ultimately show ?thesis using assms(1) unlinked_fields [OF f] unfolding bio_ok_def buf_ok_def by metis
qed

text \<open>\<open>brelse\<close> gives the lock and one reference back.\<close>

lemma brelse_spec:
  assumes "bio_ok s" and "cslot s b = Some i" and "holder s b = Some pid" and "refs s b = Suc r"
    and "r = 0 \<Longrightarrow> content s b = disk s b"
  shows "\<exists>s'. brelse pid i s = Inr s' \<and> bio_ok s' \<and> cslot s' = cslot s \<and> content s' = content s \<and> disk s' = disk s
    \<and> dwrites s' = dwrites s \<and> refs s' = (refs s)(b := r) \<and> holder s' = (holder s)(b := None)
    \<and> nfree s' = nfree s + (if r = 0 then 1 else 0)"
proof -
  note i = slot_facts [OF assms(1,2)]
  have hold: "buf_holding pid i s" using i(7) assms(3) by (auto simp: buf_holding_def split: if_splits)
  have val: "b_valid (buf_at i s)" "content s b = b_data (buf_at i s)" using i(6) assms(4) by auto
  let ?f = "\<lambda>x. x\<lparr>b_locked := False, b_pid := 0, b_refcnt := b_refcnt x - 1\<rparr>"
  have k: "keeps_key ?f" by (simp add: keeps_key_def)
  have nz: "b_refcnt (buf_at i s) \<noteq> 0" using assms(4) i(5) by auto
  have r: "unat (b_refcnt (buf_at i s) - 1) = r" using assms(4) i(5) nz by (simp add: unat_minus_one)
  then have r0: "b_refcnt (buf_at i s) = 1 \<longleftrightarrow> r = 0" by (metis diff_add_cancel diff_self add_0 unat_0 unat_eq_zero)
  have ok: "buf_ok (disk s) (?f (buf_at i s))" using r val i(3,4) assms(5) by (auto simp: buf_ok_def)
  let ?s2 = "upd_buf i ?f s"
  note u = upd_buf_ok [OF assms(1) i(1) k ok] and v = upd_buf_views [OF assms(1,2) k ok]
  have "nfree ?s2 = nfree s + (if r = 0 then 1 else 0)"
    using nfree_upd [of i s ?f] i(1) assms(1) nz r0 by simp
  moreover have "cslot ?s2 = cslot s" "content ?s2 = content s" "refs ?s2 = (refs s)(b := r)" "holder ?s2 = (holder s)(b := None)"
    using u(2) v val r by (auto simp: fun_upd_idem)
  moreover have "brelse pid i s = Inr (if b_refcnt (buf_at i ?s2) = 0 then link_front i (unlink i ?s2) else ?s2)"
    using hold by (simp add: brelse_def buf_release_def upd_buf_twice Let_def)
  moreover have "bio_ok (link_front i (unlink i ?s2))" by (rule move_front_ok [OF u(1) i(1)])
  moreover have "length (bufs ?s2) = NBUF + 1" using assms(1) by simp
  note mv = same_blocks_views [OF same_blocks_move this, of i i]
  ultimately show ?thesis using u(1) mv by (cases "b_refcnt (buf_at i ?s2) = 0") simp_all
qed

lemma bwrite_spec:
  assumes "bio_ok s" and "cslot s b = Some i" and "holder s b = Some pid" and "refs s b \<noteq> 0"
  shows "\<exists>s'. bwrite pid i s = Inr s' \<and> bio_ok s' \<and> bufs s' = bufs s \<and> cslot s' = cslot s \<and> content s' = content s
    \<and> disk s' = (disk s)(b := content s b) \<and> dwrites s' = dwrites s @ [(b, content s b)] \<and> refs s' = refs s
    \<and> holder s' = holder s \<and> nfree s' = nfree s"
proof -
  note i = slot_facts [OF assms(1,2)]
  have hold: "buf_holding pid i s" using i(7) assms(3) by (auto simp: buf_holding_def split: if_splits)
  have val: "b_valid (buf_at i s)" "content s b = b_data (buf_at i s)" using i(6) assms(4) by auto
  let ?s' = "disk_write i s"
  have same: "bufs ?s' = bufs s" by (simp add: disk_write_def)
  then have c: "cslot ?s' = cslot s" by (simp add: cslot_def fun_eq_iff)
  have dk: "disk ?s' = (disk s)(b := content s b)" "dwrites ?s' = dwrites s @ [(b, content s b)]"
    using val i(4) by (simp_all add: disk_write_def)
  have "buf_ok (disk ?s') (buf_at j s)" if "j < NBUF" for j
  proof (cases "b_blockno (buf_at j s) = b \<and> b_dev (buf_at j s) = ROOTDEV")
    case True
    then have "j = i" using that cslot_Some [OF assms(1), of b j] assms(2) by simp
    with bio_ok_buf [OF assms(1) that] val assms(4) i(5) show ?thesis by (auto simp: buf_ok_def)
  next
    case False
    with bio_ok_buf [OF assms(1) that] show ?thesis by (auto simp: buf_ok_def dk)
  qed
  then have "bio_ok ?s'" using assms(1) by (simp add: bio_ok_def same)
  moreover have "content ?s' = content s"
    using val assms(2) by (auto simp: content_def [of ?s'] content_def [of s] c same dk(1) fun_eq_iff split: option.splits)
  moreover have "refs ?s' = refs s" "holder ?s' = holder s" "nfree ?s' = nfree s"
    by (auto simp: refs_def holder_def nfree_def c same fun_eq_iff split: option.splits)
  moreover have "bwrite pid i s = Inr ?s'" using hold by (simp add: bwrite_def)
  ultimately show ?thesis using c same dk by simp
qed

lemma set_data_spec:
  assumes "bio_ok s" and "cslot s b = Some i" and "refs s b \<noteq> 0"
  shows "bio_ok (set_data i d s) \<and> cslot (set_data i d s) = cslot s \<and> content (set_data i d s) = (content s)(b := d)
    \<and> disk (set_data i d s) = disk s \<and> dwrites (set_data i d s) = dwrites s \<and> refs (set_data i d s) = refs s
    \<and> holder (set_data i d s) = holder s \<and> nfree (set_data i d s) = nfree s"
proof -
  note i = slot_facts [OF assms(1,2)]
  let ?f = "\<lambda>x. x\<lparr>b_data := d\<rparr>"
  have k: "keeps_key ?f" by (simp add: keeps_key_def)
  have ok: "buf_ok (disk s) (?f (buf_at i s))"
    using bio_ok_buf [OF assms(1) i(1)] i(5) assms(3) by (auto simp: buf_ok_def)
  note u = upd_buf_ok [OF assms(1) i(1) k ok] and v = upd_buf_views [OF assms(1,2) k ok]
  show ?thesis using u v i(5,6,7) assms(3) nfree_upd [of i s ?f] i(1) assms(1)
    by (auto simp: set_data_def fun_upd_idem)
qed

lemma bpin_spec:
  assumes "bio_ok s" and "cslot s b = Some i" and "refs s b \<noteq> 0" and "refs s b + 1 < 2 ^ 32"
  shows "bio_ok (bpin i s) \<and> cslot (bpin i s) = cslot s \<and> content (bpin i s) = content s \<and> disk (bpin i s) = disk s
    \<and> dwrites (bpin i s) = dwrites s \<and> refs (bpin i s) = (refs s)(b := Suc (refs s b)) \<and> holder (bpin i s) = holder s
    \<and> nfree (bpin i s) = nfree s"
proof -
  note i = slot_facts [OF assms(1,2)]
  let ?f = "\<lambda>x. x\<lparr>b_refcnt := b_refcnt x + 1\<rparr>"
  have k: "keeps_key ?f" by (simp add: keeps_key_def)
  have r: "unat (b_refcnt (buf_at i s) + 1) = Suc (refs s b)" using assms(4) i(5) by (simp add: unat_Suc)
  then have nz: "b_refcnt (buf_at i s) + 1 \<noteq> 0" "b_refcnt (buf_at i s) \<noteq> 0"
    using assms(3) i(5) by (metis nat.distinct(1) unat_0, auto)
  then have ok: "buf_ok (disk s) (?f (buf_at i s))" using i(3,6) assms(3) by (simp add: buf_ok_def)
  note u = upd_buf_ok [OF assms(1) i(1) k ok] and v = upd_buf_views [OF assms(1,2) k ok]
  show ?thesis using u v i(5,6,7) r nz assms(3) nfree_upd [of i s ?f] i(1) assms(1)
    by (auto simp: bpin_def fun_upd_idem)
qed

lemma bunpin_spec:
  assumes "bio_ok s" and "cslot s b = Some i" and "refs s b = Suc r" and "r \<noteq> 0"
  shows "bio_ok (bunpin i s) \<and> cslot (bunpin i s) = cslot s \<and> content (bunpin i s) = content s \<and> disk (bunpin i s) = disk s
    \<and> dwrites (bunpin i s) = dwrites s \<and> refs (bunpin i s) = (refs s)(b := r) \<and> holder (bunpin i s) = holder s
    \<and> nfree (bunpin i s) = nfree s"
proof -
  note i = slot_facts [OF assms(1,2)]
  let ?f = "\<lambda>x. x\<lparr>b_refcnt := b_refcnt x - 1\<rparr>"
  have k: "keeps_key ?f" by (simp add: keeps_key_def)
  have nz: "b_refcnt (buf_at i s) \<noteq> 0" using assms(3) i(5) by auto
  have r: "unat (b_refcnt (buf_at i s) - 1) = r" using assms(3) i(5) nz by (simp add: unat_minus_one)
  then have nz': "b_refcnt (buf_at i s) - 1 \<noteq> 0" using assms(4) by (metis unat_0)
  then have ok: "buf_ok (disk s) (?f (buf_at i s))" using i(3,6) assms(3) by (simp add: buf_ok_def)
  note u = upd_buf_ok [OF assms(1) i(1) k ok] and v = upd_buf_views [OF assms(1,2) k ok]
  show ?thesis using u v i(5,6,7) r nz nz' assms(3) nfree_upd [of i s ?f] i(1) assms(1)
    by (auto simp: bunpin_def fun_upd_idem)
qed

section \<open>A fresh cache\<close>

definition boot_bio :: "(u32 \<Rightarrow> block) \<Rightarrow> bio" where
  "boot_bio d = binit \<lparr>disk = d, dwrites = [], bufs = replicate (NBUF + 1) zero_buf\<rparr>"

lemma binit_loop_ring:
  "ring (bufs s) order \<Longrightarrow> distinct bs \<Longrightarrow> set bs \<inter> set order = {} \<Longrightarrow> set bs \<subseteq> {0..<NBUF} \<Longrightarrow>
    ring (bufs (binit_loop bs s)) (rev bs @ order)"
proof (induction bs arbitrary: s order)
  case (Cons b bs)
  let ?s = "upd_buf b (\<lambda>x. x\<lparr>b_locked := False, b_pid := 0\<rparr>) s"
  have "ring (bufs ?s) order" using Cons.prems(1) by (simp add: upd_buf_def ring_upd)
  then have "ring (bufs (link_front b ?s)) (b # order)" using Cons.prems by (intro link_front_links) auto
  then show ?case using Cons.IH [of "link_front b ?s" "b # order"] Cons.prems by simp
qed simp

definition unlocked :: "bio \<Rightarrow> bool" where
  "unlocked s \<longleftrightarrow> (\<forall>i<length (bufs s). b_locked (buf_at i s) = False \<and> b_pid (buf_at i s) = 0)"

lemma same_blocks_unlocked:
  assumes "same_blocks s s'" and "unlocked s"
  shows "unlocked s'"
  unfolding unlocked_def
proof (intro allI impI)
  fix i assume i: "i < length (bufs s')"
  have "length (bufs s') = length (bufs s)"
    using assms(1) map_eq_imp_length_eq by (auto simp: same_blocks_def)
  with i have l: "i < length (bufs s)" by simp
  show "b_locked (buf_at i s') = False \<and> b_pid (buf_at i s') = 0"
    using unlinked_fields(4,5) [OF same_blocks_at(1) [OF assms(1) l]] assms(2) l by (simp add: unlocked_def)
qed

lemma binit_loop_same:
  assumes "unlocked s"
  shows "same_blocks s (binit_loop bs s)"
  using assms
proof (induction bs arbitrary: s)
  case (Cons b bs)
  let ?s = "upd_buf b (\<lambda>x. x\<lparr>b_locked := False, b_pid := 0\<rparr>) s"
  have eq: "?s = s" using Cons.prems by (intro upd_buf_id) (simp add: buf.equality unlocked_def)
  have "same_blocks s (link_front b s)"
    unfolding link_front_def Let_def by (intro same_blocks_trans [OF _ same_blocks_links(1)] same_blocks_trans [OF _ same_blocks_links(2)] same_blocks_links)
  moreover from this have "unlocked (link_front b s)" using Cons.prems same_blocks_unlocked by blast
  ultimately show ?case using Cons.IH [of "link_front b s"] same_blocks_trans by (simp add: eq)
qed (simp add: same_blocks_def)

lemma boot_bio_ok:
  "bio_ok (boot_bio d) \<and> cslot (boot_bio d) b = None \<and> nfree (boot_bio d) = NBUF \<and> disk (boot_bio d) = d \<and> dwrites (boot_bio d) = []"
proof -
  define s0 where "s0 = \<lparr>disk = d, dwrites = [], bufs = replicate (NBUF + 1) zero_buf\<rparr>"
  define s1 where "s1 = set_next NBUF NBUF (set_prev NBUF NBUF s0)"
  have b: "boot_bio d = binit_loop [0..<NBUF] s1" by (simp add: boot_bio_def binit_def s0_def s1_def)
  have s01: "same_blocks s0 s1" unfolding s1_def by (intro same_blocks_trans [OF same_blocks_links(2) same_blocks_links(1)])
  have at0: "i < NBUF + 1 \<Longrightarrow> buf_at i s0 = zero_buf" "length (bufs s0) = NBUF + 1" for i
    by (simp_all add: s0_def del: replicate_Suc)
  have l1: "length (bufs s1) = NBUF + 1" using same_blocks_at(2) [OF s01, of 0] at0 by simp
  have "unlocked s0" unfolding unlocked_def at0(2) using at0(1) by (simp add: zero_buf_def)
  then have z1: "unlocked s1" by (rule same_blocks_unlocked [OF s01])
  have s0b: "same_blocks s0 (boot_bio d)" unfolding b by (rule same_blocks_trans [OF s01 binit_loop_same [OF z1]])
  note v = same_blocks_views [OF s0b at0(2)]
  have at: "unlinked (buf_at i (boot_bio d)) = unlinked zero_buf" if "i < NBUF" for i
    using same_blocks_at(1) [OF s0b] at0 that by simp
  have "ring (bufs s1) []" using at0(2) by (simp add: ring_def s1_def bufs_set_next bufs_set_prev nth_link)
  then have "ring (bufs (boot_bio d)) (rev [0..<NBUF] @ [])" unfolding b by (intro binit_loop_ring) auto
  moreover have f: "b_dev (buf_at i (boot_bio d)) = 0" "\<not> b_valid (buf_at i (boot_bio d))" "\<not> b_locked (buf_at i (boot_bio d))"
    "b_refcnt (buf_at i (boot_bio d)) = 0" if "i < NBUF" for i
    using unlinked_fields [OF at [OF that]] by (simp_all add: zero_buf_def)
  ultimately have ok: "bio_ok (boot_bio d)"
    unfolding bio_ok_def by (auto simp: buf_ok_def ROOTDEV_def intro!: exI [of _ "rev [0..<NBUF]"])
  moreover have "cslot (boot_bio d) b = None" unfolding cslot_None [OF ok] using f(1) by (simp add: ROOTDEV_def)
  moreover have "nfree (boot_bio d) = NBUF" unfolding v(5) by (simp add: nfree_def s0_def zero_buf_def del: replicate_Suc)
  ultimately show ?thesis using v(6,7) by (simp add: s0_def)
qed

section \<open>Coherence\<close>

text \<open>
  The runs of the cache: processes read blocks, change the buffers they hold, write them, pin
  and unpin them and give them back; a buffer that is given back by its last user has been
  written. \<open>cur\<close> has the data that was last put into each block.
\<close>

inductive cache_run :: "bio \<Rightarrow> (u32 \<Rightarrow> block) \<Rightarrow> bool" where
  run_boot: "cache_run (boot_bio d) d"
| run_read: "cache_run s cur \<Longrightarrow> refs s b + 1 < 2 ^ 32 \<Longrightarrow> bread pid ROOTDEV b s = Inr (i, s') \<Longrightarrow> cache_run s' cur"
| run_modify: "cache_run s cur \<Longrightarrow> i < NBUF \<Longrightarrow> buf_holding pid i s \<Longrightarrow>
    cache_run (set_data i x s) (cur(b_blockno (buf_at i s) := x))"
| run_write: "cache_run s cur \<Longrightarrow> i < NBUF \<Longrightarrow> bwrite pid i s = Inr s' \<Longrightarrow> cache_run s' cur"
| run_release: "cache_run s cur \<Longrightarrow> i < NBUF \<Longrightarrow>
    b_refcnt (buf_at i s) = 1 \<longrightarrow> b_data (buf_at i s) = disk s (b_blockno (buf_at i s)) \<Longrightarrow>
    brelse pid i s = Inr s' \<Longrightarrow> cache_run s' cur"
| run_pin: "cache_run s cur \<Longrightarrow> i < NBUF \<Longrightarrow> buf_holding pid i s \<Longrightarrow> refs s (b_blockno (buf_at i s)) + 1 < 2 ^ 32 \<Longrightarrow>
    cache_run (bpin i s) cur"
| run_unpin: "cache_run s cur \<Longrightarrow> i < NBUF \<Longrightarrow> buf_holding pid i s \<Longrightarrow> b_refcnt (buf_at i s) \<noteq> 1 \<Longrightarrow> cache_run (bunpin i s) cur"

lemma held_slot:
  assumes "bio_ok s" and "i < NBUF" and "buf_holding pid i s"
  shows "cslot s (b_blockno (buf_at i s)) = Some i" and "refs s (b_blockno (buf_at i s)) \<noteq> 0"
    and "holder s (b_blockno (buf_at i s)) = Some pid"
proof -
  have "b_refcnt (buf_at i s) \<noteq> 0" "b_dev (buf_at i s) = ROOTDEV"
    using bio_ok_buf [OF assms(1,2)] assms(3) by (auto simp: buf_ok_def buf_holding_def split: if_splits)
  then show c: "cslot s (b_blockno (buf_at i s)) = Some i" using assms(1,2) by (simp add: cslot_Some)
  show "refs s (b_blockno (buf_at i s)) \<noteq> 0" using slot_facts(5) [OF assms(1) c] \<open>b_refcnt (buf_at i s) \<noteq> 0\<close> by (simp add: unat_eq_zero)
  show "holder s (b_blockno (buf_at i s)) = Some pid" using slot_facts(7) [OF assms(1) c] assms(3) by (simp add: buf_holding_def)
qed

lemma bread_Inr:
  assumes "bio_ok s" and "refs s b + 1 < 2 ^ 32" and "bread pid ROOTDEV b s = Inr (i, s')"
  shows "bread_post pid b s i s'"
proof -
  have h: "holder s b = None"
  proof (rule ccontr)
    assume "holder s b \<noteq> None"
    moreover obtain j where j: "cslot s b = Some j" using holder_slot [OF calculation] by blast
    ultimately have "b_locked (buf_at j s)" using slot_facts(7) [OF assms(1) j] by (auto split: if_splits)
    then have "bread pid ROOTDEV b s = Inl Blocked"
      using slot_facts(2) [OF assms(1) j] by (simp add: bread_def bget_def bscan_hit [OF assms(1) j] buf_acquire_def buf_at_upd)
    with assms(3) show False by simp
  qed
  have "refs s b \<noteq> 0 \<or> 0 < nfree s"
  proof (rule ccontr)
    assume n: "\<not> (refs s b \<noteq> 0 \<or> 0 < nfree s)"
    show False
    proof (cases "cslot s b")
      case None
      then show ?thesis using bread_full [OF assms(1) None, of pid] n assms(3) by simp
    next
      case (Some j)
      with n have "b_refcnt (buf_at j s) = 0" using slot_facts(5) [OF assms(1) Some] by (simp add: unat_eq_zero)
      then show ?thesis using n nfree_pos [OF assms(1)] slot_facts(1) [OF assms(1) Some] by auto
    qed
  qed
  then show ?thesis using bread_spec [OF assms(1) h assms(2), of pid] assms(3) by auto
qed

lemma cache_run_ok: "cache_run s cur \<Longrightarrow> bio_ok s \<and> content s = cur"
proof (induction rule: cache_run.induct)
  case (run_boot d)
  then show ?case using boot_bio_ok [of d] by (auto simp: content_def fun_eq_iff)
next
  case (run_read s cur b pid i s')
  then show ?case using bread_Inr [of s b pid i s'] by (auto simp: bread_post_def)
next
  case (run_modify s cur i pid x)
  then show ?case using set_data_spec [of s _ i x] held_slot [of s i pid] by auto
next
  case (run_write s cur i pid s')
  then have h: "buf_holding pid i s" by (auto simp: bwrite_def split: if_splits)
  then show ?case using bwrite_spec [of s _ i pid] held_slot [OF _ run_write.hyps(2) h] run_write by auto
next
  case (run_release s cur i pid s')
  then have h: "buf_holding pid i s" by (auto simp: brelse_def split: if_splits)
  have ok: "bio_ok s" using run_release by simp
  note sl = held_slot [OF ok run_release.hyps(2) h]
  obtain r where r: "refs s (b_blockno (buf_at i s)) = Suc r" using sl(2) not0_implies_Suc by blast
  have "content s (b_blockno (buf_at i s)) = disk s (b_blockno (buf_at i s))" if "r = 0"
  proof -
    have "unat (b_refcnt (buf_at i s)) = 1" using r that slot_facts(5) [OF ok sl(1)] by simp
    then have "b_refcnt (buf_at i s) = 1" by (simp add: word_unat_eq_iff)
    then show ?thesis using run_release.hyps(3) slot_facts(6) [OF ok sl(1,2)] by simp
  qed
  with brelse_spec [OF ok sl(1,3) r] show ?case using run_release by auto
next
  case (run_pin s cur i pid)
  then show ?case using bpin_spec [of s _ i] held_slot [of s i pid] by auto
next
  case (run_unpin s cur i pid)
  then have ok: "bio_ok s" by simp
  note sl = held_slot [OF ok run_unpin.hyps(2,3)]
  obtain r where r: "refs s (b_blockno (buf_at i s)) = Suc r" using sl(2) not0_implies_Suc by blast
  have "r \<noteq> 0"
  proof
    assume "r = 0"
    then have "unat (b_refcnt (buf_at i s)) = 1" using r slot_facts(5) [OF ok sl(1)] by simp
    then show False using run_unpin.hyps(4) by (simp add: word_unat_eq_iff)
  qed
  then show ?case using bunpin_spec [OF ok sl(1) r] run_unpin by auto
qed

text \<open>
  C9: The cache is coherent. However buffers are reused, pinned and moved along the ring, a
  \<open>bread\<close> that returns gives the one buffer of the block, and its data is what was last put into
  the block.
\<close>

theorem bcache_coherent:
  assumes "cache_run s cur" and "refs s b + 1 < 2 ^ 32" and "bread pid ROOTDEV b s = Inr (i, s')"
  shows "b_data (buf_at i s') = cur b
    \<and> (\<forall>j. j < NBUF \<and> b_dev (buf_at j s') = ROOTDEV \<and> b_blockno (buf_at j s') = b \<longleftrightarrow> j = i)"
proof -
  have ok: "bio_ok s" "content s = cur" using cache_run_ok [OF assms(1)] by auto
  have p: "bread_post pid b s i s'" by (rule bread_Inr [OF ok(1) assms(2,3)])
  then have s': "bio_ok s'" "cslot s' b = Some i" "content s' b = cur b" "refs s' b \<noteq> 0"
    using ok(2) by (auto simp: bread_post_def)
  have "b_data (buf_at i s') = cur b" using slot_facts(6) [OF s'(1,2,4)] s'(3) by simp
  moreover have "j < NBUF \<and> b_dev (buf_at j s') = ROOTDEV \<and> b_blockno (buf_at j s') = b \<longleftrightarrow> j = i" for j
    using s'(2) cslot_Some [OF s'(1), of b j] by auto
  ultimately show ?thesis by blast
qed

theorem bcache_coherent_witness:
  "\<exists>i s'. bread 1 ROOTDEV 5 (boot_bio (\<lambda>b. replicate BSIZE (ucast b))) = Inr (i, s') \<and> b_data (buf_at i s') = replicate BSIZE 5"
proof -
  let ?s = "boot_bio (\<lambda>b. replicate BSIZE (ucast b))"
  note b = boot_bio_ok [of "\<lambda>b. replicate BSIZE (ucast b)" 5]
  have r: "refs ?s 5 = 0" "holder ?s 5 = None" using b by (simp_all add: refs_def holder_def)
  have n: "0 < nfree ?s" using b by (simp add: NBUF_def MAXOPBLOCKS_def)
  obtain i s' where e: "bread 1 ROOTDEV 5 ?s = Inr (i, s')"
    using bread_spec [of ?s 5 1] b r n by auto
  with bcache_coherent [OF run_boot _ e] r(1) show ?thesis by auto
qed

end
