(* ===== verification/Bytes.thy ===== *)
theory Bytes
  imports Prelude
begin

text \<open>
  Fields of structures that the kernel lays over the bytes of a disk block: \<open>short\<close> and \<open>int\<close>
  fields at a byte offset, in the little-endian order of RISC-V.
\<close>

definition get16 :: "u8 list \<Rightarrow> nat \<Rightarrow> u16" where
  "get16 d p = ucast (d ! p) OR push_bit 8 (ucast (d ! (p + 1)))"

definition put16 :: "nat \<Rightarrow> u16 \<Rightarrow> u8 list \<Rightarrow> u8 list" where
  "put16 p w d = d[p := ucast w, p + 1 := ucast (drop_bit 8 w)]"

definition get32 :: "u8 list \<Rightarrow> nat \<Rightarrow> u32" where
  "get32 d p = ucast (d ! p) OR push_bit 8 (ucast (d ! (p + 1))) OR push_bit 16 (ucast (d ! (p + 2)))
     OR push_bit 24 (ucast (d ! (p + 3)))"

definition put32 :: "nat \<Rightarrow> u32 \<Rightarrow> u8 list \<Rightarrow> u8 list" where
  "put32 p w d = d[p := ucast w, p + 1 := ucast (drop_bit 8 w), p + 2 := ucast (drop_bit 16 w), p + 3 := ucast (drop_bit 24 w)]"

lemma length_put [simp]: "length (put16 p v d) = length d" "length (put32 p w d) = length d"
  by (simp_all add: put16_def put32_def)

lemma bit_byte_at:
  "bit (push_bit k (ucast (ucast (drop_bit k (w :: 'a word)) :: u8)) :: 'a :: len word) n \<longleftrightarrow> k \<le> n \<and> n < k + 8 \<and> bit w n"
  using bit_imp_le_length [of w n] by (auto simp: bit_push_bit_iff bit_ucast_iff bit_drop_bit_eq)

lemma bit_byte_zero: "bit (ucast (ucast (w :: 'a :: len word) :: u8) :: 'a word) n \<longleftrightarrow> n < 8 \<and> bit w n"
  by (auto simp: bit_ucast_iff dest: bit_imp_le_length)

lemma get16_put16 [simp]: "p + 2 \<le> length d \<Longrightarrow> get16 (put16 p w d) p = w"
proof (rule bit_word_eqI)
  fix n assume p: "p + 2 \<le> length d" and "n < LENGTH(16)"
  then have n: "n < 16" by simp
  have eq: "get16 (put16 p w d) p = ucast (ucast w :: u8) OR push_bit 8 (ucast (ucast (drop_bit 8 w) :: u8))"
    using p by (simp add: get16_def put16_def nth_list_update)
  show "bit (get16 (put16 p w d) p) n = bit w n"
    unfolding eq bit_or_iff bit_byte_at bit_byte_zero using n by linarith
qed

lemma get32_put32 [simp]: "p + 4 \<le> length d \<Longrightarrow> get32 (put32 p w d) p = w"
proof (rule bit_word_eqI)
  fix n assume p: "p + 4 \<le> length d" and "n < LENGTH(32)"
  then have n: "n < 32" by simp
  have eq: "get32 (put32 p w d) p = ucast (ucast w :: u8) OR push_bit 8 (ucast (ucast (drop_bit 8 w) :: u8))
      OR push_bit 16 (ucast (ucast (drop_bit 16 w) :: u8)) OR push_bit 24 (ucast (ucast (drop_bit 24 w) :: u8))"
    using p by (simp add: get32_def put32_def nth_list_update)
  show "bit (get32 (put32 p w d) p) n = bit w n"
    unfolding eq bit_or_iff bit_byte_at bit_byte_zero using n by linarith
qed

lemma get32_cong:
  assumes "\<And>k. k < 4 \<Longrightarrow> d' ! (p + k) = d ! (p + k)"
  shows "get32 d' p = get32 d p"
  using assms [of 0] assms [of 1] assms [of 2] assms [of 3] by (simp add: get32_def)

lemma get16_cong:
  assumes "\<And>k. k < 2 \<Longrightarrow> d' ! (p + k) = d ! (p + k)"
  shows "get16 d' p = get16 d p"
  using assms [of 0] assms [of 1] by (simp add: get16_def)

lemma put32_nth: "i < p \<or> p + 4 \<le> i \<Longrightarrow> put32 p w d ! i = d ! i"
  by (auto simp: put32_def)

lemma put16_nth: "i < p \<or> p + 2 \<le> i \<Longrightarrow> put16 p w d ! i = d ! i"
  by (auto simp: put16_def)

lemma get32_put_other [simp]:
  "p' + 4 \<le> p \<or> p + 4 \<le> p' \<Longrightarrow> get32 (put32 p w d) p' = get32 d p'"
  "p' + 4 \<le> p \<or> p + 2 \<le> p' \<Longrightarrow> get32 (put16 p v d) p' = get32 d p'"
  by (auto intro!: get32_cong simp: put32_nth put16_nth)

lemma get16_put_other [simp]:
  "p' + 2 \<le> p \<or> p + 4 \<le> p' \<Longrightarrow> get16 (put32 p w d) p' = get16 d p'"
  "p' + 2 \<le> p \<or> p + 2 \<le> p' \<Longrightarrow> get16 (put16 p v d) p' = get16 d p'"
  by (auto intro!: get16_cong simp: put32_nth put16_nth)

end
