(* ===== verification/Log.thy ===== *)
theory Log
  imports Bio Bytes
begin

text \<open>
  The write-ahead log, \<open>xv6/kernel/log.c\<close>, above the buffer cache: recovery, transactions and
  group commit. The main property is crash safety: wherever the machine stops during a commit,
  recovery brings the disk to the state before or after the transaction.

  The operations that touch the disk are those of one process; \<open>begin_op\<close> and the two halves of
  \<open>end_op\<close> around the commit are atomic under \<open>log.lock\<close>, and a process that has to wait is the
  value \<open>None\<close>.
\<close>

section \<open>State\<close>

record logst =
  lbio :: bio
  l_start :: u32
  l_outstanding :: int
  l_committing :: bool
  l_dev :: u32
  l_ncommit :: int
  lh_n :: int
  lh_block :: "u32 list"

section \<open>log.c\<close>

fun install_loop :: "int \<Rightarrow> bool \<Rightarrow> logst \<Rightarrow> nat list \<Rightarrow> bio \<Rightarrow> bio kres" where
  "install_loop pid recovering s [] b = Inr b"
| "install_loop pid recovering s (tail # ts) b =
    bindE (bread pid (l_dev s) (l_start s + of_nat tail + 1) b) (\<lambda>(lbuf, b1).
    bindE (bread pid (l_dev s) (lh_block s ! tail) b1) (\<lambda>(dbuf, b2).
    bindE (bwrite pid dbuf (set_data dbuf (b_data (buf_at lbuf b2)) b2)) (\<lambda>b3.
    bindE (brelse pid lbuf (if recovering then b3 else bunpin dbuf b3)) (\<lambda>b4.
    bindE (brelse pid dbuf b4) (install_loop pid recovering s ts)))))"

definition install_trans :: "int \<Rightarrow> bool \<Rightarrow> logst \<Rightarrow> logst kres" where
  "install_trans pid recovering s =
    bindE (install_loop pid recovering s [0..<nat (lh_n s)] (lbio s)) (\<lambda>b. Inr (s\<lparr>lbio := b\<rparr>))"

text \<open>The header block: the count, then the block numbers.\<close>

definition head_n :: "block \<Rightarrow> int" where
  "head_n d = sint (get32 d 0)"

definition head_block :: "block \<Rightarrow> nat \<Rightarrow> u32" where
  "head_block d i = get32 d (4 + 4 * i)"

text \<open>A count above \<open>LOGBLOCKS\<close> makes the copy loop write behind the array.\<close>

definition read_head :: "int \<Rightarrow> logst \<Rightarrow> logst kres" where
  "read_head pid s =
    bindE (bread pid (l_dev s) (l_start s) (lbio s)) (\<lambda>(i, b1).
      let d = b_data (buf_at i b1); n = head_n d
      in if n > int LOGBLOCKS then Inl Undefined
         else bindE (brelse pid i b1) (\<lambda>b2.
           Inr (s\<lparr>lbio := b2, lh_n := n, lh_block := map (head_block d) [0..<nat n] @ drop (nat n) (lh_block s)\<rparr>)))"

fun put_blocks :: "u32 list \<Rightarrow> nat list \<Rightarrow> block \<Rightarrow> block" where
  "put_blocks blk [] d = d"
| "put_blocks blk (i # is) d = put_blocks blk is (put32 (4 + 4 * i) (blk ! i) d)"

definition head_data :: "int \<Rightarrow> u32 list \<Rightarrow> block \<Rightarrow> block" where
  "head_data n blk d = put_blocks blk [0..<nat n] (put32 0 (of_int n) d)"

definition write_head :: "int \<Rightarrow> logst \<Rightarrow> logst kres" where
  "write_head pid s =
    bindE (bread pid (l_dev s) (l_start s) (lbio s)) (\<lambda>(i, b1).
    bindE (bwrite pid i (set_data i (head_data (lh_n s) (lh_block s) (b_data (buf_at i b1))) b1)) (\<lambda>b2.
    bindE (brelse pid i b2) (\<lambda>b3. Inr (s\<lparr>lbio := b3\<rparr>))))"

definition recover_from_log :: "int \<Rightarrow> logst \<Rightarrow> logst kres" where
  "recover_from_log pid s =
    bindE (read_head pid s) (\<lambda>s1.
    bindE (install_trans pid True s1) (\<lambda>s2.
    write_head pid (s2\<lparr>lh_n := 0\<rparr>)))"

text \<open>The header fits into a block, so the panic of \<open>initlog\<close> is not reached.\<close>

definition initlog :: "int \<Rightarrow> u32 \<Rightarrow> u32 \<Rightarrow> logst \<Rightarrow> logst kres" where
  "initlog pid dev logstart s =
    (if 4 + 4 * LOGBLOCKS \<ge> BSIZE then Inl (Panic ''initlog: too big logheader'')
     else recover_from_log pid (s\<lparr>l_start := logstart, l_dev := dev\<rparr>))"

definition begin_op :: "logst \<Rightarrow> logst option" where
  "begin_op s =
    (if l_committing s then None
     else if lh_n s + (l_outstanding s + 1) * int MAXOPBLOCKS > int LOGBLOCKS then None
     else Some (s\<lparr>l_outstanding := l_outstanding s + 1\<rparr>))"

fun write_log_loop :: "int \<Rightarrow> logst \<Rightarrow> nat list \<Rightarrow> bio \<Rightarrow> bio kres" where
  "write_log_loop pid s [] b = Inr b"
| "write_log_loop pid s (tail # ts) b =
    bindE (bread pid (l_dev s) (l_start s + of_nat tail + 1) b) (\<lambda>(to, b1).
    bindE (bread pid (l_dev s) (lh_block s ! tail) b1) (\<lambda>(from, b2).
    bindE (bwrite pid to (set_data to (b_data (buf_at from b2)) b2)) (\<lambda>b3.
    bindE (brelse pid from b3) (\<lambda>b4.
    bindE (brelse pid to b4) (write_log_loop pid s ts)))))"

definition write_log :: "int \<Rightarrow> logst \<Rightarrow> logst kres" where
  "write_log pid s = bindE (write_log_loop pid s [0..<nat (lh_n s)] (lbio s)) (\<lambda>b. Inr (s\<lparr>lbio := b\<rparr>))"

definition commit :: "int \<Rightarrow> logst \<Rightarrow> logst kres" where
  "commit pid s =
    (if lh_n s > 0 then
       bindE (write_log pid s) (\<lambda>s1.
       bindE (write_head pid s1) (\<lambda>s2.
       bindE (install_trans pid False s2) (\<lambda>s3.
       write_head pid (s3\<lparr>lh_n := 0\<rparr>))))
     else Inr s)"

text \<open>\<open>end_op\<close> up to the commit, with whether this process commits, and the part behind it.\<close>

definition end_op_begin :: "logst \<Rightarrow> (bool \<times> logst) kres" where
  "end_op_begin s =
    (let s1 = s\<lparr>l_outstanding := l_outstanding s - 1\<rparr>
     in if l_committing s1 then Inl (Panic ''log.committing'')
        else if l_outstanding s1 = 0 then Inr (True, s1\<lparr>l_committing := True\<rparr>)
        else Inr (False, s1))"

definition end_op_finish :: "logst \<Rightarrow> logst" where
  "end_op_finish s = s\<lparr>l_committing := False, l_ncommit := l_ncommit s + 1\<rparr>"

definition end_op :: "int \<Rightarrow> logst \<Rightarrow> logst kres" where
  "end_op pid s =
    bindE (end_op_begin s) (\<lambda>(do_commit, s1).
      if do_commit then bindE (commit pid s1) (\<lambda>s2. Inr (end_op_finish s2)) else Inr s1)"

definition log_write :: "nat \<Rightarrow> logst \<Rightarrow> logst kres" where
  "log_write b s =
    (let n = nat (lh_n s); blockno = b_blockno (buf_at b (lbio s))
     in if lh_n s \<ge> int LOGBLOCKS then Inl (Panic ''too big a transaction'')
        else if l_outstanding s < 1 then Inl (Panic ''log_write outside of trans'')
        else case find_idx (\<lambda>x. x = blockno) (take n (lh_block s)) of
          Some i \<Rightarrow> Inr (s\<lparr>lh_block := (lh_block s)[i := blockno]\<rparr>)
        | None \<Rightarrow> Inr (s\<lparr>lh_block := (lh_block s)[n := blockno], lbio := bpin b (lbio s), lh_n := lh_n s + 1\<rparr>))"

text \<open>
  \<open>sys_sync\<close>: the commit count to wait for, if a transaction is open; a later look at the count
  tells whether the wait is over.
\<close>

definition sync_start :: "logst \<Rightarrow> int option" where
  "sync_start s = (if l_committing s \<or> l_outstanding s > 0 then Some (l_ncommit s + 1) else None)"

definition sync_done :: "int \<Rightarrow> logst \<Rightarrow> bool" where
  "sync_done n s \<longleftrightarrow> \<not> l_ncommit s < n"

section \<open>Sequences of writes\<close>

definition apply_writes :: "(u32 \<Rightarrow> block) \<Rightarrow> (u32 \<times> block) list \<Rightarrow> u32 \<Rightarrow> block" where
  "apply_writes d ws = foldl (\<lambda>d (b, x). d(b := x)) d ws"

lemma apply_writes_simps [simp]:
  "apply_writes d [] = d" "apply_writes d ((b, x) # ws) = apply_writes (d(b := x)) ws"
  "apply_writes d (ws @ vs) = apply_writes (apply_writes d ws) vs"
  by (simp_all add: apply_writes_def)

lemma apply_writes_other: "b \<notin> fst ` set ws \<Longrightarrow> apply_writes d ws b = d b"
  by (induction ws arbitrary: d) auto

lemma apply_writes_map:
  "distinct (map f ts) \<Longrightarrow> t \<in> set ts \<Longrightarrow> apply_writes d (map (\<lambda>t. (f t, g t)) ts) (f t) = g t"
proof (induction ts arbitrary: d)
  case (Cons u ts)
  show ?case
  proof (cases "t \<in> set ts")
    case True
    with Cons show ?thesis by simp
  next
    case False
    with Cons.prems have "t = u" "f u \<notin> f ` set ts" by auto
    then show ?thesis by (simp add: apply_writes_other image_image)
  qed
qed simp

text \<open>The effect of a part of the log code on the cache: the writes it makes.\<close>

definition wrote :: "(u32 \<times> block) list \<Rightarrow> bio \<Rightarrow> bio \<Rightarrow> bool" where
  "wrote ws b b' \<longleftrightarrow> bio_ok b' \<and> content b' = apply_writes (content b) ws \<and> disk b' = apply_writes (disk b) ws
    \<and> dwrites b' = dwrites b @ ws \<and> holder b' = holder b"

lemma wrote_trans: "wrote ws b b' \<Longrightarrow> wrote vs b' b'' \<Longrightarrow> wrote (ws @ vs) b b''"
  by (simp add: wrote_def)

lemma wrote_refl: "bio_ok b \<Longrightarrow> wrote [] b b"
  by (simp add: wrote_def)

abbreviation idle :: "bio \<Rightarrow> bool" where
  "idle b \<equiv> holder b = (\<lambda>_. None)"

text \<open>The place of an entry in the log, and its home.\<close>

definition lblk :: "logst \<Rightarrow> nat \<Rightarrow> u32" where
  "lblk s t = l_start s + of_nat t + 1"

abbreviation home :: "logst \<Rightarrow> nat \<Rightarrow> u32" where
  "home s t \<equiv> lh_block s ! t"

lemma lblk_lbio [simp]: "lblk (s\<lparr>lbio := b\<rparr>) t = lblk s t" "lblk (s\<lparr>lh_n := n\<rparr>) t = lblk s t"
  by (simp_all add: lblk_def)

text \<open>Two blocks are read and held.\<close>

lemma read_two:
  assumes "bio_ok b" and "idle b" and "l \<noteq> h" and "refs b l = 0" and "refs b h < 100"
    and "if refs b h = 0 then 2 \<le> nfree b else 1 \<le> nfree b"
  shows "\<exists>i j b1 b2. bread pid ROOTDEV l b = Inr (i, b1) \<and> bread pid ROOTDEV h b1 = Inr (j, b2) \<and> bio_ok b2
    \<and> cslot b2 l = Some i \<and> cslot b2 h = Some j \<and> content b2 = content b \<and> disk b2 = disk b \<and> dwrites b2 = dwrites b
    \<and> refs b2 = (refs b)(l := 1, h := Suc (refs b h)) \<and> holder b2 = (holder b)(l := Some pid, h := Some pid)
    \<and> b_data (buf_at i b2) = content b l \<and> b_data (buf_at j b2) = content b h
    \<and> nfree b2 = nfree b - (if refs b h = 0 then 2 else 1)"
proof -
  have n: "0 < nfree b" using assms(6) by (auto split: if_splits)
  obtain i b1 where b1: "bread pid ROOTDEV l b = Inr (i, b1)" "bread_post pid l b i b1"
    using bread_spec [OF assms(1), of l pid] assms(2,4) n by auto
  then have p1: "bio_ok b1" "cslot b1 l = Some i" "holder b1 h = None" "refs b1 h = refs b h" "refs b1 l = 1" "nfree b1 = nfree b - 1"
    using assms(2-4) by (auto simp: bread_post_def)
  have "refs b1 h \<noteq> 0 \<or> 0 < nfree b1" using p1 assms(6) by (auto split: if_splits)
  then obtain j b2 where b2: "bread pid ROOTDEV h b1 = Inr (j, b2)" "bread_post pid h b1 j b2"
    using bread_spec [OF p1(1), of h pid] p1 assms(5) by auto
  have p2: "bio_ok b2" "cslot b2 l = Some i" "cslot b2 h = Some j" "content b2 = content b"
    "refs b2 = (refs b)(l := 1, h := Suc (refs b h))"
    using b1(2) b2(2) p1 assms(3,4) by (auto simp: bread_post_def fun_upd_twist)
  have "b_data (buf_at i b2) = content b l" "b_data (buf_at j b2) = content b h"
    using slot_facts(6) [OF p2(1,2)] slot_facts(6) [OF p2(1,3)] p2(4,5) assms(3) by auto
  moreover have "nfree b2 = nfree b - (if refs b h = 0 then 2 else 1)" using b2(2) p1 by (auto simp: bread_post_def)
  ultimately show ?thesis using b1 b2 p2 by (auto simp: bread_post_def)
qed

lemma brelse_ok:
  assumes "bio_ok b" and "cslot b l = Some i" and "holder b l = Some pid" and "refs b l = Suc r" and "r = 0 \<Longrightarrow> content b l = disk b l"
  obtains b' where "brelse pid i b = Inr b'" and "bio_ok b'" and "cslot b' = cslot b" and "content b' = content b"
    and "disk b' = disk b" and "dwrites b' = dwrites b" and "refs b' = (refs b)(l := r)" and "holder b' = (holder b)(l := None)"
    and "nfree b' = nfree b + (if r = 0 then 1 else 0)"
  using brelse_spec [OF assms(1-4)] assms(5) by auto

lemma put_ok:
  assumes "bio_ok b" and "cslot b l = Some i" and "holder b l = Some pid" and "refs b l \<noteq> 0"
  obtains b' where "bwrite pid i (set_data i d b) = Inr b'" and "bio_ok b'" and "cslot b' = cslot b" and "content b' = (content b)(l := d)"
    and "disk b' = (disk b)(l := d)" and "dwrites b' = dwrites b @ [(l, d)]" and "refs b' = refs b" and "holder b' = holder b"
    and "nfree b' = nfree b"
proof -
  note sd = set_data_spec [OF assms(1,2,4), of d]
  then obtain b' where "bwrite pid i (set_data i d b) = Inr b'" "bio_ok b'" "cslot b' = cslot (set_data i d b)"
    "content b' = content (set_data i d b)" "disk b' = (disk (set_data i d b))(l := content (set_data i d b) l)"
    "dwrites b' = dwrites (set_data i d b) @ [(l, content (set_data i d b) l)]" "refs b' = refs (set_data i d b)"
    "holder b' = holder (set_data i d b)" "nfree b' = nfree (set_data i d b)"
    using bwrite_spec [of "set_data i d b" l i pid] assms by auto
  with sd show ?thesis by (intro that [of b']) simp_all
qed

text \<open>One round of \<open>write_log\<close>, of \<open>install_trans\<close> after a commit, and of \<open>install_trans\<close> in recovery.\<close>

lemma write_log_step:
  assumes "bio_ok b" and "idle b" and "l \<noteq> h" and "refs b l = 0" and "refs b h = 1" and "1 \<le> nfree b" and "l_dev s = ROOTDEV"
    and "l = lblk s t" and "h = lh_block s ! t"
  shows "\<exists>b'. write_log_loop pid s (t # ts) b = write_log_loop pid s ts b' \<and> wrote [(l, content b h)] b b'
    \<and> refs b' = refs b \<and> nfree b' = nfree b"
proof -
  obtain i j b1 b2 where r: "bread pid ROOTDEV l b = Inr (i, b1)" "bread pid ROOTDEV h b1 = Inr (j, b2)" "bio_ok b2"
    "cslot b2 l = Some i" "cslot b2 h = Some j" "content b2 = content b" "disk b2 = disk b" "dwrites b2 = dwrites b"
    "refs b2 = (refs b)(l := 1, h := Suc (Suc 0))" "holder b2 = (holder b)(l := Some pid, h := Some pid)"
    "b_data (buf_at j b2) = content b h" "nfree b2 = nfree b - 1"
    using read_two [OF assms(1-4), of pid] assms(5,6) by auto
  obtain b3 where b3: "bwrite pid i (set_data i (content b h) b2) = Inr b3" "bio_ok b3" "cslot b3 = cslot b2"
    "content b3 = (content b2)(l := content b h)" "disk b3 = (disk b2)(l := content b h)" "dwrites b3 = dwrites b2 @ [(l, content b h)]"
    "refs b3 = refs b2" "holder b3 = holder b2" "nfree b3 = nfree b2"
    using put_ok [OF r(3,4), of pid "content b h"] r assms(3) by auto
  obtain b4 where b4: "brelse pid j b3 = Inr b4" "bio_ok b4" "cslot b4 = cslot b3" "content b4 = content b3" "disk b4 = disk b3"
    "dwrites b4 = dwrites b3" "refs b4 = (refs b3)(h := 1)" "holder b4 = (holder b3)(h := None)" "nfree b4 = nfree b3"
    using brelse_ok [OF b3(2), of h j pid 1] b3 r by auto
  obtain b5 where b5: "brelse pid i b4 = Inr b5" "bio_ok b5" "cslot b5 = cslot b4" "content b5 = content b4" "disk b5 = disk b4"
    "dwrites b5 = dwrites b4" "refs b5 = (refs b4)(l := 0)" "holder b5 = (holder b4)(l := None)" "nfree b5 = nfree b4 + 1"
    using brelse_ok [OF b4(2), of l i pid 0] b4 b3 r assms(3) by auto
  have "write_log_loop pid s (t # ts) b = write_log_loop pid s ts b5"
    using assms(7-9) r(1,2,11) b3(1) b4(1) b5(1) by (simp add: lblk_def)
  moreover have "wrote [(l, content b h)] b b5"
    using b5 b4 b3 r assms(2) by (simp add: wrote_def fun_upd_twist fun_eq_iff)
  moreover have "refs b5 = refs b" using b5(7) b4(7) b3(7) r(9) assms(3-5) by (auto simp: fun_eq_iff)
  ultimately show ?thesis using b5(9) b4(9) b3(9) r(12) assms(6) by auto
qed

lemma install_step:
  assumes "bio_ok b" and "idle b" and "l \<noteq> h" and "refs b l = 0" and "refs b h = 1" and "1 \<le> nfree b" and "l_dev s = ROOTDEV"
    and "l = lblk s t" and "h = lh_block s ! t" and "content b l = disk b l"
  shows "\<exists>b'. install_loop pid False s (t # ts) b = install_loop pid False s ts b' \<and> wrote [(h, content b l)] b b'
    \<and> refs b' = (refs b)(h := 0) \<and> nfree b' = nfree b + 1"
proof -
  obtain i j b1 b2 where r: "bread pid ROOTDEV l b = Inr (i, b1)" "bread pid ROOTDEV h b1 = Inr (j, b2)" "bio_ok b2"
    "cslot b2 l = Some i" "cslot b2 h = Some j" "content b2 = content b" "disk b2 = disk b" "dwrites b2 = dwrites b"
    "refs b2 = (refs b)(l := 1, h := Suc (Suc 0))" "holder b2 = (holder b)(l := Some pid, h := Some pid)"
    "b_data (buf_at i b2) = content b l" "nfree b2 = nfree b - 1"
    using read_two [OF assms(1-4), of pid] assms(5,6) by auto
  obtain b3 where b3: "bwrite pid j (set_data j (content b l) b2) = Inr b3" "bio_ok b3" "cslot b3 = cslot b2"
    "content b3 = (content b2)(h := content b l)" "disk b3 = (disk b2)(h := content b l)" "dwrites b3 = dwrites b2 @ [(h, content b l)]"
    "refs b3 = refs b2" "holder b3 = holder b2" "nfree b3 = nfree b2"
    using put_ok [OF r(3,5), of pid "content b l"] r assms(3) by auto
  have "cslot b3 h = Some j" "refs b3 h = Suc 1" using b3 r by auto
  note up = bunpin_spec [OF b3(2) this]
  obtain b4 where b4: "brelse pid i (bunpin j b3) = Inr b4" "bio_ok b4" "cslot b4 = cslot b3" "content b4 = content b3" "disk b4 = disk b3"
    "dwrites b4 = dwrites b3" "refs b4 = (refs b3)(h := 1, l := 0)" "holder b4 = (holder b3)(l := None)" "nfree b4 = nfree b3 + 1"
    using brelse_ok [of "bunpin j b3" l i pid 0] up b3 r assms(3,10) by auto
  obtain b5 where b5: "brelse pid j b4 = Inr b5" "bio_ok b5" "cslot b5 = cslot b4" "content b5 = content b4" "disk b5 = disk b4"
    "dwrites b5 = dwrites b4" "refs b5 = (refs b4)(h := 0)" "holder b5 = (holder b4)(h := None)" "nfree b5 = nfree b4 + 1"
    using brelse_ok [OF b4(2), of h j pid 0] b4 b3 r assms(3) by auto
  have "install_loop pid False s (t # ts) b = install_loop pid False s ts b5"
    using assms(7-9) r(1,2,11) b3(1) b4(1) b5(1) by (simp add: lblk_def)
  moreover have "wrote [(h, content b l)] b b5"
    using b5 b4 b3 r assms(2) by (simp add: wrote_def fun_upd_twist fun_eq_iff)
  moreover have "refs b5 = (refs b)(h := 0)" using b5(7) b4(7) b3(7) r(9) assms(3-5) by (auto simp: fun_eq_iff)
  ultimately show ?thesis using b5(9) b4(9) b3(9) r(12) assms(6) by auto
qed

lemma recover_step:
  assumes "bio_ok b" and "idle b" and "l \<noteq> h" and "refs b = (\<lambda>_. 0)" and "2 \<le> nfree b" and "l_dev s = ROOTDEV"
    and "l = lblk s t" and "h = lh_block s ! t" and "content b = disk b"
  shows "\<exists>b'. install_loop pid True s (t # ts) b = install_loop pid True s ts b' \<and> wrote [(h, content b l)] b b'
    \<and> refs b' = refs b \<and> nfree b' = nfree b"
proof -
  obtain i j b1 b2 where r: "bread pid ROOTDEV l b = Inr (i, b1)" "bread pid ROOTDEV h b1 = Inr (j, b2)" "bio_ok b2"
    "cslot b2 l = Some i" "cslot b2 h = Some j" "content b2 = content b" "disk b2 = disk b" "dwrites b2 = dwrites b"
    "refs b2 = (refs b)(l := 1, h := 1)" "holder b2 = (holder b)(l := Some pid, h := Some pid)"
    "b_data (buf_at i b2) = content b l" "nfree b2 = nfree b - 2"
    using read_two [OF assms(1-3), of pid] assms(4,5) by auto
  obtain b3 where b3: "bwrite pid j (set_data j (content b l) b2) = Inr b3" "bio_ok b3" "cslot b3 = cslot b2"
    "content b3 = (content b2)(h := content b l)" "disk b3 = (disk b2)(h := content b l)" "dwrites b3 = dwrites b2 @ [(h, content b l)]"
    "refs b3 = refs b2" "holder b3 = holder b2" "nfree b3 = nfree b2"
    using put_ok [OF r(3,5), of pid "content b l"] r assms(3) by auto
  obtain b4 where b4: "brelse pid i b3 = Inr b4" "bio_ok b4" "cslot b4 = cslot b3" "content b4 = content b3" "disk b4 = disk b3"
    "dwrites b4 = dwrites b3" "refs b4 = (refs b3)(l := 0)" "holder b4 = (holder b3)(l := None)" "nfree b4 = nfree b3 + 1"
    using brelse_ok [OF b3(2), of l i pid 0] b3 r assms(3,9) by auto
  obtain b5 where b5: "brelse pid j b4 = Inr b5" "bio_ok b5" "cslot b5 = cslot b4" "content b5 = content b4" "disk b5 = disk b4"
    "dwrites b5 = dwrites b4" "refs b5 = (refs b4)(h := 0)" "holder b5 = (holder b4)(h := None)" "nfree b5 = nfree b4 + 1"
    using brelse_ok [OF b4(2), of h j pid 0] b4 b3 r assms(3) by auto
  have "install_loop pid True s (t # ts) b = install_loop pid True s ts b5"
    using assms(6-8) r(1,2,11) b3(1) b4(1) b5(1) by (simp add: lblk_def)
  moreover have "wrote [(h, content b l)] b b5"
    using b5 b4 b3 r assms(2) by (simp add: wrote_def fun_upd_twist fun_eq_iff)
  moreover have "refs b5 = refs b" using b5(7) b4(7) b3(7) r(9) assms(3,4) by (auto simp: fun_eq_iff)
  ultimately show ?thesis using b5(9) b4(9) b3(9) r(12) assms(5) by auto
qed

section \<open>The loops\<close>

lemma write_log_loop_ok:
  assumes "bio_ok b" and "idle b" and "1 \<le> nfree b" and "l_dev s = ROOTDEV"
    and "\<forall>t\<in>set ts. refs b (lblk s t) = 0 \<and> refs b (home s t) = 1"
    and "\<forall>t\<in>set ts. \<forall>u\<in>set ts. home s t \<noteq> lblk s u"
  shows "\<exists>b'. write_log_loop pid s ts b = Inr b' \<and> wrote (map (\<lambda>t. (lblk s t, content b (home s t))) ts) b b'
    \<and> refs b' = refs b \<and> nfree b' = nfree b"
  using assms
proof (induction ts arbitrary: b)
  case (Cons t ts)
  obtain b1 where b1: "write_log_loop pid s (t # ts) b = write_log_loop pid s ts b1" "wrote [(lblk s t, content b (home s t))] b b1"
    "refs b1 = refs b" "nfree b1 = nfree b"
    using write_log_step [OF Cons.prems(1,2) _ _ _ Cons.prems(3,4), of "lblk s t" "home s t" t pid ts] Cons.prems(5,6) by force
  then have "bio_ok b1" "idle b1" using Cons.prems(2) by (simp_all add: wrote_def)
  then obtain b2 where b2: "write_log_loop pid s ts b1 = Inr b2" "wrote (map (\<lambda>t. (lblk s t, content b1 (home s t))) ts) b1 b2"
    "refs b2 = refs b1" "nfree b2 = nfree b1"
    using Cons.IH [of b1] b1 Cons.prems by auto
  have "map (\<lambda>t. (lblk s t, content b1 (home s t))) ts = map (\<lambda>t. (lblk s t, content b (home s t))) ts"
    using b1(2) Cons.prems(6) by (auto simp: wrote_def)
  with wrote_trans [OF b1(2) b2(2)] show ?case unfolding b1(1) b2(1) using b1(3,4) b2(3,4) by simp
qed (simp add: wrote_refl)

lemma install_loop_ok:
  assumes "bio_ok b" and "idle b" and "1 \<le> nfree b" and "l_dev s = ROOTDEV"
    and "\<forall>t\<in>set ts. refs b (lblk s t) = 0 \<and> refs b (home s t) = 1 \<and> content b (lblk s t) = disk b (lblk s t)"
    and "\<forall>t\<in>set ts. \<forall>u\<in>set ts. home s t \<noteq> lblk s u" and "distinct (map (home s) ts)"
  shows "\<exists>b'. install_loop pid False s ts b = Inr b' \<and> wrote (map (\<lambda>t. (home s t, content b (lblk s t))) ts) b b'
    \<and> refs b' = (\<lambda>x. if x \<in> home s ` set ts then 0 else refs b x) \<and> nfree b' = nfree b + length ts"
  using assms
proof (induction ts arbitrary: b)
  case (Cons t ts)
  have ne: "lblk s t \<noteq> home s t" using Cons.prems(6) by force
  obtain b1 where b1: "install_loop pid False s (t # ts) b = install_loop pid False s ts b1" "wrote [(home s t, content b (lblk s t))] b b1"
    "refs b1 = (refs b)(home s t := 0)" "nfree b1 = nfree b + 1"
    using install_step [OF Cons.prems(1,2) ne _ _ Cons.prems(3,4), of t pid ts] Cons.prems(5) by auto
  then have ok: "bio_ok b1" "idle b1" using Cons.prems(2) by (simp_all add: wrote_def)
  have eq: "content b1 (lblk s u) = content b (lblk s u)" "disk b1 (lblk s u) = disk b (lblk s u)" if "u \<in> set ts" for u
    using b1(2) Cons.prems(6) that by (force simp: wrote_def)+
  have "home s u \<noteq> home s t" if "u \<in> set ts" for u using Cons.prems(7) imageI [OF that, of "home s"] by auto
  then have "\<forall>u\<in>set ts. refs b1 (lblk s u) = 0 \<and> refs b1 (home s u) = 1 \<and> content b1 (lblk s u) = disk b1 (lblk s u)"
    using Cons.prems(5,7) b1(3) eq by auto
  then obtain b2 where b2: "install_loop pid False s ts b1 = Inr b2" "wrote (map (\<lambda>t. (home s t, content b1 (lblk s t))) ts) b1 b2"
    "refs b2 = (\<lambda>x. if x \<in> home s ` set ts then 0 else refs b1 x)" "nfree b2 = nfree b1 + length ts"
    using Cons.IH [of b1] ok b1(4) Cons.prems(3,4,6,7) by auto
  have eqm: "map (\<lambda>t. (home s t, content b1 (lblk s t))) ts = map (\<lambda>t. (home s t, content b (lblk s t))) ts" using eq by simp
  have "refs b2 = (\<lambda>x. if x \<in> home s ` set (t # ts) then 0 else refs b x)" using b2(3) b1(3) by (auto simp: fun_eq_iff)
  then show ?case unfolding b1(1) b2(1) using wrote_trans [OF b1(2) b2(2), unfolded eqm] b1(4) b2(4) by simp
qed (simp add: wrote_refl)

lemma recover_loop_ok:
  assumes "bio_ok b" and "idle b" and "2 \<le> nfree b" and "l_dev s = ROOTDEV" and "refs b = (\<lambda>_. 0)" and "content b = disk b"
    and "\<forall>t\<in>set ts. \<forall>u\<in>set ts. home s t \<noteq> lblk s u"
  shows "\<exists>b'. install_loop pid True s ts b = Inr b' \<and> wrote (map (\<lambda>t. (home s t, disk b (lblk s t))) ts) b b'
    \<and> refs b' = refs b \<and> nfree b' = nfree b"
  using assms
proof (induction ts arbitrary: b)
  case (Cons t ts)
  have ne: "lblk s t \<noteq> home s t" using Cons.prems(7) by force
  obtain b1 where b1: "install_loop pid True s (t # ts) b = install_loop pid True s ts b1" "wrote [(home s t, content b (lblk s t))] b b1"
    "refs b1 = refs b" "nfree b1 = nfree b"
    using recover_step [OF Cons.prems(1,2) ne Cons.prems(5,3,4), of t pid ts] Cons.prems(6) by auto
  then have ok: "bio_ok b1" "idle b1" "content b1 = disk b1" using Cons.prems(2,6) by (simp_all add: wrote_def)
  then obtain b2 where b2: "install_loop pid True s ts b1 = Inr b2" "wrote (map (\<lambda>t. (home s t, disk b1 (lblk s t))) ts) b1 b2"
    "refs b2 = refs b1" "nfree b2 = nfree b1"
    using Cons.IH [of b1] b1 Cons.prems by auto
  have "map (\<lambda>t. (home s t, disk b1 (lblk s t))) ts = map (\<lambda>t. (home s t, disk b (lblk s t))) ts"
    using b1(2) Cons.prems(7) by (auto simp: wrote_def)
  with wrote_trans [OF b1(2) b2(2)] show ?case unfolding b1(1) b2(1) using b1(3,4) b2(3,4) Cons.prems(6) by simp
qed (simp add: wrote_refl)

section \<open>The header\<close>

lemma length_put_blocks [simp]: "length (put_blocks blk is d) = length d"
  by (induction "is" arbitrary: d) simp_all

lemma length_head_data [simp]: "length (head_data n blk d) = length d"
  by (simp add: head_data_def)

lemma put_blocks_get:
  "4 + 4 * k \<le> p \<or> p + 4 \<le> 4 \<Longrightarrow> (\<forall>i\<in>set is. i < k) \<Longrightarrow> get32 (put_blocks blk is d) p = get32 d p"
  by (induction "is" arbitrary: d) auto

lemma put_blocks_block:
  "i \<in> set is \<Longrightarrow> distinct is \<Longrightarrow> \<forall>j\<in>set is. 8 + 4 * j \<le> length d \<Longrightarrow> get32 (put_blocks blk is d) (4 + 4 * i) = blk ! i"
proof (induction "is" arbitrary: d)
  case (Cons j js)
  have other: "get32 (put_blocks blk js d') (4 + 4 * i) = get32 d' (4 + 4 * i)" if "i \<notin> set js" for d'
    using that
  proof (induction js arbitrary: d')
    case (Cons k ks)
    then have "i < k \<or> k < i" by auto
    then have "get32 (put32 (4 + 4 * k) (blk ! k) d') (4 + 4 * i) = get32 d' (4 + 4 * i)" by (intro get32_put_other) linarith
    with Cons show ?case by simp
  qed simp
  show ?case
  proof (cases "i = j")
    case True
    with other Cons.prems show ?thesis by simp
  next
    case False
    with Cons show ?thesis by simp
  qed
qed simp

lemma head_data_get:
  assumes "0 \<le> n" and "n \<le> int LOGBLOCKS" and "4 + 4 * LOGBLOCKS \<le> length d"
  shows "head_n (head_data n blk d) = n" and "i < nat n \<Longrightarrow> head_block (head_data n blk d) i = blk ! i"
proof -
  have "get32 (head_data n blk d) 0 = of_int n"
    unfolding head_data_def using put_blocks_get [of "nat n" 0] assms(3) by simp
  moreover have "sint (of_int n :: u32) = n"
    using assms(1,2) by (simp add: sint_sbintrunc' signed_take_bit_int_eq_self LOGBLOCKS_def MAXOPBLOCKS_def)
  ultimately show "head_n (head_data n blk d) = n" by (simp add: head_n_def)
  assume "i < nat n"
  then show "head_block (head_data n blk d) i = blk ! i"
    using assms by (auto simp: head_block_def head_data_def intro!: put_blocks_block)
qed

lemma write_head_ok:
  assumes "bio_ok (lbio s)" and "idle (lbio s)" and "1 \<le> nfree (lbio s)" and "l_dev s = ROOTDEV" and "refs (lbio s) (l_start s) = 0"
  shows "\<exists>b'. write_head pid s = Inr (s\<lparr>lbio := b'\<rparr>)
    \<and> wrote [(l_start s, head_data (lh_n s) (lh_block s) (content (lbio s) (l_start s)))] (lbio s) b'
    \<and> refs b' = refs (lbio s) \<and> nfree b' = nfree (lbio s)"
proof -
  obtain i b1 where b1: "bread pid ROOTDEV (l_start s) (lbio s) = Inr (i, b1)" "bread_post pid (l_start s) (lbio s) i b1"
    using bread_spec [OF assms(1), of "l_start s" pid] assms(2,3,5) by auto
  then have p1: "bio_ok b1" "cslot b1 (l_start s) = Some i" "holder b1 (l_start s) = Some pid" "refs b1 (l_start s) \<noteq> 0"
    by (auto simp: bread_post_def)
  define d where "d = head_data (lh_n s) (lh_block s) (content (lbio s) (l_start s))"
  have dat: "b_data (buf_at i b1) = content (lbio s) (l_start s)"
    using slot_facts(6) [OF p1(1,2,4)] b1(2) by (simp add: bread_post_def)
  obtain b2 where b2: "bwrite pid i (set_data i d b1) = Inr b2" "bio_ok b2" "cslot b2 = cslot b1" "content b2 = (content b1)(l_start s := d)"
    "disk b2 = (disk b1)(l_start s := d)" "dwrites b2 = dwrites b1 @ [(l_start s, d)]" "refs b2 = refs b1" "holder b2 = holder b1" "nfree b2 = nfree b1"
    using put_ok [OF p1] by blast
  obtain b3 where b3: "brelse pid i b2 = Inr b3" "bio_ok b3" "content b3 = content b2" "disk b3 = disk b2" "dwrites b3 = dwrites b2"
    "refs b3 = (refs b2)(l_start s := 0)" "holder b3 = (holder b2)(l_start s := None)" "nfree b3 = nfree b2 + 1"
    using brelse_ok [OF b2(2), of "l_start s" i pid 0] b2 p1 b1(2) assms(5) by (auto simp: bread_post_def)
  have "write_head pid s = Inr (s\<lparr>lbio := b3\<rparr>)"
    using b1(1) b2(1) b3(1) assms(4) dat by (simp add: write_head_def d_def)
  moreover have "wrote [(l_start s, d)] (lbio s) b3"
    using b3 b2 b1(2) assms(2) by (auto simp: wrote_def bread_post_def fun_eq_iff)
  moreover have "refs b3 = refs (lbio s)" "nfree b3 = nfree (lbio s)"
    using b3 b2 b1(2) assms(3,5) by (auto simp: bread_post_def fun_eq_iff)
  ultimately show ?thesis unfolding d_def by blast
qed

section \<open>Commit and recovery\<close>

definition log_area :: "logst \<Rightarrow> u32 set" where
  "log_area s = insert (l_start s) (lblk s ` {0..<LOGBLOCKS})"

abbreviation logged :: "logst \<Rightarrow> u32 set" where
  "logged s \<equiv> set (take (nat (lh_n s)) (lh_block s))"

text \<open>
  The log between transactions and before a commit: the logged blocks are distinct, lie outside
  of the log and are pinned in the cache, every other block in the cache agrees with the disk,
  nobody holds a buffer, and the header on the disk is empty.
\<close>

definition log_ok :: "logst \<Rightarrow> bool" where
  "log_ok s \<longleftrightarrow> bio_ok (lbio s) \<and> idle (lbio s) \<and> l_dev s = ROOTDEV
    \<and> 0 \<le> lh_n s \<and> lh_n s \<le> int LOGBLOCKS \<and> length (lh_block s) = LOGBLOCKS
    \<and> distinct (take (nat (lh_n s)) (lh_block s)) \<and> logged s \<inter> log_area s = {}
    \<and> refs (lbio s) = (\<lambda>b. if b \<in> logged s then 1 else 0)
    \<and> (\<forall>b. b \<notin> logged s \<longrightarrow> content (lbio s) b = disk (lbio s) b)
    \<and> head_n (disk (lbio s) (l_start s)) = 0 \<and> 4 + 4 * LOGBLOCKS \<le> length (disk (lbio s) (l_start s))"

lemma log_okD:
  assumes "log_ok s"
  shows "bio_ok (lbio s)" "idle (lbio s)" "l_dev s = ROOTDEV" "0 \<le> lh_n s" "lh_n s \<le> int LOGBLOCKS"
    "nat (lh_n s) \<le> LOGBLOCKS" "length (lh_block s) = LOGBLOCKS" "distinct (take (nat (lh_n s)) (lh_block s))"
    "logged s \<inter> log_area s = {}" "refs (lbio s) = (\<lambda>b. if b \<in> logged s then 1 else 0)"
    "b \<notin> logged s \<Longrightarrow> content (lbio s) b = disk (lbio s) b"
    "head_n (disk (lbio s) (l_start s)) = 0" "4 + 4 * LOGBLOCKS \<le> length (disk (lbio s) (l_start s))"
  using assms unfolding log_ok_def by auto

lemma nfree_refs: "bio_ok b \<Longrightarrow> nfree b + card {x. refs b x \<noteq> 0} = NBUF"
proof -
  assume ok: "bio_ok b"
  let ?used = "{i. i < NBUF \<and> b_refcnt (buf_at i b) \<noteq> 0}"
  have dev: "b_dev (buf_at i b) = ROOTDEV" if "i \<in> ?used" for i
    using bio_ok_buf [OF ok, of i] that by (auto simp: buf_ok_def split: if_splits)
  have slot: "cslot b (b_blockno (buf_at i b)) = Some i" if "i \<in> ?used" for i
    using that dev cslot_Some [OF ok] by auto
  have "{x. refs b x \<noteq> 0} = (\<lambda>i. b_blockno (buf_at i b)) ` ?used"
  proof (intro set_eqI iffI)
    fix x assume "x \<in> {x. refs b x \<noteq> 0}"
    then obtain i where i: "cslot b x = Some i" "refs b x \<noteq> 0" using refs_slot by blast
    then have "i \<in> ?used" "b_blockno (buf_at i b) = x" using slot_facts(1,4,5) [OF ok i(1)] by auto
    then show "x \<in> (\<lambda>i. b_blockno (buf_at i b)) ` ?used" by blast
  next
    fix x assume "x \<in> (\<lambda>i. b_blockno (buf_at i b)) ` ?used"
    then obtain i where i: "i \<in> ?used" "x = b_blockno (buf_at i b)" by blast
    then have "refs b x = unat (b_refcnt (buf_at i b))" using slot_facts(5) [OF ok slot] by blast
    with i(1) show "x \<in> {x. refs b x \<noteq> 0}" by (simp add: unat_gt_0)
  qed
  moreover have "inj_on (\<lambda>i. b_blockno (buf_at i b)) ?used"
  proof (rule inj_onI)
    fix i j assume i: "i \<in> ?used" and j: "j \<in> ?used" and eq: "b_blockno (buf_at i b) = b_blockno (buf_at j b)"
    show "i = j" using slot [OF i] slot [OF j] unfolding eq by simp
  qed
  ultimately have "card {x. refs b x \<noteq> 0} = card ?used" by (simp add: card_image)
  moreover have "nfree b = card {i. i < NBUF \<and> b_refcnt (buf_at i b) = 0}"
    using ok by (auto simp: nfree_def length_filter_conv_card intro!: arg_cong [where f = card])
  moreover have "{i. i < NBUF \<and> b_refcnt (buf_at i b) = 0} \<union> ?used = {0..<NBUF}" by auto
  then have "card {i. i < NBUF \<and> b_refcnt (buf_at i b) = 0} + card ?used = card {0..<NBUF}"
    by (subst card_Un_disjoint [symmetric]) auto
  ultimately show ?thesis by simp
qed

lemma log_ok_nfree: "log_ok s \<Longrightarrow> nfree (lbio s) = NBUF - nat (lh_n s)"
proof -
  assume ok: "log_ok s"
  note D = log_okD [OF ok]
  have "{x. refs (lbio s) x \<noteq> 0} = logged s" unfolding D(10) by auto
  moreover have "card (logged s) = nat (lh_n s)" using distinct_card [OF D(8)] D(6,7) by simp
  ultimately show ?thesis using nfree_refs [OF D(1)] by simp
qed

lemma lblk_inj: "t < 2 ^ 32 \<Longrightarrow> u < 2 ^ 32 \<Longrightarrow> lblk s t = lblk s u \<longleftrightarrow> t = u"
proof -
  assume "t < 2 ^ 32" "u < 2 ^ 32"
  then have "unat (of_nat t :: u32) = t" "unat (of_nat u :: u32) = u" by (simp_all add: unat_of_nat)
  then show ?thesis unfolding lblk_def by (metis add_left_cancel add_right_cancel)
qed

lemma lblk_start: "t < LOGBLOCKS \<Longrightarrow> lblk s t \<noteq> l_start s"
proof
  assume t: "t < LOGBLOCKS" and "lblk s t = l_start s"
  then have "(of_nat (Suc t) :: u32) = 0" by (simp add: lblk_def add.assoc add.commute)
  then have "unat (of_nat (Suc t) :: u32) = 0" by simp
  moreover have "Suc t < 2 ^ LENGTH(32)" using t by (simp add: LOGBLOCKS_def MAXOPBLOCKS_def)
  ultimately show False by (simp only: unat_of_nat) simp
qed

definition commit_writes :: "logst \<Rightarrow> (u32 \<times> block) list" where
  "commit_writes s =
    (let n = nat (lh_n s); c = content (lbio s); hd = head_data (lh_n s) (lh_block s) (c (l_start s))
     in map (\<lambda>t. (lblk s t, c (home s t))) [0..<n] @ [(l_start s, hd)]
        @ map (\<lambda>t. (home s t, c (home s t))) [0..<n] @ [(l_start s, head_data 0 (lh_block s) hd)])"

text \<open>The places of a log that is ready to commit.\<close>

lemma log_ok_places:
  assumes "log_ok s"
  shows "\<And>t. t < nat (lh_n s) \<Longrightarrow> home s t \<in> logged s"
    and "\<And>t u. t < nat (lh_n s) \<Longrightarrow> u < LOGBLOCKS \<Longrightarrow> home s t \<noteq> lblk s u"
    and "\<And>t. t < nat (lh_n s) \<Longrightarrow> home s t \<noteq> l_start s"
    and "distinct (map (home s) [0..<nat (lh_n s)])" and "distinct (map (lblk s) [0..<nat (lh_n s)])"
    and "nat (lh_n s) \<le> LOGBLOCKS" and "\<And>u. u < LOGBLOCKS \<Longrightarrow> refs (lbio s) (lblk s u) = 0"
    and "refs (lbio s) (l_start s) = 0" and "home s ` {0..<nat (lh_n s)} = logged s"
proof -
  note D = log_okD [OF assms]
  show n: "nat (lh_n s) \<le> LOGBLOCKS" by (rule D(6))
  have len: "length (lh_block s) = LOGBLOCKS" and dis: "logged s \<inter> log_area s = {}" by (rule D(7), rule D(9))
  have nth: "take (nat (lh_n s)) (lh_block s) ! t = home s t" if "t < nat (lh_n s)" for t using that by simp
  show hl: "home s t \<in> logged s" if "t < nat (lh_n s)" for t
    using nth [OF that] that n len nth_mem [of t "take (nat (lh_n s)) (lh_block s)"] by simp
  show "home s t \<noteq> lblk s u" if "t < nat (lh_n s)" "u < LOGBLOCKS" for t u
    using hl [OF that(1)] that(2) dis by (auto simp: log_area_def)
  show "home s t \<noteq> l_start s" if "t < nat (lh_n s)" for t using hl [OF that] dis by (auto simp: log_area_def)
  have m: "map (home s) [0..<nat (lh_n s)] = take (nat (lh_n s)) (lh_block s)" using n len by (intro nth_equalityI) simp_all
  then show "distinct (map (home s) [0..<nat (lh_n s)])" using D(8) by simp
  from m show "home s ` {0..<nat (lh_n s)} = logged s" by (metis set_map set_upt)
  show "distinct (map (lblk s) [0..<nat (lh_n s)])"
    unfolding distinct_map using n lblk_inj [of _ _ s] by (intro conjI inj_onI) (simp_all add: LOGBLOCKS_def MAXOPBLOCKS_def)
  show "refs (lbio s) (lblk s u) = 0" if "u < LOGBLOCKS" for u
  proof -
    have "lblk s u \<in> log_area s" using that by (simp add: log_area_def)
    with dis have "lblk s u \<notin> logged s" by blast
    then show ?thesis by (simp add: D(10))
  qed
  have "l_start s \<in> log_area s" by (simp add: log_area_def)
  with dis have "l_start s \<notin> logged s" by blast
  then show "refs (lbio s) (l_start s) = 0" by (simp add: D(10))
qed

lemma apply_writes_eq: "\<forall>x. x \<notin> fst ` set ws \<longrightarrow> d x = e x \<Longrightarrow> apply_writes d ws = apply_writes e ws"
proof (induction ws arbitrary: d e)
  case (Cons w ws)
  obtain b x where w: "w = (b, x)" by fastforce
  have "apply_writes (d(b := x)) ws = apply_writes (e(b := x)) ws" using Cons.prems w by (intro Cons.IH) auto
  with w show ?case by simp
qed (simp add: fun_eq_iff)

lemma wroteD:
  assumes "wrote ws b b'"
  shows "bio_ok b'" and "idle b \<Longrightarrow> idle b'"
    and "x \<notin> fst ` set ws \<Longrightarrow> content b' x = content b x \<and> disk b' x = disk b x"
  using assms by (simp_all add: wrote_def apply_writes_other)

lemma wrote_map:
  assumes "wrote (map (\<lambda>t. (f t, g t)) ts) b b'" and "distinct (map f ts)" and "t \<in> set ts"
  shows "content b' (f t) = g t" and "disk b' (f t) = g t"
  using assms apply_writes_map [OF assms(2,3), of _ g] by (simp_all add: wrote_def)

lemma keys_map: "fst ` set (map (\<lambda>t. (f t, g t)) ts) = f ` set ts"
  by (simp add: image_image)

lemma start_keys:
  assumes "log_ok s"
  shows "l_start s \<notin> lblk s ` set [0..<nat (lh_n s)]" and "l_start s \<notin> home s ` set [0..<nat (lh_n s)]"
proof -
  show "l_start s \<notin> lblk s ` set [0..<nat (lh_n s)]"
  proof
    assume "l_start s \<in> lblk s ` set [0..<nat (lh_n s)]"
    then obtain t where "t < nat (lh_n s)" "lblk s t = l_start s" by auto
    then show False using lblk_start [of t s] log_ok_places(6) [OF assms] by simp
  qed
  show "l_start s \<notin> home s ` set [0..<nat (lh_n s)]"
  proof
    assume "l_start s \<in> home s ` set [0..<nat (lh_n s)]"
    then obtain t where "t < nat (lh_n s)" "home s t = l_start s" by auto
    then show False using log_ok_places(3) [OF assms] by simp
  qed
qed

text \<open>The four phases of a commit.\<close>

lemma commit_phases:
  assumes "log_ok s" and "0 < lh_n s" and "nat (lh_n s) < NBUF"
  shows "\<exists>b. commit pid s = Inr (s\<lparr>lh_n := 0, lbio := b\<rparr>) \<and> wrote (commit_writes s) (lbio s) b \<and> refs b = (\<lambda>_. 0)"
proof -
  note D = log_okD [OF assms(1)] and P = log_ok_places [OF assms(1)]
  let ?n = "nat (lh_n s)" and ?c = "content (lbio s)"
  define hd where "hd = head_data (lh_n s) (lh_block s) (?c (l_start s))"
  have nf: "1 \<le> nfree (lbio s)" using log_ok_nfree [OF assms(1)] assms(3) by simp
  have r: "\<forall>t\<in>set [0..<?n]. refs (lbio s) (lblk s t) = 0 \<and> refs (lbio s) (home s t) = 1" using P(1,6,7) by (simp add: D(10))
  have ne: "\<forall>t\<in>set [0..<?n]. \<forall>u\<in>set [0..<?n]. home s t \<noteq> lblk s u" using P(2,6) by simp
  obtain b1 where b1: "write_log_loop pid s [0..<?n] (lbio s) = Inr b1" "wrote (map (\<lambda>t. (lblk s t, ?c (home s t))) [0..<?n]) (lbio s) b1"
    "refs b1 = refs (lbio s)" "nfree b1 = nfree (lbio s)"
    using write_log_loop_ok [OF D(1,2) nf D(3) r ne] by blast
  have st: "l_start s \<notin> fst ` set (map (\<lambda>t. (lblk s t, ?c (home s t))) [0..<?n])"
    "l_start s \<notin> fst ` set (map (\<lambda>t. (home s t, ?c (home s t))) [0..<?n])"
    unfolding keys_map by (rule start_keys [OF assms(1)])+
  note st1 = conjunct1 [OF wroteD(3) [OF b1(2) st(1)]]
  obtain b2 where b2: "write_head pid (s\<lparr>lbio := b1\<rparr>) = Inr (s\<lparr>lbio := b2\<rparr>)" "wrote [(l_start s, hd)] b1 b2"
    "refs b2 = refs b1" "nfree b2 = nfree b1"
    using write_head_ok [of "s\<lparr>lbio := b1\<rparr>" pid] wroteD(1,2) [OF b1(2)] b1(3,4) nf D(2,3) P(8) st1 by (auto simp: hd_def)
  have c2: "content b2 (lblk s t) = ?c (home s t)" "disk b2 (lblk s t) = ?c (home s t)" if "t \<in> set [0..<?n]" for t
    using wrote_map [OF b1(2) P(5) that] wroteD(3) [OF b2(2), of "lblk s t"] lblk_start [of t s] that P(6) by simp_all
  have r2: "\<forall>t\<in>set [0..<?n]. refs b2 (lblk s t) = 0 \<and> refs b2 (home s t) = 1 \<and> content b2 (lblk s t) = disk b2 (lblk s t)"
    using r c2 b1(3) b2(3) by simp
  have w3: "map (\<lambda>t. (home s t, content b2 (lblk s t))) [0..<?n] = map (\<lambda>t. (home s t, ?c (home s t))) [0..<?n]" using c2 by simp
  have i2: "bio_ok b2" "idle b2" "1 \<le> nfree b2" using wroteD [OF b1(2)] wroteD [OF b2(2)] D(2) b1(4) b2(4) nf by auto
  obtain b3 where b3: "install_loop pid False (s\<lparr>lbio := b2\<rparr>) [0..<?n] b2 = Inr b3"
    "wrote (map (\<lambda>t. (home s t, ?c (home s t))) [0..<?n]) b2 b3"
    "refs b3 = (\<lambda>x. if x \<in> home s ` set [0..<?n] then 0 else refs b2 x)" "nfree b3 = nfree b2 + length [0..<?n]"
    using install_loop_ok [of b2 "s\<lparr>lbio := b2\<rparr>" "[0..<?n]" pid] i2 D(3) r2 ne P(4) w3 by auto
  have rz: "refs b3 = (\<lambda>_. 0)" using b3(3) b2(3) b1(3) P(9) by (simp add: D(10) fun_eq_iff)
  have st3: "content b3 (l_start s) = hd"
    using wroteD(3) [OF b3(2) st(2)] b2(2) by (simp add: wrote_def)
  obtain b4 where b4: "write_head pid (s\<lparr>lbio := b3, lh_n := 0\<rparr>) = Inr (s\<lparr>lh_n := 0, lbio := b4\<rparr>)"
    "wrote [(l_start s, head_data 0 (lh_block s) hd)] b3 b4" "refs b4 = refs b3"
    using write_head_ok [of "s\<lparr>lbio := b3, lh_n := 0\<rparr>" pid] wroteD(1,2) [OF b3(2)] i2 b3(4) D(3) rz st3 by auto
  have "commit pid s = Inr (s\<lparr>lh_n := 0, lbio := b4\<rparr>)"
    using assms(2) b1(1) b2(1) b3(1) b4(1) by (simp add: commit_def write_log_def install_trans_def)
  moreover have "wrote (commit_writes s) (lbio s) b4"
    using wrote_trans [OF b1(2) wrote_trans [OF b2(2) wrote_trans [OF b3(2) b4(2)]]]
    by (simp add: commit_writes_def Let_def hd_def)
  ultimately show ?thesis using b4(3) rz by (intro exI [of _ b4]) simp
qed

lemma commit_ok:
  assumes "log_ok s" and "nat (lh_n s) < NBUF"
  shows "\<exists>s'. commit pid s = Inr s' \<and> log_ok s' \<and> lh_n s' = 0
    \<and> (0 < lh_n s \<longrightarrow> dwrites (lbio s') = dwrites (lbio s) @ commit_writes s)"
proof (cases "0 < lh_n s")
  case False
  then show ?thesis using assms(1) log_okD(4) [OF assms(1)] by (auto simp: commit_def)
next
  case True
  note D = log_okD [OF assms(1)] and P = log_ok_places [OF assms(1)]
  obtain b where b: "commit pid s = Inr (s\<lparr>lh_n := 0, lbio := b\<rparr>)" "wrote (commit_writes s) (lbio s) b" "refs b = (\<lambda>_. 0)"
    using commit_phases [OF assms(1) True assms(2)] by blast
  have "logged s \<subseteq> fst ` set (commit_writes s)" unfolding P(9) [symmetric] by (auto simp: commit_writes_def Let_def image_Un image_image)
  then have "apply_writes (content (lbio s)) (commit_writes s) = apply_writes (disk (lbio s)) (commit_writes s)"
    using D(11) by (intro apply_writes_eq) blast
  then have eq: "content b = disk b" using b(2) by (simp add: wrote_def)
  have "disk b (l_start s) = head_data 0 (lh_block s) (head_data (lh_n s) (lh_block s) (content (lbio s) (l_start s)))"
    using b(2) by (simp add: wrote_def commit_writes_def Let_def)
  moreover have "content (lbio s) (l_start s) = disk (lbio s) (l_start s)" using D(9,11) by (auto simp: log_area_def)
  ultimately have "head_n (disk b (l_start s)) = 0" "4 + 4 * LOGBLOCKS \<le> length (disk b (l_start s))"
    using D(13) by (simp_all add: head_data_get)
  then have "log_ok (s\<lparr>lh_n := 0, lbio := b\<rparr>)"
    using wroteD(1,2) [OF b(2)] D b(3) eq by (simp add: log_ok_def)
  moreover have "dwrites b = dwrites (lbio s) @ commit_writes s" using b(2) by (simp add: wrote_def)
  ultimately show ?thesis using b(1) by simp
qed

section \<open>Crash and recovery\<close>

text \<open>A machine that starts with a given disk: an empty cache and the static log structure.\<close>

definition boot_log :: "(u32 \<Rightarrow> block) \<Rightarrow> logst" where
  "boot_log d = \<lparr>lbio = boot_bio d, l_start = 0, l_outstanding = 0, l_committing = False, l_dev = 0, l_ncommit = 0,
     lh_n = 0, lh_block = replicate LOGBLOCKS 0\<rparr>"

lemma boot_facts:
  "bio_ok (boot_bio d)" "content (boot_bio d) = d" "disk (boot_bio d) = d" "refs (boot_bio d) = (\<lambda>_. 0)" "idle (boot_bio d)"
  "nfree (boot_bio d) = NBUF"
  using boot_bio_ok [of d] by (auto simp: content_def refs_def holder_def fun_eq_iff)

lemma read_head_ok:
  assumes "bio_ok (lbio s)" and "idle (lbio s)" and "1 \<le> nfree (lbio s)" and "l_dev s = ROOTDEV" and "refs (lbio s) (l_start s) = 0"
    and "content (lbio s) (l_start s) = d" and "disk (lbio s) (l_start s) = d" and "head_n d \<le> int LOGBLOCKS"
  shows "\<exists>b'. read_head pid s = Inr (s\<lparr>lbio := b', lh_n := head_n d,
      lh_block := map (head_block d) [0..<nat (head_n d)] @ drop (nat (head_n d)) (lh_block s)\<rparr>)
    \<and> wrote [] (lbio s) b' \<and> refs b' = refs (lbio s) \<and> nfree b' = nfree (lbio s)"
proof -
  obtain i b1 where b1: "bread pid ROOTDEV (l_start s) (lbio s) = Inr (i, b1)" "bread_post pid (l_start s) (lbio s) i b1"
    using bread_spec [OF assms(1), of "l_start s" pid] assms(2,3,5) by auto
  then have p1: "bio_ok b1" "cslot b1 (l_start s) = Some i" "holder b1 (l_start s) = Some pid" "refs b1 (l_start s) = Suc 0"
    "content b1 (l_start s) = disk b1 (l_start s)" "nfree b1 = nfree (lbio s) - 1"
    using assms(5-7) by (auto simp: bread_post_def)
  have dat: "b_data (buf_at i b1) = d" using slot_facts(6) [OF p1(1,2)] p1(4) b1(2) assms(6) by (simp add: bread_post_def)
  obtain b2 where b2: "brelse pid i b1 = Inr b2" "bio_ok b2" "content b2 = content b1" "disk b2 = disk b1" "dwrites b2 = dwrites b1"
    "refs b2 = (refs b1)(l_start s := 0)" "holder b2 = (holder b1)(l_start s := None)" "nfree b2 = nfree b1 + 1"
    using brelse_ok [OF p1(1-4)] p1(5) by auto
  have "wrote [] (lbio s) b2" using b2 b1(2) assms(2) by (auto simp: wrote_def bread_post_def fun_eq_iff)
  moreover have "refs b2 = refs (lbio s)" "nfree b2 = nfree (lbio s)"
    using b2 b1(2) p1(6) assms(3,5) by (auto simp: bread_post_def fun_eq_iff)
  ultimately show ?thesis using b1(1) b2(1) dat assms(4,8) by (intro exI [of _ b2]) (simp add: read_head_def Let_def)
qed

text \<open>Recovery copies the blocks that the header on the disk lists from the log to their homes.\<close>

lemma recover_ok:
  assumes "head_n (d start) \<le> int LOGBLOCKS"
    and "\<And>t u. t < nat (head_n (d start)) \<Longrightarrow> u < LOGBLOCKS \<Longrightarrow> head_block (d start) t \<noteq> start + of_nat u + 1"
  shows "\<exists>s' h. initlog pid ROOTDEV start (boot_log d) = Inr s' \<and> disk (lbio s') =
    (apply_writes d (map (\<lambda>t. (head_block (d start) t, d (start + of_nat t + 1))) [0..<nat (head_n (d start))]))(start := h)"
proof -
  let ?n = "nat (head_n (d start))"
  let ?s = "(boot_log d)\<lparr>l_start := start, l_dev := ROOTDEV\<rparr>"
  have nb: "2 \<le> NBUF" by (simp add: NBUF_def MAXOPBLOCKS_def)
  obtain b1 where b1: "read_head pid ?s = Inr (?s\<lparr>lbio := b1, lh_n := head_n (d start),
      lh_block := map (head_block (d start)) [0..<?n] @ drop ?n (lh_block ?s)\<rparr>)"
    "wrote [] (boot_bio d) b1" "refs b1 = (\<lambda>_. 0)" "nfree b1 = NBUF"
    using read_head_ok [of ?s "d start" pid] boot_facts [of d] assms(1) nb by (auto simp: boot_log_def)
  define s1 where "s1 = ?s\<lparr>lbio := b1, lh_n := head_n (d start), lh_block := map (head_block (d start)) [0..<?n] @ drop ?n (lh_block ?s)\<rparr>"
  have home: "home s1 t = head_block (d start) t" if "t < ?n" for t using that by (simp add: s1_def nth_append)
  have lb: "lblk s1 t = start + of_nat t + 1" for t by (simp add: s1_def lblk_def)
  have n: "?n \<le> LOGBLOCKS" using assms(1) by linarith
  have ne: "\<forall>t\<in>set [0..<?n]. \<forall>u\<in>set [0..<?n]. home s1 t \<noteq> lblk s1 u" using assms(2) n by (simp add: home lb)
  have f1: "bio_ok b1" "idle b1" "disk b1 = d" "content b1 = disk b1" using b1(2) boot_facts [of d] by (simp_all add: wrote_def)
  obtain b2 where b2: "install_loop pid True s1 [0..<?n] b1 = Inr b2" "wrote (map (\<lambda>t. (home s1 t, disk b1 (lblk s1 t))) [0..<?n]) b1 b2"
    "refs b2 = refs b1" "nfree b2 = nfree b1"
    using recover_loop_ok [of b1 s1 "[0..<?n]" pid] f1 b1(3,4) nb ne by (auto simp: s1_def)
  have m: "map (\<lambda>t. (home s1 t, disk b1 (lblk s1 t))) [0..<?n] = map (\<lambda>t. (head_block (d start) t, d (start + of_nat t + 1))) [0..<?n]"
    using home lb f1(3) by simp
  obtain b3 h where b3: "write_head pid (s1\<lparr>lbio := b2, lh_n := 0\<rparr>) = Inr (s1\<lparr>lh_n := 0, lbio := b3\<rparr>)" "wrote [(start, h)] b2 b3"
    using write_head_ok [of "s1\<lparr>lbio := b2, lh_n := 0\<rparr>" pid] wroteD(1,2) [OF b2(2)] f1(2) b2(3,4) b1(3,4) nb by (auto simp: s1_def)
  have "install_trans pid True s1 = Inr (s1\<lparr>lbio := b2\<rparr>)" using b2(1) by (simp add: install_trans_def s1_def)
  moreover have "read_head pid ?s = Inr s1" unfolding b1(1) s1_def ..
  ultimately have "initlog pid ROOTDEV start (boot_log d) = Inr (s1\<lparr>lh_n := 0, lbio := b3\<rparr>)"
    using b3(1) by (simp add: initlog_def recover_from_log_def BSIZE_def LOGBLOCKS_def MAXOPBLOCKS_def)
  moreover have "disk b3 = (apply_writes d (map (\<lambda>t. (head_block (d start) t, d (start + of_nat t + 1))) [0..<?n]))(start := h)"
    using b2(2) b3(2) f1(3) unfolding m by (simp add: wrote_def)
  ultimately show ?thesis by (intro exI [of _ "s1\<lparr>lh_n := 0, lbio := b3\<rparr>"] exI [of _ h]) simp
qed

text \<open>
  The disk after the first \<open>k\<close> writes of a commit: up to the write of the header only the log has
  changed; from then on the header lists the logged blocks and the log has their contents, until
  the last write clears the header.
\<close>

lemma crash_early:
  assumes "log_ok s" and "k \<le> nat (lh_n s)"
  defines "d \<equiv> apply_writes (disk (lbio s)) (take k (commit_writes s))"
  shows "d (l_start s) = disk (lbio s) (l_start s)" and "b \<notin> log_area s \<Longrightarrow> d b = disk (lbio s) b"
proof -
  let ?c = "content (lbio s)"
  have tk: "take k (commit_writes s) = map (\<lambda>t. (lblk s t, ?c (home s t))) [0..<k]"
    using assms(2) by (simp add: commit_writes_def Let_def take_map)
  have "d b = disk (lbio s) b" if "b \<notin> lblk s ` set [0..<k]" for b
    using that by (simp add: d_def tk apply_writes_other image_image)
  moreover have "lblk s ` set [0..<k] \<subseteq> lblk s ` set [0..<nat (lh_n s)]" "lblk s ` set [0..<k] \<subseteq> log_area s"
    using assms(2) log_ok_places(6) [OF assms(1)] by (auto simp: log_area_def)
  ultimately show "d (l_start s) = disk (lbio s) (l_start s)" "b \<notin> log_area s \<Longrightarrow> d b = disk (lbio s) b"
    using start_keys(1) [OF assms(1)] by blast+
qed

lemma crash_late:
  assumes "log_ok s" and "nat (lh_n s) < k" and "k \<le> 2 * nat (lh_n s) + 1"
  defines "d \<equiv> apply_writes (disk (lbio s)) (take k (commit_writes s))"
  shows "d (l_start s) = head_data (lh_n s) (lh_block s) (disk (lbio s) (l_start s))"
    and "t < nat (lh_n s) \<Longrightarrow> d (lblk s t) = content (lbio s) (home s t)"
    and "b \<notin> log_area s \<Longrightarrow> b \<notin> logged s \<Longrightarrow> d b = disk (lbio s) b"
proof -
  note D = log_okD [OF assms(1)] and P = log_ok_places [OF assms(1)]
  let ?c = "content (lbio s)" and ?n = "nat (lh_n s)"
  define m where "m = k - ?n - 1"
  define hd where "hd = head_data (lh_n s) (lh_block s) (disk (lbio s) (l_start s))"
  have cs: "?c (l_start s) = disk (lbio s) (l_start s)" using D(9,11) by (auto simp: log_area_def)
  define e where "e = apply_writes (disk (lbio s)) (map (\<lambda>t. (lblk s t, ?c (home s t))) [0..<?n])"
  have "take (k - ?n) ((l_start s, hd) # xs) = (l_start s, hd) # take m xs" for xs
    using assms(2) by (simp add: m_def take_Cons')
  then have "take k (commit_writes s) = map (\<lambda>t. (lblk s t, ?c (home s t))) [0..<?n] @ (l_start s, hd) # map (\<lambda>t. (home s t, ?c (home s t))) [0..<m]"
    using assms(2,3) by (simp add: commit_writes_def Let_def cs hd_def take_map m_def)
  then have d: "d = apply_writes (e(l_start s := hd)) (map (\<lambda>t. (home s t, ?c (home s t))) [0..<m])"
    by (simp add: d_def e_def)
  have m: "home s ` set [0..<m] \<subseteq> home s ` set [0..<?n]" using assms(3) by (auto simp: m_def)
  have other: "d b = (e(l_start s := hd)) b" if "b \<notin> home s ` set [0..<?n]" for b
    using that m unfolding d by (intro apply_writes_other) (auto simp: image_image)
  show "d (l_start s) = head_data (lh_n s) (lh_block s) (disk (lbio s) (l_start s))"
    using other [OF start_keys(2) [OF assms(1)]] by (simp add: hd_def)
  show "d (lblk s t) = ?c (home s t)" if "t < ?n"
  proof -
    have "home s u \<noteq> lblk s t" if "u \<in> set [0..<?n]" for u using P(2) [of u t] P(6) \<open>t < ?n\<close> that by simp
    then have "lblk s t \<notin> home s ` set [0..<?n]" by (metis imageE)
    then show ?thesis using other lblk_start [of t s] that P(6) apply_writes_map [OF P(5), of t _ "\<lambda>t. ?c (home s t)"]
      by (simp add: e_def)
  qed
  show "d b = disk (lbio s) b" if b: "b \<notin> log_area s" "b \<notin> logged s"
  proof -
    have "b \<notin> home s ` set [0..<?n]" "b \<noteq> l_start s" using b P(9) by (auto simp: log_area_def)
    moreover have "b \<notin> lblk s ` set [0..<?n]" using b(1) P(6) by (auto simp: log_area_def)
    ultimately show ?thesis using other by (simp add: e_def apply_writes_other image_image)
  qed
qed

lemma crash_done:
  assumes "log_ok s" and "2 * nat (lh_n s) + 2 \<le> k"
  defines "d \<equiv> apply_writes (disk (lbio s)) (take k (commit_writes s))"
  shows "head_n (d (l_start s)) = 0" and "b \<notin> log_area s \<Longrightarrow> d b = content (lbio s) b"
proof -
  note D = log_okD [OF assms(1)] and P = log_ok_places [OF assms(1)]
  let ?c = "content (lbio s)" and ?n = "nat (lh_n s)"
  define hd where "hd = head_data (lh_n s) (lh_block s) (disk (lbio s) (l_start s))"
  have cs: "?c (l_start s) = disk (lbio s) (l_start s)" using D(9,11) by (auto simp: log_area_def)
  define e where "e = apply_writes (disk (lbio s)) (map (\<lambda>t. (lblk s t, ?c (home s t))) [0..<?n] @ [(l_start s, hd)])"
  have "take k (commit_writes s) = commit_writes s" using assms(2) by (simp add: commit_writes_def Let_def)
  then have d: "d = (apply_writes e (map (\<lambda>t. (home s t, ?c (home s t))) [0..<?n]))(l_start s := head_data 0 (lh_block s) hd)"
    by (simp add: d_def e_def commit_writes_def Let_def cs hd_def)
  show "head_n (d (l_start s)) = 0" unfolding d using D(13) by (simp add: hd_def head_data_get)
  show "d b = ?c b" if b: "b \<notin> log_area s"
  proof (cases "b \<in> logged s")
    case True
    then obtain t where "t \<in> set [0..<?n]" "b = home s t" using P(9) by force
    then show ?thesis using apply_writes_map [OF P(4), of t e "\<lambda>t. ?c (home s t)"] b by (simp add: d log_area_def)
  next
    case False
    have "b \<notin> home s ` set [0..<?n]" "b \<noteq> l_start s" "b \<notin> lblk s ` set [0..<?n]" using b False P(6,9) by (auto simp: log_area_def)
    then show ?thesis using D(11) [OF False] by (simp add: d e_def apply_writes_other image_image)
  qed
qed

text \<open>What recovery makes of a disk of each kind.\<close>

lemma recover_empty:
  assumes "head_n (d start) = 0"
  shows "\<exists>r. initlog pid ROOTDEV start (boot_log d) = Inr r \<and> (\<forall>b. b \<noteq> start \<longrightarrow> disk (lbio r) b = d b)"
  using recover_ok [of d start pid] assms by auto

lemma recover_full:
  assumes "log_ok s" and "d (l_start s) = head_data (lh_n s) (lh_block s) (disk (lbio s) (l_start s))"
    and "\<And>t. t < nat (lh_n s) \<Longrightarrow> d (lblk s t) = content (lbio s) (home s t)"
    and "\<And>b. b \<notin> log_area s \<Longrightarrow> b \<notin> logged s \<Longrightarrow> d b = disk (lbio s) b"
  shows "\<exists>r. initlog pid ROOTDEV (l_start s) (boot_log d) = Inr r \<and> (\<forall>b. b \<notin> log_area s \<longrightarrow> disk (lbio r) b = content (lbio s) b)"
proof -
  note D = log_okD [OF assms(1)] and P = log_ok_places [OF assms(1)]
  let ?c = "content (lbio s)" and ?n = "nat (lh_n s)"
  have h: "head_n (d (l_start s)) = lh_n s" "\<And>t. t < ?n \<Longrightarrow> head_block (d (l_start s)) t = home s t"
    using head_data_get [OF D(4,5,13)] assms(2) by simp_all
  have m: "map (\<lambda>t. (head_block (d (l_start s)) t, d (l_start s + of_nat t + 1))) [0..<?n] = map (\<lambda>t. (home s t, ?c (home s t))) [0..<?n]"
    using h(2) assms(3) by (simp add: lblk_def [symmetric])
  have ne: "head_block (d (l_start s)) t \<noteq> l_start s + of_nat u + 1" if "t < nat (head_n (d (l_start s)))" "u < LOGBLOCKS" for t u
    using P(2) [of t u] h that by (simp add: lblk_def)
  obtain r hh where r: "initlog pid ROOTDEV (l_start s) (boot_log d) = Inr r"
    "disk (lbio r) = (apply_writes d (map (\<lambda>t. (home s t, ?c (home s t))) [0..<?n]))(l_start s := hh)"
    using recover_ok [of d "l_start s" pid] h(1) D(5) ne m by auto
  have "disk (lbio r) b = ?c b" if b: "b \<notin> log_area s" for b
  proof (cases "b \<in> logged s")
    case True
    then obtain t where "t \<in> set [0..<?n]" "b = home s t" using P(9) by force
    then show ?thesis using apply_writes_map [OF P(4), of t d "\<lambda>t. ?c (home s t)"] b by (simp add: r(2) log_area_def)
  next
    case False
    then have "b \<notin> home s ` set [0..<?n]" "b \<noteq> l_start s" using b P(9) by (auto simp: log_area_def)
    then show ?thesis using D(11) [OF False] assms(4) [OF b False] by (simp add: r(2) apply_writes_other image_image)
  qed
  with r(1) show ?thesis by blast
qed

lemma crash_recovers:
  assumes "log_ok s"
  defines "d k \<equiv> apply_writes (disk (lbio s)) (take k (commit_writes s))"
  shows "\<exists>r. initlog pid ROOTDEV (l_start s) (boot_log (d k)) = Inr r
      \<and> ((\<forall>b. b \<notin> log_area s \<longrightarrow> disk (lbio r) b = disk (lbio s) b) \<and> k < 2 * nat (lh_n s) + 2
         \<or> (\<forall>b. b \<notin> log_area s \<longrightarrow> disk (lbio r) b = content (lbio s) b))"
proof -
  have start: "l_start s \<in> log_area s" by (simp add: log_area_def)
  consider "k \<le> nat (lh_n s)" | "nat (lh_n s) < k" "k \<le> 2 * nat (lh_n s) + 1" | "2 * nat (lh_n s) + 2 \<le> k" by linarith
  then show ?thesis
  proof cases
    case 1
    have "head_n (d k (l_start s)) = 0" using crash_early(1) [OF assms(1) 1] log_okD(12) [OF assms(1)] by (simp add: d_def)
    then obtain r where r: "initlog pid ROOTDEV (l_start s) (boot_log (d k)) = Inr r" "\<forall>b. b \<noteq> l_start s \<longrightarrow> disk (lbio r) b = d k b"
      using recover_empty [of "d k" "l_start s" pid] by blast
    have "disk (lbio r) b = disk (lbio s) b" if "b \<notin> log_area s" for b
      using r(2) crash_early(2) [OF assms(1) 1 that] start that by (metis d_def)
    with r(1) 1 show ?thesis by auto
  next
    case 2
    show ?thesis using recover_full [OF assms(1) crash_late [OF assms(1) 2], of pid] unfolding d_def by blast
  next
    case 3
    have "head_n (d k (l_start s)) = 0" using crash_done(1) [OF assms(1) 3] by (simp add: d_def)
    then obtain r where r: "initlog pid ROOTDEV (l_start s) (boot_log (d k)) = Inr r" "\<forall>b. b \<noteq> l_start s \<longrightarrow> disk (lbio r) b = d k b"
      using recover_empty [of "d k" "l_start s" pid] by blast
    have "disk (lbio r) b = content (lbio s) b" if "b \<notin> log_area s" for b
      using r(2) crash_done(2) [OF assms(1) 3 that] start that by (metis d_def)
    with r(1) show ?thesis by blast
  qed
qed

section \<open>Transactions\<close>

text \<open>
  The use of the log that the file system makes: read a block, change it, log it, give it back.
\<close>

definition log_put :: "int \<Rightarrow> u32 \<Rightarrow> block \<Rightarrow> logst \<Rightarrow> logst kres" where
  "log_put pid b d s =
    bindE (bread pid (l_dev s) b (lbio s)) (\<lambda>(i, b1).
    bindE (log_write i (s\<lparr>lbio := set_data i d b1\<rparr>)) (\<lambda>s1.
    bindE (brelse pid i (lbio s1)) (\<lambda>b2. Inr (s1\<lparr>lbio := b2\<rparr>))))"

lemma find_idx_eq: "find_idx (\<lambda>x. x = b) xs = None \<longleftrightarrow> b \<notin> set xs"
  by (induction xs) auto

lemma log_write_eq:
  assumes "lh_n s < int LOGBLOCKS" and "1 \<le> l_outstanding s" and "b_blockno (buf_at i (lbio s)) = b"
  shows "log_write i s = Inr (if b \<in> logged s then s
    else s\<lparr>lh_block := (lh_block s)[nat (lh_n s) := b], lbio := bpin i (lbio s), lh_n := lh_n s + 1\<rparr>)"
proof (cases "b \<in> logged s")
  case True
  then have "find_idx (\<lambda>x. x = b) (take (nat (lh_n s)) (lh_block s)) \<noteq> None" by (simp add: find_idx_eq)
  then obtain k where k: "find_idx (\<lambda>x. x = b) (take (nat (lh_n s)) (lh_block s)) = Some k" by blast
  then have "lh_block s ! k = b" using find_idxD [OF k] by simp
  then have "s\<lparr>lh_block := (lh_block s)[k := b]\<rparr> = s" using list_update_id [of "lh_block s" k] by simp
  with k True show ?thesis using assms by (simp add: log_write_def Let_def)
next
  case False
  then have "find_idx (\<lambda>x. x = b) (take (nat (lh_n s)) (lh_block s)) = None" by (simp add: find_idx_eq)
  with False show ?thesis using assms by (simp add: log_write_def Let_def)
qed

lemma log_put_ok:
  assumes "log_ok s" and "lh_n s < int LOGBLOCKS" and "1 \<le> l_outstanding s" and "b \<notin> log_area s"
  shows "\<exists>s'. log_put pid b d s = Inr s' \<and> log_ok s' \<and> content (lbio s') = (content (lbio s))(b := d)
    \<and> disk (lbio s') = disk (lbio s) \<and> logged s' = insert b (logged s) \<and> l_start s' = l_start s
    \<and> l_outstanding s' = l_outstanding s \<and> lh_n s' = lh_n s + (if b \<in> logged s then 0 else 1)"
proof -
  note D = log_okD [OF assms(1)]
  let ?n = "nat (lh_n s)" and ?r = "refs (lbio s) b"
  have nf: "0 < nfree (lbio s)" using log_ok_nfree [OF assms(1)] assms(2) D(4) by (simp add: NBUF_def LOGBLOCKS_def)
  have r: "?r = (if b \<in> logged s then 1 else 0)" "?r + 1 < 2 ^ 32" by (simp_all add: D(10))
  obtain i b1 where b1: "bread pid ROOTDEV b (lbio s) = Inr (i, b1)" "bread_post pid b (lbio s) i b1"
    using bread_spec [OF D(1) _ r(2), of pid] D(2) nf by auto
  then have p1: "bio_ok b1" "cslot b1 b = Some i" "refs b1 b = Suc ?r" by (auto simp: bread_post_def)
  let ?b2 = "set_data i d b1" and ?b3 = "if b \<in> logged s then set_data i d b1 else bpin i (set_data i d b1)"
  have "refs b1 b \<noteq> 0" using p1(3) by simp
  note p2 = set_data_spec [OF p1(1,2) this, of d]
  have bn: "b_blockno (buf_at i ?b2) = b" using slot_facts(4) [of ?b2 b i] p2 p1(2) by simp
  have p3: "bio_ok ?b3 \<and> cslot ?b3 b = Some i \<and> content ?b3 = (content (lbio s))(b := d) \<and> disk ?b3 = disk (lbio s)
      \<and> refs ?b3 = (refs (lbio s))(b := Suc 1) \<and> holder ?b3 = (holder (lbio s))(b := Some pid)"
    using p2 p1 b1(2) bpin_spec [of ?b2 b i] r(1) by (auto simp: bread_post_def)
  obtain b4 where b4: "brelse pid i ?b3 = Inr b4" "bio_ok b4" "content b4 = content ?b3" "disk b4 = disk ?b3"
    "refs b4 = (refs ?b3)(b := 1)" "holder b4 = (holder ?b3)(b := None)"
    using brelse_ok [of ?b3 b i pid 1] p3 by auto
  define s' where "s' = (if b \<in> logged s then s\<lparr>lbio := b4\<rparr>
    else s\<lparr>lh_block := (lh_block s)[?n := b], lh_n := lh_n s + 1, lbio := b4\<rparr>)"
  have "log_put pid b d s = Inr s'"
    using b1(1) log_write_eq [of "s\<lparr>lbio := ?b2\<rparr>" i b] assms(2,3) bn b4(1) D(3)
    by (cases "b \<in> logged s") (simp_all add: log_put_def s'_def)
  moreover have nl: "?n < length (lh_block s)" using assms(2) D(4,7) by linarith
  have tk: "take (nat (lh_n s')) (lh_block s') = (if b \<in> logged s then take ?n (lh_block s) else take ?n (lh_block s) @ [b])"
    using nl D(4) by (simp add: s'_def nat_add_distrib take_Suc_conv_app_nth)
  then have lg: "logged s' = insert b (logged s)" by auto
  moreover have F: "lbio s' = b4" "l_start s' = l_start s" "l_dev s' = l_dev s" "l_outstanding s' = l_outstanding s"
    "length (lh_block s') = length (lh_block s)" "lh_n s' = lh_n s + (if b \<in> logged s then 0 else 1)" by (simp_all add: s'_def)
  have "log_area s' = log_area s" by (simp add: log_area_def lblk_def F)
  then have "logged s' \<inter> log_area s' = {}" using D(9) assms(4) lg by auto
  moreover have "distinct (take (nat (lh_n s')) (lh_block s'))" using D(8) tk by simp
  moreover have "refs b4 = (\<lambda>x. if x \<in> logged s' then 1 else 0)" "idle b4" "\<forall>x. x \<notin> logged s' \<longrightarrow> content b4 x = disk b4 x"
    using b4 p3 D(2,10,11) lg by (auto simp: fun_eq_iff)
  ultimately have "log_ok s'" unfolding log_ok_def F using b4(2,4) p3 D(3-7,12,13) assms(2) by simp
  with \<open>log_put pid b d s = Inr s'\<close> lg F b4(3,4) p3 show ?thesis by (intro exI [of _ s']) simp
qed

lemma commit_full:
  assumes "log_ok s" and "lh_n s = int LOGBLOCKS"
  shows "commit pid s = Inl (Panic ''bget: no buffers'')"
proof -
  note D = log_okD [OF assms(1)]
  have nf: "nfree (lbio s) = 0" using log_ok_nfree [OF assms(1)] assms(2) by (simp add: LOGBLOCKS_def NBUF_def)
  have n: "0 < LOGBLOCKS" by (simp add: LOGBLOCKS_def MAXOPBLOCKS_def)
  have "cslot (lbio s) (lblk s 0) = None"
  proof (rule ccontr)
    assume "cslot (lbio s) (lblk s 0) \<noteq> None"
    then obtain i where i: "cslot (lbio s) (lblk s 0) = Some i" by blast
    then have "b_refcnt (buf_at i (lbio s)) = 0"
      using slot_facts(5) [OF D(1) i] log_ok_places(7) [OF assms(1) n] by (simp add: unat_eq_zero)
    then show False using nf nfree_pos [OF D(1)] slot_facts(1) [OF D(1) i] by auto
  qed
  then have "bread pid ROOTDEV (lblk s 0) (lbio s) = Inl (Panic ''bget: no buffers'')" using bread_full [OF D(1) _ nf] by blast
  then have "write_log_loop pid s [0..<LOGBLOCKS] (lbio s) = Inl (Panic ''bget: no buffers'')"
    using n D(3) by (simp add: upt_conv_Cons lblk_def)
  then show ?thesis using assms(2) n by (simp add: commit_def write_log_def)
qed

text \<open>
  Operations in progress, each with the number of blocks it may still log: \<open>begin_op\<close> admits one
  with \<open>MAXOPBLOCKS\<close>.
\<close>

inductive tx_reach :: "logst \<Rightarrow> nat list \<Rightarrow> bool" where
  tx_idle: "log_ok s \<Longrightarrow> lh_n s = 0 \<Longrightarrow> l_outstanding s = 0 \<Longrightarrow> \<not> l_committing s \<Longrightarrow> tx_reach s []"
| tx_begin: "tx_reach s bs \<Longrightarrow> begin_op s = Some s' \<Longrightarrow> tx_reach s' (MAXOPBLOCKS # bs)"
| tx_write: "tx_reach s bs \<Longrightarrow> i < length bs \<Longrightarrow> 0 < bs ! i \<Longrightarrow> b \<notin> log_area s \<Longrightarrow> log_put pid b d s = Inr s' \<Longrightarrow>
    tx_reach s' (bs[i := bs ! i - 1])"
| tx_end: "tx_reach s (bs @ r # bs') \<Longrightarrow> end_op pid s = Inr s' \<Longrightarrow> tx_reach s' (bs @ bs')"

definition tx_inv :: "logst \<Rightarrow> nat list \<Rightarrow> bool" where
  "tx_inv s bs \<longleftrightarrow> log_ok s \<and> \<not> l_committing s \<and> l_outstanding s = int (length bs) \<and> list_all (\<lambda>r. r \<le> MAXOPBLOCKS) bs
    \<and> lh_n s + int (sum_list bs) \<le> int LOGBLOCKS"

lemma sum_list_bounded: "list_all (\<lambda>r. r \<le> m) (bs :: nat list) \<Longrightarrow> sum_list bs \<le> length bs * m"
  by (induction bs) auto

lemma log_ok_fields: "lbio s' = lbio s \<Longrightarrow> l_start s' = l_start s \<Longrightarrow> l_dev s' = l_dev s \<Longrightarrow> lh_n s' = lh_n s \<Longrightarrow>
    lh_block s' = lh_block s \<Longrightarrow> log_ok s' = log_ok s"
  by (simp add: log_ok_def log_area_def lblk_def)

lemma log_put_fields: "log_put pid b d s = Inr s' \<Longrightarrow> l_committing s' = l_committing s"
  by (auto simp: log_put_def log_write_def Let_def split: if_splits option.splits)

lemma tx_begin_inv: "tx_inv s bs \<Longrightarrow> begin_op s = Some s' \<Longrightarrow> tx_inv s' (MAXOPBLOCKS # bs)"
proof -
  assume inv: "tx_inv s bs" and b: "begin_op s = Some s'"
  then have s': "s' = s\<lparr>l_outstanding := l_outstanding s + 1\<rparr>" "lh_n s + (l_outstanding s + 1) * int MAXOPBLOCKS \<le> int LOGBLOCKS"
    by (auto simp: begin_op_def split: if_splits)
  have "int (sum_list bs) \<le> l_outstanding s * int MAXOPBLOCKS"
    using sum_list_bounded [of MAXOPBLOCKS bs] inv unfolding tx_inv_def by (metis of_nat_le_iff of_nat_mult)
  with s'(2) have "lh_n s + int (sum_list (MAXOPBLOCKS # bs)) \<le> int LOGBLOCKS" by (simp add: algebra_simps)
  moreover have "log_ok s'" using inv log_ok_fields [of s' s] by (simp add: s'(1) tx_inv_def)
  ultimately show ?thesis using inv by (simp add: tx_inv_def s'(1))
qed

lemma tx_write_ok:
  assumes "tx_inv s bs" and "i < length bs" and "0 < bs ! i" and "b \<notin> log_area s"
  shows "\<exists>s'. log_put pid b d s = Inr s' \<and> tx_inv s' (bs[i := bs ! i - 1])"
proof -
  have "bs ! i \<le> sum_list bs" using assms(2) by (simp add: member_le_sum_list)
  with assms have "lh_n s < int LOGBLOCKS" "1 \<le> l_outstanding s" by (auto simp: tx_inv_def)
  then obtain s' where s': "log_put pid b d s = Inr s'" "log_ok s'" "l_outstanding s' = l_outstanding s"
    "lh_n s' = lh_n s + (if b \<in> logged s then 0 else 1)"
    using log_put_ok [of s b pid d] assms(1,4) by (auto simp: tx_inv_def)
  have "sum_list (bs[i := bs ! i - 1]) = sum_list bs - 1"
    using assms(2,3) by (simp add: sum_list_update \<open>bs ! i \<le> sum_list bs\<close>)
  moreover have "1 \<le> sum_list bs" using assms(3) \<open>bs ! i \<le> sum_list bs\<close> by linarith
  moreover have "list_all (\<lambda>r. r \<le> MAXOPBLOCKS) (bs[i := bs ! i - 1])"
    using assms(1,2) by (auto simp: tx_inv_def list_all_length nth_list_update)
  ultimately have "tx_inv s' (bs[i := bs ! i - 1])"
    using s' assms(1) log_put_fields [OF s'(1)] by (auto simp: tx_inv_def)
  with s'(1) show ?thesis by blast
qed

lemma commit_fields:
  assumes "log_ok s" and "commit pid s = Inr s'"
  shows "log_ok s'" and "lh_n s' = 0" and "l_outstanding s' = l_outstanding s"
proof -
  have n: "nat (lh_n s) < NBUF"
  proof (rule ccontr)
    assume "\<not> nat (lh_n s) < NBUF"
    then have "lh_n s = int LOGBLOCKS" using log_okD(4,5) [OF assms(1)] by (simp add: NBUF_def LOGBLOCKS_def)
    then show False using commit_full [OF assms(1)] assms(2) by simp
  qed
  then show "log_ok s'" "lh_n s' = 0" using commit_ok [OF assms(1) n, of pid] assms(2) by auto
  show "l_outstanding s' = l_outstanding s"
  proof (cases "0 < lh_n s")
    case True
    then show ?thesis using commit_phases [OF assms(1) True n, of pid] assms(2) by auto
  qed (use assms(2) in \<open>simp add: commit_def\<close>)
qed

lemma tx_end_inv:
  assumes "tx_inv s (bs @ r # bs')" and "end_op pid s = Inr s'"
  shows "tx_inv s' (bs @ bs')"
proof (cases "bs @ bs' = []")
  case True
  let ?s = "s\<lparr>l_outstanding := 0, l_committing := True\<rparr>"
  obtain s2 where s2: "commit pid ?s = Inr s2" "s' = end_op_finish s2"
    using assms True by (auto simp: end_op_def end_op_begin_def tx_inv_def Let_def)
  have "log_ok ?s" using assms(1) log_ok_fields [of ?s s] by (simp add: tx_inv_def)
  note c = commit_fields [OF this s2(1)]
  have "log_ok s'" using c(1) log_ok_fields [of s' s2] by (simp add: s2(2) end_op_finish_def)
  then show ?thesis using c True by (simp add: tx_inv_def s2(2) end_op_finish_def)
next
  case False
  have out: "l_outstanding s - 1 = int (length (bs @ bs'))" using assms(1) by (simp add: tx_inv_def)
  moreover have "length (bs @ bs') \<noteq> 0" using False by simp
  ultimately have "l_outstanding s - 1 \<noteq> 0" by (metis of_nat_eq_0_iff)
  then have s': "s' = s\<lparr>l_outstanding := l_outstanding s - 1\<rparr>"
    using assms by (auto simp: end_op_def end_op_begin_def tx_inv_def Let_def split: if_splits)
  have "log_ok s'" using assms(1) log_ok_fields [of s' s] by (simp add: s' tx_inv_def)
  then show ?thesis using assms(1) out by (simp add: tx_inv_def s')
qed

lemma tx_reach_inv: "tx_reach s bs \<Longrightarrow> tx_inv s bs"
proof (induction rule: tx_reach.induct)
  case (tx_write s bs i b pid d s')
  then show ?case using tx_write_ok [of s bs i b pid d] by auto
qed (simp add: tx_inv_def, blast intro: tx_begin_inv, blast intro: tx_end_inv)

text \<open>
  C8: A commit is atomic. It runs through, and wherever the machine stops, after any number \<open>k\<close> of
  the disk writes of the commit, \<open>initlog\<close> recovers on the next start, and then the blocks
  outside of the log are either all as before the transaction or all as the transaction left
  them in the cache; after the last write it is the latter.
\<close>

theorem log_commit_atomic:
  assumes "log_ok s" and "nat (lh_n s) < NBUF"
  shows "\<exists>s'. commit pid s = Inr s' \<and> log_ok s' \<and>
    (\<forall>k. \<exists>r. initlog pid ROOTDEV (l_start s)
        (boot_log (apply_writes (disk (lbio s)) (take k (drop (length (dwrites (lbio s))) (dwrites (lbio s')))))) = Inr r
      \<and> ((\<forall>b. b \<notin> log_area s \<longrightarrow> disk (lbio r) b = disk (lbio s) b)
          \<and> length (dwrites (lbio s)) + k < length (dwrites (lbio s'))
         \<or> (\<forall>b. b \<notin> log_area s \<longrightarrow> disk (lbio r) b = content (lbio s) b)))"
proof -
  note D = log_okD [OF assms(1)]
  obtain s' where s': "commit pid s = Inr s'" "log_ok s'" "0 < lh_n s \<longrightarrow> dwrites (lbio s') = dwrites (lbio s) @ commit_writes s"
    using commit_ok [OF assms] by blast
  show ?thesis
  proof (cases "0 < lh_n s")
    case False
    then have n: "lh_n s = 0" using D(4) by simp
    then have "s' = s" using s'(1) by (simp add: commit_def)
    moreover obtain r where r: "initlog pid ROOTDEV (l_start s) (boot_log (disk (lbio s))) = Inr r"
      "\<forall>b. b \<noteq> l_start s \<longrightarrow> disk (lbio r) b = disk (lbio s) b"
      using recover_empty [of "disk (lbio s)" "l_start s" pid] D(12) by blast
    moreover have "disk (lbio r) b = content (lbio s) b" if "b \<notin> log_area s" for b
      using r(2) D(11) [of b] n that by (auto simp: log_area_def)
    ultimately show ?thesis using s'(1,2) by (intro exI [of _ s]) auto
  next
    case True
    have w: "drop (length (dwrites (lbio s))) (dwrites (lbio s')) = commit_writes s" using s'(3) True by simp
    have "length (dwrites (lbio s)) + k < length (dwrites (lbio s')) \<longleftrightarrow> k < 2 * nat (lh_n s) + 2" for k
      using s'(3) True by (simp add: commit_writes_def Let_def mult_2)
    with s'(1,2) crash_recovers [OF assms(1), of pid] show ?thesis by (intro exI [of _ s']) (simp add: w)
  qed
qed

text \<open>
  C36: The log can take \<open>LOGBLOCKS\<close> blocks but its commit cannot: with \<open>LOGBLOCKS = NBUF\<close> all buffers
  are pinned then, and the first \<open>bread\<close> of the commit panics. \<open>log_write\<close> accepts the block that
  fills the log.
\<close>

theorem full_log_commit_panics:
  assumes "log_ok s" and "lh_n s = int LOGBLOCKS - 1" and "1 \<le> l_outstanding s" and "b \<notin> log_area s" and "b \<notin> logged s"
  shows "\<exists>s'. log_put pid b d s = Inr s' \<and> log_ok s' \<and> commit pid s' = Inl (Panic ''bget: no buffers'')"
proof -
  obtain s' where s': "log_put pid b d s = Inr s'" "log_ok s'" "lh_n s' = int LOGBLOCKS"
    using log_put_ok [OF assms(1) _ assms(3,4), of pid d] assms(2,5) by auto
  then have "commit pid s' = Inl (Panic ''bget: no buffers'')" by (simp add: commit_full)
  with s' show ?thesis by blast
qed

text \<open>
  C10: The reservation of \<open>begin_op\<close> keeps the log from overflowing: as long as no operation logs more
  than \<open>MAXOPBLOCKS\<close> blocks, a \<open>log_write\<close> of any open operation succeeds and never panics, whatever
  other operations are open and whatever they have logged.
\<close>

theorem log_space_reserved:
  assumes "tx_reach s bs" and "i < length bs" and "0 < bs ! i" and "b \<notin> log_area s"
  shows "\<exists>s'. log_put pid b d s = Inr s' \<and> log_ok s' \<and> content (lbio s') b = d"
proof -
  have inv: "tx_inv s bs" by (rule tx_reach_inv [OF assms(1)])
  have "bs ! i \<le> sum_list bs" using assms(2) by (simp add: member_le_sum_list)
  with assms inv have "lh_n s < int LOGBLOCKS" "1 \<le> l_outstanding s" "log_ok s" by (auto simp: tx_inv_def)
  with log_put_ok [of s b pid d] assms(4) show ?thesis by auto
qed

section \<open>Examples\<close>

definition zero_disk :: "u32 \<Rightarrow> block" where
  "zero_disk b = replicate BSIZE 0"

definition log0 :: logst where
  "log0 = (boot_log zero_disk)\<lparr>l_start := 2, l_dev := ROOTDEV\<rparr>"

lemma log0_ok: "log_ok log0" "lh_n log0 = 0" "l_outstanding log0 = 0" "\<not> l_committing log0" "l_start log0 = 2"
proof -
  have "get32 (replicate BSIZE 0) 0 = 0" by (simp add: get32_def BSIZE_def)
  then have "head_n (zero_disk 2) = 0" by (simp add: head_n_def zero_disk_def)
  then show "log_ok log0"
    using boot_facts [of zero_disk] by (simp add: log_ok_def log0_def boot_log_def zero_disk_def BSIZE_def LOGBLOCKS_def MAXOPBLOCKS_def)
qed (simp_all add: log0_def boot_log_def)

lemma far_from_log: "l_start s = 2 \<Longrightarrow> k < 100 \<Longrightarrow> of_nat (100 + k) \<notin> log_area s"
proof -
  assume s: "l_start s = 2" and k: "k < 100"
  have "unat (of_nat (100 + k) :: u32) = 100 + k" using k by (simp only: unat_of_nat) simp
  moreover have "unat (lblk s t) \<le> 33" if "t < LOGBLOCKS" for t
  proof -
    have "lblk s t = of_nat (3 + t)" by (simp add: lblk_def s)
    then have "unat (lblk s t) = 3 + t" using that by (simp only: unat_of_nat) (simp add: LOGBLOCKS_def MAXOPBLOCKS_def)
    then show ?thesis using that by (simp add: LOGBLOCKS_def MAXOPBLOCKS_def)
  qed
  moreover have "unat (l_start s) = 2" using s by simp
  ultimately show ?thesis unfolding log_area_def by fastforce
qed

lemma filled_log:
  "k \<le> LOGBLOCKS - 1 \<Longrightarrow> \<exists>s. log_ok s \<and> lh_n s = int k \<and> l_outstanding s = 1 \<and> l_start s = 2
    \<and> logged s = (\<lambda>j. of_nat (100 + j)) ` {0..<k}"
proof (induction k)
  case 0
  have "log_ok (log0\<lparr>l_outstanding := 1\<rparr>)" using log0_ok log_ok_fields [of "log0\<lparr>l_outstanding := 1\<rparr>" log0] by simp
  then show ?case using log0_ok by (intro exI [of _ "log0\<lparr>l_outstanding := 1\<rparr>"]) simp
next
  case (Suc k)
  then obtain s where s: "log_ok s" "lh_n s = int k" "l_outstanding s = 1" "l_start s = 2"
    "logged s = (\<lambda>j. of_nat (100 + j)) ` {0..<k}" by auto
  have k: "k < 100" "k < LOGBLOCKS" using Suc.prems by (simp_all add: LOGBLOCKS_def MAXOPBLOCKS_def)
  have u: "unat (of_nat (100 + j) :: u32) = 100 + j" if "j < 100" for j using that by (simp only: unat_of_nat) simp
  have "of_nat (100 + k) \<notin> logged s"
  proof
    assume "of_nat (100 + k) \<in> logged s"
    then obtain j where "j < k" "(of_nat (100 + k) :: u32) = of_nat (100 + j)" unfolding s(5) by auto
    then show False using u [of j] u [of k] k(1) by simp
  qed
  then show ?case using log_put_ok [OF s(1) _ _ far_from_log [OF s(4) k(1)], of 1 "[]"] s k
    by (auto simp: atLeast0_lessThan_Suc)
qed

theorem log_commit_atomic_witness:
  "\<exists>s s'. log_ok s \<and> lh_n s = 3 \<and> commit 1 s = Inr s' \<and> log_ok s'"
proof -
  obtain s where s: "log_ok s" "lh_n s = int 3" using filled_log [of 3] by (auto simp: LOGBLOCKS_def MAXOPBLOCKS_def)
  then have "nat (lh_n s) < NBUF" by (simp add: NBUF_def MAXOPBLOCKS_def)
  with log_commit_atomic [OF s(1), of 1] s show ?thesis by fastforce
qed

theorem full_log_commit_panics_witness:
  "\<exists>s. log_ok s \<and> lh_n s = int LOGBLOCKS \<and> commit 1 s = Inl (Panic ''bget: no buffers'')"
proof -
  obtain s where s: "log_ok s" "lh_n s = int (LOGBLOCKS - 1)" "l_outstanding s = 1" "l_start s = 2"
    "logged s = (\<lambda>j. of_nat (100 + j)) ` {0..<LOGBLOCKS - 1}" using filled_log [of "LOGBLOCKS - 1"] by auto
  have n: "lh_n s = int LOGBLOCKS - 1" using s(2) by (simp add: LOGBLOCKS_def MAXOPBLOCKS_def)
  have "of_nat (100 + 50) \<notin> logged s"
  proof
    assume "of_nat (100 + 50) \<in> logged s"
    then obtain j where j: "j < LOGBLOCKS - 1" "(of_nat (100 + 50) :: u32) = of_nat (100 + j)" unfolding s(5) by auto
    then have "unat (of_nat (100 + 50) :: u32) = unat (of_nat (100 + j) :: u32)" by simp
    then show False using j(1) by (simp only: unat_of_nat) (simp add: LOGBLOCKS_def MAXOPBLOCKS_def)
  qed
  then obtain s' where "log_put 1 (of_nat (100 + 50)) [] s = Inr s'" "log_ok s'" "commit 1 s' = Inl (Panic ''bget: no buffers'')"
    using full_log_commit_panics [OF s(1) n _ far_from_log [OF s(4), of 50], of 1 "[]"] s(3) by auto
  moreover from this have "lh_n s' = int LOGBLOCKS"
    using log_put_ok [OF s(1) _ _ far_from_log [OF s(4), of 50], of 1 "[]"] \<open>of_nat (100 + 50) \<notin> logged s\<close> n s(3) by auto
  ultimately show ?thesis by blast
qed

theorem log_space_reserved_witness:
  "\<exists>s s'. tx_reach s [MAXOPBLOCKS] \<and> log_put 1 (of_nat (100 + 50)) (replicate BSIZE 7) s = Inr s' \<and> content (lbio s') (of_nat (100 + 50)) = replicate BSIZE 7"
proof -
  let ?s = "log0\<lparr>l_outstanding := 1\<rparr>"
  have "begin_op log0 = Some ?s" using log0_ok by (simp add: begin_op_def LOGBLOCKS_def MAXOPBLOCKS_def)
  then have t: "tx_reach ?s [MAXOPBLOCKS]" using tx_begin [OF tx_idle [OF log0_ok(1-4)]] by simp
  have "l_start ?s = 2" using log0_ok(5) by simp
  then show ?thesis using log_space_reserved [OF t _ _ far_from_log [of ?s 50], of 0 1 "replicate BSIZE 7"] t by (auto simp: MAXOPBLOCKS_def)
qed

end
