(* ===== verification/Fs.thy ===== *)
theory Fs
  imports Log Kstring
begin

text \<open>
  The file system, \<open>xv6/kernel/fs.c\<close>, \<open>fs.h\<close> and \<open>file.h\<close>: the block allocator, inodes and their
  contents, directories and path names, above the log.

  A pointer to an in-memory inode is its index in the inode table, and a null pointer is \<open>None\<close>
  where a function can return one. The spin lock of the table makes the table operations atomic; the
  operations are those of one process, whose pid is an argument, and a sleep lock that is taken
  is the value \<open>Blocked\<close>. Strings of the kernel are lists of bytes without the terminator. A copy
  to or from the memory of a process is an argument of \<open>readi\<close> and \<open>writei\<close>, so that the same
  definitions serve user addresses and the local variables of the kernel. Messages on the
  console are not part of the state.
\<close>

section \<open>Parameters and state\<close>

definition ROOTINO :: u32 where "ROOTINO = 1"
definition FSMAGIC :: u32 where "FSMAGIC = 0x10203040"
definition NDIRECT :: nat where "NDIRECT = 12"
definition NINDIRECT :: nat where "NINDIRECT = BSIZE div 4"
definition MAXFILE :: nat where "MAXFILE = NDIRECT + NINDIRECT"
definition NINODE :: nat where "NINODE = 50"
definition DIRSIZ :: nat where "DIRSIZ = 14"
definition T_DIR :: u16 where "T_DIR = 1"
definition T_FILE :: u16 where "T_FILE = 2"
definition T_DEVICE :: u16 where "T_DEVICE = 3"

record superblock =
  sb_magic :: u32
  sb_size :: u32
  sb_nblocks :: u32
  sb_ninodes :: u32
  sb_nlog :: u32
  sb_logstart :: u32
  sb_inodestart :: u32
  sb_bmapstart :: u32

record inode =
  i_dev :: u32
  i_inum :: u32
  i_ref :: int
  i_locked :: bool
  i_pid :: int
  i_valid :: bool
  i_type :: u16
  i_major :: u16
  i_minor :: u16
  i_nlink :: u16
  i_size :: u32
  i_addrs :: "u32 list"

record fsys =
  flog :: logst
  fsb :: superblock
  itable :: "inode list"

abbreviation inode_at :: "nat \<Rightarrow> fsys \<Rightarrow> inode" where
  "inode_at ip s \<equiv> itable s ! ip"

definition upd_inode :: "nat \<Rightarrow> (inode \<Rightarrow> inode) \<Rightarrow> fsys \<Rightarrow> fsys" where
  "upd_inode ip f s = s\<lparr>itable := upd_nth ip f (itable s)\<rparr>"

definition IPB :: nat where "IPB = BSIZE div 64"
definition BPB :: nat where "BPB = BSIZE * 8"

definition IBLOCK :: "u32 \<Rightarrow> superblock \<Rightarrow> u32" where
  "IBLOCK i sb = of_nat (unat i div IPB) + sb_inodestart sb"

definition BBLOCK :: "u32 \<Rightarrow> superblock \<Rightarrow> u32" where
  "BBLOCK b sb = of_nat (unat b div BPB) + sb_bmapstart sb"

text \<open>The calls of the buffer cache and of the log on the state of the file system.\<close>

definition fs_bread :: "int \<Rightarrow> u32 \<Rightarrow> u32 \<Rightarrow> fsys \<Rightarrow> (nat \<times> fsys) kres" where
  "fs_bread pid dev b s =
    bindE (bread pid dev b (lbio (flog s))) (\<lambda>(i, b1). Inr (i, s\<lparr>flog := (flog s)\<lparr>lbio := b1\<rparr>\<rparr>))"

definition fs_brelse :: "int \<Rightarrow> nat \<Rightarrow> fsys \<Rightarrow> fsys kres" where
  "fs_brelse pid i s = bindE (brelse pid i (lbio (flog s))) (\<lambda>b1. Inr (s\<lparr>flog := (flog s)\<lparr>lbio := b1\<rparr>\<rparr>))"

definition fs_set :: "nat \<Rightarrow> block \<Rightarrow> fsys \<Rightarrow> fsys" where
  "fs_set i d s = s\<lparr>flog := (flog s)\<lparr>lbio := set_data i d (lbio (flog s))\<rparr>\<rparr>"

definition fs_log_write :: "nat \<Rightarrow> fsys \<Rightarrow> fsys kres" where
  "fs_log_write i s = bindE (log_write i (flog s)) (\<lambda>l. Inr (s\<lparr>flog := l\<rparr>))"

definition bdata :: "nat \<Rightarrow> fsys \<Rightarrow> block" where
  "bdata i s = b_data (buf_at i (lbio (flog s)))"

section \<open>Blocks\<close>

definition get_sb :: "block \<Rightarrow> superblock" where
  "get_sb d = \<lparr>sb_magic = get32 d 0, sb_size = get32 d 4, sb_nblocks = get32 d 8, sb_ninodes = get32 d 12,
     sb_nlog = get32 d 16, sb_logstart = get32 d 20, sb_inodestart = get32 d 24, sb_bmapstart = get32 d 28\<rparr>"

definition readsb :: "int \<Rightarrow> u32 \<Rightarrow> fsys \<Rightarrow> fsys kres" where
  "readsb pid dev s =
    bindE (fs_bread pid dev 1 s) (\<lambda>(bp, s1). fs_brelse pid bp (s1\<lparr>fsb := get_sb (bdata bp s1)\<rparr>))"

definition bzero :: "int \<Rightarrow> u32 \<Rightarrow> u32 \<Rightarrow> fsys \<Rightarrow> fsys kres" where
  "bzero pid dev bno s =
    bindE (fs_bread pid dev bno s) (\<lambda>(bp, s1).
    bindE (fs_log_write bp (fs_set bp (replicate BSIZE 0) s1)) (\<lambda>s2.
    fs_brelse pid bp s2))"

text \<open>The bit of a block in its block of the free map.\<close>

definition bit_mask :: "nat \<Rightarrow> u8" where
  "bit_mask bi = push_bit (bi mod 8) 1"

definition bit_clear :: "block \<Rightarrow> nat \<Rightarrow> bool" where
  "bit_clear d bi \<longleftrightarrow> d ! (bi div 8) AND bit_mask bi = 0"

fun balloc_scan :: "block \<Rightarrow> nat \<Rightarrow> nat \<Rightarrow> nat list \<Rightarrow> nat option" where
  "balloc_scan d b sz [] = None"
| "balloc_scan d b sz (bi # bis) =
    (if \<not> b + bi < sz then None
     else if bit_clear d bi then Some bi
     else balloc_scan d b sz bis)"

text \<open>The loop over the blocks of the free map; its counter is an \<open>int\<close>, which must not overflow.\<close>

fun balloc_loop :: "int \<Rightarrow> u32 \<Rightarrow> nat list \<Rightarrow> fsys \<Rightarrow> (u32 \<times> fsys) kres" where
  "balloc_loop pid dev [] s = Inr (0, s)"
| "balloc_loop pid dev (b # bs) s =
    (if b \<ge> 2 ^ 31 then Inl Undefined
     else bindE (fs_bread pid dev (BBLOCK (of_nat b) (fsb s)) s) (\<lambda>(bp, s1).
       case balloc_scan (bdata bp s1) b (unat (sb_size (fsb s))) [0..<BPB] of
         Some bi \<Rightarrow>
           (let d = bdata bp s1; d' = d[bi div 8 := d ! (bi div 8) OR bit_mask bi]
            in bindE (fs_log_write bp (fs_set bp d' s1)) (\<lambda>s2.
               bindE (fs_brelse pid bp s2) (\<lambda>s3.
               bindE (bzero pid dev (of_nat (b + bi)) s3) (\<lambda>s4. Inr (of_nat (b + bi), s4)))))
       | None \<Rightarrow> bindE (fs_brelse pid bp s1) (balloc_loop pid dev bs)))"

definition balloc :: "int \<Rightarrow> u32 \<Rightarrow> fsys \<Rightarrow> (u32 \<times> fsys) kres" where
  "balloc pid dev s = balloc_loop pid dev (map (\<lambda>k. k * BPB) [0..<(unat (sb_size (fsb s)) + BPB - 1) div BPB]) s"

definition bfree :: "int \<Rightarrow> u32 \<Rightarrow> u32 \<Rightarrow> fsys \<Rightarrow> fsys kres" where
  "bfree pid dev b s =
    bindE (fs_bread pid dev (BBLOCK b (fsb s)) s) (\<lambda>(bp, s1).
      let bi = unat b mod BPB; d = bdata bp s1
      in if bit_clear d bi then Inl (Panic ''freeing free block'')
         else bindE (fs_log_write bp (fs_set bp (d[bi div 8 := d ! (bi div 8) AND NOT (bit_mask bi)]) s1)) (\<lambda>s2.
              fs_brelse pid bp s2))"

section \<open>Inodes\<close>

text \<open>The inode in slot \<open>inum % IPB\<close> of a block: four shorts, the size and the addresses.\<close>

definition dip_off :: "u32 \<Rightarrow> nat" where
  "dip_off inum = 64 * (unat inum mod IPB)"

definition load_dinode :: "block \<Rightarrow> nat \<Rightarrow> inode \<Rightarrow> inode" where
  "load_dinode d p ip = ip\<lparr>i_type := get16 d p, i_major := get16 d (p + 2), i_minor := get16 d (p + 4), i_nlink := get16 d (p + 6),
     i_size := get32 d (p + 8), i_addrs := map (\<lambda>j. get32 d (p + 12 + 4 * j)) [0..<NDIRECT + 1]\<rparr>"

fun put_addrs :: "nat \<Rightarrow> u32 list \<Rightarrow> block \<Rightarrow> block" where
  "put_addrs p [] d = d"
| "put_addrs p (a # as) d = put_addrs (p + 4) as (put32 p a d)"

definition store_dinode :: "inode \<Rightarrow> nat \<Rightarrow> block \<Rightarrow> block" where
  "store_dinode ip p d =
    put_addrs (p + 12) (i_addrs ip) (put32 (p + 8) (i_size ip) (put16 (p + 6) (i_nlink ip)
      (put16 (p + 4) (i_minor ip) (put16 (p + 2) (i_major ip) (put16 p (i_type ip) d)))))"

definition zero_dinode :: "nat \<Rightarrow> block \<Rightarrow> block" where
  "zero_dinode p d = take p d @ replicate 64 0 @ drop (p + 64) d"

definition iinit :: "fsys \<Rightarrow> fsys" where
  "iinit s = s\<lparr>itable := map (\<lambda>ip. ip\<lparr>i_locked := False, i_pid := 0\<rparr>) (itable s)\<rparr>"

definition iget :: "u32 \<Rightarrow> u32 \<Rightarrow> fsys \<Rightarrow> (nat \<times> fsys) kres" where
  "iget dev inum s =
    (case find_idx (\<lambda>ip. i_ref ip > 0 \<and> i_dev ip = dev \<and> i_inum ip = inum) (itable s) of
       Some ip \<Rightarrow> Inr (ip, upd_inode ip (\<lambda>x. x\<lparr>i_ref := i_ref x + 1\<rparr>) s)
     | None \<Rightarrow>
         (case find_idx (\<lambda>ip. i_ref ip = 0) (itable s) of
            None \<Rightarrow> Inl (Panic ''iget: no inodes'')
          | Some ip \<Rightarrow> Inr (ip, upd_inode ip (\<lambda>x. x\<lparr>i_dev := dev, i_inum := inum, i_ref := 1, i_valid := False\<rparr>) s)))"

fun ialloc_loop :: "int \<Rightarrow> u32 \<Rightarrow> u16 \<Rightarrow> nat list \<Rightarrow> fsys \<Rightarrow> (nat option \<times> fsys) kres" where
  "ialloc_loop pid dev type [] s = Inr (None, s)"
| "ialloc_loop pid dev type (inum # is) s =
    bindE (fs_bread pid dev (IBLOCK (of_nat inum) (fsb s)) s) (\<lambda>(bp, s1).
      let p = dip_off (of_nat inum)
      in if get16 (bdata bp s1) p = 0
         then bindE (fs_log_write bp (fs_set bp (put16 p type (zero_dinode p (bdata bp s1))) s1)) (\<lambda>s2.
              bindE (fs_brelse pid bp s2) (\<lambda>s3.
              bindE (iget dev (of_nat inum) s3) (\<lambda>(ip, s4). Inr (Some ip, s4))))
         else bindE (fs_brelse pid bp s1) (ialloc_loop pid dev type is))"

definition ialloc :: "int \<Rightarrow> u32 \<Rightarrow> u16 \<Rightarrow> fsys \<Rightarrow> (nat option \<times> fsys) kres" where
  "ialloc pid dev type s = ialloc_loop pid dev type [1..<unat (sb_ninodes (fsb s))] s"

definition iupdate :: "int \<Rightarrow> nat \<Rightarrow> fsys \<Rightarrow> fsys kres" where
  "iupdate pid ip s =
    (let x = inode_at ip s
     in bindE (fs_bread pid (i_dev x) (IBLOCK (i_inum x) (fsb s)) s) (\<lambda>(bp, s1).
        bindE (fs_log_write bp (fs_set bp (store_dinode x (dip_off (i_inum x)) (bdata bp s1)) s1)) (\<lambda>s2.
        fs_brelse pid bp s2)))"

definition idup :: "nat \<Rightarrow> fsys \<Rightarrow> fsys" where
  "idup ip = upd_inode ip (\<lambda>x. x\<lparr>i_ref := i_ref x + 1\<rparr>)"

definition inode_acquire :: "int \<Rightarrow> nat \<Rightarrow> fsys \<Rightarrow> fsys kres" where
  "inode_acquire pid ip s =
    (if i_locked (inode_at ip s) then Inl Blocked
     else Inr (upd_inode ip (\<lambda>x. x\<lparr>i_locked := True, i_pid := pid\<rparr>) s))"

definition inode_release :: "nat \<Rightarrow> fsys \<Rightarrow> fsys" where
  "inode_release ip = upd_inode ip (\<lambda>x. x\<lparr>i_locked := False, i_pid := 0\<rparr>)"

definition inode_holding :: "int \<Rightarrow> nat \<Rightarrow> fsys \<Rightarrow> bool" where
  "inode_holding pid ip s \<longleftrightarrow> i_locked (inode_at ip s) \<and> i_pid (inode_at ip s) = pid"

definition ilock :: "int \<Rightarrow> nat \<Rightarrow> fsys \<Rightarrow> fsys kres" where
  "ilock pid ip s =
    (if i_ref (inode_at ip s) < 1 then Inl (Panic ''ilock'')
     else bindE (inode_acquire pid ip s) (\<lambda>s1.
       let x = inode_at ip s1
       in if i_valid x then Inr s1
          else bindE (fs_bread pid (i_dev x) (IBLOCK (i_inum x) (fsb s1)) s1) (\<lambda>(bp, s2).
               bindE (fs_brelse pid bp (upd_inode ip (load_dinode (bdata bp s2) (dip_off (i_inum x))) s2)) (\<lambda>s3.
               let s4 = upd_inode ip (\<lambda>x. x\<lparr>i_valid := True\<rparr>) s3
               in if i_type (inode_at ip s4) = 0 then Inl (Panic ''ilock: no type'') else Inr s4))))"

definition iunlock :: "int \<Rightarrow> nat \<Rightarrow> fsys \<Rightarrow> fsys kres" where
  "iunlock pid ip s =
    (if \<not> inode_holding pid ip s \<or> i_ref (inode_at ip s) < 1 then Inl (Panic ''iunlock'')
     else Inr (inode_release ip s))"

definition ifree :: "int \<Rightarrow> u32 \<Rightarrow> u32 \<Rightarrow> fsys \<Rightarrow> fsys kres" where
  "ifree pid dev inum s =
    bindE (fs_bread pid dev (IBLOCK inum (fsb s)) s) (\<lambda>(bp, s1).
    bindE (fs_log_write bp (fs_set bp (put16 (dip_off inum) 0 (bdata bp s1)) s1)) (\<lambda>s2.
    fs_brelse pid bp s2))"

section \<open>Contents of inodes\<close>

text \<open>A direct address of an inode that is zero gets a new block.\<close>

definition set_addr :: "nat \<Rightarrow> nat \<Rightarrow> u32 \<Rightarrow> fsys \<Rightarrow> fsys" where
  "set_addr ip k addr = upd_inode ip (\<lambda>x. x\<lparr>i_addrs := (i_addrs x)[k := addr]\<rparr>)"

definition bmap_slot :: "int \<Rightarrow> nat \<Rightarrow> nat \<Rightarrow> fsys \<Rightarrow> (u32 \<times> fsys) kres" where
  "bmap_slot pid ip k s =
    (let x = inode_at ip s
     in if i_addrs x ! k = 0
        then bindE (balloc pid (i_dev x) s) (\<lambda>(addr, s1). Inr (addr, if addr = 0 then s1 else set_addr ip k addr s1))
        else Inr (i_addrs x ! k, s))"

text \<open>Entry \<open>bn\<close> of the indirect block at \<open>addr\<close>.\<close>

definition bmap_entry :: "int \<Rightarrow> nat \<Rightarrow> u32 \<Rightarrow> nat \<Rightarrow> fsys \<Rightarrow> (u32 \<times> fsys) kres" where
  "bmap_entry pid ip addr bn s =
    bindE (fs_bread pid (i_dev (inode_at ip s)) addr s) (\<lambda>(bp, s1).
      let a = get32 (bdata bp s1) (4 * bn)
      in bindE
           (if a = 0
            then bindE (balloc pid (i_dev (inode_at ip s1)) s1) (\<lambda>(a', s2).
              if a' = 0 then Inr (a', s2)
              else bindE (fs_log_write bp (fs_set bp (put32 (4 * bn) a' (bdata bp s2)) s2)) (\<lambda>s3. Inr (a', s3)))
            else Inr (a, s1))
           (\<lambda>(a', s2). bindE (fs_brelse pid bp s2) (\<lambda>s3. Inr (a', s3))))"

definition bmap :: "int \<Rightarrow> nat \<Rightarrow> nat \<Rightarrow> fsys \<Rightarrow> (u32 \<times> fsys) kres" where
  "bmap pid ip bn s =
    (if bn < NDIRECT then bmap_slot pid ip bn s
     else let bn' = bn - NDIRECT
       in if bn' < NINDIRECT
          then bindE (bmap_slot pid ip NDIRECT s) (\<lambda>(addr, s1).
            if addr = 0 then Inr (0, s1) else bmap_entry pid ip addr bn' s1)
          else Inl (Panic ''bmap: out of range''))"

fun itrunc_direct :: "int \<Rightarrow> nat \<Rightarrow> nat list \<Rightarrow> fsys \<Rightarrow> fsys kres" where
  "itrunc_direct pid ip [] s = Inr s"
| "itrunc_direct pid ip (i # is) s =
    (let x = inode_at ip s
     in if i_addrs x ! i \<noteq> 0
        then bindE (bfree pid (i_dev x) (i_addrs x ! i) s) (\<lambda>s1. itrunc_direct pid ip is (set_addr ip i 0 s1))
        else itrunc_direct pid ip is s)"

fun itrunc_indirect :: "int \<Rightarrow> nat \<Rightarrow> nat \<Rightarrow> nat list \<Rightarrow> fsys \<Rightarrow> fsys kres" where
  "itrunc_indirect pid ip bp [] s = Inr s"
| "itrunc_indirect pid ip bp (j # js) s =
    (let a = get32 (bdata bp s) (4 * j)
     in if a \<noteq> 0
        then bindE (bfree pid (i_dev (inode_at ip s)) a s) (itrunc_indirect pid ip bp js)
        else itrunc_indirect pid ip bp js s)"

definition itrunc :: "int \<Rightarrow> nat \<Rightarrow> fsys \<Rightarrow> fsys kres" where
  "itrunc pid ip s =
    bindE (itrunc_direct pid ip [0..<NDIRECT] s) (\<lambda>s1.
    bindE
      (let x = inode_at ip s1
       in if i_addrs x ! NDIRECT \<noteq> 0
          then bindE (fs_bread pid (i_dev x) (i_addrs x ! NDIRECT) s1) (\<lambda>(bp, s2).
               bindE (itrunc_indirect pid ip bp [0..<NINDIRECT] s2) (\<lambda>s3.
               bindE (fs_brelse pid bp s3) (\<lambda>s4.
               bindE (bfree pid (i_dev x) (i_addrs x ! NDIRECT) s4) (\<lambda>s5. Inr (set_addr ip NDIRECT 0 s5)))))
          else Inr s1)
      (\<lambda>s2. iupdate pid ip (upd_inode ip (\<lambda>x. x\<lparr>i_size := 0\<rparr>) s2)))"

definition iput :: "int \<Rightarrow> nat \<Rightarrow> fsys \<Rightarrow> fsys kres" where
  "iput pid ip s =
    (let x = inode_at ip s; last = (i_ref x = 1 \<and> i_valid x \<and> i_nlink x = 0)
     in bindE
          (if last
           then bindE (inode_acquire pid ip s) (\<lambda>s1.
                bindE (itrunc pid ip s1) (\<lambda>s2.
                Inr (inode_release ip (upd_inode ip (\<lambda>x. x\<lparr>i_valid := False\<rparr>) s2))))
           else Inr s)
          (\<lambda>s3. let s4 = upd_inode ip (\<lambda>x. x\<lparr>i_ref := i_ref x - 1\<rparr>) s3
                in if last then ifree pid (i_dev x) (i_inum x) s4 else Inr s4))"

definition iunlockput :: "int \<Rightarrow> nat \<Rightarrow> fsys \<Rightarrow> fsys kres" where
  "iunlockput pid ip s = bindE (iunlock pid ip s) (iput pid ip)"

definition fs_begin_op :: "fsys \<Rightarrow> fsys kres" where
  "fs_begin_op s = (case begin_op (flog s) of None \<Rightarrow> Inl Blocked | Some l \<Rightarrow> Inr (s\<lparr>flog := l\<rparr>))"

definition fs_end_op :: "int \<Rightarrow> fsys \<Rightarrow> fsys kres" where
  "fs_end_op pid s = bindE (end_op pid (flog s)) (\<lambda>l. Inr (s\<lparr>flog := l\<rparr>))"

fun ireclaim_loop :: "int \<Rightarrow> u32 \<Rightarrow> nat list \<Rightarrow> fsys \<Rightarrow> fsys kres" where
  "ireclaim_loop pid dev [] s = Inr s"
| "ireclaim_loop pid dev (inum # is) s =
    bindE (fs_bread pid dev (IBLOCK (of_nat inum) (fsb s)) s) (\<lambda>(bp, s1).
      let p = dip_off (of_nat inum); d = bdata bp s1
      in if get16 d p \<noteq> 0 \<and> get16 d (p + 6) = 0
         then bindE (iget dev (of_nat inum) s1) (\<lambda>(ip, s2).
              bindE (fs_brelse pid bp s2) (\<lambda>s3.
              bindE (fs_begin_op s3) (\<lambda>s4.
              bindE (ilock pid ip s4) (\<lambda>s5.
              bindE (iunlock pid ip s5) (\<lambda>s6.
              bindE (iput pid ip s6) (\<lambda>s7.
              bindE (fs_end_op pid s7) (ireclaim_loop pid dev is)))))))
         else bindE (fs_brelse pid bp s1) (ireclaim_loop pid dev is))"

definition ireclaim :: "int \<Rightarrow> u32 \<Rightarrow> fsys \<Rightarrow> fsys kres" where
  "ireclaim pid dev s = ireclaim_loop pid dev [1..<unat (sb_ninodes (fsb s))] s"

definition fsinit :: "int \<Rightarrow> u32 \<Rightarrow> fsys \<Rightarrow> fsys kres" where
  "fsinit pid dev s =
    bindE (readsb pid dev s) (\<lambda>s1.
      if sb_magic (fsb s1) \<noteq> FSMAGIC then Inl (Panic ''invalid file system'')
      else bindE (initlog pid dev (sb_logstart (fsb s1)) (flog s1)) (\<lambda>l. ireclaim pid dev (s1\<lparr>flog := l\<rparr>)))"

record stat =
  st_dev :: u32
  st_ino :: u32
  st_type :: u16
  st_nlink :: u16
  st_size :: u64

definition stati :: "inode \<Rightarrow> stat" where
  "stati ip = \<lparr>st_dev = i_dev ip, st_ino = i_inum ip, st_type = i_type ip, st_nlink = i_nlink ip, st_size = ucast (i_size ip)\<rparr>"

text \<open>
  \<open>cp dst bytes m\<close> copies to an address of the memory \<open>m\<close>, \<open>either_copyout\<close> for one value of
  \<open>user_dst\<close>; the result -1 is a failure.
\<close>

type_synonym 'm copier_out = "u64 \<Rightarrow> u8 list \<Rightarrow> 'm \<Rightarrow> (int \<times> 'm) kres"

function readi_loop :: "'m copier_out \<Rightarrow> int \<Rightarrow> nat \<Rightarrow> u64 \<Rightarrow> nat \<Rightarrow> nat \<Rightarrow> nat \<Rightarrow> fsys \<times> 'm \<Rightarrow> (u32 \<times> fsys \<times> 'm) kres" where
  "readi_loop cp pid ip dst off n tot (s, m) =
    (if tot < n
     then bindE (bmap pid ip (off div BSIZE) s) (\<lambda>(addr, s1).
       if addr = 0 then Inr (of_nat tot, s1, m)
       else bindE (fs_bread pid (i_dev (inode_at ip s1)) addr s1) (\<lambda>(bp, s2).
         let k = min (n - tot) (BSIZE - off mod BSIZE)
         in bindE (cp dst (take k (drop (off mod BSIZE) (bdata bp s2))) m) (\<lambda>(r, m').
            bindE (fs_brelse pid bp s2) (\<lambda>s3.
              if r = -1 then Inr (-1, s3, m')
              else readi_loop cp pid ip (dst + of_nat k) (off + k) n (tot + k) (s3, m')))))
     else Inr (of_nat tot, s, m))"
  by pat_completeness auto
termination
  by (relation "measure (\<lambda>(cp, pid, ip, dst, off, n, tot, sm). n - tot)") (auto simp: BSIZE_def)

declare readi_loop.simps [simp del]

text \<open>Behind the guards nothing wraps: \<open>off + n\<close> is at most the size.\<close>

definition readi :: "'m copier_out \<Rightarrow> int \<Rightarrow> nat \<Rightarrow> u64 \<Rightarrow> u32 \<Rightarrow> u32 \<Rightarrow> fsys \<times> 'm \<Rightarrow> (int \<times> fsys \<times> 'm) kres" where
  "readi cp pid ip dst off n sm =
    (let sz = i_size (inode_at ip (fst sm))
     in if off > sz \<or> off + n < off then Inr (0, fst sm, snd sm)
        else let n' = (if off + n > sz then sz - off else n)
          in bindE (readi_loop cp pid ip dst (unat off) (unat n') 0 sm) (\<lambda>(tot, s', m'). Inr (sint tot, s', m')))"

text \<open>
  \<open>cp src len m\<close> copies from an address, \<open>either_copyin\<close> for one value of \<open>user_src\<close>: the result
  and the bytes that were copied, fewer than \<open>len\<close> when it fails.
\<close>

type_synonym 'm copier_in = "u64 \<Rightarrow> u64 \<Rightarrow> 'm \<Rightarrow> (int \<times> u8 list \<times> 'm) kres"

definition put_bytes :: "nat \<Rightarrow> 'a list \<Rightarrow> 'a list \<Rightarrow> 'a list" where
  "put_bytes p ys xs = take p xs @ ys @ drop (p + length ys) xs"

function writei_loop :: "'m copier_in \<Rightarrow> int \<Rightarrow> nat \<Rightarrow> u64 \<Rightarrow> nat \<Rightarrow> nat \<Rightarrow> nat \<Rightarrow> fsys \<times> 'm \<Rightarrow> (nat \<times> nat \<times> fsys \<times> 'm) kres" where
  "writei_loop cp pid ip src off n tot (s, m) =
    (if tot < n
     then bindE (bmap pid ip (off div BSIZE) s) (\<lambda>(addr, s1).
       if addr = 0 then Inr (tot, off, s1, m)
       else bindE (fs_bread pid (i_dev (inode_at ip s1)) addr s1) (\<lambda>(bp, s2).
         let k = min (n - tot) (BSIZE - off mod BSIZE)
         in bindE (cp src (of_nat k) m) (\<lambda>(r, bytes, m').
            bindE (fs_log_write bp (fs_set bp (put_bytes (off mod BSIZE) bytes (bdata bp s2)) s2)) (\<lambda>s3.
            bindE (fs_brelse pid bp s3) (\<lambda>s4.
              if r = -1 then Inr (tot, off, s4, m')
              else writei_loop cp pid ip (src + of_nat k) (off + k) n (tot + k) (s4, m'))))))
     else Inr (tot, off, s, m))"
  by pat_completeness auto
termination
  by (relation "measure (\<lambda>(cp, pid, ip, src, off, n, tot, sm). n - tot)") (auto simp: BSIZE_def)

declare writei_loop.simps [simp del]

definition writei :: "'m copier_in \<Rightarrow> int \<Rightarrow> nat \<Rightarrow> u64 \<Rightarrow> u32 \<Rightarrow> u32 \<Rightarrow> fsys \<times> 'm \<Rightarrow> (int \<times> fsys \<times> 'm) kres" where
  "writei cp pid ip src off n sm =
    (let sz = i_size (inode_at ip (fst sm))
     in if off > sz \<or> off + n < off then Inr (-1, fst sm, snd sm)
        else if unat (off + n) > MAXFILE * BSIZE then Inr (-1, fst sm, snd sm)
        else bindE (writei_loop cp pid ip src (unat off) (unat n) 0 sm) (\<lambda>(tot, off', s', m').
          let s1 = (if off' > unat (i_size (inode_at ip s')) then upd_inode ip (\<lambda>x. x\<lparr>i_size := of_nat off'\<rparr>) s' else s')
          in bindE (iupdate pid ip s1) (\<lambda>s2. Inr (int tot, s2, m'))))"

section \<open>Directories\<close>

record dirent =
  de_inum :: u16
  de_name :: "u8 list"

definition DIRENT :: nat where "DIRENT = 2 + DIRSIZ"

definition get_dirent :: "u8 list \<Rightarrow> dirent" where
  "get_dirent d = \<lparr>de_inum = get16 d 0, de_name = take DIRSIZ (drop 2 d)\<rparr>"

definition put_dirent :: "dirent \<Rightarrow> u8 list" where
  "put_dirent de = put16 0 (de_inum de) (replicate 2 0) @ de_name de"

text \<open>The loop of \<open>strncmp\<close> on two strings; behind the end of a list is its terminator.\<close>

definition first_byte :: "u8 list \<Rightarrow> u8" where
  "first_byte s = (case s of [] \<Rightarrow> 0 | c # _ \<Rightarrow> c)"

fun namecmp_loop :: "nat \<Rightarrow> u8 list \<Rightarrow> u8 list \<Rightarrow> int" where
  "namecmp_loop 0 s t = 0"
| "namecmp_loop (Suc n) s t =
    (if first_byte s \<noteq> 0 \<and> first_byte s = first_byte t then namecmp_loop n (tl s) (tl t)
     else int (unat (first_byte s)) - int (unat (first_byte t)))"

definition namecmp :: "u8 list \<Rightarrow> u8 list \<Rightarrow> int" where
  "namecmp s t = namecmp_loop DIRSIZ s t"

text \<open>A copy to a local variable of the kernel, and from one.\<close>

definition kcopy_out :: "memory copier_out" where
  "kcopy_out dst src m = Inr (0, mem_write m dst src)"

definition kcopy_in :: "memory copier_in" where
  "kcopy_in src len m = Inr (0, mem_read m src (unat len), m)"

definition zero_mem :: memory where
  "zero_mem = (\<lambda>_. 0)"

text \<open>\<open>readi(dp, 0, (uint64)&de, off, sizeof(de))\<close> for a local variable \<open>de\<close>.\<close>

definition read_dirent :: "int \<Rightarrow> nat \<Rightarrow> nat \<Rightarrow> fsys \<Rightarrow> (int \<times> dirent \<times> fsys) kres" where
  "read_dirent pid dp off s =
    bindE (readi kcopy_out pid dp 0 (of_nat off) (of_nat DIRENT) (s, zero_mem)) (\<lambda>(r, s1, m).
      Inr (r, get_dirent (mem_read m 0 DIRENT), s1))"

fun dirlookup_loop :: "int \<Rightarrow> nat \<Rightarrow> u8 list \<Rightarrow> nat list \<Rightarrow> fsys \<Rightarrow> ((nat \<times> nat) option \<times> fsys) kres" where
  "dirlookup_loop pid dp name [] s = Inr (None, s)"
| "dirlookup_loop pid dp name (off # offs) s =
    bindE (read_dirent pid dp off s) (\<lambda>(r, de, s1).
      if r \<noteq> int DIRENT then Inl (Panic ''dirlookup read'')
      else if de_inum de = 0 then dirlookup_loop pid dp name offs s1
      else if namecmp name (de_name de) = 0
        then bindE (iget (i_dev (inode_at dp s1)) (ucast (de_inum de)) s1) (\<lambda>(ip, s2). Inr (Some (ip, off), s2))
        else dirlookup_loop pid dp name offs s1)"

text \<open>The offsets below the size; the loop cannot pass the last of them, since the read fails there.\<close>

definition dir_offs :: "u32 \<Rightarrow> nat list" where
  "dir_offs sz = map (\<lambda>k. k * DIRENT) [0..<(unat sz + DIRENT - 1) div DIRENT]"

text \<open>The inode found, with the offset of its entry.\<close>

definition dirlookup :: "int \<Rightarrow> nat \<Rightarrow> u8 list \<Rightarrow> fsys \<Rightarrow> ((nat \<times> nat) option \<times> fsys) kres" where
  "dirlookup pid dp name s =
    (if i_type (inode_at dp s) \<noteq> T_DIR then Inl (Panic ''dirlookup not DIR'')
     else dirlookup_loop pid dp name (dir_offs (i_size (inode_at dp s))) s)"

fun dirlink_scan :: "int \<Rightarrow> nat \<Rightarrow> nat list \<Rightarrow> fsys \<Rightarrow> (nat option \<times> fsys) kres" where
  "dirlink_scan pid dp [] s = Inr (None, s)"
| "dirlink_scan pid dp (off # offs) s =
    bindE (read_dirent pid dp off s) (\<lambda>(r, de, s1).
      if r \<noteq> int DIRENT then Inl (Panic ''dirlink read'')
      else if de_inum de = 0 then Inr (Some off, s1)
      else dirlink_scan pid dp offs s1)"

text \<open>\<open>strncpy(de.name, name, DIRSIZ)\<close> fills the rest of the name with zeros.\<close>

definition pad_name :: "u8 list \<Rightarrow> u8 list" where
  "pad_name name = take DIRSIZ (name @ replicate DIRSIZ 0)"

definition dirlink :: "int \<Rightarrow> nat \<Rightarrow> u8 list \<Rightarrow> u32 \<Rightarrow> fsys \<Rightarrow> (int \<times> fsys) kres" where
  "dirlink pid dp name inum s =
    bindE (dirlookup pid dp name s) (\<lambda>(found, s1).
      case found of
        Some (ip, _) \<Rightarrow> bindE (iput pid ip s1) (\<lambda>s2. Inr (-1, s2))
      | None \<Rightarrow>
          bindE (dirlink_scan pid dp (dir_offs (i_size (inode_at dp s1))) s1) (\<lambda>(free, s2).
            let off = (case free of Some off \<Rightarrow> off | None \<Rightarrow> length (dir_offs (i_size (inode_at dp s1))) * DIRENT);
                de = \<lparr>de_inum = ucast inum, de_name = pad_name name\<rparr>
            in bindE (writei kcopy_in pid dp 0 (of_nat off) (of_nat DIRENT) (s2, mem_write zero_mem 0 (put_dirent de))) (\<lambda>(r, s3, _).
               Inr (if r \<noteq> int DIRENT then -1 else 0, s3))))"

section \<open>Paths\<close>

definition slash :: u8 where "slash = 47"

text \<open>The element and the rest of the path; of a long element the first \<open>DIRSIZ\<close> bytes.\<close>

definition skipelem :: "u8 list \<Rightarrow> (u8 list \<times> u8 list) option" where
  "skipelem path =
    (let p1 = dropWhile (\<lambda>c. c = slash) path
     in if p1 = [] then None
        else let s = takeWhile (\<lambda>c. c \<noteq> slash) p1; p2 = dropWhile (\<lambda>c. c \<noteq> slash) p1
          in Some (if length s \<ge> DIRSIZ then take DIRSIZ s else s, dropWhile (\<lambda>c. c = slash) p2))"

lemma skipelem_shorter: "skipelem path = Some (name, rest) \<Longrightarrow> length rest < length path"
proof -
  assume a: "skipelem path = Some (name, rest)"
  let ?p1 = "dropWhile (\<lambda>c. c = slash) path"
  have p1: "?p1 \<noteq> []" "rest = dropWhile (\<lambda>c. c = slash) (dropWhile (\<lambda>c. c \<noteq> slash) ?p1)"
    using a by (auto simp: skipelem_def Let_def split: if_splits)
  then have "hd ?p1 \<noteq> slash" using hd_dropWhile [of "\<lambda>c. c = slash" path] by auto
  then have "length (dropWhile (\<lambda>c. c \<noteq> slash) ?p1) < length ?p1"
    using p1(1) by (cases ?p1) (auto simp: less_Suc_eq_le length_dropWhile_le)
  moreover have "length ?p1 \<le> length path" "length rest \<le> length (dropWhile (\<lambda>c. c \<noteq> slash) ?p1)"
    unfolding p1(2) by (rule length_dropWhile_le)+
  ultimately show ?thesis by linarith
qed

text \<open>The inode, and the last element when its parent is asked for.\<close>

function namex_loop :: "int \<Rightarrow> bool \<Rightarrow> nat \<Rightarrow> u8 list \<Rightarrow> u8 list \<Rightarrow> fsys \<Rightarrow> ((nat \<times> u8 list) option \<times> fsys) kres" where
  "namex_loop pid parent ip path name s =
    (case skipelem path of
       None \<Rightarrow> if parent then bindE (iput pid ip s) (\<lambda>s1. Inr (None, s1)) else Inr (Some (ip, name), s)
     | Some (name', path') \<Rightarrow>
         bindE (ilock pid ip s) (\<lambda>s1.
           if i_type (inode_at ip s1) \<noteq> T_DIR then bindE (iunlockput pid ip s1) (\<lambda>s2. Inr (None, s2))
           else if i_nlink (inode_at ip s1) = 0 then bindE (iunlockput pid ip s1) (\<lambda>s2. Inr (None, s2))
           else if parent \<and> path' = [] then bindE (iunlock pid ip s1) (\<lambda>s2. Inr (Some (ip, name'), s2))
           else bindE (dirlookup pid ip name' s1) (\<lambda>(next, s2).
             case next of
               None \<Rightarrow> bindE (iunlockput pid ip s2) (\<lambda>s3. Inr (None, s3))
             | Some (ip', _) \<Rightarrow> bindE (iunlockput pid ip s2) (\<lambda>s3. namex_loop pid parent ip' path' name' s3))))"
  by pat_completeness auto
termination
  by (relation "measure (\<lambda>(pid, parent, ip, path, name, s). length path)") (auto dest: skipelem_shorter)

declare namex_loop.simps [simp del]

definition namex :: "int \<Rightarrow> nat \<Rightarrow> u8 list \<Rightarrow> bool \<Rightarrow> fsys \<Rightarrow> ((nat \<times> u8 list) option \<times> fsys) kres" where
  "namex pid cwd path parent s =
    bindE (if first_byte path = slash then iget ROOTDEV ROOTINO s else Inr (cwd, idup cwd s))
      (\<lambda>(ip, s1). namex_loop pid parent ip path [] s1)"

definition namei :: "int \<Rightarrow> nat \<Rightarrow> u8 list \<Rightarrow> fsys \<Rightarrow> (nat option \<times> fsys) kres" where
  "namei pid cwd path s = bindE (namex pid cwd path False s) (\<lambda>(r, s1). Inr (map_option fst r, s1))"

definition nameiparent :: "int \<Rightarrow> nat \<Rightarrow> u8 list \<Rightarrow> fsys \<Rightarrow> ((nat \<times> u8 list) option \<times> fsys) kres" where
  "nameiparent pid cwd path s = namex pid cwd path True s"

end
