(* ===== verification/File.thy ===== *)
theory File
  imports Console Fs
begin

text \<open>
  Open files, \<open>xv6/kernel/file.c\<close> and \<open>file.h\<close>, and \<open>pipealloc\<close> of \<open>pipe.c\<close>.

  The state of the kernel is extended by the table of open files and by the file system. A pointer
  to a \<open>struct file\<close> is its index in the table. A system call runs here from its start to its end or
  to the first point where it waits: on a sleep lock or on the log it is \<open>Blocked\<close>, while a wait for a
  pipe or for the console is the result \<open>Wait\<close>, with the process registered on its channel.
\<close>

section \<open>State\<close>

definition NFILE :: nat where "NFILE = 100"
definition NOFILE :: nat where "NOFILE = 16"

datatype fdtype = FD_NONE | FD_PIPE | FD_INODE | FD_DEVICE

record kfile =
  f_type :: fdtype
  f_ref :: int
  f_readable :: bool
  f_writable :: bool
  f_pipe :: u64
  f_ip :: nat
  f_off :: u32
  f_major :: u16

record fstate = cstate +
  ftable :: "kfile list"
  fs :: fsys

definition upd_file :: "nat \<Rightarrow> (kfile \<Rightarrow> kfile) \<Rightarrow> 'z fstate_scheme \<Rightarrow> 'z fstate_scheme" where
  "upd_file f g st = st\<lparr>ftable := upd_nth f g (ftable st)\<rparr>"

text \<open>Operations of the file system, lifted to the state.\<close>

definition on_fs :: "(fsys \<Rightarrow> fsys kres) \<Rightarrow> 'z fstate_scheme \<Rightarrow> 'z fstate_scheme kres" where
  "on_fs g st = bindE (g (fs st)) (\<lambda>s. Inr (st\<lparr>fs := s\<rparr>))"

definition on_fs_r :: "(fsys \<Rightarrow> ('a \<times> fsys) kres) \<Rightarrow> 'z fstate_scheme \<Rightarrow> ('a \<times> 'z fstate_scheme) kres" where
  "on_fs_r g st = bindE (g (fs st)) (\<lambda>(r, s). Inr (r, st\<lparr>fs := s\<rparr>))"

text \<open>The pid of the current process, for the sleep locks.\<close>

definition with_pid :: "nat \<Rightarrow> 'z fstate_scheme \<Rightarrow> (int \<Rightarrow> 'a kres) \<Rightarrow> 'a kres" where
  "with_pid c st g = with_proc c st (\<lambda>pr. g (p_pid (proc_at pr st)))"

text \<open>\<open>readi\<close> to memory, of the process or of the kernel, and \<open>writei\<close> from the memory of the process.\<close>

definition mem_readi :: "kenv \<Rightarrow> nat \<Rightarrow> bool \<Rightarrow> nat \<Rightarrow> u64 \<Rightarrow> u32 \<Rightarrow> u32 \<Rightarrow> 'z fstate_scheme \<Rightarrow> (int \<times> 'z fstate_scheme) kres" where
  "mem_readi env c user_dst ip dst off n st = with_pid c st (\<lambda>pid.
     bindE (readi (either_copyout env c user_dst) pid ip dst off n (fs st, st)) (\<lambda>(r, s, st1). Inr (r, st1\<lparr>fs := s\<rparr>)))"

definition user_writei :: "kenv \<Rightarrow> nat \<Rightarrow> nat \<Rightarrow> u64 \<Rightarrow> u32 \<Rightarrow> u32 \<Rightarrow> 'z fstate_scheme \<Rightarrow> (int \<times> 'z fstate_scheme) kres" where
  "user_writei env c ip src off n st = with_pid c st (\<lambda>pid.
     bindE (writei (either_copyin env c True) pid ip src off n (fs st, st)) (\<lambda>(r, s, st1). Inr (r, st1\<lparr>fs := s\<rparr>)))"

section \<open>The table\<close>

definition filealloc :: "'z fstate_scheme \<Rightarrow> nat option \<times> 'z fstate_scheme" where
  "filealloc st =
     (case find_idx (\<lambda>f. f_ref f = 0) (ftable st) of
        None \<Rightarrow> (None, st)
      | Some f \<Rightarrow> (Some f, upd_file f (\<lambda>x. x\<lparr>f_ref := 1\<rparr>) st))"

definition filedup :: "nat \<Rightarrow> 'z fstate_scheme \<Rightarrow> 'z fstate_scheme kres" where
  "filedup f st =
     (if f_ref (ftable st ! f) < 1 then Inl (Panic ''filedup'')
      else Inr (upd_file f (\<lambda>x. x\<lparr>f_ref := f_ref x + 1\<rparr>) st))"

text \<open>\<open>begin_op(); iput(ip); end_op();\<close>\<close>

definition put_inode :: "nat \<Rightarrow> nat \<Rightarrow> 'z fstate_scheme \<Rightarrow> 'z fstate_scheme kres" where
  "put_inode c ip st = with_pid c st (\<lambda>pid.
     bindE (on_fs fs_begin_op st) (\<lambda>st1. bindE (on_fs (iput pid ip) st1) (on_fs (fs_end_op pid))))"

definition fileclose :: "kenv \<Rightarrow> nat \<Rightarrow> nat \<Rightarrow> 'z fstate_scheme \<Rightarrow> 'z fstate_scheme kres" where
  "fileclose env c f st =
     (let fl = ftable st ! f
      in if f_ref fl < 1 then Inl (Panic ''fileclose'')
         else if f_ref fl - 1 > 0 then Inr (upd_file f (\<lambda>x. x\<lparr>f_ref := f_ref x - 1\<rparr>) st)
         else let st1 = upd_file f (\<lambda>x. x\<lparr>f_ref := 0, f_type := FD_NONE\<rparr>) st
           in case f_type fl of
                FD_PIPE \<Rightarrow> pipeclose env (f_pipe fl) (f_writable fl) st1
              | FD_INODE \<Rightarrow> put_inode c (f_ip fl) st1
              | FD_DEVICE \<Rightarrow> put_inode c (f_ip fl) st1
              | FD_NONE \<Rightarrow> Inr st1)"

section \<open>Reading, writing and status\<close>

text \<open>
  The bytes of a \<open>struct stat\<close>. The compiler aligns \<open>size\<close>; the four bytes before it, \<open>pad\<close>, are what
  the stack held.
\<close>

definition stat_bytes :: "u8 list \<Rightarrow> stat \<Rightarrow> u8 list" where
  "stat_bytes pad s = bytes32 (st_dev s) @ bytes32 (st_ino s) @ put16 0 (st_type s) [0, 0] @ put16 0 (st_nlink s) [0, 0]
     @ pad @ map (\<lambda>k. ucast (drop_bit (8 * k) (st_size s))) [0..<8]"

definition filestat :: "kenv \<Rightarrow> nat \<Rightarrow> u8 list \<Rightarrow> nat \<Rightarrow> u64 \<Rightarrow> 'z fstate_scheme \<Rightarrow> (int \<times> 'z fstate_scheme) kres" where
  "filestat env c pad f addr st =
     (let fl = ftable st ! f
      in if f_type fl = FD_INODE \<or> f_type fl = FD_DEVICE
         then with_proc c st (\<lambda>pr.
           let p = proc_at pr st
           in bindE (on_fs (ilock (p_pid p) (f_ip fl)) st) (\<lambda>st1.
              let s = stati (inode_at (f_ip fl) (fs st1))
              in bindE (on_fs (iunlock (p_pid p) (f_ip fl)) st1) (\<lambda>st2.
                 bindE (on_mem (copyout (a_end env) (p_pagetable p) (p_sz p) addr (stat_bytes pad s)) st2) (\<lambda>(r, st3).
                   Inr (if r < 0 then -1 else 0, st3)))))
         else Inr (-1, st))"

definition fileread :: "kenv \<Rightarrow> nat \<Rightarrow> nat \<Rightarrow> u64 \<Rightarrow> int \<Rightarrow> 'z fstate_scheme \<Rightarrow> (pipe_res \<times> 'z fstate_scheme) kres" where
  "fileread env c f addr n st =
     (let fl = ftable st ! f
      in if \<not> f_readable fl \<or> n < 0 then Inr (Return (-1), st)
         else case f_type fl of
             FD_PIPE \<Rightarrow> piperead env c (f_pipe fl) addr n st
           | FD_DEVICE \<Rightarrow>
               if sint (f_major fl) < 0 \<or> sint (f_major fl) \<ge> int NDEV then Inr (Return (-1), st)
               else (case fst (devsw st ! nat (sint (f_major fl))) of
                       None \<Rightarrow> Inr (Return (-1), st)
                     | Some Dev_consoleread \<Rightarrow> consoleread env c True addr n st)
           | FD_INODE \<Rightarrow> with_pid c st (\<lambda>pid.
               bindE (on_fs (ilock pid (f_ip fl)) st) (\<lambda>st1.
               bindE (mem_readi env c True (f_ip fl) addr (f_off (ftable st1 ! f)) (of_int n) st1) (\<lambda>(r, st2).
                 let st3 = (if r > 0 then upd_file f (\<lambda>x. x\<lparr>f_off := f_off x + of_int r\<rparr>) st2 else st2)
                 in bindE (on_fs (iunlock pid (f_ip fl)) st3) (\<lambda>st4. Inr (Return r, st4)))))
           | FD_NONE \<Rightarrow> Inl (Panic ''fileread''))"

definition FILE_MAX :: int where
  "FILE_MAX = int (((MAXOPBLOCKS - 1 - 1 - 2) div 2) * BSIZE)"

text \<open>One turn of the loop of \<open>filewrite\<close>: the result of \<open>writei\<close>.\<close>

definition filewrite_chunk :: "kenv \<Rightarrow> nat \<Rightarrow> nat \<Rightarrow> u64 \<Rightarrow> int \<Rightarrow> 'z fstate_scheme \<Rightarrow> (int \<times> 'z fstate_scheme) kres" where
  "filewrite_chunk env c f src n1 st = with_pid c st (\<lambda>pid.
     let ip = f_ip (ftable st ! f)
     in bindE (on_fs fs_begin_op st) (\<lambda>st1.
        bindE (on_fs (ilock pid ip) st1) (\<lambda>st2.
        bindE (user_writei env c ip src (f_off (ftable st2 ! f)) (of_int n1) st2) (\<lambda>(r, st3).
          let st4 = (if r > 0 then upd_file f (\<lambda>x. x\<lparr>f_off := f_off x + of_int r\<rparr>) st3 else st3)
          in bindE (on_fs (iunlock pid ip) st4) (\<lambda>st5.
             bindE (on_fs (fs_end_op pid) st5) (\<lambda>st6. Inr (r, st6)))))))"

text \<open>The loop from \<open>i\<close> on; it returns the last \<open>i\<close>.\<close>

function filewrite_loop :: "kenv \<Rightarrow> nat \<Rightarrow> nat \<Rightarrow> u64 \<Rightarrow> int \<Rightarrow> int \<Rightarrow> 'z fstate_scheme \<Rightarrow> (int \<times> 'z fstate_scheme) kres" where
  "filewrite_loop env c f addr n i st =
     (if i < n
      then let n1 = (if n - i > FILE_MAX then FILE_MAX else n - i)
        in bindE (filewrite_chunk env c f (addr + of_int i) n1 st) (\<lambda>(r, st1).
             if r \<noteq> n1 then Inr (i, st1) else filewrite_loop env c f addr n (i + r) st1)
      else Inr (i, st))"
  by pat_completeness auto
termination
  by (relation "measure (\<lambda>(env, c, f, addr, n, i, st). nat (n - i))") (auto simp: FILE_MAX_def MAXOPBLOCKS_def BSIZE_def split: if_splits)

declare filewrite_loop.simps [simp del]

definition filewrite :: "kenv \<Rightarrow> nat \<Rightarrow> nat \<Rightarrow> u64 \<Rightarrow> int \<Rightarrow> 'z fstate_scheme \<Rightarrow> (pipe_res \<times> 'z fstate_scheme) kres" where
  "filewrite env c f addr n st =
     (let fl = ftable st ! f
      in if \<not> f_writable fl \<or> n < 0 then Inr (Return (-1), st)
         else case f_type fl of
             FD_PIPE \<Rightarrow> pipewrite env c (f_pipe fl) addr n 0 st
           | FD_DEVICE \<Rightarrow>
               if sint (f_major fl) < 0 \<or> sint (f_major fl) \<ge> int NDEV then Inr (Return (-1), st)
               else (case snd (devsw st ! nat (sint (f_major fl))) of
                       None \<Rightarrow> Inr (Return (-1), st)
                     | Some Dev_consolewrite \<Rightarrow> consolewrite env c True addr n st)
           | FD_INODE \<Rightarrow>
               bindE (filewrite_loop env c f addr n 0 st) (\<lambda>(i, st1). Inr (Return (if i = n then n else -1), st1))
           | FD_NONE \<Rightarrow> Inl (Panic ''filewrite''))"

section \<open>Pipes\<close>

text \<open>\<open>kalloc\<close> has filled the page, and so the buffer, with the byte 5.\<close>

definition new_pipe :: pipe where
  "new_pipe = \<lparr>pi_data = replicate PIPESIZE 5, nread = 0, nwrite = 0, readopen = True, writeopen = True\<rparr>"

definition pipealloc :: "kenv \<Rightarrow> nat \<Rightarrow> 'z fstate_scheme \<Rightarrow> ((nat \<times> nat) option \<times> 'z fstate_scheme) kres" where
  "pipealloc env c st =
     (case filealloc st of
        (None, st1) \<Rightarrow> Inr (None, st1)
      | (Some f0, st1) \<Rightarrow>
          (case filealloc st1 of
             (None, st2) \<Rightarrow> bindE (fileclose env c f0 st2) (\<lambda>st3. Inr (None, st3))
           | (Some f1, st2) \<Rightarrow>
               let (pi, km) = kalloc (kmemory st2); st3 = st2\<lparr>kmemory := km\<rparr>
               in if pi = 0
                  then bindE (fileclose env c f0 st3) (\<lambda>st4. bindE (fileclose env c f1 st4) (\<lambda>st5. Inr (None, st5)))
                  else Inr (Some (f0, f1),
                    upd_file f1 (\<lambda>x. x\<lparr>f_type := FD_PIPE, f_readable := False, f_writable := True, f_pipe := pi\<rparr>)
                      (upd_file f0 (\<lambda>x. x\<lparr>f_type := FD_PIPE, f_readable := True, f_writable := False, f_pipe := pi\<rparr>)
                        (upd_pipe pi (\<lambda>_. new_pipe) st3)))))"

end
