(* ===== verification/Exec.thy ===== *)
theory Exec
  imports File
begin

text \<open>
  Arguments of system calls, the first part of \<open>xv6/kernel/syscall.c\<close>, and \<open>exec.c\<close>. The trapframe of a
  process is a page of the kernel's memory; its fields are at the offsets of \<open>struct trapframe\<close>. The
  strings of \<open>argv\<close> are passed as their bytes.
\<close>

section \<open>The trapframe\<close>

definition TF_epc :: u64 where "TF_epc = 24"
definition TF_sp :: u64 where "TF_sp = 48"
definition TF_a :: "nat \<Rightarrow> u64" where "TF_a k = 112 + 8 * of_nat k"

definition tf_get :: "u64 \<Rightarrow> nat \<Rightarrow> 'z kstate_scheme \<Rightarrow> u64" where
  "tf_get field pr st = load64 (mem (kmemory st)) (p_trapframe (proc_at pr st) + field)"

definition tf_set :: "u64 \<Rightarrow> u64 \<Rightarrow> nat \<Rightarrow> 'z kstate_scheme \<Rightarrow> 'z kstate_scheme" where
  "tf_set field v pr st =
     st\<lparr>kmemory := (kmemory st)\<lparr>mem := store64 (mem (kmemory st)) (p_trapframe (proc_at pr st) + field) v\<rparr>\<rparr>"

section \<open>Arguments\<close>

definition argraw :: "nat \<Rightarrow> nat \<Rightarrow> 'z kstate_scheme \<Rightarrow> u64 kres" where
  "argraw c n st = with_proc c st (\<lambda>pr. if n \<le> 5 then Inr (tf_get (TF_a n) pr st) else Inl (Panic ''argraw''))"

definition argint :: "nat \<Rightarrow> nat \<Rightarrow> 'z kstate_scheme \<Rightarrow> int kres" where
  "argint c n st = bindE (argraw c n st) (\<lambda>v. Inr (sint (ucast v :: u32)))"

definition argaddr :: "nat \<Rightarrow> nat \<Rightarrow> 'z kstate_scheme \<Rightarrow> u64 kres" where
  "argaddr c n st = argraw c n st"

text \<open>The value that eight bytes hold, and the bytes of a value.\<close>

definition value64 :: "u8 list \<Rightarrow> u64" where
  "value64 bs = load64 (mem_write zero_mem 0 bs) 0"

definition bytes64 :: "u64 \<Rightarrow> u8 list" where
  "bytes64 v = map (\<lambda>k. ucast (drop_bit (8 * k) v)) [0..<8]"

definition fetchaddr :: "kenv \<Rightarrow> nat \<Rightarrow> u64 \<Rightarrow> 'z kstate_scheme \<Rightarrow> (u64 option \<times> 'z kstate_scheme) kres" where
  "fetchaddr env c addr st = with_proc c st (\<lambda>pr.
     let p = proc_at pr st
     in if addr \<ge> p_sz p \<or> addr + 8 > p_sz p then Inr (None, st)
        else bindE (copyin (a_end env) (p_pagetable p) (p_sz p) addr 8 (kmemory st)) (\<lambda>(r, bs, km).
          Inr (if r \<noteq> 0 then None else Some (value64 bs), st\<lparr>kmemory := km\<rparr>)))"

text \<open>The string without its terminator, and the bytes that have been put into the buffer.\<close>

definition fetchstr :: "kenv \<Rightarrow> nat \<Rightarrow> u64 \<Rightarrow> u64 \<Rightarrow> 'z kstate_scheme \<Rightarrow> ((u8 list option \<times> u8 list) \<times> 'z kstate_scheme) kres" where
  "fetchstr env c addr mx st = with_proc c st (\<lambda>pr.
     let p = proc_at pr st
     in bindE (copyinstr (a_end env) (p_pagetable p) (p_sz p) addr mx (kmemory st)) (\<lambda>(r, bs, km).
          Inr ((if r < 0 then None else Some (takeWhile (\<lambda>b. b \<noteq> 0) bs), bs), st\<lparr>kmemory := km\<rparr>)))"

definition argstr :: "kenv \<Rightarrow> nat \<Rightarrow> nat \<Rightarrow> u64 \<Rightarrow> 'z kstate_scheme \<Rightarrow> (u8 list option \<times> 'z kstate_scheme) kres" where
  "argstr env c n mx st =
     bindE (argaddr c n st) (\<lambda>addr. bindE (fetchstr env c addr mx st) (\<lambda>((s, _), st1). Inr (s, st1)))"

section \<open>Loading a program\<close>

definition ELF_MAGIC :: u32 where "ELF_MAGIC = 0x464C457F"
definition ELF_PROG_LOAD :: u32 where "ELF_PROG_LOAD = 1"
definition MAXARG :: nat where "MAXARG = 32"
definition MAXPATH :: u64 where "MAXPATH = 128"
definition USERSTACK :: u64 where "USERSTACK = 1"

record elfhdr =
  e_magic :: u32
  e_entry :: u64
  e_phoff :: u64
  e_phnum :: u16

record proghdr =
  ph_type :: u32
  ph_flags :: u32
  ph_off :: u64
  ph_vaddr :: u64
  ph_filesz :: u64
  ph_memsz :: u64

definition get_elfhdr :: "u8 list \<Rightarrow> elfhdr" where
  "get_elfhdr d = \<lparr>e_magic = get32 d 0, e_entry = value64 (take 8 (drop 24 d)), e_phoff = value64 (take 8 (drop 32 d)), e_phnum = get16 d 56\<rparr>"

definition get_proghdr :: "u8 list \<Rightarrow> proghdr" where
  "get_proghdr d = \<lparr>ph_type = get32 d 0, ph_flags = get32 d 4, ph_off = value64 (take 8 (drop 8 d)), ph_vaddr = value64 (take 8 (drop 16 d)),
     ph_filesz = value64 (take 8 (drop 32 d)), ph_memsz = value64 (take 8 (drop 40 d))\<rparr>"

text \<open>\<open>readi(ip, 0, (uint64)&x, off, n)\<close> for a local variable \<open>x\<close>: the result and the bytes of \<open>x\<close>.\<close>

definition read_local :: "int \<Rightarrow> nat \<Rightarrow> u32 \<Rightarrow> nat \<Rightarrow> fsys \<Rightarrow> ((int \<times> u8 list) \<times> fsys) kres" where
  "read_local pid ip off n s =
     bindE (readi kcopy_out pid ip 0 off (of_nat n) (s, zero_mem)) (\<lambda>(r, s1, m). Inr ((r, mem_read m 0 n), s1))"

definition flags2perm :: "u32 \<Rightarrow> u64" where
  "flags2perm flags =
     (let perm = (if flags AND 1 \<noteq> 0 then PTE_X else 0) in if flags AND 2 \<noteq> 0 then perm OR PTE_W else perm)"

text \<open>
  The loop of \<open>loadseg\<close> from \<open>i\<close> on. The counter is a \<open>uint\<close>: it wraps for a segment of more than
  \<open>2 ^ 32 - PGSIZE\<close> bytes, and then the loop does not end.
\<close>

function loadseg_loop :: "kenv \<Rightarrow> nat \<Rightarrow> u64 \<Rightarrow> u64 \<Rightarrow> nat \<Rightarrow> u32 \<Rightarrow> nat \<Rightarrow> nat \<Rightarrow> 'z fstate_scheme \<Rightarrow> (int \<times> 'z fstate_scheme) kres" where
  "loadseg_loop env c pagetable va ip offset sz i st =
     (if i < sz
      then bindE (walkaddr pagetable (va + of_nat i) (kmemory st)) (\<lambda>pa.
          if pa = 0 then Inl (Panic ''loadseg: address should exist'')
          else let n = (if sz - i < PGSIZE then sz - i else PGSIZE)
            in bindE (mem_readi env c False ip pa (offset + of_nat i) (of_nat n) st) (\<lambda>(r, st1).
                 if r \<noteq> int n then Inr (-1, st1)
                 else if i + PGSIZE \<ge> 2 ^ 32 then Inl OutOfFuel
                 else loadseg_loop env c pagetable va ip offset sz (i + PGSIZE) st1))
      else Inr (0, st))"
  by pat_completeness auto
termination
  by (relation "measure (\<lambda>(env, c, pt, va, ip, offset, sz, i, st). sz - i)") (auto simp: PGSIZE_def)

declare loadseg_loop.simps [simp del]

definition loadseg :: "kenv \<Rightarrow> nat \<Rightarrow> u64 \<Rightarrow> u64 \<Rightarrow> nat \<Rightarrow> u32 \<Rightarrow> u32 \<Rightarrow> 'z fstate_scheme \<Rightarrow> (int \<times> 'z fstate_scheme) kres" where
  "loadseg env c pagetable va ip offset sz st = loadseg_loop env c pagetable va ip offset (unat sz) 0 st"

text \<open>
  The loop of \<open>kexec\<close> over the \<open>k\<close> program headers that are left. It returns the size reached, and whether
  all went well.
\<close>

fun exec_segments :: "kenv \<Rightarrow> nat \<Rightarrow> int \<Rightarrow> nat \<Rightarrow> u64 \<Rightarrow> u32 \<Rightarrow> nat \<Rightarrow> u64 \<Rightarrow> 'z fstate_scheme \<Rightarrow> ((bool \<times> u64) \<times> 'z fstate_scheme) kres" where
  "exec_segments env c pid ip pagetable off 0 sz st = Inr ((True, sz), st)"
| "exec_segments env c pid ip pagetable off (Suc k) sz st =
     bindE (on_fs_r (read_local pid ip off 56) st) (\<lambda>((r, d), st1).
       let ph = get_proghdr d
       in if r \<noteq> 56 then Inr ((False, sz), st1)
          else if ph_type ph \<noteq> ELF_PROG_LOAD then exec_segments env c pid ip pagetable (off + 56) k sz st1
          else if ph_memsz ph < ph_filesz ph then Inr ((False, sz), st1)
          else if ph_vaddr ph + ph_memsz ph < ph_vaddr ph then Inr ((False, sz), st1)
          else if unat (ph_vaddr ph) mod PGSIZE \<noteq> 0 then Inr ((False, sz), st1)
          else bindE (on_mem (uvmalloc (a_end env) pagetable sz (ph_vaddr ph + ph_memsz ph) (flags2perm (ph_flags ph))) st1) (\<lambda>(sz1, st2).
            if sz1 = 0 then Inr ((False, sz), st2)
            else bindE (loadseg env c pagetable (ph_vaddr ph) ip (ucast (ph_off ph)) (ucast (ph_filesz ph)) st2) (\<lambda>(r, st3).
              if r < 0 then Inr ((False, sz1), st3)
              else exec_segments env c pid ip pagetable (off + 56) k sz1 st3)))"

text \<open>The label \<open>bad\<close>: the new page table is freed when there is one, and the inode is put while it is held.\<close>

definition exec_bad :: "kenv \<Rightarrow> int \<Rightarrow> u64 \<Rightarrow> u64 \<Rightarrow> nat option \<Rightarrow> 'z fstate_scheme \<Rightarrow> (int \<times> 'z fstate_scheme) kres" where
  "exec_bad env pid pagetable sz ip st =
     bindE (if pagetable \<noteq> 0 then on_mem' (proc_freepagetable env pagetable sz) st else Inr st) (\<lambda>st1.
     bindE (case ip of
              None \<Rightarrow> Inr st1
            | Some ip \<Rightarrow> bindE (on_fs (iunlockput pid ip) st1) (on_fs (fs_end_op pid))) (\<lambda>st2.
     Inr (-1, st2)))"

text \<open>
  The loop over \<open>argv\<close> on the new stack, with the addresses so far; \<open>None\<close> is \<open>goto bad\<close>. The array
  \<open>ustack\<close> has \<open>MAXARG\<close> elements, one of them for the final 0.
\<close>

fun exec_args :: "kenv \<Rightarrow> u64 \<Rightarrow> u64 \<Rightarrow> u64 \<Rightarrow> u64 \<Rightarrow> u8 list list \<Rightarrow> u64 list \<Rightarrow> 'z fstate_scheme \<Rightarrow> ((u64 \<times> u64 list) option \<times> 'z fstate_scheme) kres" where
  "exec_args env pagetable sz stackbase sp [] ustack st = (if length ustack \<ge> MAXARG then Inl Undefined else Inr (Some (sp, ustack), st))"
| "exec_args env pagetable sz stackbase sp (arg # args) ustack st =
     (let sp1 = sp - (of_nat (length arg) + 1); sp2 = sp1 - sp1 mod 16
      in if sp2 < stackbase then Inr (None, st)
         else bindE (on_mem (copyout (a_end env) pagetable sz sp2 (arg @ [0])) st) (\<lambda>(r, st1).
           if r < 0 then Inr (None, st1)
           else if length ustack \<ge> MAXARG then Inl Undefined
           else exec_args env pagetable sz stackbase sp2 args (ustack @ [sp2]) st1))"

text \<open>The part of a path after its last slash, and the name that \<open>safestrcpy\<close> keeps of it.\<close>

definition last_elem :: "u8 list \<Rightarrow> u8 list" where
  "last_elem path = rev (takeWhile (\<lambda>b. b \<noteq> slash) (rev path))"

definition proc_name :: "u8 list \<Rightarrow> string" where
  "proc_name s = map (\<lambda>b. char_of (unat b)) (take 15 s)"

text \<open>
  \<open>kexec\<close> from \<open>p = myproc()\<close> on, when the program is loaded: the stack, the arguments, and the switch to
  the new image.
\<close>

definition exec_image :: "kenv \<Rightarrow> nat \<Rightarrow> u8 list \<Rightarrow> u8 list list \<Rightarrow> u64 \<Rightarrow> u64 \<Rightarrow> u64 \<Rightarrow> 'z fstate_scheme \<Rightarrow> (int \<times> 'z fstate_scheme) kres" where
  "exec_image env pr path argv entry pagetable sz0 st =
     (let oldsz = p_sz (proc_at pr st); pid = p_pid (proc_at pr st); sz = PGROUNDUP sz0
      in bindE (on_mem (uvmalloc (a_end env) pagetable sz (sz + (USERSTACK + 1) * PGSIZE64) PTE_W) st) (\<lambda>(sz1, st1).
        if sz1 = 0 then exec_bad env pid pagetable sz None st1
        else bindE (on_mem' (uvmclear pagetable (sz1 - (USERSTACK + 1) * PGSIZE64)) st1) (\<lambda>st2.
          let stackbase = sz1 - USERSTACK * PGSIZE64
          in bindE (exec_args env pagetable sz1 stackbase sz1 argv [] st2) (\<lambda>(args, st3).
             case args of
               None \<Rightarrow> exec_bad env pid pagetable sz1 None st3
             | Some (sp1, ustack) \<Rightarrow>
                 let sp2 = sp1 - (of_nat (length argv) + 1) * 8; sp = sp2 - sp2 mod 16
                 in if sp < stackbase then exec_bad env pid pagetable sz1 None st3
                    else bindE (on_mem (copyout (a_end env) pagetable sz1 sp (concat (map bytes64 (ustack @ [0])))) st3) (\<lambda>(r, st4).
                      if r < 0 then exec_bad env pid pagetable sz1 None st4
                      else let st5 = tf_set (TF_a 1) sp pr st4;
                               oldpagetable = p_pagetable (proc_at pr st5);
                               st6 = upd_proc pr (\<lambda>p. p\<lparr>p_name := proc_name (last_elem path), p_pagetable := pagetable, p_sz := sz1\<rparr>) st5;
                               st7 = tf_set TF_sp sp pr (tf_set TF_epc entry pr st6)
                        in bindE (on_mem' (proc_freepagetable env oldpagetable oldsz) st7) (\<lambda>st8. Inr (int (length argv), st8)))))))"

text \<open>\<open>namei\<close> and \<open>nameiparent\<close> in the directory of the process; a relative path needs one.\<close>

definition with_cwd :: "nat \<Rightarrow> u8 list \<Rightarrow> 'z fstate_scheme \<Rightarrow> (nat \<Rightarrow> 'a kres) \<Rightarrow> 'a kres" where
  "with_cwd c path st g = with_proc c st (\<lambda>pr.
     case p_cwd (proc_at pr st) of
       Some d \<Rightarrow> g d
     | None \<Rightarrow> if first_byte path = slash then g 0 else Inl (Panic ''kerneltrap''))"

definition kexec :: "kenv \<Rightarrow> nat \<Rightarrow> u8 list \<Rightarrow> u8 list list \<Rightarrow> 'z fstate_scheme \<Rightarrow> (int \<times> 'z fstate_scheme) kres" where
  "kexec env c path argv st = with_proc c st (\<lambda>pr.
     let pid = p_pid (proc_at pr st)
     in bindE (on_fs fs_begin_op st) (\<lambda>st1.
        bindE (with_cwd c path st1 (\<lambda>cwd. on_fs_r (namei pid cwd path) st1)) (\<lambda>(found, st2).
        case found of
          None \<Rightarrow> bindE (on_fs (fs_end_op pid) st2) (\<lambda>st3. Inr (-1, st3))
        | Some ip \<Rightarrow>
            bindE (on_fs (ilock pid ip) st2) (\<lambda>st3.
            bindE (on_fs_r (read_local pid ip 0 64) st3) (\<lambda>((r, d), st4).
              let elf = get_elfhdr d
              in if r \<noteq> 64 then exec_bad env pid 0 0 (Some ip) st4
                 else if e_magic elf \<noteq> ELF_MAGIC then exec_bad env pid 0 0 (Some ip) st4
                 else bindE (on_mem (proc_pagetable env (p_trapframe (proc_at pr st4))) st4) (\<lambda>(pagetable, st5).
                   if pagetable = 0 then exec_bad env pid 0 0 (Some ip) st5
                   else bindE (exec_segments env c pid ip pagetable (ucast (e_phoff elf)) (unat (e_phnum elf)) 0 st5) (\<lambda>((ok, sz), st6).
                     if \<not> ok then exec_bad env pid pagetable sz (Some ip) st6
                     else bindE (on_fs (iunlockput pid ip) st6) (\<lambda>st7.
                          bindE (on_fs (fs_end_op pid) st7) (\<lambda>st8.
                          exec_image env pr path argv (e_entry elf) pagetable sz st8)))))))))"

end
