(* ===== verification/Sysfile.thy ===== *)
theory Sysfile
  imports Exec
begin

text \<open>
  The system calls on files, \<open>xv6/kernel/sysfile.c\<close>. A result \<open>Return r\<close> is the value that the call
  returns, \<open>Wait\<close> a call that sleeps. A pointer to an inode is its index; the operations on names and
  inodes are functions of the state of the file system.
\<close>

section \<open>Descriptors\<close>

definition NLINK_MAX :: int where "NLINK_MAX = 32767"
definition O_WRONLY :: u32 where "O_WRONLY = 0x001"
definition O_RDWR :: u32 where "O_RDWR = 0x002"
definition O_CREATE :: u32 where "O_CREATE = 0x200"
definition O_TRUNC :: u32 where "O_TRUNC = 0x400"

text \<open>The descriptor and its file.\<close>

definition argfd :: "nat \<Rightarrow> nat \<Rightarrow> 'z fstate_scheme \<Rightarrow> (nat \<times> nat) option kres" where
  "argfd c n st = with_proc c st (\<lambda>pr.
     bindE (argint c n st) (\<lambda>fd.
       if fd < 0 \<or> fd \<ge> int NOFILE then Inr None
       else Inr (map_option (Pair (nat fd)) (p_ofile (proc_at pr st) ! nat fd))))"

definition set_ofile :: "nat \<Rightarrow> nat \<Rightarrow> nat option \<Rightarrow> 'z fstate_scheme \<Rightarrow> 'z fstate_scheme" where
  "set_ofile pr fd f st = upd_proc pr (\<lambda>p. p\<lparr>p_ofile := (p_ofile p)[fd := f]\<rparr>) st"

definition fdalloc :: "nat \<Rightarrow> nat \<Rightarrow> 'z fstate_scheme \<Rightarrow> (nat option \<times> 'z fstate_scheme) kres" where
  "fdalloc c f st = with_proc c st (\<lambda>pr.
     case find_idx (\<lambda>x. x = None) (p_ofile (proc_at pr st)) of
       None \<Rightarrow> Inr (None, st)
     | Some fd \<Rightarrow> Inr (Some fd, set_ofile pr fd (Some f) st))"

definition sys_dup :: "nat \<Rightarrow> 'z fstate_scheme \<Rightarrow> (pipe_res \<times> 'z fstate_scheme) kres" where
  "sys_dup c st = bindE (argfd c 0 st) (\<lambda>fdf.
     case fdf of
       None \<Rightarrow> Inr (Return (-1), st)
     | Some (_, f) \<Rightarrow> bindE (fdalloc c f st) (\<lambda>(fd, st1).
         case fd of
           None \<Rightarrow> Inr (Return (-1), st1)
         | Some fd \<Rightarrow> bindE (filedup f st1) (\<lambda>st2. Inr (Return (int fd), st2))))"

definition sys_read :: "kenv \<Rightarrow> nat \<Rightarrow> 'z fstate_scheme \<Rightarrow> (pipe_res \<times> 'z fstate_scheme) kres" where
  "sys_read env c st = bindE (argaddr c 1 st) (\<lambda>p. bindE (argint c 2 st) (\<lambda>n. bindE (argfd c 0 st) (\<lambda>fdf.
     case fdf of None \<Rightarrow> Inr (Return (-1), st) | Some (_, f) \<Rightarrow> fileread env c f p n st)))"

definition sys_write :: "kenv \<Rightarrow> nat \<Rightarrow> 'z fstate_scheme \<Rightarrow> (pipe_res \<times> 'z fstate_scheme) kres" where
  "sys_write env c st = bindE (argaddr c 1 st) (\<lambda>p. bindE (argint c 2 st) (\<lambda>n. bindE (argfd c 0 st) (\<lambda>fdf.
     case fdf of None \<Rightarrow> Inr (Return (-1), st) | Some (_, f) \<Rightarrow> filewrite env c f p n st)))"

definition sys_close :: "kenv \<Rightarrow> nat \<Rightarrow> 'z fstate_scheme \<Rightarrow> (pipe_res \<times> 'z fstate_scheme) kres" where
  "sys_close env c st = bindE (argfd c 0 st) (\<lambda>fdf.
     case fdf of
       None \<Rightarrow> Inr (Return (-1), st)
     | Some (fd, f) \<Rightarrow> with_proc c st (\<lambda>pr.
         bindE (fileclose env c f (set_ofile pr fd None st)) (\<lambda>st1. Inr (Return 0, st1))))"

definition sys_fstat :: "kenv \<Rightarrow> nat \<Rightarrow> u8 list \<Rightarrow> 'z fstate_scheme \<Rightarrow> (pipe_res \<times> 'z fstate_scheme) kres" where
  "sys_fstat env c pad st = bindE (argaddr c 1 st) (\<lambda>addr. bindE (argfd c 0 st) (\<lambda>fdf.
     case fdf of
       None \<Rightarrow> Inr (Return (-1), st)
     | Some (_, f) \<Rightarrow> bindE (filestat env c pad f addr st) (\<lambda>(r, st1). Inr (Return r, st1))))"

section \<open>Links\<close>

text \<open>\<open>end_op(); return r;\<close>\<close>

definition op_return :: "int \<Rightarrow> 'a \<Rightarrow> fsys \<Rightarrow> ('a \<times> fsys) kres" where
  "op_return pid r s = bindE (fs_end_op pid s) (\<lambda>s1. Inr (r, s1))"

text \<open>\<open>iunlockput(ip); end_op(); return -1;\<close>\<close>

definition put_fail :: "int \<Rightarrow> nat \<Rightarrow> fsys \<Rightarrow> (int \<times> fsys) kres" where
  "put_fail pid ip s = bindE (iunlockput pid ip s) (op_return pid (-1))"

definition add_nlink :: "nat \<Rightarrow> u16 \<Rightarrow> fsys \<Rightarrow> fsys" where
  "add_nlink ip k = upd_inode ip (\<lambda>x. x\<lparr>i_nlink := i_nlink x + k\<rparr>)"

text \<open>The label \<open>bad\<close> of \<open>sys_link\<close>.\<close>

definition link_bad :: "int \<Rightarrow> nat \<Rightarrow> fsys \<Rightarrow> (int \<times> fsys) kres" where
  "link_bad pid ip s =
     bindE (ilock pid ip s) (\<lambda>s1. bindE (iupdate pid ip (add_nlink ip (-1) s1)) (put_fail pid ip))"

text \<open>\<open>sys_link\<close> behind its arguments.\<close>

definition fs_link :: "int \<Rightarrow> nat \<Rightarrow> u8 list \<Rightarrow> u8 list \<Rightarrow> fsys \<Rightarrow> (int \<times> fsys) kres" where
  "fs_link pid cwd old new s =
     bindE (fs_begin_op s) (\<lambda>s1.
     bindE (namei pid cwd old s1) (\<lambda>(found, s2).
     case found of
       None \<Rightarrow> op_return pid (-1) s2
     | Some ip \<Rightarrow>
         bindE (ilock pid ip s2) (\<lambda>s3.
           if i_type (inode_at ip s3) = T_DIR then put_fail pid ip s3
           else if sint (i_nlink (inode_at ip s3)) \<ge> NLINK_MAX then put_fail pid ip s3
           else
             bindE (iupdate pid ip (add_nlink ip 1 s3)) (\<lambda>s4.
             bindE (iunlock pid ip s4) (\<lambda>s5.
             bindE (nameiparent pid cwd new s5) (\<lambda>(parent, s6).
             case parent of
               None \<Rightarrow> link_bad pid ip s6
             | Some (dp, name) \<Rightarrow>
                 bindE (ilock pid dp s6) (\<lambda>s7.
                   if i_nlink (inode_at dp s7) = 0 then bindE (iunlockput pid dp s7) (link_bad pid ip)
                   else bindE (if i_dev (inode_at dp s7) \<noteq> i_dev (inode_at ip s7) then Inr (-1, s7)
                               else dirlink pid dp name (i_inum (inode_at ip s7)) s7) (\<lambda>(r, s8).
                     if r < 0 then bindE (iunlockput pid dp s8) (link_bad pid ip)
                     else bindE (iunlockput pid dp s8) (\<lambda>s9. bindE (iput pid ip s9) (op_return pid 0))))))))))"

definition sys_link :: "kenv \<Rightarrow> nat \<Rightarrow> 'z fstate_scheme \<Rightarrow> (pipe_res \<times> 'z fstate_scheme) kres" where
  "sys_link env c st = with_pid c st (\<lambda>pid.
     bindE (argstr env c 0 MAXPATH st) (\<lambda>(old, st1).
     case old of
       None \<Rightarrow> Inr (Return (-1), st1)
     | Some old \<Rightarrow>
         bindE (argstr env c 1 MAXPATH st1) (\<lambda>(new, st2).
         case new of
           None \<Rightarrow> Inr (Return (-1), st2)
         | Some new \<Rightarrow> with_cwd c old st2 (\<lambda>_. with_cwd c new st2 (\<lambda>cwd.
             bindE (on_fs_r (fs_link pid cwd old new) st2) (\<lambda>(r, st3). Inr (Return r, st3)))))))"

text \<open>The loop of \<open>isdirempty\<close> over the offsets that are left.\<close>

fun isdirempty_loop :: "int \<Rightarrow> nat \<Rightarrow> nat list \<Rightarrow> fsys \<Rightarrow> (bool \<times> fsys) kres" where
  "isdirempty_loop pid dp [] s = Inr (True, s)"
| "isdirempty_loop pid dp (off # offs) s =
     bindE (read_dirent pid dp off s) (\<lambda>(r, de, s1).
       if r \<noteq> int DIRENT then Inl (Panic ''isdirempty: readi'')
       else if de_inum de \<noteq> 0 then Inr (False, s1)
       else isdirempty_loop pid dp offs s1)"

definition isdirempty :: "int \<Rightarrow> nat \<Rightarrow> fsys \<Rightarrow> (bool \<times> fsys) kres" where
  "isdirempty pid dp s = isdirempty_loop pid dp (drop 2 (dir_offs (i_size (inode_at dp s)))) s"

definition dot :: "u8 list" where "dot = [46]"
definition dotdot :: "u8 list" where "dotdot = [46, 46]"

definition fs_unlink :: "int \<Rightarrow> nat \<Rightarrow> u8 list \<Rightarrow> fsys \<Rightarrow> (int \<times> fsys) kres" where
  "fs_unlink pid cwd path s =
     bindE (fs_begin_op s) (\<lambda>s1.
     bindE (nameiparent pid cwd path s1) (\<lambda>(parent, s2).
     case parent of
       None \<Rightarrow> op_return pid (-1) s2
     | Some (dp, name) \<Rightarrow>
         bindE (ilock pid dp s2) (\<lambda>s3.
           if namecmp name dot = 0 \<or> namecmp name dotdot = 0 then put_fail pid dp s3
           else bindE (dirlookup pid dp name s3) (\<lambda>(found, s4).
             case found of
               None \<Rightarrow> put_fail pid dp s4
             | Some (ip, off) \<Rightarrow>
                 bindE (ilock pid ip s4) (\<lambda>s5.
                   if sint (i_nlink (inode_at ip s5)) < 1 then Inl (Panic ''unlink: nlink < 1'')
                   else bindE (if i_type (inode_at ip s5) = T_DIR then isdirempty pid ip s5 else Inr (True, s5)) (\<lambda>(empty, s6).
                     if \<not> empty then bindE (iunlockput pid ip s6) (put_fail pid dp)
                     else bindE (writei kcopy_in pid dp 0 (of_nat off) (of_nat DIRENT) (s6, zero_mem)) (\<lambda>(r, s7, _).
                       if r \<noteq> int DIRENT then Inl (Panic ''unlink: writei'')
                       else bindE (if i_type (inode_at ip s7) = T_DIR then iupdate pid dp (add_nlink dp (-1) s7) else Inr s7) (\<lambda>s8.
                            bindE (iunlockput pid dp s8) (\<lambda>s9.
                            bindE (iupdate pid ip (add_nlink ip (-1) s9)) (\<lambda>s10.
                            bindE (iunlockput pid ip s10) (op_return pid 0)))))))))))"

definition sys_unlink :: "kenv \<Rightarrow> nat \<Rightarrow> 'z fstate_scheme \<Rightarrow> (pipe_res \<times> 'z fstate_scheme) kres" where
  "sys_unlink env c st = with_pid c st (\<lambda>pid.
     bindE (argstr env c 0 MAXPATH st) (\<lambda>(path, st1).
     case path of
       None \<Rightarrow> Inr (Return (-1), st1)
     | Some path \<Rightarrow> with_cwd c path st1 (\<lambda>cwd.
         bindE (on_fs_r (fs_unlink pid cwd path) st1) (\<lambda>(r, st2). Inr (Return r, st2)))))"

section \<open>Creation\<close>

text \<open>The label \<open>fail\<close> of \<open>create\<close>.\<close>

definition create_fail :: "int \<Rightarrow> nat \<Rightarrow> nat \<Rightarrow> fsys \<Rightarrow> (nat option \<times> fsys) kres" where
  "create_fail pid ip dp s =
     bindE (iupdate pid ip (upd_inode ip (\<lambda>x. x\<lparr>i_nlink := 0\<rparr>) s)) (\<lambda>s1.
     bindE (iunlockput pid ip s1) (\<lambda>s2.
     bindE (iunlockput pid dp s2) (\<lambda>s3. Inr (None, s3))))"

text \<open>\<open>iunlockput(ip); return 0;\<close>\<close>

definition put_null :: "int \<Rightarrow> nat \<Rightarrow> fsys \<Rightarrow> (nat option \<times> fsys) kres" where
  "put_null pid ip s = bindE (iunlockput pid ip s) (\<lambda>s1. Inr (None, s1))"

text \<open>\<open>create\<close> from the new inode \<open>ip\<close> on.\<close>

definition create_new :: "int \<Rightarrow> nat \<Rightarrow> nat \<Rightarrow> u8 list \<Rightarrow> u16 \<Rightarrow> u16 \<Rightarrow> u16 \<Rightarrow> fsys \<Rightarrow> (nat option \<times> fsys) kres" where
  "create_new pid ip dp name type major minor s =
     bindE (ilock pid ip s) (\<lambda>s1.
     bindE (iupdate pid ip (upd_inode ip (\<lambda>x. x\<lparr>i_major := major, i_minor := minor, i_nlink := 1\<rparr>) s1)) (\<lambda>s2.
     bindE (if type = T_DIR
            then bindE (dirlink pid ip dot (i_inum (inode_at ip s2)) s2) (\<lambda>(r, s3).
              if r < 0 then Inr (r, s3) else dirlink pid ip dotdot (i_inum (inode_at dp s3)) s3)
            else Inr (0, s2)) (\<lambda>(r, s3).
       if r < 0 then create_fail pid ip dp s3
       else bindE (dirlink pid dp name (i_inum (inode_at ip s3)) s3) (\<lambda>(r, s4).
         if r < 0 then create_fail pid ip dp s4
         else bindE (if type = T_DIR then iupdate pid dp (add_nlink dp 1 s4) else Inr s4) (\<lambda>s5.
              bindE (iunlockput pid dp s5) (\<lambda>s6. Inr (Some ip, s6)))))))"

definition create :: "int \<Rightarrow> nat \<Rightarrow> u8 list \<Rightarrow> u16 \<Rightarrow> u16 \<Rightarrow> u16 \<Rightarrow> fsys \<Rightarrow> (nat option \<times> fsys) kres" where
  "create pid cwd path type major minor s =
     bindE (nameiparent pid cwd path s) (\<lambda>(parent, s1).
     case parent of
       None \<Rightarrow> Inr (None, s1)
     | Some (dp, name) \<Rightarrow>
         bindE (ilock pid dp s1) (\<lambda>s2.
           if i_nlink (inode_at dp s2) = 0 then put_null pid dp s2
           else if type = T_DIR \<and> sint (i_nlink (inode_at dp s2)) \<ge> NLINK_MAX then put_null pid dp s2
           else bindE (dirlookup pid dp name s2) (\<lambda>(found, s3).
             case found of
               Some (ip, _) \<Rightarrow>
                 bindE (iunlockput pid dp s3) (\<lambda>s4.
                 bindE (ilock pid ip s4) (\<lambda>s5.
                   if type = T_FILE \<and> (i_type (inode_at ip s5) = T_FILE \<or> i_type (inode_at ip s5) = T_DEVICE)
                   then Inr (Some ip, s5)
                   else put_null pid ip s5))
             | None \<Rightarrow>
                 bindE (ialloc pid (i_dev (inode_at dp s3)) type s3) (\<lambda>(new, s4).
                   case new of
                     None \<Rightarrow> put_null pid dp s4
                   | Some ip \<Rightarrow> create_new pid ip dp name type major minor s4))))"

section \<open>Open, make and change directory\<close>

text \<open>
  The inode that \<open>sys_open\<close> finds or creates, locked, inside the operation; \<open>None\<close> when the call has failed
  and the operation is over.
\<close>

definition open_inode :: "int \<Rightarrow> nat \<Rightarrow> u8 list \<Rightarrow> u32 \<Rightarrow> fsys \<Rightarrow> (nat option \<times> fsys) kres" where
  "open_inode pid cwd path omode s =
     bindE (fs_begin_op s) (\<lambda>s1.
     bindE (if omode AND O_CREATE \<noteq> 0
            then bindE (create pid cwd path T_FILE 0 0 s1) (\<lambda>(found, s2).
              case found of None \<Rightarrow> op_return pid None s2 | Some ip \<Rightarrow> Inr (Some ip, s2))
            else bindE (namei pid cwd path s1) (\<lambda>(found, s2).
              case found of
                None \<Rightarrow> op_return pid None s2
              | Some ip \<Rightarrow> bindE (ilock pid ip s2) (\<lambda>s3.
                  if i_type (inode_at ip s3) = T_DIR \<and> omode \<noteq> 0
                  then bindE (iunlockput pid ip s3) (op_return pid None)
                  else Inr (Some ip, s3)))) (\<lambda>(found, s4).
     case found of
       None \<Rightarrow> Inr (None, s4)
     | Some ip \<Rightarrow>
         if i_type (inode_at ip s4) = T_DEVICE \<and> (sint (i_major (inode_at ip s4)) < 0 \<or> sint (i_major (inode_at ip s4)) \<ge> int NDEV)
         then bindE (iunlockput pid ip s4) (op_return pid None)
         else Inr (Some ip, s4)))"

text \<open>The fields that \<open>sys_open\<close> sets in the file.\<close>

definition open_file :: "inode \<Rightarrow> nat \<Rightarrow> u32 \<Rightarrow> kfile \<Rightarrow> kfile" where
  "open_file x ip omode f =
     (let f1 = (if i_type x = T_DEVICE then f\<lparr>f_type := FD_DEVICE, f_major := i_major x\<rparr> else f\<lparr>f_type := FD_INODE, f_off := 0\<rparr>)
      in f1\<lparr>f_ip := ip, f_readable := (omode AND O_WRONLY = 0), f_writable := (omode AND O_WRONLY \<noteq> 0 \<or> omode AND O_RDWR \<noteq> 0)\<rparr>)"

text \<open>\<open>sys_open\<close> from \<open>filealloc\<close> on.\<close>

definition open_fd :: "kenv \<Rightarrow> nat \<Rightarrow> int \<Rightarrow> nat \<Rightarrow> u32 \<Rightarrow> 'z fstate_scheme \<Rightarrow> (pipe_res \<times> 'z fstate_scheme) kres" where
  "open_fd env c pid ip omode st =
     (case filealloc st of
        (None, st1) \<Rightarrow> bindE (on_fs_r (put_fail pid ip) st1) (\<lambda>(r, st2). Inr (Return r, st2))
      | (Some f, st1) \<Rightarrow>
          bindE (fdalloc c f st1) (\<lambda>(fd, st2).
          case fd of
            None \<Rightarrow> bindE (fileclose env c f st2) (\<lambda>st3. bindE (on_fs_r (put_fail pid ip) st3) (\<lambda>(r, st4). Inr (Return r, st4)))
          | Some fd \<Rightarrow>
              let st3 = upd_file f (open_file (inode_at ip (fs st2)) ip omode) st2
              in bindE (if omode AND O_TRUNC \<noteq> 0 \<and> i_type (inode_at ip (fs st3)) = T_FILE then on_fs (itrunc pid ip) st3 else Inr st3) (\<lambda>st4.
                 bindE (on_fs (iunlock pid ip) st4) (\<lambda>st5.
                 bindE (on_fs (fs_end_op pid) st5) (\<lambda>st6. Inr (Return (int fd), st6))))))"

definition sys_open :: "kenv \<Rightarrow> nat \<Rightarrow> 'z fstate_scheme \<Rightarrow> (pipe_res \<times> 'z fstate_scheme) kres" where
  "sys_open env c st = with_pid c st (\<lambda>pid.
     bindE (argint c 1 st) (\<lambda>omode.
     bindE (argstr env c 0 MAXPATH st) (\<lambda>(path, st1).
     case path of
       None \<Rightarrow> Inr (Return (-1), st1)
     | Some path \<Rightarrow> with_cwd c path st1 (\<lambda>cwd.
         bindE (on_fs_r (open_inode pid cwd path (of_int omode)) st1) (\<lambda>(found, st2).
         case found of
           None \<Rightarrow> Inr (Return (-1), st2)
         | Some ip \<Rightarrow> open_fd env c pid ip (of_int omode) st2)))))"

text \<open>\<open>create\<close> for \<open>sys_mkdir\<close> and \<open>sys_mknod\<close>, which then put the new inode.\<close>

definition fs_make :: "int \<Rightarrow> nat \<Rightarrow> u8 list \<Rightarrow> u16 \<Rightarrow> u16 \<Rightarrow> u16 \<Rightarrow> fsys \<Rightarrow> (int \<times> fsys) kres" where
  "fs_make pid cwd path type major minor s =
     bindE (create pid cwd path type major minor s) (\<lambda>(found, s1).
     case found of
       None \<Rightarrow> op_return pid (-1) s1
     | Some ip \<Rightarrow> bindE (iunlockput pid ip s1) (op_return pid 0))"

definition sys_mkdir :: "kenv \<Rightarrow> nat \<Rightarrow> 'z fstate_scheme \<Rightarrow> (pipe_res \<times> 'z fstate_scheme) kres" where
  "sys_mkdir env c st = with_pid c st (\<lambda>pid.
     bindE (on_fs fs_begin_op st) (\<lambda>st1.
     bindE (argstr env c 0 MAXPATH st1) (\<lambda>(path, st2).
     case path of
       None \<Rightarrow> bindE (on_fs (fs_end_op pid) st2) (\<lambda>st3. Inr (Return (-1), st3))
     | Some path \<Rightarrow> with_cwd c path st2 (\<lambda>cwd.
         bindE (on_fs_r (fs_make pid cwd path T_DIR 0 0) st2) (\<lambda>(r, st3). Inr (Return r, st3))))))"

definition sys_mknod :: "kenv \<Rightarrow> nat \<Rightarrow> 'z fstate_scheme \<Rightarrow> (pipe_res \<times> 'z fstate_scheme) kres" where
  "sys_mknod env c st = with_pid c st (\<lambda>pid.
     bindE (on_fs fs_begin_op st) (\<lambda>st1.
     bindE (argint c 1 st1) (\<lambda>major.
     bindE (argint c 2 st1) (\<lambda>minor.
     bindE (argstr env c 0 MAXPATH st1) (\<lambda>(path, st2).
     case path of
       None \<Rightarrow> bindE (on_fs (fs_end_op pid) st2) (\<lambda>st3. Inr (Return (-1), st3))
     | Some path \<Rightarrow> with_cwd c path st2 (\<lambda>cwd.
         bindE (on_fs_r (fs_make pid cwd path T_DEVICE (of_int major) (of_int minor)) st2) (\<lambda>(r, st3). Inr (Return r, st3))))))))"

text \<open>The new directory, locked and unlocked again; the old one is put.\<close>

definition fs_chdir :: "int \<Rightarrow> nat \<Rightarrow> u8 list \<Rightarrow> fsys \<Rightarrow> (nat option \<times> fsys) kres" where
  "fs_chdir pid cwd path s =
     bindE (namei pid cwd path s) (\<lambda>(found, s1).
     case found of
       None \<Rightarrow> op_return pid None s1
     | Some ip \<Rightarrow>
         bindE (ilock pid ip s1) (\<lambda>s2.
           if i_type (inode_at ip s2) \<noteq> T_DIR then bindE (iunlockput pid ip s2) (op_return pid None)
           else bindE (iunlock pid ip s2) (\<lambda>s3. bindE (iput pid cwd s3) (op_return pid (Some ip)))))"

definition sys_chdir :: "kenv \<Rightarrow> nat \<Rightarrow> 'z fstate_scheme \<Rightarrow> (pipe_res \<times> 'z fstate_scheme) kres" where
  "sys_chdir env c st = with_proc c st (\<lambda>pr.
     let pid = p_pid (proc_at pr st)
     in bindE (on_fs fs_begin_op st) (\<lambda>st1.
        bindE (argstr env c 0 MAXPATH st1) (\<lambda>(path, st2).
        case path of
          None \<Rightarrow> bindE (on_fs (fs_end_op pid) st2) (\<lambda>st3. Inr (Return (-1), st3))
        | Some path \<Rightarrow>
            (case p_cwd (proc_at pr st2) of
               None \<Rightarrow> Inl (Panic ''kerneltrap'')
             | Some cwd \<Rightarrow>
                 bindE (on_fs_r (fs_chdir pid cwd path) st2) (\<lambda>(found, st3).
                 case found of
                   None \<Rightarrow> Inr (Return (-1), st3)
                 | Some ip \<Rightarrow> Inr (Return 0, upd_proc pr (\<lambda>p. p\<lparr>p_cwd := Some ip\<rparr>) st3))))))"

section \<open>Exec and pipe\<close>

text \<open>
  The loop of \<open>sys_exec\<close> from \<open>i\<close> on: the pages of the arguments with their strings, and whether the list
  is complete.
\<close>

function exec_argv :: "kenv \<Rightarrow> nat \<Rightarrow> u64 \<Rightarrow> nat \<Rightarrow> (u64 \<times> u8 list) list \<Rightarrow> 'z fstate_scheme
    \<Rightarrow> ((bool \<times> (u64 \<times> u8 list) list) \<times> 'z fstate_scheme) kres" where
  "exec_argv env c uargv i argv st =
     (if i \<ge> MAXARG then Inr ((False, argv), st)
      else bindE (fetchaddr env c (uargv + 8 * of_nat i) st) (\<lambda>(uarg, st1).
        case uarg of
          None \<Rightarrow> Inr ((False, argv), st1)
        | Some uarg \<Rightarrow>
            if uarg = 0 then Inr ((True, argv), st1)
            else let (page, km) = kalloc (kmemory st1); st2 = st1\<lparr>kmemory := km\<rparr>
              in if page = 0 then Inr ((False, argv), st2)
                 else bindE (fetchstr env c uarg PGSIZE64 st2) (\<lambda>((str, bs), st3).
                   let st4 = st3\<lparr>kmemory := (kmemory st3)\<lparr>mem := mem_write (mem (kmemory st3)) page bs\<rparr>\<rparr>
                   in case str of
                        None \<Rightarrow> Inr ((False, argv @ [(page, [])]), st4)
                      | Some str \<Rightarrow> exec_argv env c uargv (i + 1) (argv @ [(page, str)]) st4)))"
  by pat_completeness auto
termination by (relation "measure (\<lambda>(env, c, uargv, i, argv, st). MAXARG - i)") auto

declare exec_argv.simps [simp del]

fun free_argv :: "kenv \<Rightarrow> u64 list \<Rightarrow> 'z fstate_scheme \<Rightarrow> 'z fstate_scheme kres" where
  "free_argv env [] st = Inr st"
| "free_argv env (page # pages) st = bindE (on_mem' (\<lambda>km. kfree (a_end env) km page) st) (free_argv env pages)"

definition sys_exec :: "kenv \<Rightarrow> nat \<Rightarrow> 'z fstate_scheme \<Rightarrow> (pipe_res \<times> 'z fstate_scheme) kres" where
  "sys_exec env c st =
     bindE (argaddr c 1 st) (\<lambda>uargv.
     bindE (argstr env c 0 MAXPATH st) (\<lambda>(path, st1).
     case path of
       None \<Rightarrow> Inr (Return (-1), st1)
     | Some path \<Rightarrow>
         bindE (exec_argv env c uargv 0 [] st1) (\<lambda>((ok, argv), st2).
         bindE (if ok then kexec env c path (map snd argv) st2 else Inr (-1, st2)) (\<lambda>(ret, st3).
         bindE (free_argv env (map fst argv) st3) (\<lambda>st4. Inr (Return ret, st4))))))"

text \<open>The two files are closed again.\<close>

definition pipe_close :: "kenv \<Rightarrow> nat \<Rightarrow> nat \<Rightarrow> nat \<Rightarrow> 'z fstate_scheme \<Rightarrow> (pipe_res \<times> 'z fstate_scheme) kres" where
  "pipe_close env c rfile wfile st =
     bindE (fileclose env c rfile st) (\<lambda>st1. bindE (fileclose env c wfile st1) (\<lambda>st2. Inr (Return (-1), st2)))"

text \<open>\<open>sys_pipe\<close> from the copies to \<open>fdarray\<close> on.\<close>

definition pipe_out :: "kenv \<Rightarrow> nat \<Rightarrow> nat \<Rightarrow> u64 \<Rightarrow> nat \<Rightarrow> nat \<Rightarrow> nat \<Rightarrow> nat \<Rightarrow> 'z fstate_scheme \<Rightarrow> (pipe_res \<times> 'z fstate_scheme) kres" where
  "pipe_out env c pr fdarray rfile wfile fd0 fd1 st =
     (let pt = p_pagetable (proc_at pr st); sz = p_sz (proc_at pr st)
      in bindE (on_mem (copyout (a_end env) pt sz fdarray (bytes32 (of_nat fd0))) st) (\<lambda>(r, st1).
         bindE (if r < 0 then Inr (r, st1)
                else on_mem (copyout (a_end env) pt sz (fdarray + 4) (bytes32 (of_nat fd1))) st1) (\<lambda>(r, st2).
           if r < 0 then pipe_close env c rfile wfile (set_ofile pr fd1 None (set_ofile pr fd0 None st2))
           else Inr (Return 0, st2))))"

definition sys_pipe :: "kenv \<Rightarrow> nat \<Rightarrow> 'z fstate_scheme \<Rightarrow> (pipe_res \<times> 'z fstate_scheme) kres" where
  "sys_pipe env c st = with_proc c st (\<lambda>pr.
     bindE (argaddr c 0 st) (\<lambda>fdarray.
     bindE (pipealloc env c st) (\<lambda>(files, st1).
     case files of
       None \<Rightarrow> Inr (Return (-1), st1)
     | Some (rfile, wfile) \<Rightarrow>
         bindE (fdalloc c rfile st1) (\<lambda>(fd0, st2).
         case fd0 of
           None \<Rightarrow> pipe_close env c rfile wfile st2
         | Some fd0 \<Rightarrow>
             bindE (fdalloc c wfile st2) (\<lambda>(fd1, st3).
             case fd1 of
               None \<Rightarrow> pipe_close env c rfile wfile (set_ofile pr fd0 None st3)
             | Some fd1 \<Rightarrow> pipe_out env c pr fdarray rfile wfile fd0 fd1 st3)))))"

end
