(* ===== verification/Syscall.thy ===== *)
theory Syscall
  imports Sysfile Sched
begin

text \<open>
  Processes with their files (\<open>userinit\<close>, \<open>kfork\<close>, \<open>kexit\<close> and \<open>forkret\<close> of \<open>xv6/kernel/proc.c\<close>), the system
  calls of \<open>sysproc.c\<close>, the dispatcher of \<open>syscall.c\<close> and the traps of \<open>trap.c\<close>. The control registers of a
  hart that the traps use are a record of their own, an argument and a result of the traps.
\<close>

section \<open>Processes and their files\<close>

text \<open>\<open>namei("/")\<close> needs neither a process nor a lock.\<close>

definition userinit :: "kenv \<Rightarrow> 'z fstate_scheme \<Rightarrow> 'z fstate_scheme kres" where
  "userinit env st =
     bindE (allocproc env st) (\<lambda>(p, st1).
     case p of
       None \<Rightarrow> Inl (Panic ''kerneltrap'')
     | Some p \<Rightarrow>
         bindE (on_fs_r (namei 0 0 [slash]) (st1\<lparr>initproc := Some p\<rparr>)) (\<lambda>(found, st2).
         Inr (upd_proc p (\<lambda>x. x\<lparr>p_cwd := found, p_state := RUNNABLE\<rparr>) st2)))"

text \<open>The loop of \<open>kfork\<close> over the descriptors.\<close>

fun fork_files :: "nat list \<Rightarrow> nat \<Rightarrow> nat \<Rightarrow> 'z fstate_scheme \<Rightarrow> 'z fstate_scheme kres" where
  "fork_files [] pr np st = Inr st"
| "fork_files (fd # fds) pr np st =
     (case p_ofile (proc_at pr st) ! fd of
        None \<Rightarrow> fork_files fds pr np st
      | Some f \<Rightarrow> bindE (filedup f st) (\<lambda>st1. fork_files fds pr np (set_ofile np fd (Some f) st1)))"

text \<open>\<open>*(np->trapframe) = *(p->trapframe)\<close>: the structure has 288 bytes.\<close>

definition tf_copy :: "nat \<Rightarrow> nat \<Rightarrow> 'z kstate_scheme \<Rightarrow> 'z kstate_scheme" where
  "tf_copy pr np st =
     (let m = mem (kmemory st)
      in st\<lparr>kmemory := (kmemory st)\<lparr>mem := mem_write m (p_trapframe (proc_at np st)) (mem_read m (p_trapframe (proc_at pr st)) 288)\<rparr>\<rparr>)"

text \<open>\<open>kfork\<close> with the new slot \<open>np\<close>.\<close>

definition fork_child :: "kenv \<Rightarrow> nat \<Rightarrow> nat \<Rightarrow> 'z fstate_scheme \<Rightarrow> (int \<times> 'z fstate_scheme) kres" where
  "fork_child env pr np st =
     (let p = proc_at pr st
      in bindE (on_mem (uvmcopy (a_end env) (p_pagetable p) (p_pagetable (proc_at np st)) (p_sz p)) st) (\<lambda>(r, st1).
         if r < 0 then bindE (freeproc env np st1) (\<lambda>st2. Inr (-1, st2))
         else let st2 = tf_set (TF_a 0) 0 np (tf_copy pr np (upd_proc np (\<lambda>x. x\<lparr>p_sz := p_sz p\<rparr>) st1))
           in bindE (fork_files [0..<NOFILE] pr np st2) (\<lambda>st3.
              case p_cwd p of
                None \<Rightarrow> Inl (Panic ''kerneltrap'')
              | Some d \<Rightarrow>
                  Inr (p_pid (proc_at np st3),
                    upd_proc np (\<lambda>x. x\<lparr>p_cwd := Some d, p_name := take 15 (p_name p), p_parent := Some pr, p_state := RUNNABLE\<rparr>)
                      (st3\<lparr>fs := idup d (fs st3)\<rparr>)))))"

definition kfork :: "kenv \<Rightarrow> nat \<Rightarrow> 'z fstate_scheme \<Rightarrow> (int \<times> 'z fstate_scheme) kres" where
  "kfork env c st = with_proc c st (\<lambda>pr.
     bindE (allocproc env st) (\<lambda>(np, st1).
     case np of None \<Rightarrow> Inr (-1, st1) | Some np \<Rightarrow> fork_child env pr np st1))"

text \<open>The loop of \<open>kexit\<close> over the descriptors.\<close>

fun exit_files :: "kenv \<Rightarrow> nat \<Rightarrow> nat list \<Rightarrow> nat \<Rightarrow> 'z fstate_scheme \<Rightarrow> 'z fstate_scheme kres" where
  "exit_files env c [] pr st = Inr st"
| "exit_files env c (fd # fds) pr st =
     (case p_ofile (proc_at pr st) ! fd of
        None \<Rightarrow> exit_files env c fds pr st
      | Some f \<Rightarrow> bindE (fileclose env c f st) (\<lambda>st1. exit_files env c fds pr (set_ofile pr fd None st1)))"

definition kexit :: "kenv \<Rightarrow> nat \<Rightarrow> int \<Rightarrow> 'z fstate_scheme \<Rightarrow> 'z fstate_scheme kres" where
  "kexit env c status st = with_proc c st (\<lambda>pr.
     if initproc st = Some pr then Inl (Panic ''init exiting'')
     else bindE (exit_files env c [0..<NOFILE] pr st) (\<lambda>st1.
       case p_cwd (proc_at pr st1) of
         None \<Rightarrow> Inl (Panic ''kerneltrap'')
       | Some d \<Rightarrow>
           bindE (put_inode c d st1) (\<lambda>st2. exit_proc c status (upd_proc pr (\<lambda>p. p\<lparr>p_cwd := None\<rparr>) st2))))"

section \<open>System calls on processes\<close>

text \<open>The call does not return.\<close>

definition sys_exit :: "kenv \<Rightarrow> nat \<Rightarrow> 'z fstate_scheme \<Rightarrow> (pipe_res \<times> 'z fstate_scheme) kres" where
  "sys_exit env c st = bindE (argint c 0 st) (\<lambda>n. bindE (kexit env c n st) (\<lambda>st1. Inr (Wait 0, st1)))"

definition sys_getpid :: "nat \<Rightarrow> 'z fstate_scheme \<Rightarrow> (pipe_res \<times> 'z fstate_scheme) kres" where
  "sys_getpid c st = with_proc c st (\<lambda>pr. Inr (Return (p_pid (proc_at pr st)), st))"

definition sys_fork :: "kenv \<Rightarrow> nat \<Rightarrow> 'z fstate_scheme \<Rightarrow> (pipe_res \<times> 'z fstate_scheme) kres" where
  "sys_fork env c st = bindE (kfork env c st) (\<lambda>(r, st1). Inr (Return r, st1))"

text \<open>A pass of the loop of \<open>kwait\<close> that does not return goes to sleep.\<close>

definition wait_res :: "int option \<Rightarrow> pipe_res" where
  "wait_res r = (case r of None \<Rightarrow> Wait 0 | Some v \<Rightarrow> Return v)"

definition sys_wait :: "kenv \<Rightarrow> nat \<Rightarrow> 'z fstate_scheme \<Rightarrow> (pipe_res \<times> 'z fstate_scheme) kres" where
  "sys_wait env c st = bindE (argaddr c 0 st) (\<lambda>p. bindE (kwait env c p st) (\<lambda>(r, st1). Inr (wait_res r, st1)))"

definition sys_waitx :: "kenv \<Rightarrow> nat \<Rightarrow> 'z fstate_scheme \<Rightarrow> (pipe_res \<times> 'z fstate_scheme) kres" where
  "sys_waitx env c st =
     bindE (argaddr c 0 st) (\<lambda>status. bindE (argaddr c 1 st) (\<lambda>wtime. bindE (argaddr c 2 st) (\<lambda>rtime. bindE (argaddr c 3 st) (\<lambda>stime.
     bindE (kwaitx env c status wtime rtime stime st) (\<lambda>(r, st1). Inr (wait_res r, st1))))))"

definition SBRK_EAGER :: int where "SBRK_EAGER = 1"

definition sys_sbrk :: "kenv \<Rightarrow> nat \<Rightarrow> 'z fstate_scheme \<Rightarrow> (pipe_res \<times> 'z fstate_scheme) kres" where
  "sys_sbrk env c st = with_proc c st (\<lambda>pr.
     bindE (argint c 0 st) (\<lambda>n. bindE (argint c 1 st) (\<lambda>t.
       let addr = p_sz (proc_at pr st)
       in if t = SBRK_EAGER \<or> n < 0
          then bindE (growproc env c n st) (\<lambda>(r, st1). Inr (if r < 0 then Return (-1) else Return (uint addr), st1))
          else if addr + of_int n < addr then Inr (Return (-1), st)
          else if addr + of_int n > TRAPFRAME then Inr (Return (-1), st)
          else Inr (Return (uint addr), upd_proc pr (\<lambda>p. p\<lparr>p_sz := p_sz p + of_int n\<rparr>) st))))"

text \<open>A pass of the loop of \<open>sys_pause\<close>, which started at \<open>ticks0\<close>.\<close>

definition pause_pass :: "nat \<Rightarrow> int \<Rightarrow> u32 \<Rightarrow> 'z fstate_scheme \<Rightarrow> (pipe_res \<times> 'z fstate_scheme) kres" where
  "pause_pass c n ticks0 st = with_proc c st (\<lambda>pr.
     if ticks st - ticks0 < of_int n
     then if killed pr st then Inr (Return (-1), st)
          else bindE (sleep_prepare c AddrTicks st) (\<lambda>st1. Inr (Wait n, st1))
     else Inr (Return 0, st))"

definition sys_pause :: "nat \<Rightarrow> 'z fstate_scheme \<Rightarrow> (pipe_res \<times> 'z fstate_scheme) kres" where
  "sys_pause c st = bindE (argint c 0 st) (\<lambda>n. pause_pass c (if n < 0 then 0 else n) (ticks st) st)"

definition sys_kill :: "nat \<Rightarrow> 'z fstate_scheme \<Rightarrow> (pipe_res \<times> 'z fstate_scheme) kres" where
  "sys_kill c st = bindE (argint c 0 st) (\<lambda>pid. let (r, st1) = kkill pid st in Inr (Return r, st1))"

definition sys_uptime :: "'z fstate_scheme \<Rightarrow> (pipe_res \<times> 'z fstate_scheme) kres" where
  "sys_uptime st = Inr (Return (uint (ticks st)), st)"

text \<open>\<open>sys_sync\<close> of \<open>log.c\<close> up to its first wait.\<close>

definition sys_sync :: "nat \<Rightarrow> 'z fstate_scheme \<Rightarrow> (pipe_res \<times> 'z fstate_scheme) kres" where
  "sys_sync c st =
     (case sync_start (flog (fs st)) of
        None \<Rightarrow> Inr (Return 0, st)
      | Some n \<Rightarrow> bindE (sleep_prepare c AddrLog st) (\<lambda>st1. Inr (Wait n, st1)))"

section \<open>The dispatcher\<close>

text \<open>The table \<open>syscalls\<close>; \<open>pad\<close> is what the stack holds in the padding of a \<open>struct stat\<close>.\<close>

definition syscalls :: "kenv \<Rightarrow> nat \<Rightarrow> u8 list \<Rightarrow> int \<Rightarrow> ('z fstate_scheme \<Rightarrow> (pipe_res \<times> 'z fstate_scheme) kres) option" where
  "syscalls env c pad num =
     (if num = 1 then Some (sys_fork env c) else if num = 2 then Some (sys_exit env c) else if num = 3 then Some (sys_wait env c)
      else if num = 4 then Some (sys_pipe env c) else if num = 5 then Some (sys_read env c) else if num = 6 then Some (sys_kill c)
      else if num = 7 then Some (sys_exec env c) else if num = 8 then Some (sys_fstat env c pad) else if num = 9 then Some (sys_chdir env c)
      else if num = 10 then Some (sys_dup c) else if num = 11 then Some (sys_getpid c) else if num = 12 then Some (sys_sbrk env c)
      else if num = 13 then Some (sys_pause c) else if num = 14 then Some sys_uptime else if num = 15 then Some (sys_open env c)
      else if num = 16 then Some (sys_write env c) else if num = 17 then Some (sys_mknod env c) else if num = 18 then Some (sys_unlink env c)
      else if num = 19 then Some (sys_link env c) else if num = 20 then Some (sys_mkdir env c) else if num = 21 then Some (sys_close env c)
      else if num = 22 then Some (sys_sync c) else if num = 23 then Some (sys_waitx env c) else None)"

text \<open>\<open>syscall\<close>, with whether the call has returned.\<close>

definition syscall :: "kenv \<Rightarrow> nat \<Rightarrow> u8 list \<Rightarrow> 'z fstate_scheme \<Rightarrow> (bool \<times> 'z fstate_scheme) kres" where
  "syscall env c pad st = with_proc c st (\<lambda>pr.
     case syscalls env c pad (sint (ucast (tf_get (TF_a 7) pr st) :: u32)) of
       None \<Rightarrow> Inr (True, tf_set (TF_a 0) (-1) pr st)
     | Some f \<Rightarrow>
         bindE (f st) (\<lambda>(r, st1).
         case r of
           Return v \<Rightarrow> Inr (True, tf_set (TF_a 0) (of_int v) pr st1)
         | _ \<Rightarrow> Inr (False, st1)))"

section \<open>Traps\<close>

record hart =
  stvec :: u64
  sstatus :: u64
  sepc :: u64
  scause :: u64
  stval :: u64
  satp :: u64

definition SSTATUS_SPP :: u64 where "SSTATUS_SPP = push_bit 8 1"
definition SSTATUS_SPIE :: u64 where "SSTATUS_SPIE = push_bit 5 1"
definition UART0_IRQ :: int where "UART0_IRQ = 10"

definition MAKE_SATP :: "u64 \<Rightarrow> u64" where
  "MAKE_SATP pagetable = push_bit 60 8 OR drop_bit 12 pagetable"

definition prepare_return :: "kenv \<Rightarrow> nat \<Rightarrow> hart \<Rightarrow> 'z fstate_scheme \<Rightarrow> (hart \<times> 'z fstate_scheme) kres" where
  "prepare_return env c h st = with_proc c st (\<lambda>pr.
     let st1 = upd_cpu c (\<lambda>cp. cp\<lparr>sie := False\<rparr>) st;
         h1 = h\<lparr>stvec := TRAMPOLINE + (a_uservec env - a_trampoline env)\<rparr>;
         st2 = tf_set 32 (of_nat c) pr (tf_set 16 (a_usertrap env) pr
                 (tf_set 8 (p_kstack (proc_at pr st1) + PGSIZE64) pr (tf_set 0 (satp h1) pr st1)));
         x = (sstatus h1 AND NOT SSTATUS_SPP) OR SSTATUS_SPIE
     in Inr (h1\<lparr>sstatus := x, sepc := tf_get TF_epc pr st2\<rparr>, st2))"

text \<open>
  \<open>irq\<close> is the answer of \<open>plic_claim\<close>. The interrupt of the disk only wakes the process that waits for the
  transfer, which \<open>Bio\<close> has as one step.
\<close>

definition devintr :: "nat \<Rightarrow> int \<Rightarrow> u64 \<Rightarrow> 'z fstate_scheme \<Rightarrow> (int \<times> 'z fstate_scheme) kres" where
  "devintr c irq cause st =
     (if cause = 0x8000000000000009
      then bindE (if irq = UART0_IRQ then uartintr st else Inr st) (\<lambda>st1. Inr (1, st1))
      else if cause = 0x8000000000000005 then Inr (2, clockintr c st)
      else Inr (0, st))"

text \<open>
  The end of \<open>usertrap\<close>. The result is the value for \<open>satp\<close>, or \<open>None\<close> when the process does not go back to user
  space now: it has exited, or it has given up the hart and goes on with \<open>prepare_return\<close> when it runs
  again.
\<close>

definition usertrap_end :: "kenv \<Rightarrow> nat \<Rightarrow> int \<Rightarrow> hart \<Rightarrow> 'z fstate_scheme \<Rightarrow> (u64 option \<times> hart \<times> 'z fstate_scheme) kres" where
  "usertrap_end env c which_dev h st = with_proc c st (\<lambda>pr.
     if killed pr st then bindE (kexit env c (-1) st) (\<lambda>st1. Inr (None, h, st1))
     else let (gives_up, st1) = (if which_dev = 2 then mlfq_tick_handler pr st else (False, st))
       in if gives_up then bindE (yield c st1) (\<lambda>st2. Inr (None, h, st2))
          else bindE (prepare_return env c h st1) (\<lambda>(h1, st2). Inr (Some (MAKE_SATP (p_pagetable (proc_at pr st2))), h1, st2)))"

definition usertrap :: "kenv \<Rightarrow> nat \<Rightarrow> u8 list \<Rightarrow> int \<Rightarrow> hart \<Rightarrow> 'z fstate_scheme \<Rightarrow> (u64 option \<times> hart \<times> 'z fstate_scheme) kres" where
  "usertrap env c pad irq h st =
     (if sstatus h AND SSTATUS_SPP \<noteq> 0 then Inl (Panic ''usertrap: not from user mode'')
      else with_proc c st (\<lambda>pr.
        let h1 = h\<lparr>stvec := a_kernelvec env\<rparr>; st1 = tf_set TF_epc (sepc h) pr st
        in if scause h = 8
           then if killed pr st1 then bindE (kexit env c (-1) st1) (\<lambda>st2. Inr (None, h1, st2))
             else bindE (syscall env c pad (upd_cpu c (\<lambda>cp. cp\<lparr>sie := True\<rparr>) (tf_set TF_epc (tf_get TF_epc pr st1 + 4) pr st1))) (\<lambda>(done, st2).
               if done then usertrap_end env c 0 h1 st2 else Inr (None, h1, st2))
           else bindE (devintr c irq (scause h) st1) (\<lambda>(which_dev, st2).
             if which_dev \<noteq> 0 then usertrap_end env c which_dev h1 st2
             else let p = proc_at pr st2
               in bindE (if scause h = 15 \<or> scause h = 13
                         then on_mem (vmfault (a_end env) (p_pagetable p) (p_sz p) (stval h) (scause h = 13)) st2
                         else Inr (0, st2)) (\<lambda>(pa, st3).
                    usertrap_end env c 0 h1 (if pa \<noteq> 0 then st3 else setkilled pr st3)))))"

definition kerneltrap :: "nat \<Rightarrow> int \<Rightarrow> hart \<Rightarrow> 'z fstate_scheme \<Rightarrow> (hart \<times> 'z fstate_scheme) kres" where
  "kerneltrap c irq h st =
     (if sstatus h AND SSTATUS_SPP = 0 then Inl (Panic ''kerneltrap: not from supervisor mode'')
      else if sie (cpus st ! c) then Inl (Panic ''kerneltrap: interrupts enabled'')
      else bindE (devintr c irq (scause h) st) (\<lambda>(which_dev, st1).
        if which_dev = 0 then Inl (Panic ''kerneltrap'')
        else bindE (if which_dev = 2 then timer_mlfq c st1 else Inr st1) (\<lambda>st2. Inr (h, st2))))"

text \<open>\<open>forkret\<close> behind the release of the lock; \<open>first\<close> is its static variable.\<close>

definition forkret :: "kenv \<Rightarrow> nat \<Rightarrow> bool \<Rightarrow> hart \<Rightarrow> 'z fstate_scheme \<Rightarrow> (bool \<times> u64 \<times> hart \<times> 'z fstate_scheme) kres" where
  "forkret env c first h st = with_proc c st (\<lambda>pr.
     let init = [47, 105, 110, 105, 116]
     in bindE (if first
               then bindE (on_fs (fsinit (p_pid (proc_at pr st)) ROOTDEV) st) (\<lambda>st1.
                    bindE (kexec env c init [init] st1) (\<lambda>(r, st2).
                      let st3 = tf_set (TF_a 0) (of_int r) pr st2
                      in if tf_get (TF_a 0) pr st3 = -1 then Inl (Panic ''exec'') else Inr st3))
               else Inr st) (\<lambda>st4.
        bindE (prepare_return env c h st4) (\<lambda>(h1, st5). Inr (False, MAKE_SATP (p_pagetable (proc_at pr st5)), h1, st5))))"

section \<open>Boot\<close>

text \<open>
  What hart 0 does in \<open>main\<close> before it enters the scheduler; the interrupt controller, the disk and the messages
  leave no trace in the state. The result is the page table of the kernel.
\<close>

definition main_init :: "kenv \<Rightarrow> 'z fstate_scheme \<Rightarrow> (u64 \<times> 'z fstate_scheme) kres" where
  "main_init env st =
     bindE (on_mem' (kinit (a_end env)) (consoleinit st)) (\<lambda>st1.
     bindE (on_mem (kvmmake env) st1) (\<lambda>(kernel_pagetable, st2).
     let st3 = procinit st2; s = fs st3;
         st4 = st3\<lparr>fs := iinit (s\<lparr>flog := (flog s)\<lparr>lbio := binit (lbio (flog s))\<rparr>\<rparr>)\<rparr>
     in bindE (userinit env st4) (\<lambda>st5. Inr (kernel_pagetable, st5))))"

end
