(* ===== verification/FileKeep.thy ===== *)
theory FileKeep
  imports Syscall
begin

text \<open>
  The operations of the kernel that touch neither the descriptors of the processes nor the types and reference
  counts of the open files: they \<open>keep\<close> the files. The rules for sequencing, branching and loops are
  proved once, and the rule of each operation is an application of those of the operations it calls.
\<close>

section \<open>The relation\<close>

definition no_files :: "proc \<Rightarrow> bool" where
  "no_files p \<longleftrightarrow> p_state p = UNUSED \<or> p_state p = ZOMBIE"

definition proc_keep :: "proc \<Rightarrow> proc \<Rightarrow> bool" where
  "proc_keep p q \<longleftrightarrow> p_ofile q = p_ofile p \<and> (p_state q = RUNNING \<longleftrightarrow> p_state p = RUNNING)
     \<and> (no_files q \<longrightarrow> no_files p) \<and> (chan_ok p \<longrightarrow> chan_ok q)"

definition file_keep :: "kfile \<Rightarrow> kfile \<Rightarrow> bool" where
  "file_keep f g \<longleftrightarrow> f_ref g = f_ref f \<and> f_type g = f_type f"

definition keeps :: "'z fstate_scheme \<Rightarrow> 'z fstate_scheme \<Rightarrow> bool" where
  "keeps st st' \<longleftrightarrow> list_all2 file_keep (ftable st) (ftable st') \<and> cpus st' = cpus st \<and> list_all2 proc_keep (procs st) (procs st')"

lemma proc_keep_refl [simp, intro]: "proc_keep p p"
  by (simp add: proc_keep_def)

lemma file_keep_refl [simp, intro]: "file_keep p p"
  by (simp add: file_keep_def)

lemma keeps_refl [simp, intro]: "keeps st st"
  by (simp add: keeps_def list.rel_refl)

lemma proc_keep_trans: "proc_keep p q \<Longrightarrow> proc_keep q r \<Longrightarrow> proc_keep p r"
  by (auto simp: proc_keep_def)

lemma file_keep_trans: "file_keep p q \<Longrightarrow> file_keep q r \<Longrightarrow> file_keep p r"
  by (simp add: file_keep_def)

lemma keeps_trans [trans]: "keeps st1 st2 \<Longrightarrow> keeps st2 st3 \<Longrightarrow> keeps st1 st3"
  unfolding keeps_def
  by (auto intro: list_all2_trans [OF proc_keep_trans] list_all2_trans [OF file_keep_trans])

text \<open>Computations that end in a state keep the files of the first one when they return.\<close>

definition keep :: "'z fstate_scheme \<Rightarrow> ('a \<times> 'z fstate_scheme) kres \<Rightarrow> bool" where
  "keep st m \<longleftrightarrow> (\<forall>r st'. m = Inr (r, st') \<longrightarrow> keeps st st')"

definition keep' :: "'z fstate_scheme \<Rightarrow> 'z fstate_scheme kres \<Rightarrow> bool" where
  "keep' st m \<longleftrightarrow> (\<forall>st'. m = Inr st' \<longrightarrow> keeps st st')"

lemma keepD: "keep st m \<Longrightarrow> m = Inr (r, st') \<Longrightarrow> keeps st st'"
  by (simp add: keep_def)

lemma keepsI:
  assumes "ftable st' = ftable st" and "cpus st' = cpus st" and "length (procs st') = length (procs st)"
    and "\<And>j. j < length (procs st) \<Longrightarrow> proc_keep (proc_at j st) (proc_at j st')"
  shows "keeps st st'"
  using assms by (simp add: keeps_def list.rel_refl list_all2_conv_all_nth)

lemma keeps_more [simp]: "keeps st (st'\<lparr>kmemory := km\<rparr>) = keeps st st'" "keeps st (st'\<lparr>fs := s\<rparr>) = keeps st st'"
  "keeps st (st'\<lparr>pipes := ps\<rparr>) = keeps st st'" "keeps st (st'\<lparr>nextpid := n\<rparr>) = keeps st st'" "keeps st (st'\<lparr>ticks := t\<rparr>) = keeps st st'"
  "keeps st (st'\<lparr>mlfq_global_seq := q\<rparr>) = keeps st st'" "keeps st (st'\<lparr>mlfq_trace := tr\<rparr>) = keeps st st'" "keeps st (st'\<lparr>initproc := ip\<rparr>) = keeps st st'"
  "keeps st (st'\<lparr>uart_rx := rx\<rparr>) = keeps st st'" "keeps st (st'\<lparr>uart_tx := tx\<rparr>) = keeps st st'" "keeps st (st'\<lparr>uart_out := out\<rparr>) = keeps st st'"
  "keeps st (st'\<lparr>tx_lock := l\<rparr>) = keeps st st'" "keeps st (st'\<lparr>cons_buf := b\<rparr>) = keeps st st'" "keeps st (st'\<lparr>cons_r := i\<rparr>) = keeps st st'"
  "keeps st (st'\<lparr>cons_w := i\<rparr>) = keeps st st'" "keeps st (st'\<lparr>cons_e := i\<rparr>) = keeps st st'"
  by (simp_all add: keeps_def)

lemma keeps_upd_pipe [simp]: "keeps st (upd_pipe pi g st') = keeps st st'"
  by (simp add: upd_pipe_def)

lemma keeps_upd_proc: "keeps st st' \<Longrightarrow> (\<And>p. proc_keep p (g p)) \<Longrightarrow> keeps st (upd_proc i g st')"
  by (erule keeps_trans, rule keepsI) (auto simp: upd_proc_def nth_upd_nth)

lemma keeps_upd_file: "keeps st st' \<Longrightarrow> (\<And>x. file_keep x (g x)) \<Longrightarrow> keeps st (upd_file f g st')"
  by (erule keeps_trans) (auto simp: keeps_def upd_file_def list.rel_refl list_all2_conv_all_nth nth_upd_nth)

lemma wakeup_ftable [simp]: "ftable (wakeup ch st) = ftable st"
  by (simp add: wakeup_def split: prod.splits)

lemma keeps_wakeup: "keeps st st' \<Longrightarrow> keeps st (wakeup ch st')"
proof (erule keeps_trans, rule keepsI)
  show "proc_keep (proc_at j st') (proc_at j (wakeup ch st'))" if "j < length (procs st')" for j
    using that by (simp add: wakeup_procs proc_keep_def woken_def no_files_def chan_ok_def)
qed (simp_all add: wakeup_procs)

lemmas keeps_simps = keeps_upd_proc keeps_upd_file keeps_wakeup proc_keep_def file_keep_def no_files_def chan_ok_def

section \<open>Rules for computations\<close>

text \<open>
  A rule for an operation has a state \<open>st0\<close> before it: \<open>keeps st0 st\<close> is what has happened so far.
\<close>

named_theorems keep_ops

lemma keep_return: "keeps st st' \<Longrightarrow> keep st (Inr (r, st'))" "keeps st st' \<Longrightarrow> keep' st (Inr st')"
  "keep st (Inl e)" "keep' st (Inl e)"
  unfolding keep_def keep'_def by simp_all

lemma keep_bind:
  "keep st m \<Longrightarrow> (\<And>r st'. m = Inr (r, st') \<Longrightarrow> keep st' (f r st')) \<Longrightarrow> keep st (bindE m (\<lambda>(r, st'). f r st'))"
  "keep st m \<Longrightarrow> (\<And>r st'. m = Inr (r, st') \<Longrightarrow> keep' st' (f' r st')) \<Longrightarrow> keep' st (bindE m (\<lambda>(r, st'). f' r st'))"
  "keep' st m' \<Longrightarrow> (\<And>st'. m' = Inr st' \<Longrightarrow> keep st' (g st')) \<Longrightarrow> keep st (bindE m' g)"
  "keep' st m' \<Longrightarrow> (\<And>st'. m' = Inr st' \<Longrightarrow> keep' st' (g' st')) \<Longrightarrow> keep' st (bindE m' g')"
  unfolding keep_def keep'_def by (auto intro: keeps_trans)

text \<open>A computation that does not change the state.\<close>

lemma keep_pure: "(\<And>x. m = Inr x \<Longrightarrow> keep st (f x)) \<Longrightarrow> keep st (bindE m f)" "(\<And>x. m = Inr x \<Longrightarrow> keep' st (f' x)) \<Longrightarrow> keep' st (bindE m f')"
  by (auto simp: keep_def keep'_def)

lemma keep_with_proc: "(\<And>i. keep st (f i)) \<Longrightarrow> keep st (with_proc c st' f)" "(\<And>i. keep' st (f' i)) \<Longrightarrow> keep' st (with_proc c st' f')"
  "(\<And>p. keep st (h p)) \<Longrightarrow> keep st (with_pid c st' h)" "(\<And>p. keep' st (h' p)) \<Longrightarrow> keep' st (with_pid c st' h')"
  by (auto simp: keep_def keep'_def with_proc_def with_pid_def split: option.splits)

lemma keep_if: "(b \<Longrightarrow> keep st m1) \<Longrightarrow> (\<not> b \<Longrightarrow> keep st m2) \<Longrightarrow> keep st (if b then m1 else m2)"
  "(b \<Longrightarrow> keep' st m1') \<Longrightarrow> (\<not> b \<Longrightarrow> keep' st m2') \<Longrightarrow> keep' st (if b then m1' else m2')"
  by simp_all

lemma keep_option: "keep st m \<Longrightarrow> (\<And>x. keep st (f x)) \<Longrightarrow> keep st (case y of None \<Rightarrow> m | Some x \<Rightarrow> f x)"
  "keep' st m' \<Longrightarrow> (\<And>x. keep' st (f' x)) \<Longrightarrow> keep' st (case y of None \<Rightarrow> m' | Some x \<Rightarrow> f' x)"
  by (simp_all split: option.split)

lemma keep_prod: "(\<And>a b. x = (a, b) \<Longrightarrow> keep st (f a b)) \<Longrightarrow> keep st (case x of (a, b) \<Rightarrow> f a b)"
  "(\<And>a b. x = (a, b) \<Longrightarrow> keep st (g a b y)) \<Longrightarrow> keep st ((case x of (a, b) \<Rightarrow> g a b) y)"
  "(\<And>a b. x = (a, b) \<Longrightarrow> keep' st (f' a b)) \<Longrightarrow> keep' st (case x of (a, b) \<Rightarrow> f' a b)"
  by (simp_all split: prod.split)

lemma keep_pipe_res:
  "(\<And>x. y = Return x \<Longrightarrow> keep st (f x)) \<Longrightarrow> (\<And>x. y = Wait x \<Longrightarrow> keep st (g x)) \<Longrightarrow> (\<And>x. y = Again x \<Longrightarrow> keep st (h x))
    \<Longrightarrow> keep st (case y of Return x \<Rightarrow> f x | Wait x \<Rightarrow> g x | Again x \<Rightarrow> h x)"
  by (simp split: pipe_res.split)

lemmas keep_rules = keep_return keep_bind keep_with_proc keep_if keep_option keep_prod keep_pipe_res

section \<open>Operations\<close>

text \<open>Memory, the file system and waiting.\<close>

lemma keep_on_mem [keep_ops]: "keeps st0 st \<Longrightarrow> keep st0 (on_mem g st)" "keeps st0 st \<Longrightarrow> keep' st0 (on_mem' g' st)"
  by (auto simp: keep_def keep'_def on_mem_def on_mem'_def)

lemma keep_on_fs [keep_ops]: "keeps st0 st \<Longrightarrow> keep' st0 (on_fs g st)" "keeps st0 st \<Longrightarrow> keep st0 (on_fs_r g' st)"
  by (auto simp: keep_def keep'_def on_fs_def on_fs_r_def)

lemma keep_sleep_prepare [keep_ops]: "keeps st0 st \<Longrightarrow> keep' st0 (sleep_prepare c ch st)"
  unfolding sleep_prepare_def by (intro keep_rules) (simp_all add: keeps_simps)

lemma keep_either_copyout [keep_ops]: "keeps st0 st \<Longrightarrow> keep st0 (either_copyout env c u dst src st)"
  unfolding either_copyout_def by (intro keep_rules keep_ops) simp_all

lemma keep_put_inode [keep_ops]: "keeps st0 st \<Longrightarrow> keep' st0 (put_inode c ip st)"
  unfolding put_inode_def by (intro keep_rules keep_ops) simp_all

text \<open>Pipes and the console.\<close>

lemma keep_pipeclose [keep_ops]: "keeps st0 st \<Longrightarrow> keep' st0 (pipeclose env pi w st)"
  unfolding pipeclose_def Let_def by (intro keep_rules keep_ops) (simp_all add: keeps_wakeup)

lemma keep_pipewrite_iter: "keeps st0 st \<Longrightarrow> keep st0 (pipewrite_iter env c pi addr n i st)"
  unfolding pipewrite_iter_def Let_def by (intro keep_rules keep_ops keep_pure) (simp_all add: keeps_wakeup)

lemma keep_pipewrite [keep_ops]: "keeps st0 st \<Longrightarrow> keep st0 (pipewrite env c pi addr n i st)"
proof (induction env c pi addr n i st arbitrary: st0 rule: pipewrite.induct)
  case (1 env c pi addr n i st)
  show ?case
    by (subst pipewrite.simps, intro keep_rules keep_pipewrite_iter 1(2) 1(1)) auto
qed

lemma keep_piperead_copy [keep_ops]: "keeps st0 st \<Longrightarrow> keep st0 (piperead_copy env pr pi addr n i st)"
proof (induction env pr pi addr n i st arbitrary: st0 rule: piperead_copy.induct)
  case (1 env pr pi addr n i st)
  show ?case
    by (subst piperead_copy.simps, unfold Let_def, intro keep_rules keep_ops 1(1)) (use 1(2) in \<open>auto simp: keeps_wakeup\<close>)
qed

lemma keep_piperead [keep_ops]: "keeps st0 st \<Longrightarrow> keep st0 (piperead env c pi addr n st)"
  unfolding piperead_def by (intro keep_rules keep_ops) simp_all

lemma keep_uartwrite_loop [keep_ops]: "keeps st0 st \<Longrightarrow> keep st0 (uartwrite_loop c bs st)"
proof (induction c bs st arbitrary: st0 rule: uartwrite_loop.induct)
  case (2 c b bs st)
  have l: "keep st1 m \<Longrightarrow> (\<And>x xs. y = x # xs \<Longrightarrow> keep st1 (f x xs)) \<Longrightarrow> keep st1 (case y of [] \<Rightarrow> m | x # xs \<Rightarrow> f x xs)" for st1 m y f
    by (simp split: list.split)
  show ?case unfolding uartwrite_loop.simps by (intro keep_rules keep_ops l 2(1)) (use 2(2) in auto)
qed (simp add: keep_return)

lemma keep_uartwrite [keep_ops]: "keeps st0 st \<Longrightarrow> keep st0 (uartwrite c bs st)"
  unfolding uartwrite_def by (intro keep_rules keep_ops) simp_all

lemma keep_either_copyin: "either_copyin env c u src len st = Inr (r, bs, st') \<Longrightarrow> keeps st0 st \<Longrightarrow> keeps st0 st'"
  by (auto simp: either_copyin_def with_proc_def split: if_splits option.splits)

lemma keep_consolewrite_loop [keep_ops]: "keeps st0 st \<Longrightarrow> keep st0 (consolewrite_loop env c u src n i st)"
proof (induction env c u src n i st arbitrary: st0 rule: consolewrite_loop.induct)
  case (1 env c u src n i st)
  show ?case
    by (subst consolewrite_loop.simps, unfold Let_def, intro keep_rules keep_ops keep_pure 1(1) [OF _ refl])
      (use 1(2) in \<open>auto dest: keep_either_copyin\<close>)
qed

lemma keep_consoleread_loop [keep_ops]: "keeps st0 st \<Longrightarrow> keep st0 (consoleread_loop env c u dst target n st)"
proof (induction env c u dst target n st arbitrary: st0 rule: consoleread_loop.induct)
  case (1 env c u dst target n st)
  show ?case
    by (subst consoleread_loop.simps, unfold Let_def, intro keep_rules keep_ops 1(1)) (use 1(2) in auto)
qed

lemma keep_console [keep_ops]:
  "keeps st0 st \<Longrightarrow> keep st0 (consolewrite env c u src n st)" "keeps st0 st \<Longrightarrow> keep st0 (consoleread env c u dst n st)"
  unfolding consolewrite_def consoleread_def by (intro keep_ops, simp)+

text \<open>Inodes and files.\<close>

lemma readi_loop_keeps:
  assumes "\<And>dst bs m r m'. cp dst bs m = Inr (r, m') \<Longrightarrow> P m \<Longrightarrow> P m'"
  shows "readi_loop cp pid ip dst off n tot (s, m) = Inr (r, s', m') \<Longrightarrow> P m \<Longrightarrow> P m'"
proof (induction "n - tot" arbitrary: dst off tot s m rule: less_induct)
  case less
  show ?case
  proof (cases "tot < n")
    case True
    let ?k = "min (n - tot) (BSIZE - off mod BSIZE)"
    from less.prems(1) [unfolded readi_loop.simps [of cp pid ip dst off n tot s m]] True
    consider "m' = m" | bs v where "cp dst bs m = Inr (v, m')"
      | bs v m1 s3 where "cp dst bs m = Inr (v, m1)" "readi_loop cp pid ip (dst + of_nat ?k) (off + ?k) n (tot + ?k) (s3, m1) = Inr (r, s', m')"
      by (auto simp: Let_def split: if_splits)
    then show ?thesis
    proof cases
      case (3 bs v m1 s3)
      have "0 < ?k" using True by (simp add: BSIZE_def)
      with less.hyps [OF _ 3(2)] assms [OF 3(1) less.prems(2)] True show ?thesis by simp
    qed (use less.prems(2) assms in auto)
  next
    case False
    then show ?thesis using less.prems by (simp add: readi_loop.simps)
  qed
qed

lemma writei_loop_keeps:
  assumes "\<And>src len m r bs m'. cp src len m = Inr (r, bs, m') \<Longrightarrow> P m \<Longrightarrow> P m'"
  shows "writei_loop cp pid ip src off n tot (s, m) = Inr (t, e, s', m') \<Longrightarrow> P m \<Longrightarrow> P m'"
proof (induction "n - tot" arbitrary: src off tot s m rule: less_induct)
  case less
  show ?case
  proof (cases "tot < n")
    case True
    let ?k = "min (n - tot) (BSIZE - off mod BSIZE)"
    from less.prems(1) [unfolded writei_loop.simps [of cp pid ip src off n tot s m]] True
    consider "m' = m" | v bs where "cp src (of_nat ?k) m = Inr (v, bs, m')"
      | v bs m1 s3 where "cp src (of_nat ?k) m = Inr (v, bs, m1)" "writei_loop cp pid ip (src + of_nat ?k) (off + ?k) n (tot + ?k) (s3, m1) = Inr (t, e, s', m')"
      by (auto simp: Let_def split: if_splits)
    then show ?thesis
    proof cases
      case (3 v bs m1 s3)
      have "0 < ?k" using True by (simp add: BSIZE_def)
      with less.hyps [OF _ 3(2)] assms [OF 3(1) less.prems(2)] True show ?thesis by simp
    qed (use less.prems(2) assms in auto)
  next
    case False
    then show ?thesis using less.prems by (simp add: writei_loop.simps)
  qed
qed

lemma copyout_keeps: "either_copyout env c u dst bs m = Inr (r, m') \<Longrightarrow> keeps st0 m \<Longrightarrow> keeps st0 m'"
  using keep_either_copyout [of st0 m] by (simp add: keep_def)

lemma keep_mem_readi [keep_ops]: "keeps st0 st \<Longrightarrow> keep st0 (mem_readi env c u ip dst off n st)"
proof -
  assume k: "keeps st0 st"
  have "readi_loop (either_copyout env c u) pid ip dst off' n' tot (s, st) = Inr (r, s', m') \<Longrightarrow> keeps st0 m'" for pid off' n' tot s r s' m'
    by (rule readi_loop_keeps [where P = "keeps st0"]) (auto intro: copyout_keeps k)
  with k show ?thesis
    by (auto simp: keep_def mem_readi_def with_pid_def with_proc_def readi_def Let_def split: if_splits option.splits)
qed

lemma keep_user_writei [keep_ops]: "keeps st0 st \<Longrightarrow> keep st0 (user_writei env c ip src off n st)"
proof -
  assume k: "keeps st0 st"
  have "writei_loop (either_copyin env c True) pid ip src off' n' tot (s, st) = Inr (t, e, s', m') \<Longrightarrow> keeps st0 m'" for pid off' n' tot s t e s' m'
    by (rule writei_loop_keeps [where P = "keeps st0"]) (auto intro: keep_either_copyin k)
  with k show ?thesis
    by (auto simp: keep_def user_writei_def with_pid_def with_proc_def writei_def Let_def split: if_splits option.splits)
qed

lemma keep_filestat [keep_ops]: "keeps st0 st \<Longrightarrow> keep st0 (filestat env c pad f addr st)"
  unfolding filestat_def Let_def by (intro keep_rules keep_ops) simp_all

lemma keep_fdtype: "keep st m1 \<Longrightarrow> keep st m2 \<Longrightarrow> keep st m3 \<Longrightarrow> keep st m4 \<Longrightarrow>
    keep st (case t of FD_NONE \<Rightarrow> m1 | FD_PIPE \<Rightarrow> m2 | FD_INODE \<Rightarrow> m3 | FD_DEVICE \<Rightarrow> m4)"
  by (simp split: fdtype.split)

lemma keep_dev: "keep st m \<Longrightarrow> keep st (case d of Dev_consoleread \<Rightarrow> m)" "keep st m \<Longrightarrow> keep st (case e of Dev_consolewrite \<Rightarrow> m)"
  by (simp_all split: devread.split devwrite.split)

lemma keep_fileread [keep_ops]: "keeps st0 st \<Longrightarrow> keep st0 (fileread env c f addr n st)"
  unfolding fileread_def Let_def by (intro keep_rules keep_ops keep_fdtype keep_dev) (simp_all add: keeps_upd_file file_keep_def)

lemma keep_filewrite_chunk [keep_ops]: "keeps st0 st \<Longrightarrow> keep st0 (filewrite_chunk env c f src n1 st)"
  unfolding filewrite_chunk_def Let_def by (intro keep_rules keep_ops) (simp_all add: keeps_upd_file file_keep_def)

lemma keep_filewrite_loop [keep_ops]: "keeps st0 st \<Longrightarrow> keep st0 (filewrite_loop env c f addr n i st)"
proof (induction env c f addr n i st arbitrary: st0 rule: filewrite_loop.induct)
  case (1 env c f addr n i st)
  show ?case
    by (subst filewrite_loop.simps, unfold Let_def, intro keep_rules keep_ops 1(1) [OF _ refl]) (use 1(2) in auto)
qed

lemma keep_filewrite [keep_ops]: "keeps st0 st \<Longrightarrow> keep st0 (filewrite env c f addr n st)"
  unfolding filewrite_def Let_def by (intro keep_rules keep_ops keep_fdtype keep_dev) simp_all

text \<open>Programs, names and directories.\<close>

lemma keeps_tf_set [simp]: "keeps st0 (tf_set fld v pr st) = keeps st0 st"
  by (simp add: tf_set_def)

lemma keep_fetchaddr [keep_ops]: "keeps st0 st \<Longrightarrow> keep st0 (fetchaddr env c addr st)"
  unfolding fetchaddr_def Let_def by (intro keep_rules keep_ops keep_pure) simp_all

lemma keep_fetchstr [keep_ops]: "keeps st0 st \<Longrightarrow> keep st0 (fetchstr env c addr mx st)"
  unfolding fetchstr_def Let_def by (intro keep_rules keep_ops keep_pure) simp_all

lemma keep_argstr [keep_ops]: "keeps st0 st \<Longrightarrow> keep st0 (argstr env c n mx st)"
  unfolding argstr_def by (intro keep_rules keep_ops keep_pure) simp_all

lemma keep_with_cwd: "(\<And>d. keep st (g d)) \<Longrightarrow> keep st (with_cwd c path st' g)"
  unfolding with_cwd_def by (intro keep_rules)

lemma keep_loadseg_loop [keep_ops]: "keeps st0 st \<Longrightarrow> keep st0 (loadseg_loop env c pt va ip offset sz i st)"
proof (induction env c pt va ip offset sz i st arbitrary: st0 rule: loadseg_loop.induct)
  case (1 env c pt va ip offset sz i st)
  show ?case
    by (subst loadseg_loop.simps, unfold Let_def, intro keep_rules keep_ops keep_pure 1(1) [OF _ _ _ refl]) (use 1(2) in auto)
qed

lemma keep_exec_segments [keep_ops]: "keeps st0 st \<Longrightarrow> keep st0 (exec_segments env c pid ip pt off k sz st)"
proof (induction k arbitrary: st0 off sz st)
  case (Suc k)
  show ?case unfolding exec_segments.simps Let_def loadseg_def
    by (intro keep_rules keep_ops Suc.IH) (use Suc.prems in auto)
qed (simp add: keep_return)

lemma keep_exec_bad [keep_ops]: "keeps st0 st \<Longrightarrow> keep st0 (exec_bad env pid pt sz ip st)"
  unfolding exec_bad_def by (intro keep_rules keep_ops) simp_all

lemma keep_exec_args [keep_ops]: "keeps st0 st \<Longrightarrow> keep st0 (exec_args env pt sz sb sp args us st)"
proof (induction args arbitrary: st0 sp us st)
  case Nil
  then show ?case by (simp add: keep_return)
next
  case (Cons a args)
  show ?case unfolding exec_args.simps Let_def by (intro keep_rules keep_ops Cons.IH) (use Cons.prems in auto)
qed

lemma keep_exec_image [keep_ops]: "keeps st0 st \<Longrightarrow> keep st0 (exec_image env pr path argv entry pt sz st)"
  unfolding exec_image_def Let_def by (intro keep_rules keep_ops) (simp_all add: keeps_simps)

lemma keep_kexec [keep_ops]: "keeps st0 st \<Longrightarrow> keep st0 (kexec env c path argv st)"
  unfolding kexec_def Let_def by (intro keep_rules keep_ops keep_with_cwd) simp_all

lemma keep_exec_argv [keep_ops]: "keeps st0 st \<Longrightarrow> keep st0 (exec_argv env c uargv i argv st)"
proof (induction "MAXARG - i" arbitrary: i argv st st0 rule: less_induct)
  case less
  show ?case
    by (subst exec_argv.simps, unfold Let_def, intro keep_rules keep_ops less.hyps) (use less.prems in auto)
qed

lemma keep_free_argv [keep_ops]: "keeps st0 st \<Longrightarrow> keep' st0 (free_argv env pages st)"
proof (induction pages arbitrary: st0 st)
  case (Cons p ps)
  show ?case unfolding free_argv.simps by (intro keep_rules keep_ops Cons.IH) (use Cons.prems in auto)
qed (simp add: keep_return)

text \<open>The process table.\<close>

lemma keeps_freed: "keeps st0 st \<Longrightarrow> no_files (proc_at i st) \<Longrightarrow> (\<And>p. p_ofile (g p) = p_ofile p \<and> p_state (g p) = p_state p) \<Longrightarrow>
    keeps st0 (upd_proc i (\<lambda>p. freed_proc (g p)) st)"
  by (erule keeps_trans, rule keepsI) (auto simp: upd_proc_def nth_upd_nth proc_keep_def freed_proc_def no_files_def chan_ok_def)

lemma keep_allocproc [keep_ops]: "keeps st0 st \<Longrightarrow> keep st0 (allocproc env st)"
proof -
  have "keeps st st'" if "allocproc env st = Inr (r, st')" for r st'
    using that
  proof (cases rule: allocproc_cases)
    case (nomem i km)
    have "keeps st (upd_proc i (\<lambda>p. freed_proc p) (st\<lparr>nextpid := nextpid st + 1, kmemory := km\<rparr>))"
      using nomem(3) by (intro keeps_freed) (auto simp: no_files_def)
    with nomem(4) show ?thesis by simp
  next
    case (ok i km tf pt)
    then show ?thesis
      by (intro keepsI) (auto simp: upd_proc_def nth_upd_nth proc_keep_def fresh_proc_def no_files_def chan_ok_def)
  qed simp
  then show "keeps st0 st \<Longrightarrow> ?thesis" by (auto simp: keep_def intro: keeps_trans)
qed

lemma keep_freeproc: "keeps st0 st \<Longrightarrow> no_files (proc_at i st) \<Longrightarrow> keep' st0 (freeproc env i st)"
  using keeps_freed [of st0 "st\<lparr>kmemory := km\<rparr>" i "\<lambda>p. p" for km] by (auto simp: keep'_def dest!: freeproc_eq)

lemma wait_outcome_keeps: "wait_outcome i r st st' \<Longrightarrow> keeps st st'"
  unfolding wait_outcome_def
proof (elim disjE exE conjE)
  fix j km
  assume "zombie_child i (proc_at j st)" and st': "st' = upd_proc j (\<lambda>p. freed_proc (p\<lparr>p_parent := None\<rparr>)) (st\<lparr>kmemory := km\<rparr>)"
  then show "keeps st st'" unfolding st' by (intro keeps_freed) (auto simp: zombie_child_def no_files_def)
qed (auto intro!: keeps_upd_proc simp: proc_keep_def no_files_def chan_ok_def)

lemma keep_wait [keep_ops]: "keeps st0 st \<Longrightarrow> keep st0 (kwait env c addr st)" "keeps st0 st \<Longrightarrow> keep st0 (kwaitx env c addr aw ar as st)"
proof -
  have "keeps st st'" if "kwait env c addr st = Inr (r, st')" for r st'
    using that kwait_outcome [OF that] wait_outcome_keeps unfolding kwait_def by (blast dest: with_proc_Inr)
  moreover have "keeps st st'" if "kwaitx env c addr aw ar as st = Inr (r, st')" for r st'
    using that kwaitx_outcome [OF that] wait_outcome_keeps unfolding kwaitx_def by (blast dest: with_proc_Inr)
  ultimately show "keeps st0 st \<Longrightarrow> keep st0 (kwait env c addr st)" "keeps st0 st \<Longrightarrow> keep st0 (kwaitx env c addr aw ar as st)"
    by (auto simp: keep_def intro: keeps_trans)
qed

lemma keep_growproc [keep_ops]: "keeps st0 st \<Longrightarrow> keep st0 (growproc env c n st)"
  unfolding growproc_def Let_def by (intro keep_rules keep_ops) (simp_all add: keeps_simps)

lemma keeps_kkill: "keeps st0 st \<Longrightarrow> keeps st0 (snd (kkill pid st))"
proof -
  have "keeps st (snd (kkill pid st))"
    by (rule keepsI) (auto simp: kkill_def mlfq_next_seq_def Let_def upd_proc_def nth_upd_nth proc_keep_def no_files_def chan_ok_def split: option.splits)
  then show "keeps st0 st \<Longrightarrow> ?thesis" by (rule keeps_trans [rotated])
qed

lemma mlfq_boost_ftable [simp]: "ftable (mlfq_boost st) = ftable st"
  by (simp add: mlfq_boost_def split: prod.splits)

lemma keeps_boost: "keeps st0 st \<Longrightarrow> keeps st0 (mlfq_boost st)"
  by (erule keeps_trans, rule keepsI) (auto simp: mlfq_boost_procs boosted_def proc_keep_def no_files_def chan_ok_def)

lemma keeps_clockintr: "keeps st0 st \<Longrightarrow> keeps st0 (clockintr c st)"
  by (simp add: clockintr_def Let_def keeps_boost keeps_wakeup)

lemma keeps_tick_handler: "keeps st0 st \<Longrightarrow> mlfq_tick_handler i st = (b, st') \<Longrightarrow> i < length (procs st) \<Longrightarrow> keeps st0 st'"
  by (erule keeps_trans, rule keepsI)
    (auto simp: tick_handler_unfold Let_def nth_upd_nth proc_keep_def no_files_def chan_ok_def ticked_def demoted_def split: if_splits)

lemma keep_uartputc [keep_ops]: "keeps st0 st \<Longrightarrow> keep' st0 (uartputc_sync ch st)"
  unfolding uartputc_sync_def by (intro keep_rules keep_pure) simp

lemma keep_consputc [keep_ops]: "keeps st0 st \<Longrightarrow> keep' st0 (consputc ch st)"
  unfolding consputc_def consputc_bs_def by (intro keep_rules keep_ops) simp_all

lemma keep_kill_line [keep_ops]: "keeps st0 st \<Longrightarrow> keep' st0 (kill_line k st)"
proof (induction k arbitrary: st0 st)
  case (Suc k)
  show ?case unfolding kill_line.simps by (intro keep_rules keep_ops Suc.IH) (use Suc.prems in simp_all)
qed (simp add: keep_return)

lemma keep_consoleintr [keep_ops]: "keeps st0 st \<Longrightarrow> keep' st0 (consoleintr ch st)"
  unfolding consoleintr_def Let_def by (intro keep_rules keep_ops) (simp_all add: keeps_wakeup)

lemma keep_uartintr_loop [keep_ops]: "keeps st0 st \<Longrightarrow> keep' st0 (uartintr_loop rx st)"
proof (induction rx arbitrary: st0 st)
  case (Cons ch rx)
  show ?case unfolding uartintr_loop.simps by (intro keep_rules keep_ops Cons.IH) (use Cons.prems in simp_all)
qed (simp add: keep_return)

lemma keep_uartintr [keep_ops]: "keeps st0 st \<Longrightarrow> keep' st0 (uartintr st)"
  unfolding uartintr_def Let_def by (cases "uart_tx st") (auto intro!: keep_return keep_ops simp: keeps_wakeup)

lemma keep_devintr [keep_ops]: "keeps st0 st \<Longrightarrow> keep st0 (devintr c irq cause st)"
  unfolding devintr_def by (intro keep_rules keep_ops) (simp_all add: keeps_clockintr)

end
