(* ===== verification/FileProps.thy ===== *)
theory FileProps
  imports FileKeep
begin

text \<open>
  The table of open files: every descriptor of a process refers to an open file, the reference count of a file
  is the number of the descriptors that refer to it, and processes that have not started or have exited
  have none. Every trap keeps this, system calls included.
\<close>

section \<open>The invariant\<close>

definition NCPU :: nat where "NCPU = 8"

definition fd_refs :: "nat \<Rightarrow> proc list \<Rightarrow> int" where
  "fd_refs f ps = (\<Sum>p\<leftarrow>ps. int (count_list (p_ofile p) (Some f)))"

definition fds_ok :: "nat \<Rightarrow> proc \<Rightarrow> bool" where
  "fds_ok nf p \<longleftrightarrow> length (p_ofile p) = NOFILE \<and> (no_files p \<longrightarrow> set (p_ofile p) \<subseteq> {None}) \<and> (\<forall>f. Some f \<in> set (p_ofile p) \<longrightarrow> f < nf)"

text \<open>
  Inside of an operation, \<open>ext f\<close> is the number of references to \<open>f\<close> that its local variables hold, and the
  files in \<open>new\<close> have no type yet.
\<close>

definition file_inv :: "(nat \<Rightarrow> int) \<Rightarrow> nat set \<Rightarrow> 'z fstate_scheme \<Rightarrow> bool" where
  "file_inv ext new st \<longleftrightarrow> proc_inv st \<and> length (cpus st) = NCPU \<and> list_all (fds_ok (length (ftable st))) (procs st)
     \<and> (\<forall>f<length (ftable st). f_ref (ftable st ! f) = fd_refs f (procs st) + ext f
          \<and> (f_ref (ftable st ! f) = 0 \<longrightarrow> f_type (ftable st ! f) = FD_NONE)
          \<and> (f_type (ftable st ! f) = FD_NONE \<longrightarrow> f_ref (ftable st ! f) = 0 \<or> f \<in> new))"

definition files_ok :: "'z fstate_scheme \<Rightarrow> bool" where
  "files_ok st \<longleftrightarrow> file_inv (\<lambda>_. 0) {} st"

lemma file_invD:
  assumes "file_inv ext new st"
  shows "proc_inv st" "i < length (procs st) \<Longrightarrow> fds_ok (length (ftable st)) (proc_at i st)"
    "f < length (ftable st) \<Longrightarrow> f_ref (ftable st ! f) = fd_refs f (procs st) + ext f"
    "f < length (ftable st) \<Longrightarrow> f_ref (ftable st ! f) = 0 \<Longrightarrow> f_type (ftable st ! f) = FD_NONE"
    "f < length (ftable st) \<Longrightarrow> f_type (ftable st ! f) = FD_NONE \<Longrightarrow> f_ref (ftable st ! f) = 0 \<or> f \<in> new"
    "length (cpus st) = NCPU"
  using assms by (auto simp: file_inv_def list_all_length)

lemma file_inv_eq: "file_inv ext new st \<Longrightarrow> (\<And>f. ext f = ext' f) \<Longrightarrow> file_inv ext' new st"
  by (metis ext)

lemma with_proc_eq_Inr [simp]: "with_proc c st f = Inr y \<longleftrightarrow> (\<exists>i. myproc c st = Some i \<and> f i = Inr y)"
  by (auto simp: with_proc_def split: option.splits)

lemma fd_refs_nonneg: "0 \<le> fd_refs f ps"
  by (induction ps) (auto simp: fd_refs_def)

lemma fd_refs_keep: "list_all2 proc_keep ps qs \<Longrightarrow> fd_refs f qs = fd_refs f ps"
  by (induction rule: list_all2_induct) (auto simp: fd_refs_def proc_keep_def)

lemma keeps_proc_inv: "proc_inv st \<Longrightarrow> keeps st st' \<Longrightarrow> proc_inv st'"
  by (erule proc_inv_cong) (auto simp: keeps_def list_all2_conv_all_nth proc_keep_def)

lemma file_inv_keeps:
  assumes "file_inv ext new st" and "keeps st st'"
  shows "file_inv ext new st'"
proof -
  have k: "list_all2 file_keep (ftable st) (ftable st')" "list_all2 proc_keep (procs st) (procs st')" using assms(2) by (simp_all add: keeps_def)
  have f: "length (ftable st') = length (ftable st)" "f < length (ftable st) \<Longrightarrow> file_keep (ftable st ! f) (ftable st' ! f)" for f
    using k(1) by (simp_all add: list_all2_conv_all_nth)
  have "fds_ok (length (ftable st')) (proc_at i st')" if "i < length (procs st)" for i
    using file_invD(2) [OF assms(1) that] f(1) list_all2_nthD [OF k(2) that] by (auto simp: fds_ok_def proc_keep_def)
  with keeps_proc_inv [OF file_invD(1) [OF assms(1)] assms(2)] file_invD(3-5) [OF assms(1)] f fd_refs_keep [OF k(2)]
  show ?thesis using list_all2_lengthD [OF k(2)] file_invD(6) [OF assms(1)] assms(2) by (auto simp: file_inv_def file_keep_def list_all_length keeps_def)
qed

section \<open>Descriptors\<close>

lemma count_list_upd:
  "i < length xs \<Longrightarrow> int (count_list (xs[i := y]) z) = int (count_list xs z) - of_bool (xs ! i = z) + of_bool (y = z)"
proof (induction xs arbitrary: i)
  case (Cons x xs)
  then show ?case by (cases i) auto
qed simp

lemma fd_refs_set_ofile:
  assumes "pr < length (procs st)" and "fd < length (p_ofile (proc_at pr st))"
  shows "fd_refs f (procs (set_ofile pr fd x st)) = fd_refs f (procs st) - of_bool (p_ofile (proc_at pr st) ! fd = Some f) + of_bool (x = Some f)"
  using assms unfolding fd_refs_def set_ofile_def upd_proc_def by (simp add: sum_list_upd_nth count_list_upd)

lemma set_ofile_inv:
  assumes "file_inv ext new st" and "pr < length (procs st)" and "\<not> no_files (proc_at pr st)" and "fd < NOFILE"
    and "\<And>f. x = Some f \<Longrightarrow> f < length (ftable st)"
  shows "file_inv (\<lambda>f. ext f + of_bool (p_ofile (proc_at pr st) ! fd = Some f) - of_bool (x = Some f)) new (set_ofile pr fd x st)"
proof -
  let ?st = "set_ofile pr fd x st"
  have p: "fds_ok (length (ftable st)) (proc_at pr st)" using file_invD(2) [OF assms(1)] assms(2) by simp
  then have l: "fd < length (p_ofile (proc_at pr st))" using assms(4) by (simp add: fds_ok_def)
  have "fds_ok (length (ftable st)) ((proc_at pr st)\<lparr>p_ofile := (p_ofile (proc_at pr st))[fd := x]\<rparr>)"
    using p assms(3,5) set_update_subset_insert [of "p_ofile (proc_at pr st)" fd x] by (auto simp: fds_ok_def no_files_def)
  then have "list_all (fds_ok (length (ftable ?st))) (procs ?st)"
    using file_invD(2) [OF assms(1)] assms(2) by (simp add: set_ofile_def upd_proc_def list_all_length nth_upd_nth)
  moreover have "proc_inv ?st" unfolding set_ofile_def
    by (rule proc_inv_upd_proc [OF file_invD(1) [OF assms(1)]]) (simp_all add: chan_ok_def)
  moreover have "ftable ?st = ftable st" "cpus ?st = cpus st" by (simp_all add: set_ofile_def upd_proc_def)
  ultimately show ?thesis using file_invD(3-6) [OF assms(1)] fd_refs_set_ofile [OF assms(2) l] by (simp add: file_inv_def)
qed

text \<open>The process of a hart, and the descriptors it can name.\<close>

lemma running_proc:
  assumes "file_inv ext new st" and "c < length (cpus st)" and "myproc c st = Some pr"
  shows "pr < length (procs st)" "\<not> no_files (proc_at pr st)" "running_at c pr st"
  using proc_inv_running [OF file_invD(1) [OF assms(1)] assms(2,3)] by (auto simp: running_at_def no_files_def)

section \<open>Files\<close>

lemma upd_file_inv:
  assumes "file_inv ext new st" and "f < length (ftable st)" and "f_ref (g (ftable st ! f)) = f_ref (ftable st ! f) + k"
    and "f_ref (g (ftable st ! f)) = 0 \<Longrightarrow> f_type (g (ftable st ! f)) = FD_NONE"
    and "f_type (g (ftable st ! f)) = FD_NONE \<Longrightarrow> f_ref (g (ftable st ! f)) = 0 \<or> f \<in> new'" and "new \<subseteq> insert f new'"
  shows "file_inv (ext(f := ext f + k)) new' (upd_file f g st)"
proof -
  have "proc_inv (upd_file f g st)" using file_invD(1) [OF assms(1)] by (simp add: proc_inv_def upd_file_def)
  moreover have "list_all (fds_ok (length (ftable (upd_file f g st)))) (procs (upd_file f g st))"
    using assms(1) by (simp add: file_inv_def upd_file_def)
  moreover have "f_ref (ftable (upd_file f g st) ! h) = fd_refs h (procs (upd_file f g st)) + (ext(f := ext f + k)) h
      \<and> (f_ref (ftable (upd_file f g st) ! h) = 0 \<longrightarrow> f_type (ftable (upd_file f g st) ! h) = FD_NONE)
      \<and> (f_type (ftable (upd_file f g st) ! h) = FD_NONE \<longrightarrow> f_ref (ftable (upd_file f g st) ! h) = 0 \<or> h \<in> new')"
    if "h < length (ftable st)" for h
    using file_invD(3-5) [OF assms(1) that] assms(2-6) that by (cases "h = f") (auto simp: upd_file_def nth_upd_nth)
  moreover have len: "length (ftable (upd_file f g st)) = length (ftable st)" "cpus (upd_file f g st) = cpus st" by (simp_all add: upd_file_def)
  ultimately show ?thesis unfolding file_inv_def len using file_invD(6) [OF assms(1)] by blast
qed

lemma filealloc_inv:
  assumes "file_inv ext new st" and "filealloc st = (Some f, st')"
  shows "file_inv (ext(f := ext f + 1)) (insert f new) st'" "f < length (ftable st)" "f_ref (ftable st' ! f) = 1"
    "procs st' = procs st" "cpus st' = cpus st" "length (ftable st') = length (ftable st)"
proof -
  have f: "f < length (ftable st)" "f_ref (ftable st ! f) = 0" "st' = upd_file f (\<lambda>x. x\<lparr>f_ref := 1\<rparr>) st"
    using assms(2) by (auto simp: filealloc_def dest: find_idxD split: option.splits)
  then show "f < length (ftable st)" "f_ref (ftable st' ! f) = 1" "procs st' = procs st" "cpus st' = cpus st"
    "length (ftable st') = length (ftable st)" by (simp_all add: upd_file_def)
  show "file_inv (ext(f := ext f + 1)) (insert f new) st'" unfolding f(3)
    by (rule upd_file_inv [OF assms(1) f(1)]) (use f(2) in auto)
qed

lemma filedup_inv:
  assumes "file_inv ext new st" and "f < length (ftable st)" and "filedup f st = Inr st'"
  shows "file_inv (ext(f := ext f + 1)) new st'"
proof -
  have f: "\<not> f_ref (ftable st ! f) < 1" "st' = upd_file f (\<lambda>x. x\<lparr>f_ref := f_ref x + 1\<rparr>) st" using assms(3) by (auto simp: filedup_def split: if_splits)
  show ?thesis unfolding f(2)
    by (rule upd_file_inv [OF assms(1,2)]) (use f(1) file_invD(5) [OF assms(1,2)] in auto)
qed

lemma fileclose_inv:
  assumes "file_inv ext new st" and "f < length (ftable st)" and "fileclose env c f st = Inr st'"
    and "new' = new \<or> new' = new - {f} \<and> f_ref (ftable st ! f) = 1"
  shows "file_inv (ext(f := ext f - 1)) new' st'"
proof -
  let ?x = "ftable st ! f"
  have r: "\<not> f_ref ?x < 1" using assms(3) by (auto simp: fileclose_def Let_def split: if_splits)
  show ?thesis
  proof (cases "f_ref ?x - 1 > 0")
    case True
    have "file_inv (ext(f := ext f + (- 1))) new' (upd_file f (\<lambda>x. x\<lparr>f_ref := f_ref x - 1\<rparr>) st)"
      by (rule upd_file_inv [OF assms(1,2)]) (use True assms(4) file_invD(5) [OF assms(1,2)] in auto)
    then show ?thesis using assms(3) r True by (simp add: fileclose_def Let_def)
  next
    case False
    let ?st1 = "upd_file f (\<lambda>x. x\<lparr>f_ref := 0, f_type := FD_NONE\<rparr>) st"
    have i: "file_inv (ext(f := ext f + (- 1))) new' ?st1"
      by (rule upd_file_inv [OF assms(1,2)]) (use False r assms(4) in auto)
    have "keeps ?st1 st'"
      using assms(3) r False keep_pipeclose [of ?st1 ?st1] keep_put_inode [of ?st1 ?st1]
      by (auto simp: fileclose_def Let_def keep'_def split: fdtype.splits)
    with file_inv_keeps [OF i] show ?thesis by simp
  qed
qed

lemma fileclose_frame:
  assumes "fileclose env c f st = Inr st'"
  shows "cpus st' = cpus st" "length (ftable st') = length (ftable st)" "list_all2 proc_keep (procs st) (procs st')"
proof -
  let ?st1 = "upd_file f (\<lambda>x. x\<lparr>f_ref := 0, f_type := FD_NONE\<rparr>) st" and ?st2 = "upd_file f (\<lambda>x. x\<lparr>f_ref := f_ref x - 1\<rparr>) st"
  have "keeps ?st1 st' \<or> st' = ?st2"
    using assms keep_pipeclose [of ?st1 ?st1] keep_put_inode [of ?st1 ?st1]
    by (auto simp: fileclose_def Let_def keep'_def split: fdtype.splits if_splits)
  then show "cpus st' = cpus st" "length (ftable st') = length (ftable st)" "list_all2 proc_keep (procs st) (procs st')"
    by (auto simp: keeps_def upd_file_def list.rel_refl dest: list_all2_lengthD)
qed

lemma fdalloc_inv:
  assumes "file_inv ext new st" and "c < length (cpus st)" and "myproc c st = Some pr" and "f < length (ftable st)"
    and "fdalloc c f st = Inr (r, st')"
  obtains (full) "r = None" "st' = st"
  | (ok) fd where "r = Some fd" "fd < NOFILE" "p_ofile (proc_at pr st) ! fd = None" "st' = set_ofile pr fd (Some f) st"
      "file_inv (ext(f := ext f - 1)) new st'"
proof (cases "find_idx (\<lambda>x. x = None) (p_ofile (proc_at pr st))")
  case None
  with assms(3,5) that(1) show ?thesis by (simp add: fdalloc_def with_proc_def)
next
  case (Some fd)
  note run = running_proc [OF assms(1-3)]
  have fd: "fd < NOFILE" "p_ofile (proc_at pr st) ! fd = None"
    using find_idxD [OF Some] file_invD(2) [OF assms(1) run(1)] by (auto simp: fds_ok_def)
  have st': "st' = set_ofile pr fd (Some f) st" "r = Some fd" using Some assms(3,5) by (simp_all add: fdalloc_def with_proc_def)
  have "(\<lambda>h. ext h + of_bool (p_ofile (proc_at pr st) ! fd = Some h) - of_bool (Some f = Some h)) = ext(f := ext f - 1)"
    using fd(2) by (auto simp: fun_eq_iff)
  with set_ofile_inv [OF assms(1) run(1,2) fd(1), of "Some f"] assms(4) have "file_inv (ext(f := ext f - 1)) new st'" by (simp add: st')
  with that(2) st' fd show ?thesis by blast
qed

lemma argfd_Some:
  assumes "file_inv ext new st" and "c < length (cpus st)" and "argfd c n st = Inr (Some (fd, f))"
  obtains pr where "myproc c st = Some pr" "fd < NOFILE" "p_ofile (proc_at pr st) ! fd = Some f" "f < length (ftable st)"
proof -
  from assms(3) obtain pr v where p: "myproc c st = Some pr" "\<not> (v < 0 \<or> v \<ge> int NOFILE)" "fd = nat v" "p_ofile (proc_at pr st) ! nat v = Some f"
    by (auto simp: argfd_def split: if_splits)
  have "fds_ok (length (ftable st)) (proc_at pr st)" by (rule file_invD(2) [OF assms(1) running_proc(1) [OF assms(1,2) p(1)]])
  moreover have "nat v < NOFILE" using p(2) by linarith
  ultimately have "f < length (ftable st)" using p(4) nth_mem [of "nat v" "p_ofile (proc_at pr st)"] by (auto simp: fds_ok_def)
  with that p \<open>nat v < NOFILE\<close> show ?thesis by blast
qed

section \<open>System calls\<close>

lemma sys_dup_ok:
  assumes "files_ok st" and "c < length (cpus st)" and "sys_dup c st = Inr (r, st')"
  shows "files_ok st'"
proof -
  have i: "file_inv (\<lambda>_. 0) {} st" using assms(1) by (simp add: files_ok_def)
  from assms(3) consider "st' = st" | fd f q st1 where "argfd c 0 st = Inr (Some (fd, f))" "fdalloc c f st = Inr (q, st1)"
      "(q = None \<and> st' = st1) \<or> (q \<noteq> None \<and> filedup f st1 = Inr st')"
    by (auto simp: sys_dup_def split: option.split_asm prod.split_asm)
  then show ?thesis
  proof cases
    case (2 fd f q st1)
    from argfd_Some [OF i assms(2) 2(1)] obtain pr where f: "myproc c st = Some pr" "f < length (ftable st)" by blast
    from i assms(2) f 2(2) show ?thesis
    proof (cases rule: fdalloc_inv)
      case (ok k)
      have "length (ftable st1) = length (ftable st)" by (simp add: ok(4) set_ofile_def upd_proc_def)
      then have "file_inv ((\<lambda>_. 0)(f := - 1, f := 0)) {} st'" using filedup_inv [OF ok(5), of f st'] f(2) 2(3) ok(1) by simp
      then show ?thesis unfolding files_ok_def by (rule file_inv_eq) simp
    qed (use 2(3) assms(1) in auto)
  qed (use assms(1) in simp)
qed

lemma sys_close_ok:
  assumes "files_ok st" and "c < length (cpus st)" and "sys_close env c st = Inr (r, st')"
  shows "files_ok st'"
proof -
  have i: "file_inv (\<lambda>_. 0) {} st" using assms(1) by (simp add: files_ok_def)
  from assms(3) consider "st' = st" | fd f pr where "argfd c 0 st = Inr (Some (fd, f))" "myproc c st = Some pr" "fileclose env c f (set_ofile pr fd None st) = Inr st'"
    by (auto simp: sys_close_def split: option.split_asm prod.split_asm)
  then show ?thesis
  proof cases
    case (2 fd f pr)
    from argfd_Some [OF i assms(2) 2(1)] 2(2) have f: "fd < NOFILE" "p_ofile (proc_at pr st) ! fd = Some f" "f < length (ftable st)" by auto
    note run = running_proc [OF i assms(2) 2(2)]
    have "file_inv (\<lambda>h. of_bool (f = h)) {} (set_ofile pr fd None st)"
      using set_ofile_inv [OF i run(1,2) f(1), of None] f(2) by simp
    from fileclose_inv [OF this _ 2(3), of "{}"] f(3) have "file_inv ((\<lambda>h. of_bool (f = h))(f := 0)) {} st'" by (simp add: set_ofile_def upd_proc_def)
    then show ?thesis unfolding files_ok_def by (rule file_inv_eq) simp
  qed (use assms(1) in simp)
qed

lemma open_fd_ok:
  assumes "files_ok st" and "c < length (cpus st)" and "myproc c st = Some pr" and "open_fd env c pid ip omode st = Inr (r, st')"
  shows "files_ok st'"
proof -
  have i: "file_inv (\<lambda>_. 0) {} st" using assms(1) by (simp add: files_ok_def)
  have put: "keeps st1 st2" if "on_fs_r (put_fail pid ip) st1 = Inr (v, st2)" for st1 st2 v
    by (rule keepD [OF keep_on_fs(2) that]) simp
  obtain fo st1 where Pair: "filealloc st = (fo, st1)" by fastforce
  show ?thesis
  proof (cases fo)
    case None
    then have "st1 = st" using Pair by (auto simp: filealloc_def split: option.splits)
    with assms(4) Pair None put file_inv_keeps [OF i] show ?thesis by (auto simp: open_fd_def files_ok_def)
  next
    case (Some f)
    note A = filealloc_inv [OF i Pair [unfolded Some]]
    have cp: "c < length (cpus st1)" "myproc c st1 = Some pr" "f < length (ftable st1)" using assms(2,3) A(2,5,6) by (simp_all add: myproc_def)
    from assms(4) Pair Some obtain q st2 where fd: "fdalloc c f st1 = Inr (q, st2)" by (auto simp: open_fd_def)
    from A(1) cp fd show ?thesis
    proof (cases rule: fdalloc_inv)
      case full
      with assms(4) Pair Some fd put obtain st3 where c: "fileclose env c f st1 = Inr st3" and k: "keeps st3 st'" by (auto simp: open_fd_def)
      have "file_inv ((\<lambda>_. 0)(f := 0 + 1, f := 0)) {} st3" using fileclose_inv [OF A(1) cp(3) c, of "{}"] A(3) by simp
      then have "file_inv (\<lambda>_. 0) {} st3" by (rule file_inv_eq) simp
      from file_inv_keeps [OF this k] show ?thesis by (simp add: files_ok_def)
    next
      case (ok k)
      let ?st3 = "upd_file f (open_file (inode_at ip (fs st2)) ip omode) st2"
      have f: "f < length (ftable st2)" using cp(3) by (simp add: ok(4) set_ofile_def upd_proc_def)
      have t: "f_type (open_file x ip omode y) \<noteq> FD_NONE" "f_ref (open_file x ip omode y) = f_ref y" for x y by (simp_all add: open_file_def Let_def)
      have "f_ref (ftable st2 ! f) = 1" using A(3) by (simp add: ok(4) set_ofile_def upd_proc_def)
      with upd_file_inv [OF ok(5) f, of "open_file (inode_at ip (fs st2)) ip omode" 0 "{}"] t
      have "file_inv ((\<lambda>_. 0)(f := 0 + 1, f := 0, f := 0)) {} ?st3" by simp
      then have i3: "file_inv (\<lambda>_. 0) {} ?st3" by (rule file_inv_eq) simp
      have "keep ?st3 (bindE (if omode AND O_TRUNC \<noteq> 0 \<and> i_type (inode_at ip (fs ?st3)) = T_FILE then on_fs (itrunc pid ip) ?st3 else Inr ?st3) (\<lambda>st4.
          bindE (on_fs (iunlock pid ip) st4) (\<lambda>st5. bindE (on_fs (fs_end_op pid) st5) (\<lambda>st6. Inr (Return (int k), st6)))))"
        by (intro keep_rules keep_ops) auto
      from keepD [OF this, of r st'] have "keeps ?st3 st'" using assms(4) Pair Some fd ok(1) by (simp add: open_fd_def Let_def)
      from file_inv_keeps [OF i3 this] show ?thesis by (simp add: files_ok_def)
    qed
  qed
qed

lemma keeps_frame: "keeps st st' \<Longrightarrow> cpus st' = cpus st" "keeps st st' \<Longrightarrow> myproc c st' = myproc c st"
  "keeps st st' \<Longrightarrow> length (procs st') = length (procs st)" "keeps st st' \<Longrightarrow> length (ftable st') = length (ftable st)"
  by (auto simp: keeps_def myproc_def dest: list_all2_lengthD)

lemma files_ok_keeps: "files_ok st \<Longrightarrow> keeps st st' \<Longrightarrow> files_ok st'"
  unfolding files_ok_def by (rule file_inv_keeps)

text \<open>A computation that ends in a good state, from steps that keep the files up to the last one.\<close>

definition ends_ok :: "('a \<times> 'z fstate_scheme) kres \<Rightarrow> bool" where
  "ends_ok m \<longleftrightarrow> (\<forall>r st'. m = Inr (r, st') \<longrightarrow> files_ok st')"

lemma ends_ok_keep: "files_ok st \<Longrightarrow> keep st m \<Longrightarrow> ends_ok m"
  by (auto simp: ends_ok_def dest: keepD files_ok_keeps)

lemma ends_ok_return: "files_ok st \<Longrightarrow> ends_ok (Inr (r, st))" "ends_ok (Inl e)"
  by (simp_all add: ends_ok_def)

lemma ends_ok_bind:
  "keep st m \<Longrightarrow> (\<And>r st'. keeps st st' \<Longrightarrow> ends_ok (f r st')) \<Longrightarrow> ends_ok (bindE m (\<lambda>(r, st'). f r st'))"
  "keep' st m' \<Longrightarrow> (\<And>st'. keeps st st' \<Longrightarrow> ends_ok (g st')) \<Longrightarrow> ends_ok (bindE m' g)"
  unfolding ends_ok_def keep_def keep'_def by auto

lemma ends_ok_pure: "(\<And>x. m = Inr x \<Longrightarrow> ends_ok (f x)) \<Longrightarrow> ends_ok (bindE m f)"
  by (auto simp: ends_ok_def)

lemma ends_ok_with_proc: "(\<And>pr. myproc c st = Some pr \<Longrightarrow> ends_ok (f pr)) \<Longrightarrow> ends_ok (with_proc c st f)"
  "(\<And>pr. myproc c st = Some pr \<Longrightarrow> ends_ok (g (p_pid (proc_at pr st)))) \<Longrightarrow> ends_ok (with_pid c st g)"
  "(\<And>d. ends_ok (h d)) \<Longrightarrow> ends_ok (with_cwd c path st h)"
  by (auto simp: ends_ok_def with_pid_def with_cwd_def split: option.splits if_splits)

lemma ends_ok_case: "(y = None \<Longrightarrow> ends_ok m) \<Longrightarrow> (\<And>x. y = Some x \<Longrightarrow> ends_ok (f x)) \<Longrightarrow> ends_ok (case y of None \<Rightarrow> m | Some x \<Rightarrow> f x)"
  "(b \<Longrightarrow> ends_ok m1) \<Longrightarrow> (\<not> b \<Longrightarrow> ends_ok m2) \<Longrightarrow> ends_ok (if b then m1 else m2)"
  "(\<And>a b. x = (a, b) \<Longrightarrow> ends_ok (g a b)) \<Longrightarrow> ends_ok (case x of (a, b) \<Rightarrow> g a b)"
  by (simp_all split: option.split prod.split)

lemmas ends_ok_rules = ends_ok_return ends_ok_with_proc ends_ok_case

lemma sys_open_ok:
  assumes "files_ok st" and "c < length (cpus st)"
  shows "ends_ok (sys_open env c st)"
proof -
  have o: "ends_ok (open_fd env c pid ip omode st2)" if "myproc c st = Some pr" "keeps st st1" "keeps st1 st2" for pr pid ip omode st1 st2
    using open_fd_ok [of st2 c pr env pid ip omode] files_ok_keeps [OF assms(1)] keeps_trans [OF that(2,3)] keeps_frame [of st st2] that(1) assms(2)
    by (auto simp: ends_ok_def)
  have k: "files_ok st1 \<and> files_ok st2" if "keeps st st1" "keeps st1 st2" for st1 st2 using files_ok_keeps [OF assms(1)] keeps_trans [OF that] that(1) by simp
  show ?thesis unfolding sys_open_def
    by (intro ends_ok_rules ends_ok_bind ends_ok_pure keep_argstr keep_on_fs) (use assms(1) o k in \<open>auto intro: files_ok_keeps\<close>)
qed

lemma close_two:
  assumes "file_inv ((\<lambda>_. 0)(f0 := 1, f1 := 1)) new st" and "f0 \<noteq> f1" and "f0 < length (ftable st)" and "f1 < length (ftable st)"
    and "fileclose env c f0 st = Inr st1" and "fileclose env c f1 st1 = Inr st'"
    and "new = {} \<or> new = {f0, f1} \<and> f_ref (ftable st ! f0) = 1 \<and> f_ref (ftable st ! f1) = 1"
  shows "files_ok st'"
proof -
  have a: "file_inv ((\<lambda>_. 0)(f0 := 1, f1 := 1, f0 := 0)) (new - {f0}) st1"
    using fileclose_inv [OF assms(1,3,5), of "new - {f0}"] assms(2,7) by auto
  have f1: "f1 < length (ftable st1)" using assms(4) fileclose_frame(2) [OF assms(5)] by simp
  have "f_ref (ftable st1 ! f1) = f_ref (ftable st ! f1)"
    using file_invD(3) [OF a f1] file_invD(3) [OF assms(1,4)] fd_refs_keep [OF fileclose_frame(3) [OF assms(5)]] assms(2) by simp
  with fileclose_inv [OF a f1 assms(6), of "{}"] assms(2,7) have "file_inv ((\<lambda>_. 0)(f0 := 1, f1 := 1, f0 := 0, f1 := 0)) {} st'" by auto
  then show ?thesis unfolding files_ok_def by (rule file_inv_eq) simp
qed

lemma pipealloc_inv:
  assumes "files_ok st" and "pipealloc env c st = Inr (r, st')"
  shows "case r of None \<Rightarrow> files_ok st' | Some (f0, f1) \<Rightarrow> file_inv ((\<lambda>_. 0)(f0 := 1, f1 := 1)) {} st' \<and> f0 \<noteq> f1
      \<and> f0 < length (ftable st') \<and> f1 < length (ftable st') \<and> cpus st' = cpus st \<and> procs st' = procs st"
proof -
  have i: "file_inv (\<lambda>_. 0) {} st" using assms(1) by (simp add: files_ok_def)
  obtain a0 st1 where p0: "filealloc st = (a0, st1)" by fastforce
  show ?thesis
  proof (cases a0)
    case None
    then have "st1 = st" using p0 by (auto simp: filealloc_def split: option.splits)
    with None p0 assms show ?thesis by (auto simp: pipealloc_def)
  next
    case (Some f0)
    note A = filealloc_inv [OF i p0 [unfolded Some]]
    obtain a1 st2 where p1: "filealloc st1 = (a1, st2)" by fastforce
    show ?thesis
    proof (cases a1)
      case None
      then have "st2 = st1" using p1 by (auto simp: filealloc_def split: option.splits)
      with None p0 p1 Some assms(2) have c: "r = None" "fileclose env c f0 st1 = Inr st'" by (auto simp: pipealloc_def)
      have "file_inv ((\<lambda>_. 0)(f0 := 0 + 1, f0 := 0)) {} st'" using fileclose_inv [OF A(1) _ c(2), of "{}"] A(2,3,6) by simp
      then have "files_ok st'" unfolding files_ok_def by (rule file_inv_eq) simp
      with c(1) show ?thesis by simp
    next
      case f1: (Some f1)
      note B = filealloc_inv [OF A(1) p1 [unfolded f1]]
      have ne: "f0 \<noteq> f1" using A(3) p1 f1 by (auto simp: filealloc_def dest: find_idxD split: option.splits)
      have ref: "f_ref (ftable st2 ! f0) = 1" using A(3) ne p1 f1 by (auto simp: filealloc_def upd_file_def split: option.splits)
      have e: "file_inv ((\<lambda>_. 0)(f0 := 1, f1 := 1)) {f0, f1} st2" using ne by (intro file_inv_eq [OF B(1) [unfolded insert_commute [of f1]]]) auto
      obtain pi km where km: "kalloc (kmemory st2) = (pi, km)" by fastforce
      let ?st3 = "st2\<lparr>kmemory := km\<rparr>"
      have i3: "file_inv ((\<lambda>_. 0)(f0 := 1, f1 := 1)) {f0, f1} ?st3" by (rule file_inv_keeps [OF e]) simp
      show ?thesis
      proof (cases "pi = 0")
        case True
        with f1 p0 p1 Some km assms(2) obtain st4 where c: "r = None" "fileclose env c f0 ?st3 = Inr st4" "fileclose env c f1 st4 = Inr st'"
          by (auto simp: pipealloc_def)
        have "files_ok st'" using close_two [OF i3 ne _ _ c(2,3)] A(2) B(2,3,6) ref A(6) by simp
        with c(1) show ?thesis by simp
      next
        case False
        let ?g0 = "\<lambda>x. x\<lparr>f_type := FD_PIPE, f_readable := True, f_writable := False, f_pipe := pi\<rparr>"
        let ?g1 = "\<lambda>x. x\<lparr>f_type := FD_PIPE, f_readable := False, f_writable := True, f_pipe := pi\<rparr>"
        let ?st4 = "upd_pipe pi (\<lambda>_. new_pipe) ?st3" 
        have r: "r = Some (f0, f1)" "st' = upd_file f1 ?g1 (upd_file f0 ?g0 ?st4)"
          using False f1 p0 p1 Some km assms(2) by (auto simp: pipealloc_def)
        have i4: "file_inv ((\<lambda>_. 0)(f0 := 1, f1 := 1)) {f0, f1} ?st4" by (rule file_inv_keeps [OF i3]) simp
        have l: "f0 < length (ftable ?st4)" "f1 < length (ftable ?st4)" "ftable ?st4 = ftable st2" using A(2,6) B(2,6) by (simp_all add: upd_pipe_def)
        have i5: "file_inv (((\<lambda>_. 0)(f0 := 1, f1 := 1))(f0 := ((\<lambda>_. 0)(f0 := 1, f1 := 1)) f0 + 0)) {f1} (upd_file f0 ?g0 ?st4)"
          by (rule upd_file_inv [OF i4 l(1)]) (use ref l(3) in auto)
        have "file_inv ((((\<lambda>_. 0)(f0 := 1, f1 := 1))(f0 := ((\<lambda>_. 0)(f0 := 1, f1 := 1)) f0 + 0))
            (f1 := (((\<lambda>_. 0)(f0 := 1, f1 := 1))(f0 := ((\<lambda>_. 0)(f0 := 1, f1 := 1)) f0 + 0)) f1 + 0)) {} st'" unfolding r(2)
          by (rule upd_file_inv [OF i5]) (use l B(3) ne in \<open>auto simp: upd_file_def\<close>)
        then have "file_inv ((\<lambda>_. 0)(f0 := 1, f1 := 1)) {} st'" by (rule file_inv_eq) simp
        moreover have "length (ftable st') = length (ftable ?st4)" "cpus st' = cpus st" "procs st' = procs st"
          using A(4,5) B(4,5) by (simp_all add: r(2) upd_file_def upd_pipe_def)
        ultimately show ?thesis using r(1) ne l(1,2) by simp
      qed
    qed
  qed
qed

lemma ends_ok_close_two:
  assumes "file_inv ((\<lambda>_. 0)(f0 := 1, f1 := 1)) {} st" and "f0 \<noteq> f1" and "f0 < length (ftable st)" and "f1 < length (ftable st)"
  shows "ends_ok (pipe_close env c f0 f1 st)"
  using close_two [OF assms] by (auto simp: ends_ok_def pipe_close_def)

lemma set_ofile_frame [simp]: "ftable (set_ofile pr fd x st) = ftable st" "cpus (set_ofile pr fd x st) = cpus st" "kmemory (set_ofile pr fd x st) = kmemory st"
  "length (procs (set_ofile pr fd x st)) = length (procs st)" "myproc c (set_ofile pr fd x st) = myproc c st"
  "p_state (proc_at i (set_ofile pr fd x st)) = p_state (proc_at i st)"
  by (auto simp: set_ofile_def upd_proc_def upd_nth_def myproc_def nth_list_update)

lemma ofile_set_ofile: "pr < length (procs st) \<Longrightarrow> p_ofile (proc_at pr (set_ofile pr fd x st)) = (p_ofile (proc_at pr st))[fd := x]"
  by (simp add: set_ofile_def upd_proc_def)

lemma unset_ofile_inv:
  assumes "file_inv ext new st" and "c < length (cpus st)" and "myproc c st = Some pr" and "fd < NOFILE" and "p_ofile (proc_at pr st) ! fd = Some f"
    and "\<And>h. ext' h = (ext(f := ext f + 1)) h"
  shows "file_inv ext' new (set_ofile pr fd None st)"
  using set_ofile_inv [OF assms(1) running_proc(1,2) [OF assms(1-3)] assms(4), of None] assms(5,6) by (auto intro: file_inv_eq)

lemma pipe_out_ok:
  assumes "files_ok st" and "c < length (cpus st)" and "myproc c st = Some pr" and "f0 \<noteq> f1" and "f0 < length (ftable st)" and "f1 < length (ftable st)"
    and "fd0 < NOFILE" and "fd1 < NOFILE" and "p_ofile (proc_at pr st) ! fd0 = Some f0" and "p_ofile (proc_at pr st) ! fd1 = Some f1"
  shows "ends_ok (pipe_out env c pr fdarray f0 f1 fd0 fd1 st)"
proof -
  have "ends_ok (pipe_close env c f0 f1 (set_ofile pr fd1 None (set_ofile pr fd0 None st')))" if k: "keeps st st'" for st'
  proof -
    have i: "file_inv (\<lambda>_. 0) {} st'" using files_ok_keeps [OF assms(1) k] by (simp add: files_ok_def)
    have pr: "pr < length (procs st)" using running_proc(1) [OF assms(1) [unfolded files_ok_def] assms(2,3)] .
    have m: "c < length (cpus st')" "myproc c st' = Some pr" "pr < length (procs st')" "length (ftable st') = length (ftable st)" using assms(2,3) keeps_frame [OF k] pr by simp_all
    have "proc_keep (proc_at pr st) (proc_at pr st')" using k pr by (simp add: keeps_def list_all2_nthD)
    then have o: "p_ofile (proc_at pr st') ! fd0 = Some f0" "p_ofile (proc_at pr st') ! fd1 = Some f1" using assms(9,10) by (simp_all add: proc_keep_def)
    have ne: "fd0 \<noteq> fd1" using o assms(4) by auto
    have "file_inv ((\<lambda>_. 0)(f0 := 1)) {} (set_ofile pr fd0 None st')" by (rule unset_ofile_inv [OF i m(1,2) assms(7) o(1)]) simp
    then have "file_inv ((\<lambda>_. 0)(f0 := 1, f1 := 1)) {} (set_ofile pr fd1 None (set_ofile pr fd0 None st'))"
      by (rule unset_ofile_inv [where c = c and f = f1]) (use m o assms(4,8) ne in \<open>auto simp: ofile_set_ofile\<close>)
    then show ?thesis by (rule ends_ok_close_two) (use assms(4-6) m(4) in simp_all)
  qed
  then show ?thesis unfolding pipe_out_def Let_def
    by (intro ends_ok_bind ends_ok_rules keep_on_mem keep_if keep_return) (auto intro: files_ok_keeps [OF assms(1)] keeps_trans)
qed

lemma pipe_fds_ok:
  assumes "file_inv ((\<lambda>_. 0)(f0 := 1, f1 := 1)) {} st" and "f0 \<noteq> f1" and "f0 < length (ftable st)" and "f1 < length (ftable st)"
    and "c < length (cpus st)" and "myproc c st = Some pr"
  shows "ends_ok (bindE (fdalloc c f0 st) (\<lambda>(fd0, st2).
         case fd0 of
           None \<Rightarrow> pipe_close env c f0 f1 st2
         | Some fd0 \<Rightarrow>
             bindE (fdalloc c f1 st2) (\<lambda>(fd1, st3).
             case fd1 of
               None \<Rightarrow> pipe_close env c f0 f1 (set_ofile pr fd0 None st3)
             | Some fd1 \<Rightarrow> pipe_out env c pr fdarray f0 f1 fd0 fd1 st3)))"
proof (intro ends_ok_pure ends_ok_case)
  note run = running_proc [OF assms(1,5,6)]
  fix x q st2
  assume "fdalloc c f0 st = Inr x" and x: "x = (q, st2)"
  then have a: "fdalloc c f0 st = Inr (q, st2)" by simp
  show "ends_ok (pipe_close env c f0 f1 st2)" if "q = None"
    using assms(1,5,6,3) a by (cases rule: fdalloc_inv) (use that ends_ok_close_two [OF assms(1-4)] in auto)
  fix fd0 x' q' st3
  assume q: "q = Some fd0" and "fdalloc c f1 st2 = Inr x'" and "x' = (q', st3)"
  then have b: "fdalloc c f1 st2 = Inr (q', st3)" by simp
  have fd0: "fd0 < NOFILE" "st2 = set_ofile pr fd0 (Some f0) st" and i2: "file_inv (((\<lambda>_. 0)(f0 := 1, f1 := 1))(f0 := 0)) {} st2"
    using assms(1,5,6,3) a by (cases rule: fdalloc_inv; use q assms(2) in auto)+
  have l2: "c < length (cpus st2)" "myproc c st2 = Some pr" "f1 < length (ftable st2)" "fd0 < length (p_ofile (proc_at pr st))"
    using assms(4-6) fd0 file_invD(2) [OF assms(1) run(1)] by (simp_all add: fds_ok_def)
  have o2: "p_ofile (proc_at pr st2) ! fd0 = Some f0" using run(1) l2(4) by (simp add: fd0(2) ofile_set_ofile)
  show "ends_ok (pipe_close env c f0 f1 (set_ofile pr fd0 None st3))" if "q' = None"
  proof -
    have "st3 = st2" using i2 l2(1-3) b by (cases rule: fdalloc_inv) (use that in auto)
    with unset_ofile_inv [OF i2 l2(1,2) fd0(1) o2, of "(\<lambda>_. 0)(f0 := 1, f1 := 1)"] assms(2-4) fd0(2) show ?thesis
      by (intro ends_ok_close_two) auto
  qed
  show "ends_ok (pipe_out env c pr fdarray f0 f1 fd0 fd1 st3)" if "q' = Some fd1" for fd1
  proof -
    have fd1: "fd1 < NOFILE" "p_ofile (proc_at pr st2) ! fd1 = None" "st3 = set_ofile pr fd1 (Some f1) st2"
      and i3: "file_inv (((\<lambda>_. 0)(f0 := 1, f1 := 1))(f0 := 0, f1 := 0)) {} st3"
      using i2 l2(1-3) b by (cases rule: fdalloc_inv; use that assms(2) in auto)+
    have "files_ok st3" unfolding files_ok_def by (rule file_inv_eq [OF i3]) simp
    moreover have "fd0 \<noteq> fd1" using o2 fd1(2) by auto
    moreover have "fd1 < length (p_ofile (proc_at pr st2))" "pr < length (procs st2)"
      using file_invD(2) [OF i2, of pr] run(1) fd1(1) by (auto simp: fds_ok_def fd0(2))
    ultimately show ?thesis using assms(2-6) fd0(1) fd1 o2 by (intro pipe_out_ok) (auto simp: ofile_set_ofile fd0(2))
  qed
qed

lemma sys_pipe_ok:
  assumes "files_ok st" and "c < length (cpus st)"
  shows "ends_ok (sys_pipe env c st)"
  unfolding sys_pipe_def
proof (rule ends_ok_with_proc, rule ends_ok_pure, rule ends_ok_pure, rule ends_ok_case(3), rule ends_ok_case(1))
  fix pr fdarray x q st1 y
  assume pr: "myproc c st = Some pr" and "pipealloc env c st = Inr x" and "x = (q, st1)"
  then have a: "pipealloc env c st = Inr (q, st1)" by simp
  note P = pipealloc_inv [OF assms(1) a]
  show "ends_ok (Inr (Return (- 1), st1))" if "q = None" using P that by (simp add: ends_ok_def)
  assume q: "q = Some y"
  obtain f0 f1 where y: "y = (f0, f1)" by (cases y)
  have "file_inv ((\<lambda>_. 0)(f0 := 1, f1 := 1)) {} st1" "f0 \<noteq> f1" "f0 < length (ftable st1)" "f1 < length (ftable st1)" "c < length (cpus st1)" "myproc c st1 = Some pr"
    using P q y pr assms(2) by (simp_all add: myproc_def)
  from pipe_fds_ok [OF this] show "ends_ok (case y of (rfile, wfile) \<Rightarrow> bindE (fdalloc c rfile st1) (\<lambda>(fd0, st2).
      case fd0 of None \<Rightarrow> pipe_close env c rfile wfile st2
      | Some fd0 \<Rightarrow> bindE (fdalloc c wfile st2) (\<lambda>(fd1, st3).
          case fd1 of None \<Rightarrow> pipe_close env c rfile wfile (set_ofile pr fd0 None st3)
          | Some fd1 \<Rightarrow> pipe_out env c pr fdarray rfile wfile fd0 fd1 st3)))" by (simp add: y)
qed

section \<open>Fork and exit\<close>

lemma fork_files_inv:
  assumes "fork_files fds pr np st = Inr st'" and "file_inv (\<lambda>_. 0) {} st" and "pr < length (procs st)" and "np < length (procs st)" and "np \<noteq> pr"
    and "\<not> no_files (proc_at np st)" and "set fds \<subseteq> {..<NOFILE}" and "distinct fds" and "\<And>fd. fd \<in> set fds \<Longrightarrow> p_ofile (proc_at np st) ! fd = None"
  shows "file_inv (\<lambda>_. 0) {} st'"
  using assms
proof (induction fds arbitrary: st)
  case (Cons fd fds)
  note p = fds_ok_def [THEN iffD1, OF file_invD(2) [OF Cons.prems(2,3)]] and n = fds_ok_def [THEN iffD1, OF file_invD(2) [OF Cons.prems(2,4)]]
  have fd: "fd < NOFILE" using Cons.prems(7) by simp
  show ?case
  proof (cases "p_ofile (proc_at pr st) ! fd")
    case None
    with Cons.prems show ?thesis by (intro Cons.IH [of st]) auto
  next
    case (Some f)
    have f: "f < length (ftable st)" using p Some nth_mem [of fd "p_ofile (proc_at pr st)"] fd by auto
    from Cons.prems(1) Some obtain st1 where d: "filedup f st = Inr st1" "fork_files fds pr np (set_ofile np fd (Some f) st1) = Inr st'" by auto
    then have st1: "st1 = upd_file f (\<lambda>x. x\<lparr>f_ref := f_ref x + 1\<rparr>) st" by (auto simp: filedup_def split: if_splits)
    have i1: "file_inv ((\<lambda>_. 0)(f := 0 + 1)) {} st1" by (rule filedup_inv [OF Cons.prems(2) f d(1)])
    have s1: "procs st1 = procs st" "length (ftable st1) = length (ftable st)" by (simp_all add: st1 upd_file_def)
    have "file_inv (\<lambda>_. 0) {} (set_ofile np fd (Some f) st1)"
      using set_ofile_inv [OF i1, of np fd "Some f"] s1 Cons.prems(4,6,9) fd f by (auto intro: file_inv_eq)
    moreover have "p_ofile (proc_at np (set_ofile np fd (Some f) st1)) ! k = None" if "k \<in> set fds" for k
      using that Cons.prems(4,8) Cons.prems(9) [of k] s1(1) by (cases "k = fd") (auto simp: ofile_set_ofile)
    ultimately show ?thesis
      using Cons.IH [OF d(2)] Cons.prems(3-8) s1(1) by (simp add: no_files_def)
  qed
qed simp

lemma exit_files_inv:
  assumes "exit_files env c fds pr st = Inr st'" and "file_inv (\<lambda>_. 0) {} st" and "c < length (cpus st)" and "myproc c st = Some pr" and "set fds \<subseteq> {..<NOFILE}"
  shows "file_inv (\<lambda>_. 0) {} st' \<and> cpus st' = cpus st \<and> length (procs st') = length (procs st)
    \<and> (\<forall>fd. fd \<in> set fds \<or> p_ofile (proc_at pr st) ! fd = None \<longrightarrow> fd < NOFILE \<longrightarrow> p_ofile (proc_at pr st') ! fd = None)"
  using assms
proof (induction fds arbitrary: st)
  case (Cons fd fds)
  note run = running_proc [OF Cons.prems(2-4)]
  note p = fds_ok_def [THEN iffD1, OF file_invD(2) [OF Cons.prems(2) run(1)]]
  have fd: "fd < NOFILE" using Cons.prems(5) by simp
  show ?case
  proof (cases "p_ofile (proc_at pr st) ! fd")
    case None
    with Cons.prems show ?thesis using Cons.IH [of st] by auto
  next
    case (Some f)
    have f: "f < length (ftable st)" using p Some nth_mem [of fd "p_ofile (proc_at pr st)"] fd by auto
    from Cons.prems(1) Some obtain st1 where d: "fileclose env c f st = Inr st1" "exit_files env c fds pr (set_ofile pr fd None st1) = Inr st'" by auto
    note F = fileclose_frame [OF d(1)]
    have m: "c < length (cpus st1)" "myproc c st1 = Some pr" "length (procs st1) = length (procs st)" using Cons.prems(3,4) F by (auto simp: myproc_def dest: list_all2_lengthD)
    have o: "p_ofile (proc_at pr st1) = p_ofile (proc_at pr st)" using list_all2_nthD [OF F(3) run(1)] by (simp add: proc_keep_def)
    have i1: "file_inv ((\<lambda>_. 0)(f := 0 - 1)) {} st1" by (rule fileclose_inv [OF Cons.prems(2) f d(1)]) simp
    have "file_inv (\<lambda>_. 0) {} (set_ofile pr fd None st1)" by (rule unset_ofile_inv [OF i1 m(1,2) fd]) (use Some o in auto)
    from Cons.IH [OF d(2) this] m Cons.prems(5) F(1) show ?thesis
      using o fd p run(1) by (auto simp: ofile_set_ofile nth_list_update)
  qed
qed simp

lemma fork_files_frame:
  "fork_files fds pr np st = Inr st' \<Longrightarrow> length (procs st') = length (procs st) \<and> p_state (proc_at i st') = p_state (proc_at i st)"
proof (induction fds arbitrary: st)
  case (Cons fd fds)
  then show ?case by (auto simp: filedup_def upd_file_def split: option.splits if_splits)
qed simp

lemma fork_child_ok:
  assumes "files_ok st" and "c < length (cpus st)" and "myproc c st = Some pr" and "allocproc env st = Inr (Some np, st1)"
  shows "ends_ok (fork_child env pr np st1)"
proof -
  have i: "file_inv (\<lambda>_. 0) {} st" using assms(1) by (simp add: files_ok_def)
  note run = running_proc [OF i assms(2,3)]
  have k1: "keeps st st1" by (rule keepD [OF keep_allocproc assms(4)]) simp
  from assms(4) obtain g km q ng where np: "np < length (procs st)" "p_state (proc_at np st) = UNUSED"
    and st1: "st1 = upd_proc np g (st\<lparr>nextpid := ng, kmemory := km, mlfq_global_seq := q\<rparr>)" and g: "p_state (g (proc_at np st)) = USED" "p_ofile (g (proc_at np st)) = p_ofile (proc_at np st)"
    by (cases rule: allocproc_cases) (auto simp: fresh_proc_def)
  have ne: "np \<noteq> pr" using np(2) run(2) by (auto simp: no_files_def)
  have "files_ok st'" if f: "fork_child env pr np st1 = Inr (r, st')" for r st'
  proof -
    let ?p = "proc_at pr st1"
    from f consider (fail) km2 where "freeproc env np (st1\<lparr>kmemory := km2\<rparr>) = Inr st'"
      | (go) km2 st3 d where "fork_files [0..<NOFILE] pr np (tf_set (TF_a 0) 0 np (tf_copy pr np (upd_proc np (\<lambda>x. x\<lparr>p_sz := p_sz ?p\<rparr>) (st1\<lparr>kmemory := km2\<rparr>)))) = Inr st3"
          "st' = upd_proc np (\<lambda>x. x\<lparr>p_cwd := Some d, p_name := take 15 (p_name ?p), p_parent := Some pr, p_state := RUNNABLE\<rparr>) (st3\<lparr>fs := idup d (fs st3)\<rparr>)"
      by (auto simp: fork_child_def Let_def on_mem_def split: if_split_asm option.split_asm)
    then show ?thesis
    proof cases
      case (fail km2)
      then obtain km3 where st': "st' = upd_proc np freed_proc (st1\<lparr>kmemory := km3\<rparr>)" using freeproc_eq by fastforce
      have "keeps st st'" unfolding st' st1
        by (rule keepsI) (use np g(2) in \<open>auto simp: upd_proc_def nth_upd_nth proc_keep_def freed_proc_def no_files_def chan_ok_def\<close>)
      then show ?thesis using files_ok_keeps [OF assms(1)] by simp
    next
      case (go km2 st3 d)
      let ?st2 = "tf_set (TF_a 0) 0 np (tf_copy pr np (upd_proc np (\<lambda>x. x\<lparr>p_sz := p_sz ?p\<rparr>) (st1\<lparr>kmemory := km2\<rparr>)))"
      note s3 = go(1) and st' = go(2)
      have k2: "keeps st ?st2" using k1 by (auto simp: tf_copy_def Let_def intro!: keeps_upd_proc simp: proc_keep_def no_files_def chan_ok_def)
      have s2: "p_state (proc_at np ?st2) = USED" "p_ofile (proc_at np ?st2) = p_ofile (proc_at np st)" "length (procs ?st2) = length (procs st)"
        using np g by (simp_all add: st1 tf_set_def tf_copy_def upd_proc_def Let_def)
      have "set (p_ofile (proc_at np st)) \<subseteq> {None}" "length (p_ofile (proc_at np st)) = NOFILE"
        using file_invD(2) [OF i np(1)] np(2) by (auto simp: fds_ok_def no_files_def)
      then have "fd < NOFILE \<Longrightarrow> p_ofile (proc_at np ?st2) ! fd = None" for fd unfolding s2(2) by (metis nth_mem singletonD subsetD)
      then have i3: "file_inv (\<lambda>_. 0) {} st3"
        using fork_files_inv [OF s3 file_inv_keeps [OF i k2]] s2 np run(1) ne by (auto simp: no_files_def atLeast0LessThan)
      have "p_state (proc_at np st3) = USED" using fork_files_frame [OF s3] s2(1) by simp
      then have "keeps st3 st'" unfolding st'
        by (intro keepsI) (auto simp: upd_proc_def nth_upd_nth proc_keep_def no_files_def chan_ok_def)
      then show ?thesis using file_inv_keeps [OF i3] by (simp add: files_ok_def)
    qed
  qed
  then show ?thesis by (auto simp: ends_ok_def)
qed

lemma kfork_ok:
  assumes "files_ok st" and "c < length (cpus st)"
  shows "ends_ok (kfork env c st)"
proof -
  have "files_ok st1" if "allocproc env st = Inr (q, st1)" for q st1
    by (rule files_ok_keeps [OF assms(1)]) (rule keepD [OF keep_allocproc that], simp)
  then show ?thesis using fork_child_ok [OF assms] unfolding kfork_def
    by (auto simp: ends_ok_def split: option.split_asm)
qed

lemma keeps_reparent: "keeps st0 st \<Longrightarrow> keeps st0 (reparent i st)"
proof -
  have "keeps st0 st \<Longrightarrow> keeps st0 (reparent_loop i js st)" for js
  proof (induction js arbitrary: st)
    case (Cons j js)
    then have "keeps st0 (wakeup (parent_addr (initproc st)) (upd_proc j (\<lambda>p. p\<lparr>p_parent := initproc st\<rparr>) st))"
      by (intro keeps_wakeup keeps_upd_proc) (auto simp: proc_keep_def no_files_def chan_ok_def)
    with Cons show ?case by simp
  qed simp
  then show "keeps st0 st \<Longrightarrow> ?thesis" by (simp add: reparent_def)
qed

text \<open>The process of a hart leaves it.\<close>

lemma leave_inv:
  assumes "file_inv ext new st" and "running_at c i st" and "p_ofile (g (proc_at i st)) = p_ofile (proc_at i st)" and "p_state (g (proc_at i st)) \<noteq> RUNNING"
    and "chan_ok (proc_at i st) \<Longrightarrow> chan_ok (g (proc_at i st))" and "no_files (g (proc_at i st)) \<Longrightarrow> set (p_ofile (proc_at i st)) \<subseteq> {None}"
  shows "file_inv ext new (st\<lparr>procs := upd_nth i g (procs st), cpus := upd_nth c idle_cpu (cpus st)\<rparr>)"
proof -
  let ?st = "st\<lparr>procs := upd_nth i g (procs st), cpus := upd_nth c idle_cpu (cpus st)\<rparr>"
  have il: "i < length (procs st)" using assms(2) by (simp add: running_at_def)
  have "proc_inv ?st" by (rule proc_inv_leave [OF file_invD(1) [OF assms(1)] assms(2)]) (use assms(4,5) in auto)
  moreover have "list_all (fds_ok (length (ftable st))) (upd_nth i g (procs st))"
    using file_invD(2) [OF assms(1) il] assms(1,3,6) by (intro list_all_upd_nth) (auto simp: file_inv_def fds_ok_def)
  moreover have "fd_refs f (upd_nth i g (procs st)) = fd_refs f (procs st)" for f
    using assms(3) il by (simp add: fd_refs_def sum_list_upd_nth)
  ultimately show ?thesis using file_invD(3-6) [OF assms(1)] by (auto simp: file_inv_def)
qed

lemma kexit_ok:
  assumes "files_ok st" and "c < length (cpus st)" and "kexit env c status st = Inr st'"
  shows "files_ok st'"
proof -
  have i: "file_inv (\<lambda>_. 0) {} st" using assms(1) by (simp add: files_ok_def)
  from assms(3) obtain pr st1 d st2 where pr: "myproc c st = Some pr" and x: "exit_files env c [0..<NOFILE] pr st = Inr st1"
    and p: "put_inode c d st1 = Inr st2" and e: "exit_proc c status (upd_proc pr (\<lambda>p. p\<lparr>p_cwd := None\<rparr>) st2) = Inr st'"
    by (auto simp: kexit_def split: option.split_asm if_split_asm)
  have "set [0..<NOFILE] \<subseteq> {..<NOFILE}" by auto
  note X = exit_files_inv [OF x i assms(2) pr this]
  let ?st3 = "upd_proc pr (\<lambda>p. p\<lparr>p_cwd := None\<rparr>) st2"
  have k: "keeps st1 ?st3"
    using keep_put_inode [of st1 st1 c d] p by (intro keeps_upd_proc) (auto simp: keep'_def proc_keep_def no_files_def chan_ok_def)
  have m: "c < length (cpus ?st3)" "myproc c ?st3 = Some pr" using X keeps_frame [OF k] assms(2) pr by (auto simp: myproc_def)
  have i3: "file_inv (\<lambda>_. 0) {} ?st3" using X file_inv_keeps [OF _ k] by auto
  note run = running_proc [OF i3 m]
  have none: "set (p_ofile (proc_at pr ?st3)) \<subseteq> {None}"
  proof -
    have "pr < length (procs st1)" using run(1) keeps_frame(3) [OF k] by simp
    then have o: "p_ofile (proc_at pr ?st3) = p_ofile (proc_at pr st1)" using k by (auto simp: keeps_def proc_keep_def dest: list_all2_nthD)
    have "length (p_ofile (proc_at pr ?st3)) = NOFILE" using file_invD(2) [OF i3 run(1)] by (simp add: fds_ok_def)
    with X o show ?thesis by (auto simp: in_set_conv_nth)
  qed
  define st4 where "st4 = wakeup (parent_addr (p_parent (proc_at pr (reparent pr ?st3)))) (reparent pr ?st3)"
  have k4: "keeps ?st3 st4" unfolding st4_def by (intro keeps_wakeup keeps_reparent) simp
  have i4: "file_inv (\<lambda>_. 0) {} st4" by (rule file_inv_keeps [OF i3 k4])
  have st': "st' = st4\<lparr>procs := upd_nth pr (\<lambda>p. p\<lparr>p_etime := ticks st4, p_xstate := status, p_state := ZOMBIE, p_intena := Some (sie (cpus st4 ! c))\<rparr>) (procs st4),
      cpus := upd_nth c idle_cpu (cpus st4)\<rparr>"
    using e exit_proc_eq [OF run(3), of status] by (simp add: st4_def)
  show ?thesis unfolding files_ok_def st'
  proof (rule leave_inv [OF i4])
    show "running_at c pr st4" by (rule running_at_frame [OF run(3) keeps_frame(1,3) [OF k4]])
    have "proc_keep (proc_at pr ?st3) (proc_at pr st4)" using k4 run(1) by (auto simp: keeps_def dest: list_all2_nthD)
    with none show "set (p_ofile (proc_at pr st4)) \<subseteq> {None}" by (simp add: proc_keep_def)
  qed (simp_all add: chan_ok_def)
qed

section \<open>Traps\<close>

lemma ends_ok_int: "ends_ok m \<Longrightarrow> ends_ok (bindE m (\<lambda>(r, st). Inr (g r, st)))"
  by (auto simp: ends_ok_def)

lemma syscalls_ok:
  assumes "files_ok st" and "c < length (cpus st)" and "syscalls env c pad num = Some f"
  shows "ends_ok (f st)"
proof -
  have k: "keeps st st" by simp
  note ops = keep_rules keep_ops keep_pure keep_with_cwd
  have "keep st (sys_wait env c st)" "keep st (sys_waitx env c st)" "keep st (sys_read env c st)" "keep st (sys_exec env c st)"
    unfolding sys_wait_def sys_waitx_def sys_read_def sys_exec_def by (intro ops; simp)+
  moreover have "keep st (sys_kill c st)"
    using keeps_kkill [of st st] by (auto simp: keep_def sys_kill_def split: prod.split_asm) (metis snd_conv)
  moreover have "keep st (sys_fstat env c pad st)" "keep st (sys_chdir env c st)" "keep st (sys_getpid c st)" "keep st (sys_sbrk env c st)"
    unfolding sys_fstat_def sys_chdir_def sys_getpid_def sys_sbrk_def Let_def by (intro ops; simp add: keeps_simps)+
  moreover have "keep st (sys_pause c st)" "keep st (sys_uptime st)" "keep st (sys_write env c st)" "keep st (sys_mknod env c st)"
    unfolding sys_pause_def pause_pass_def sys_uptime_def sys_write_def sys_mknod_def by (intro ops; simp)+
  moreover have "keep st (sys_unlink env c st)" "keep st (sys_link env c st)" "keep st (sys_mkdir env c st)" "keep st (sys_sync c st)"
    unfolding sys_unlink_def sys_link_def sys_mkdir_def sys_sync_def by (intro ops; simp)+
  moreover have "ends_ok (sys_fork env c st)" unfolding sys_fork_def by (rule ends_ok_int [OF kfork_ok [OF assms(1,2)]])
  moreover have "ends_ok (sys_exit env c st)" using kexit_ok [OF assms(1,2)] by (auto simp: ends_ok_def sys_exit_def)
  moreover have "ends_ok (sys_dup c st)" "ends_ok (sys_close env c st)" using sys_dup_ok [OF assms(1,2)] sys_close_ok [OF assms(1,2)] by (auto simp: ends_ok_def)
  moreover note sys_open_ok [OF assms(1,2), of env] sys_pipe_ok [OF assms(1,2), of env]
  ultimately show ?thesis using assms(3) ends_ok_keep [OF assms(1)] unfolding syscalls_def
    by (auto split: if_split_asm)
qed

lemma files_ok_frame: "files_ok st \<Longrightarrow> length (cpus st) = NCPU"
  by (simp add: files_ok_def file_inv_def)

lemma files_ok_sie: "files_ok st \<Longrightarrow> files_ok (upd_cpu c (\<lambda>cp. cp\<lparr>sie := b\<rparr>) st)"
proof -
  have "proc_inv st \<Longrightarrow> proc_inv (upd_cpu c (\<lambda>cp. cp\<lparr>sie := b\<rparr>) st)"
    by (auto simp: proc_inv_def upd_cpu_def map_upd_nth_same intro: run_ok_cong noff_upd)
  then show "files_ok st \<Longrightarrow> ?thesis" by (auto simp: files_ok_def file_inv_def upd_cpu_def)
qed

lemma files_ok_tf_set: "files_ok st \<Longrightarrow> files_ok (tf_set fld v pr st)"
  by (erule files_ok_keeps) simp

lemma syscall_ok: "files_ok st \<Longrightarrow> c < NCPU \<Longrightarrow> ends_ok (syscall env c pad st)"
proof -
  assume a: "files_ok st" "c < NCPU"
  have f: "files_ok st1" if "syscalls env c pad num = Some g" "g st = Inr (r, st1)" for num g r st1
    using syscalls_ok [OF a(1) _ that(1)] a(2) files_ok_frame [OF a(1)] that(2) by (auto simp: ends_ok_def)
  have r: "(\<And>x. y = Return x \<Longrightarrow> ends_ok (h x)) \<Longrightarrow> ends_ok m \<Longrightarrow> ends_ok (case y of Return x \<Rightarrow> h x | _ \<Rightarrow> m)" for y m and h :: "int \<Rightarrow> (bool \<times> 'a fstate_scheme) kres"
    by (simp split: pipe_res.split)
  show ?thesis unfolding syscall_def
    by (intro ends_ok_with_proc ends_ok_case ends_ok_pure r) (use a(1) f in \<open>auto simp: ends_ok_def files_ok_tf_set\<close>)
qed

lemma leave_ok:
  assumes "files_ok st" and "running_at c i st" and "\<And>p. p_ofile (g p) = p_ofile p" and "p_state (g (proc_at i st)) \<in> {RUNNABLE, SLEEPING}"
    and "chan_ok (g (proc_at i st))"
  shows "files_ok (st\<lparr>procs := upd_nth i g (procs st), cpus := upd_nth c idle_cpu (cpus st)\<rparr>)"
  using assms unfolding files_ok_def by (intro leave_inv) (auto simp: no_files_def)

lemma yield_ok:
  assumes "files_ok st" and "c < NCPU" and "yield c st = Inr st'"
  shows "files_ok st'"
proof -
  from assms(3) obtain i where "myproc c st = Some i" by (auto simp: yield_def)
  then have r: "running_at c i st" using running_proc(3) [of _ _ st c i] assms(1,2) files_ok_frame [OF assms(1)] by (auto simp: files_ok_def)
  from leave_ok [OF assms(1) r, of "\<lambda>p. p\<lparr>p_state := RUNNABLE, p_intena := Some (sie (cpus st ! c))\<rparr>"] assms(3) yield_eq [OF r] show ?thesis by (simp add: chan_ok_def)
qed

lemma files_ok_intena: "files_ok st \<Longrightarrow> files_ok (upd_cpu c (\<lambda>cp. cp\<lparr>intena := sie cp\<rparr>) st)"
proof -
  assume a: "files_ok st"
  have "run_ok (procs st) (upd_nth c (\<lambda>cp. cp\<lparr>intena := sie cp\<rparr>) (cpus st))"
    by (rule run_ok_cong [of "procs st" "cpus st"])
      (use a in \<open>simp_all add: files_ok_def file_inv_def proc_inv_def map_upd_nth_same\<close>)
  then show ?thesis using a
    by (auto simp: files_ok_def file_inv_def upd_cpu_def proc_inv_def intro!: noff_upd)
qed

lemma sleep_ok:
  assumes "files_ok st" and "c < NCPU" and "sleep c st = Inr st'"
  shows "files_ok st'"
proof -
  from assms(3) obtain i where "myproc c st = Some i" by (auto simp: sleep_def)
  then have r: "running_at c i st" using running_proc(3) [of _ _ st c i] assms(1,2) files_ok_frame [OF assms(1)] by (auto simp: files_ok_def)
  show ?thesis
  proof (cases "p_chan (proc_at i st) = Null")
    case True
    with sleep_eq_return [OF r] assms files_ok_intena show ?thesis by auto
  next
    case False
    from leave_ok [OF assms(1) r, of "\<lambda>p. p\<lparr>p_state := SLEEPING, mlfq_ticks_used := 0, p_intena := Some (sie (cpus st ! c))\<rparr>"]
      sleep_eq_block [OF r False] assms(3) False show ?thesis by (simp add: chan_ok_def)
  qed
qed

lemma schedule_ok:
  assumes "files_ok st" and "c < NCPU" and "myproc c st = None" and "scheduler_mlfq c st = Some st1" and "resume c st1 = Inr st'"
  shows "files_ok st'"
proof -
  from assms(4) obtain i where i: "mlfq_pick (procs st) = Some i" "st1 = dispatch c i (mlfq_print i st)"
    by (auto simp: scheduler_mlfq_def simp del: mlfq_select.simps split: option.splits)
  let ?st = "mlfq_print i st"
  have same: "procs ?st = procs st" "cpus ?st = cpus st" "ftable ?st = ftable st" by (simp_all add: mlfq_print_eq)
  have inv: "proc_inv ?st" and c: "c < length (cpus ?st)" and f: "file_inv (\<lambda>_. 0) {} st"
    using assms(1,2) same files_ok_frame [OF assms(1)] by (auto simp: files_ok_def file_inv_def proc_inv_def)
  have il: "i < length (procs ?st)" "p_state (proc_at i ?st) = RUNNABLE"
    using mlfq.pick_runnable [OF i(1)] same by simp_all
  have "proc_inv st'"
    using proc_inv_enter [of ?st c i st'] inv c assms(3,5) i(2) il same by (simp add: myproc_def)
  moreover from dispatch_resume_eq [of c ?st i] inv c assms(5) i(2) il same
  obtain b where st': "st' = ?st\<lparr>procs := upd_nth i (\<lambda>p. (first_run (ticks ?st) p)\<lparr>p_state := RUNNING\<rparr>) (procs ?st),
      cpus := upd_nth c (\<lambda>cp. cp\<lparr>c_proc := Some i, noff := 0, intena := b, sie := b\<rparr>) (cpus ?st)\<rparr>"
    by (auto simp: proc_inv_def list_all_length)
  moreover have fr: "p_ofile (first_run t p) = p_ofile p" for t p by (simp add: first_run_def)
  have "list_all (fds_ok (length (ftable st))) (upd_nth i (\<lambda>p. (first_run (ticks ?st) p)\<lparr>p_state := RUNNING\<rparr>) (procs st))"
    using f il same by (intro list_all_upd_nth) (auto simp: file_inv_def fds_ok_def no_files_def fr list_all_length)
  moreover have "fd_refs g (procs st') = fd_refs g (procs st)" for g
    using il same by (simp add: st' fd_refs_def sum_list_upd_nth fr)
  ultimately show ?thesis using f same by (auto simp: files_ok_def file_inv_def)
qed

lemma running_ok: "files_ok st \<Longrightarrow> c < NCPU \<Longrightarrow> myproc c st = Some i \<Longrightarrow> i < length (procs st)"
  using running_proc(1) [of "\<lambda>_. 0" "{}" st c i] files_ok_frame [of st] by (simp add: files_ok_def)

lemma prepare_return_ok: "files_ok st \<Longrightarrow> prepare_return env c h st = Inr (h', st') \<Longrightarrow> files_ok st'"
  by (auto simp: prepare_return_def Let_def intro!: files_ok_tf_set files_ok_sie)

lemma usertrap_end_ok:
  assumes "files_ok st" and "c < NCPU" and "usertrap_end env c which_dev h st = Inr (r, h', st')"
  shows "files_ok st'"
proof -
  from assms(3) obtain pr where pr: "myproc c st = Some pr" by (auto simp: usertrap_end_def)
  have t: "files_ok st1" if "mlfq_tick_handler pr st = (b, st1)" for b st1
    using files_ok_keeps [OF assms(1)] keeps_tick_handler [OF _ that running_ok [OF assms(1,2) pr]] by simp
  show ?thesis using assms(3) pr kexit_ok [OF assms(1)] files_ok_frame [OF assms(1)] assms(1,2) t yield_ok prepare_return_ok
    by (auto simp: usertrap_end_def split: if_split_asm prod.split_asm)
qed

lemma usertrap_ok:
  assumes "files_ok st" and "c < NCPU" and "usertrap env c pad irq h st = Inr (r, h', st')"
  shows "files_ok st'"
proof -
  have dev: "files_ok st2" if "devintr c irq cause st1 = Inr (w, st2)" "files_ok st1" for cause w st1 st2
    using files_ok_keeps [OF that(2)] keepD [OF keep_devintr that(1)] by simp
  have mem: "files_ok st2" if "on_mem g st1 = Inr (w, st2)" "files_ok st1" for g w st1 st2
    using files_ok_keeps [OF that(2)] keepD [OF keep_on_mem(1) that(1)] by simp
  have kill: "files_ok (setkilled pr st1)" if "files_ok st1" for pr st1
    by (rule files_ok_keeps [OF that]) (auto simp: setkilled_def keeps_simps)
  have e: "files_ok st'" if "usertrap_end env c w h1 st1 = Inr (r, h', st')" "files_ok st1" for w h1 st1
    using usertrap_end_ok [OF that(2) assms(2) that(1)] .
  have s: "files_ok st2" if "syscall env c pad (upd_cpu c (\<lambda>cp. cp\<lparr>sie := True\<rparr>) st1) = Inr (b, st2)" "files_ok st1" for b st1 st2
    using syscall_ok [OF files_ok_sie [OF that(2)] assms(2)] that(1) by (auto simp: ends_ok_def)
  have x: "files_ok st2" if "kexit env c v st1 = Inr st2" "files_ok st1" for v st1 st2
    using kexit_ok [OF that(2) _ that(1)] files_ok_frame [OF that(2)] assms(2) by simp
  note t = files_ok_tf_set [OF files_ok_tf_set [OF assms(1)]] files_ok_tf_set [OF assms(1)]
  show ?thesis using assms(3) unfolding usertrap_def Let_def
    by (auto split: if_split_asm prod.split_asm dest!: e x s dev mem intro: t kill)
qed

lemma timer_ok:
  assumes "files_ok st" and "c < NCPU" and "timer_mlfq c st = Inr st'"
  shows "files_ok st'"
proof (cases "myproc c st")
  case (Some i)
  have t: "files_ok st1" if "mlfq_tick_handler i st = (b, st1)" for b st1
    using files_ok_keeps [OF assms(1)] keeps_tick_handler [OF _ that running_ok [OF assms(1,2) Some]] by simp
  then show ?thesis using assms(2,3) Some yield_ok by (auto simp: timer_mlfq_def split: prod.split_asm if_split_asm)
qed (use assms in \<open>simp add: timer_mlfq_def\<close>)

lemma kerneltrap_ok:
  assumes "files_ok st" and "c < NCPU" and "kerneltrap c irq h st = Inr (h', st')"
  shows "files_ok st'"
proof -
  have d: "files_ok st2" if "devintr c irq cause st = Inr (w, st2)" for cause w st2
    using files_ok_keeps [OF assms(1)] keepD [OF keep_devintr that] by simp
  show ?thesis using assms(3) timer_ok [OF _ assms(2)]
    by (auto simp: kerneltrap_def split: if_split_asm prod.split_asm dest!: d)
qed

lemma forkret_ok:
  assumes "files_ok st" and "forkret env c first h st = Inr (b, v, h', st')"
  shows "files_ok st'"
proof -
  have x: "files_ok st2" if "on_fs g st = Inr st1" "kexec env c path argv st1 = Inr (r, st2)" for g path argv r st1 st2
  proof -
    have "keeps st st1" using keep_on_fs(1) [OF keeps_refl, of st g] that(1) by (simp add: keep'_def)
    with keepD [OF keep_kexec that(2)] show ?thesis using files_ok_keeps [OF assms(1)] by blast
  qed
  show ?thesis using assms(1,2)
    by (auto simp: forkret_def Let_def split: if_split_asm prod.split_asm dest!: prepare_return_ok [rotated] intro!: files_ok_tf_set dest: x)
qed

lemma userinit_ok:
  assumes "files_ok st" and "userinit env st = Inr st'"
  shows "files_ok st'"
proof -
  from assms(2) obtain p st1 found st2 where a: "allocproc env st = Inr (Some p, st1)"
    and f: "on_fs_r (namei 0 0 [slash]) (st1\<lparr>initproc := Some p\<rparr>) = Inr (found, st2)"
    and st': "st' = upd_proc p (\<lambda>x. x\<lparr>p_cwd := found, p_state := RUNNABLE\<rparr>) st2"
    by (auto simp: userinit_def split: option.split_asm)
  have k1: "keeps st st1" by (rule keepD [OF keep_allocproc a]) simp
  have k2: "keeps st st2" by (rule keepD [OF keep_on_fs(2) f]) (use k1 in \<open>simp add: keeps_simps\<close>)
  from f have same: "procs st2 = procs st1" by (auto simp: on_fs_r_def split: sum.split_asm prod.split_asm)
  from a have "p_state (proc_at p st1) = USED" by (cases rule: allocproc_cases) (auto simp: fresh_proc_def upd_proc_def)
  then have "keeps st2 st'" using same unfolding st'
    by (intro keepsI) (auto simp: upd_proc_def nth_upd_nth proc_keep_def no_files_def chan_ok_def)
  then show ?thesis using files_ok_keeps [OF assms(1)] k2 keeps_trans by blast
qed

lemma int_sum_list: "(\<Sum>x\<leftarrow>xs. int (g x)) = int (\<Sum>x\<leftarrow>xs. g x)"
  by (induction xs) simp_all

lemma descriptor_open:
  assumes "file_inv (\<lambda>_. 0) {} st" and "j < length (procs st)" and "fd < NOFILE" and "p_ofile (proc_at j st) ! fd = Some f"
  shows "f < length (ftable st) \<and> 1 \<le> f_ref (ftable st ! f) \<and> f_type (ftable st ! f) \<noteq> FD_NONE \<and> p_state (proc_at j st) \<notin> {UNUSED, ZOMBIE}"
proof -
  note d = file_invD(2) [OF assms(1,2)]
  have m: "Some f \<in> set (p_ofile (proc_at j st))" using d assms(3,4) by (metis fds_ok_def nth_mem)
  then have f: "f < length (ftable st)" "\<not> no_files (proc_at j st)" using d by (auto simp: fds_ok_def)
  have "1 \<le> count_list (p_ofile (proc_at j st)) (Some f)" using m by (simp add: Suc_le_eq count_list_0_iff flip: neq0_conv)
  also have "\<dots> \<le> (\<Sum>p\<leftarrow>procs st. count_list (p_ofile p) (Some f))"
    using nth_mem [OF assms(2)] by (intro member_le_sum_list) auto
  finally have "1 \<le> fd_refs f (procs st)" unfolding fd_refs_def int_sum_list by linarith
  with f file_invD(3,5) [OF assms(1) f(1)] show ?thesis by (auto simp: no_files_def)
qed

section \<open>The system\<close>

text \<open>
  The steps of the harts. A call that has registered on a channel leaves its hart with \<open>sleeps\<close>; when it runs
  again, the calls that start over are \<open>retry\<close>, and the loops that go on where they were are \<open>write_on\<close>,
  \<open>print_on\<close> and \<open>read_on\<close>.
\<close>

inductive fstep :: "kenv \<Rightarrow> fstate \<Rightarrow> fstate \<Rightarrow> bool" for env where
  boot: "userinit env st = Inr st' \<Longrightarrow> fstep env st st'"
| schedule: "c < NCPU \<Longrightarrow> myproc c st = None \<Longrightarrow> scheduler_mlfq c st = Some st1 \<Longrightarrow> resume c st1 = Inr st' \<Longrightarrow> fstep env st st'"
| first_return: "forkret env c first h st = Inr (b, v, h', st') \<Longrightarrow> fstep env st st'"
| user_trap: "c < NCPU \<Longrightarrow> usertrap env c pad irq h st = Inr (v, h', st') \<Longrightarrow> fstep env st st'"
| kernel_trap: "c < NCPU \<Longrightarrow> kerneltrap c irq h st = Inr (h', st') \<Longrightarrow> fstep env st st'"
| sleeps: "c < NCPU \<Longrightarrow> sleep c st = Inr st' \<Longrightarrow> fstep env st st'"
| retry: "c < NCPU \<Longrightarrow> syscall env c pad st = Inr (b, st') \<Longrightarrow> fstep env st st'"
| write_on: "pipewrite env c pi addr n i st = Inr (r, st') \<Longrightarrow> fstep env st st'"
| print_on: "consolewrite_loop env c u src n i st = Inr (r, st') \<Longrightarrow> fstep env st st'"
| read_on: "consoleread_loop env c u dst target k st = Inr (r, st') \<Longrightarrow> fstep env st st'"
| trap_end: "c < NCPU \<Longrightarrow> usertrap_end env c w h st = Inr (v, h', st') \<Longrightarrow> fstep env st st'"
| trap_return: "prepare_return env c h st = Inr (h', st') \<Longrightarrow> fstep env st st'"

lemma fstep_ok:
  assumes "fstep env st st'" and "files_ok st"
  shows "files_ok st'"
  using assms
proof cases
  case (retry c pad b)
  then show ?thesis using syscall_ok [OF assms(2)] by (auto simp: ends_ok_def)
next
  case (write_on c pi addr n i r)
  show ?thesis by (rule files_ok_keeps [OF assms(2) keepD [OF keep_pipewrite write_on]]) simp
next
  case (print_on c u src n i r)
  show ?thesis by (rule files_ok_keeps [OF assms(2) keepD [OF keep_consolewrite_loop print_on]]) simp
next
  case (read_on c u dst target k r)
  show ?thesis by (rule files_ok_keeps [OF assms(2) keepD [OF keep_consoleread_loop read_on]]) simp
qed (use assms(2) in \<open>blast intro: userinit_ok schedule_ok forkret_ok usertrap_ok kerneltrap_ok sleep_ok usertrap_end_ok prepare_return_ok\<close>)+

text \<open>The table at boot.\<close>

lemma files_ok_boot:
  assumes "list_all (\<lambda>p. p_state p = UNUSED \<and> p_ofile p = replicate NOFILE None) (procs st)"
    and "list_all (\<lambda>f. f_ref f = 0 \<and> f_type f = FD_NONE) (ftable st)"
    and "length (cpus st) = NCPU" and "list_all (\<lambda>cp. c_proc cp = None \<and> noff cp = 0) (cpus st)"
  shows "files_ok st"
proof -
  have p: "p \<in> set (procs st) \<Longrightarrow> p_state p = UNUSED \<and> p_ofile p = replicate NOFILE None" for p
    using assms(1) by (auto simp: list_all_iff)
  have "running cs = []" if "list_all (\<lambda>cp. c_proc cp = None \<and> noff cp = 0) cs" for cs
    using that by (induction cs) auto
  then have "run_ok (procs st) (cpus st)" using assms(1,4) by (auto simp: run_ok_def list_all_length)
  moreover have "fd_refs f ps = 0" if "list_all (\<lambda>p. p_state p = UNUSED \<and> p_ofile p = replicate NOFILE None) ps" for f ps
    using that by (induction ps) (auto simp: fd_refs_def count_list_0_iff)
  ultimately show ?thesis using assms p
    by (auto simp: files_ok_def file_inv_def proc_inv_def chan_ok_def fds_ok_def list_all_iff all_set_conv_all_nth)
qed

text \<open>\<open>main\<close> sets up the table from the zeroed data of the kernel.\<close>

lemma main_init_ok:
  assumes "list_all (\<lambda>p. p_state p = UNUSED \<and> p_ofile p = replicate NOFILE None) (procs st)"
    and "list_all (\<lambda>f. f_ref f = 0 \<and> f_type f = FD_NONE) (ftable st)"
    and "length (cpus st) = NCPU" and "list_all (\<lambda>cp. c_proc cp = None \<and> noff cp = 0) (cpus st)"
    and "main_init env st = Inr (kpt, st')"
  shows "files_ok st'"
proof -
  from assms(5) obtain km s where u: "userinit env (procinit (consoleinit st\<lparr>kmemory := km\<rparr>)\<lparr>fs := s\<rparr>) = Inr st'"
    by (auto simp: main_init_def on_mem_def on_mem'_def Let_def procinit_def)
  have "files_ok (procinit (consoleinit st\<lparr>kmemory := km\<rparr>)\<lparr>fs := s\<rparr>)"
    by (rule files_ok_boot) (use assms(1-4) in \<open>auto simp: procinit_def consoleinit_def list_all_length nth_enumerate_eq\<close>)
  with u show ?thesis by (rule userinit_ok [rotated])
qed

text \<open>
  C5: The table of open files stays well typed. In every state that the harts reach, by traps, system calls,
  scheduling, sleeping and exits in any order, from a state in which the table is consistent, every
  descriptor of a process refers to an entry that is in use and has a type, a process that has exited or has
  not started has no open descriptor, and the reference count of every entry is the number of descriptors
  that refer to it.
\<close>

theorem file_table_typed:
  assumes "files_ok st" and "(fstep env)\<^sup>*\<^sup>* st st'"
  shows "files_ok st'
    \<and> (\<forall>i fd f. i < length (procs st') \<and> fd < NOFILE \<and> p_ofile (proc_at i st') ! fd = Some f \<longrightarrow>
         f < length (ftable st') \<and> 1 \<le> f_ref (ftable st' ! f) \<and> f_type (ftable st' ! f) \<noteq> FD_NONE
         \<and> p_state (proc_at i st') \<notin> {UNUSED, ZOMBIE})
    \<and> (\<forall>f. f < length (ftable st') \<longrightarrow> f_ref (ftable st' ! f) = (\<Sum>p\<leftarrow>procs st'. int (count_list (p_ofile p) (Some f))))"
proof -
  from assms(2,1) have ok: "files_ok st'" by (induction rule: rtranclp_induct) (auto intro: fstep_ok)
  then have i: "file_inv (\<lambda>_. 0) {} st'" by (simp add: files_ok_def)
  have "f < length (ftable st') \<and> 1 \<le> f_ref (ftable st' ! f) \<and> f_type (ftable st' ! f) \<noteq> FD_NONE \<and> p_state (proc_at j st') \<notin> {UNUSED, ZOMBIE}"
    if "j < length (procs st')" "fd < NOFILE" "p_ofile (proc_at j st') ! fd = Some f" for j fd f
    using descriptor_open [OF i that] .
  then show ?thesis using ok file_invD(3) [OF i] by (auto simp: fd_refs_def)
qed

section \<open>A process with an open file\<close>

text \<open>Process 0 has called \<open>dup(0)\<close>: register a7 of its trapframe holds 10.\<close>

definition dup_state :: fstate where
  "dup_state = \<lparr>procs = [pipe_proc\<lparr>p_trapframe := 0x80003000, p_ofile := Some 1 # replicate 15 None\<rparr>], nextpid = 2, mlfq_global_seq = 0, ticks = 0,
     initproc = Some 0, cpus = \<lparr>c_proc = Some 0, noff = 0, intena = True, sie = False\<rparr> # replicate 7 \<lparr>c_proc = None, noff = 0, intena = False, sie = False\<rparr>,
     kmemory = \<lparr>mem = (\<lambda>a. if a = 0x800030a8 then 10 else 0), freelist = 0\<rparr>, mlfq_trace = [],
     pipes = (\<lambda>_. \<lparr>pi_data = [], nread = 0, nwrite = 0, readopen = False, writeopen = False\<rparr>),
     uart_rx = [], uart_tx = [], uart_out = [], tx_lock = None, cons_buf = [], cons_r = 0, cons_w = 0, cons_e = 0, devsw = [],
     ftable = [\<lparr>f_type = FD_NONE, f_ref = 0, f_readable = False, f_writable = False, f_pipe = 0, f_ip = 0, f_off = 0, f_major = 0\<rparr>,
       \<lparr>f_type = FD_INODE, f_ref = 1, f_readable = True, f_writable = False, f_pipe = 0, f_ip = 0, f_off = 0, f_major = 0\<rparr>],
     fs = \<lparr>flog = \<lparr>lbio = \<lparr>disk = (\<lambda>_. []), dwrites = [], bufs = []\<rparr>, l_start = 0, l_outstanding = 0, l_committing = False, l_dev = 0, l_ncommit = 0, lh_n = 0, lh_block = []\<rparr>,
       fsb = \<lparr>sb_magic = 0, sb_size = 0, sb_nblocks = 0, sb_ninodes = 0, sb_nlog = 0, sb_logstart = 0, sb_inodestart = 0, sb_bmapstart = 0\<rparr>, itable = []\<rparr>\<rparr>"

definition dup_hart :: hart where
  "dup_hart = \<lparr>stvec = 0, sstatus = 0, sepc = 0x1000, scause = 8, stval = 0, satp = 0\<rparr>"

definition dup_called :: fstate where
  "dup_called = upd_cpu 0 (\<lambda>cp. cp\<lparr>sie := True\<rparr>) (tf_set TF_epc 0x1004 0 (tf_set TF_epc 0x1000 0 dup_state))"

lemma dup_call: "case sys_dup 0 dup_called of Inr (r, st) \<Rightarrow> r = Return 1 \<and> myproc 0 st = Some 0 \<and> \<not> killed 0 st \<and> take 3 (p_ofile (proc_at 0 st)) = [Some 1, Some 1, None] | _ \<Rightarrow> False"
  by code_simp

lemma dup_state_facts: "tf_get TF_epc 0 (tf_set TF_epc 0x1000 0 dup_state) = 0x1000" "\<not> killed 0 (tf_set TF_epc 0x1000 0 dup_state)" "tf_get (TF_a 7) 0 dup_called = 10"
  "myproc 0 dup_state = Some 0" "myproc 0 dup_called = Some 0"
  by code_simp+

lemma dup_run:
  "\<exists>v h st. usertrap pipe_env 0 [] 0 dup_hart dup_state = Inr (v, h, st) \<and> take 3 (p_ofile (proc_at 0 st)) = [Some 1, Some 1, None]"
proof -
  from dup_call obtain st where d: "sys_dup 0 dup_called = Inr (Return 1, st)" "myproc 0 st = Some 0" "\<not> killed 0 st"
    "take 3 (p_ofile (proc_at 0 st)) = [Some 1, Some 1, None]" by (auto split: sum.split_asm)
  have s: "syscall pipe_env 0 [] dup_called = Inr (True, tf_set (TF_a 0) 1 0 st)"
    using d(1) by (simp add: syscall_def with_proc_def dup_state_facts syscalls_def)
  have "\<exists>h' st'. usertrap_end pipe_env 0 0 h (tf_set (TF_a 0) 1 0 st) = Inr (Some (MAKE_SATP (p_pagetable (proc_at 0 st'))), h', st')
      \<and> p_ofile (proc_at 0 st') = p_ofile (proc_at 0 st)" for h
    using d(2,3) by (simp add: usertrap_end_def prepare_return_def Let_def with_proc_def tf_set_def killed_def myproc_def upd_cpu_def upd_nth_def)
  then show ?thesis using s d(4)
    by (fastforce simp: usertrap_def dup_hart_def with_proc_def Let_def dup_state_facts simp flip: dup_called_def)
qed

lemma dup_state_ok: "files_ok dup_state"
proof -
  have "run_ok (procs dup_state) (cpus dup_state)" by (auto simp: run_ok_def dup_state_def pipe_proc_def numeral_eq_Suc)
  then show ?thesis
    by (auto simp: files_ok_def file_inv_def proc_inv_def dup_state_def pipe_proc_def chan_ok_def fds_ok_def no_files_def NCPU_def NOFILE_def fd_refs_def list_all_iff count_list_0_iff less_Suc_eq
        dest!: in_set_replicate [THEN iffD1] split: if_splits)
qed

theorem file_table_typed_witness:
  "\<exists>st. fstep pipe_env dup_state st \<and> files_ok st \<and> take 3 (p_ofile (proc_at 0 st)) = [Some 1, Some 1, None]"
proof -
  from dup_run obtain v h st where r: "usertrap pipe_env 0 [] 0 dup_hart dup_state = Inr (v, h, st)"
    and d: "take 3 (p_ofile (proc_at 0 st)) = [Some 1, Some 1, None]" by blast
  have s: "fstep pipe_env dup_state st" by (rule fstep.user_trap [OF _ r]) (simp add: NCPU_def)
  from file_table_typed [OF dup_state_ok r_into_rtranclp, of pipe_env st] s have "files_ok st" by blast
  with s d show ?thesis by blast
qed

end
