(* ===== verification/FsTx.thy ===== *)
theory FsTx
  imports Fs
begin

text \<open>
  Use of blocks within a transaction. The invariant \<open>tx\<close> says that one process holds the buffers
  of the blocks in a set \<open>H\<close> and that all changes are in the log; without held buffers it is the
  invariant of \<open>Log\<close>. The lemmas give reading, changing and releasing a block by their effect on the
  contents of the blocks, with a frame for everything else.
\<close>

section \<open>The log with held buffers\<close>

definition tx :: "int \<Rightarrow> u32 set \<Rightarrow> logst \<Rightarrow> bool" where
  "tx pid H s \<longleftrightarrow> bio_ok (lbio s) \<and> l_dev s = ROOTDEV \<and> 0 \<le> lh_n s \<and> lh_n s \<le> int LOGBLOCKS \<and> length (lh_block s) = LOGBLOCKS
    \<and> distinct (take (nat (lh_n s)) (lh_block s)) \<and> logged s \<inter> log_area s = {}
    \<and> refs (lbio s) = (\<lambda>b. (if b \<in> logged s then 1 else 0) + (if b \<in> H then 1 else 0))
    \<and> holder (lbio s) = (\<lambda>b. if b \<in> H then Some pid else None)
    \<and> (\<forall>b. b \<notin> logged s \<longrightarrow> content (lbio s) b = disk (lbio s) b)
    \<and> head_n (disk (lbio s) (l_start s)) = 0 \<and> 4 + 4 * LOGBLOCKS \<le> length (disk (lbio s) (l_start s)) \<and> finite H"

lemma txD:
  assumes "tx pid H s"
  shows "bio_ok (lbio s)" "l_dev s = ROOTDEV" "0 \<le> lh_n s" "lh_n s \<le> int LOGBLOCKS" "length (lh_block s) = LOGBLOCKS"
    "distinct (take (nat (lh_n s)) (lh_block s))" "logged s \<inter> log_area s = {}"
    "refs (lbio s) = (\<lambda>b. (if b \<in> logged s then 1 else 0) + (if b \<in> H then 1 else 0))"
    "holder (lbio s) = (\<lambda>b. if b \<in> H then Some pid else None)"
    "b \<notin> logged s \<Longrightarrow> content (lbio s) b = disk (lbio s) b"
    "head_n (disk (lbio s) (l_start s)) = 0" "4 + 4 * LOGBLOCKS \<le> length (disk (lbio s) (l_start s))" "finite H"
  using assms unfolding tx_def by auto

lemma tx_empty: "tx pid {} s \<longleftrightarrow> log_ok s"
  unfolding tx_def log_ok_def by auto

lemma tx_card: "tx pid H s \<Longrightarrow> card (logged s) = nat (lh_n s)"
  using distinct_card [of "take (nat (lh_n s)) (lh_block s)"] txD(3-6) [of pid H s] by simp

lemma tx_nfree:
  assumes "tx pid H s"
  shows "nfree (lbio s) = NBUF - card (logged s \<union> H)"
proof -
  have "{x. refs (lbio s) x \<noteq> 0} = logged s \<union> H" unfolding txD(8) [OF assms] by auto
  then show ?thesis using nfree_refs [OF txD(1) [OF assms]] by simp
qed

lemma tx_nfree_pos:
  assumes "tx pid H s" and "card (logged s) + card H < NBUF"
  shows "0 < nfree (lbio s)"
proof -
  have "card (logged s \<union> H) \<le> card (logged s) + card H" by (rule card_Un_le)
  with assms(2) show ?thesis by (simp add: tx_nfree [OF assms(1)])
qed

lemma tx_bread:
  assumes "tx pid H s" and "b \<notin> H" and "card (logged s) + card H < NBUF"
  obtains i b1 where "bread pid ROOTDEV b (lbio s) = Inr (i, b1)" and "tx pid (insert b H) (s\<lparr>lbio := b1\<rparr>)"
    and "cslot b1 b = Some i" and "content b1 = content (lbio s)" and "disk b1 = disk (lbio s)"
    and "\<And>x. x \<in> H \<Longrightarrow> cslot b1 x = cslot (lbio s) x"
proof -
  note D = txD [OF assms(1)]
  have "holder (lbio s) b = None" "refs (lbio s) b + 1 < 2 ^ 32" using assms(2) by (simp_all add: D(8,9))
  then obtain i b1 where b1: "bread pid ROOTDEV b (lbio s) = Inr (i, b1)" "bread_post pid b (lbio s) i b1"
    using bread_spec [OF D(1), of b pid] tx_nfree_pos [OF assms(1,3)] by blast
  have "logged (s\<lparr>lbio := b1\<rparr>) = logged s" "log_area (s\<lparr>lbio := b1\<rparr>) = log_area s" by (simp_all add: log_area_def)
  moreover have "refs b1 = (\<lambda>c. (if c \<in> logged s then 1 else 0) + (if c \<in> insert b H then 1 else 0))"
    "holder b1 = (\<lambda>c. if c \<in> insert b H then Some pid else None)"
    using b1(2) assms(2) by (auto simp: bread_post_def D(8,9) fun_eq_iff)
  ultimately have "tx pid (insert b H) (s\<lparr>lbio := b1\<rparr>)"
    using b1(2) D(2-7,10-13) unfolding tx_def by (simp add: bread_post_def)
  moreover have "cslot b1 x = cslot (lbio s) x" if "x \<in> H" for x
    using b1(2) that by (auto simp: bread_post_def D(8))
  ultimately show ?thesis using that [of i b1] b1 by (simp add: bread_post_def)
qed

lemma tx_log:
  assumes "tx pid H s" and "b \<in> H" and "cslot (lbio s) b = Some i" and "card (logged s) < LOGBLOCKS" and "1 \<le> l_outstanding s"
    and "b \<notin> log_area s"
  obtains s' where "log_write i (s\<lparr>lbio := set_data i d (lbio s)\<rparr>) = Inr s'" and "tx pid H s'" and "content (lbio s') = (content (lbio s))(b := d)"
    and "disk (lbio s') = disk (lbio s)" and "cslot (lbio s') = cslot (lbio s)" and "logged s' = insert b (logged s)"
    and "l_start s' = l_start s" and "l_outstanding s' = l_outstanding s" and "l_committing s' = l_committing s"
proof -
  note D = txD [OF assms(1)]
  let ?n = "nat (lh_n s)" and ?b2 = "set_data i d (lbio s)"
  let ?b3 = "if b \<in> logged s then ?b2 else bpin i ?b2"
  have "refs (lbio s) b \<noteq> 0" using assms(2) by (simp add: D(8))
  note p2 = set_data_spec [OF D(1) assms(3) this, of d]
  have bn: "b_blockno (buf_at i ?b2) = b" using slot_facts(4) [of ?b2 b i] p2 assms(3) by simp
  have p3: "bio_ok ?b3 \<and> cslot ?b3 = cslot (lbio s) \<and> content ?b3 = (content (lbio s))(b := d) \<and> disk ?b3 = disk (lbio s)
      \<and> refs ?b3 = (refs (lbio s))(b := 2) \<and> holder ?b3 = holder (lbio s)"
    using p2 assms(2,3) bpin_spec [of ?b2 b i] D(8) by (auto simp: fun_eq_iff)
  define s' where "s' = (if b \<in> logged s then s\<lparr>lbio := ?b2\<rparr>
    else s\<lparr>lh_block := (lh_block s)[?n := b], lh_n := lh_n s + 1, lbio := ?b3\<rparr>)"
  have n: "lh_n s < int LOGBLOCKS" using assms(4) tx_card [OF assms(1)] D(3) by linarith
  have w: "log_write i (s\<lparr>lbio := ?b2\<rparr>) = Inr s'"
    using log_write_eq [of "s\<lparr>lbio := ?b2\<rparr>" i b] n assms(5) bn by (simp add: s'_def)
  have nl: "?n < length (lh_block s)" using n D(3,5) by linarith
  have tk: "take (nat (lh_n s')) (lh_block s') = (if b \<in> logged s then take ?n (lh_block s) else take ?n (lh_block s) @ [b])"
    using nl D(3) by (simp add: s'_def nat_add_distrib take_Suc_conv_app_nth)
  then have lg: "logged s' = insert b (logged s)" by auto
  have F: "lbio s' = ?b3" "l_start s' = l_start s" "l_dev s' = l_dev s" "l_outstanding s' = l_outstanding s"
    "l_committing s' = l_committing s" "length (lh_block s') = length (lh_block s)"
    "lh_n s' = lh_n s + (if b \<in> logged s then 0 else 1)" by (simp_all add: s'_def)
  have "log_area s' = log_area s" by (simp add: log_area_def lblk_def F)
  then have "logged s' \<inter> log_area s' = {}" using D(7) assms(6) lg by auto
  moreover have "distinct (take (nat (lh_n s')) (lh_block s'))" using D(6) tk by simp
  moreover have "refs ?b3 = (\<lambda>x. (if x \<in> logged s' then 1 else 0) + (if x \<in> H then 1 else 0))"
    "\<forall>x. x \<notin> logged s' \<longrightarrow> content ?b3 x = disk ?b3 x"
    using p3 D(8,10) lg assms(2) by (auto simp: fun_eq_iff)
  ultimately have "tx pid H s'" unfolding tx_def F using p3 D(2-5,9,11-13) n by simp
  with w p3 lg F show ?thesis by (intro that [of s']) simp_all
qed

lemma tx_brelse:
  assumes "tx pid H s" and "b \<in> H" and "cslot (lbio s) b = Some i"
  obtains b1 where "brelse pid i (lbio s) = Inr b1" and "tx pid (H - {b}) (s\<lparr>lbio := b1\<rparr>)" and "cslot b1 = cslot (lbio s)"
    and "content b1 = content (lbio s)" and "disk b1 = disk (lbio s)"
proof -
  note D = txD [OF assms(1)]
  let ?r = "if b \<in> logged s then 1 else 0"
  have r: "refs (lbio s) b = Suc ?r" "holder (lbio s) b = Some pid" using assms(2) by (simp_all add: D(8,9))
  have "content (lbio s) b = disk (lbio s) b" if "?r = (0::nat)" using D(10) that by (auto split: if_splits)
  then obtain b1 where b1: "brelse pid i (lbio s) = Inr b1" "bio_ok b1" "cslot b1 = cslot (lbio s)" "content b1 = content (lbio s)"
    "disk b1 = disk (lbio s)" "refs b1 = (refs (lbio s))(b := ?r)" "holder b1 = (holder (lbio s))(b := None)"
    using brelse_ok [OF D(1) assms(3) r(2,1)] by metis
  have "logged (s\<lparr>lbio := b1\<rparr>) = logged s" "log_area (s\<lparr>lbio := b1\<rparr>) = log_area s" by (simp_all add: log_area_def)
  moreover have "refs b1 = (\<lambda>c. (if c \<in> logged s then 1 else 0) + (if c \<in> H - {b} then 1 else 0))"
    "holder b1 = (\<lambda>c. if c \<in> H - {b} then Some pid else None)"
    using b1(6,7) by (auto simp: D(8,9) fun_eq_iff)
  ultimately have "tx pid (H - {b}) (s\<lparr>lbio := b1\<rparr>)" using b1 D(2-7,10-13) unfolding tx_def by simp
  with b1 show ?thesis by (intro that)
qed

section \<open>Blocks of the file system\<close>

definition fcont :: "fsys \<Rightarrow> u32 \<Rightarrow> block" where
  "fcont s = content (lbio (flog s))"

abbreviation fslot :: "fsys \<Rightarrow> u32 \<Rightarrow> nat option" where
  "fslot s \<equiv> cslot (lbio (flog s))"

abbreviation flogged :: "fsys \<Rightarrow> u32 set" where
  "flogged s \<equiv> logged (flog s)"

abbreviation ftx :: "int \<Rightarrow> u32 set \<Rightarrow> fsys \<Rightarrow> bool" where
  "ftx pid H s \<equiv> tx pid H (flog s)"

abbreviation in_log :: "fsys \<Rightarrow> u32 set" where
  "in_log s \<equiv> log_area (flog s)"

text \<open>What a part of a transaction that logs the blocks \<open>D\<close> leaves alone.\<close>

definition frame :: "u32 set \<Rightarrow> u32 set \<Rightarrow> fsys \<Rightarrow> fsys \<Rightarrow> bool" where
  "frame H D s s' \<longleftrightarrow> (\<forall>x\<in>H. fslot s' x = fslot s x) \<and> fsb s' = fsb s \<and> l_start (flog s') = l_start (flog s)
    \<and> l_outstanding (flog s') = l_outstanding (flog s) \<and> l_committing (flog s') = l_committing (flog s)
    \<and> disk (lbio (flog s')) = disk (lbio (flog s)) \<and> flogged s' = flogged s \<union> D"

lemma frameD:
  assumes "frame H D s s'"
  shows "\<And>x. x \<in> H \<Longrightarrow> fslot s' x = fslot s x" "fsb s' = fsb s" "l_outstanding (flog s') = l_outstanding (flog s)"
    "disk (lbio (flog s')) = disk (lbio (flog s))" "flogged s' = flogged s \<union> D" "in_log s' = in_log s"
    "l_start (flog s') = l_start (flog s)" "l_committing (flog s') = l_committing (flog s)"
  using assms by (auto simp: frame_def log_area_def lblk_def)

lemma frame_refl [simp]: "frame H {} s s"
  by (simp add: frame_def)

lemma frame_trans: "frame H D s s' \<Longrightarrow> frame H E s' s'' \<Longrightarrow> frame H (D \<union> E) s s''"
  by (auto simp: frame_def)

lemma frame_mono: "frame H D s s' \<Longrightarrow> H' \<subseteq> H \<Longrightarrow> frame H' D s s'"
  by (auto simp: frame_def)

lemma frame_itable [simp]: "frame H D s (s'\<lparr>itable := t\<rparr>) = frame H D s s'" "frame H D (s\<lparr>itable := t\<rparr>) s' = frame H D s s'"
  "frame H D s (upd_inode ip f s') = frame H D s s'" "frame H D (upd_inode ip f s) s' = frame H D s s'"
  by (simp_all add: frame_def upd_inode_def)

lemma upd_inode_simps [simp]: "flog (upd_inode ip f s) = flog s" "fsb (upd_inode ip f s) = fsb s"
  "fcont (upd_inode ip f s) = fcont s" "itable (upd_inode ip f s) = upd_nth ip f (itable s)" "bdata i (upd_inode ip f s) = bdata i s"
  by (simp_all add: upd_inode_def fcont_def bdata_def)

lemma fs_brelse_upd_inode: "fs_brelse pid i (upd_inode ip f s) = bindE (fs_brelse pid i s) (\<lambda>s'. Inr (upd_inode ip f s'))"
  by (cases "brelse pid i (lbio (flog s))") (simp_all add: fs_brelse_def upd_inode_def)

lemma held_data: "ftx pid H s \<Longrightarrow> b \<in> H \<Longrightarrow> fslot s b = Some i \<Longrightarrow> bdata i s = fcont s b"
  using slot_facts(6) [of "lbio (flog s)" b i] txD(1,8) [of pid H "flog s"] by (simp add: bdata_def fcont_def)

lemma fs_bread_ok:
  assumes "ftx pid H s" and "b \<notin> H" and "card (flogged s) + card H < NBUF"
  obtains i s' where "fs_bread pid ROOTDEV b s = Inr (i, s')" and "ftx pid (insert b H) s'" and "frame H {} s s'"
    and "fcont s' = fcont s" and "itable s' = itable s" and "fslot s' b = Some i" and "bdata i s' = fcont s b" and "fsb s' = fsb s"
proof -
  obtain i b1 where b1: "bread pid ROOTDEV b (lbio (flog s)) = Inr (i, b1)" "tx pid (insert b H) ((flog s)\<lparr>lbio := b1\<rparr>)"
    "cslot b1 b = Some i" "content b1 = content (lbio (flog s))" "disk b1 = disk (lbio (flog s))"
    "\<And>x. x \<in> H \<Longrightarrow> cslot b1 x = cslot (lbio (flog s)) x" by (rule tx_bread [OF assms]) blast
  let ?s = "s\<lparr>flog := (flog s)\<lparr>lbio := b1\<rparr>\<rparr>"
  have "bdata i ?s = fcont ?s b" using held_data [of pid "insert b H" ?s b i] b1 by simp
  with b1 show ?thesis by (intro that [of i ?s]) (simp_all add: fs_bread_def frame_def fcont_def)
qed

lemma fs_log_ok:
  assumes "ftx pid H s" and "b \<in> H" and "fslot s b = Some i" and "card (flogged s) < LOGBLOCKS" and "1 \<le> l_outstanding (flog s)"
    and "b \<notin> in_log s"
  obtains s' where "fs_log_write i (fs_set i d s) = Inr s'" and "ftx pid H s'" and "frame H {b} s s'"
    and "fcont s' = (fcont s)(b := d)" and "itable s' = itable s" and "fslot s' = fslot s"
proof -
  obtain l where "log_write i ((flog s)\<lparr>lbio := set_data i d (lbio (flog s))\<rparr>) = Inr l" "tx pid H l"
    "content (lbio l) = (content (lbio (flog s)))(b := d)" "disk (lbio l) = disk (lbio (flog s))" "cslot (lbio l) = cslot (lbio (flog s))"
    "logged l = insert b (flogged s)" "l_start l = l_start (flog s)" "l_outstanding l = l_outstanding (flog s)"
    "l_committing l = l_committing (flog s)"
    by (rule tx_log [OF assms, of d]) blast
  then show ?thesis by (intro that [of "s\<lparr>flog := l\<rparr>"]) (simp_all add: fs_log_write_def fs_set_def frame_def fcont_def)
qed

lemma fs_brelse_ok:
  assumes "ftx pid H s" and "b \<in> H" and "fslot s b = Some i"
  obtains s' where "fs_brelse pid i s = Inr s'" and "ftx pid (H - {b}) s'" and "frame H {} s s'"
    and "fcont s' = fcont s" and "itable s' = itable s"
proof -
  obtain b1 where "brelse pid i (lbio (flog s)) = Inr b1" "tx pid (H - {b}) ((flog s)\<lparr>lbio := b1\<rparr>)"
    "cslot b1 = cslot (lbio (flog s))" "content b1 = content (lbio (flog s))" "disk b1 = disk (lbio (flog s))"
    by (rule tx_brelse [OF assms]) blast
  then show ?thesis by (intro that [of "s\<lparr>flog := (flog s)\<lparr>lbio := b1\<rparr>\<rparr>"]) (simp_all add: fs_brelse_def frame_def fcont_def)
qed

text \<open>A block is read and given back, with or without a change in between.\<close>

lemma fs_use_ok:
  assumes "ftx pid H s" and "b \<notin> H" and "card (flogged s) + card H < NBUF"
  obtains i s1 s2 where "fs_bread pid ROOTDEV b s = Inr (i, s1)" and "bdata i s1 = fcont s b" and "itable s1 = itable s" and "fsb s1 = fsb s"
    and "fs_brelse pid i s1 = Inr s2" and "ftx pid H s2" and "frame H {} s s2" and "fcont s2 = fcont s" and "itable s2 = itable s"
    and "\<And>d. 1 \<le> l_outstanding (flog s) \<Longrightarrow> b \<notin> in_log s \<Longrightarrow> \<exists>s3 s4. fs_log_write i (fs_set i d s1) = Inr s3
      \<and> fs_brelse pid i s3 = Inr s4 \<and> ftx pid H s4 \<and> frame H {b} s s4 \<and> fcont s4 = (fcont s)(b := d) \<and> itable s4 = itable s"
proof -
  obtain i s1 where s1: "fs_bread pid ROOTDEV b s = Inr (i, s1)" "ftx pid (insert b H) s1" "frame H {} s s1"
    "fcont s1 = fcont s" "itable s1 = itable s" "fslot s1 b = Some i" "bdata i s1 = fcont s b" "fsb s1 = fsb s"
    by (rule fs_bread_ok [OF assms]) blast
  have H: "insert b H - {b} = H" using assms(2) by auto
  obtain s2 where s2: "fs_brelse pid i s1 = Inr s2" "ftx pid H s2" "frame (insert b H) {} s1 s2" "fcont s2 = fcont s1" "itable s2 = itable s1"
    using fs_brelse_ok [OF s1(2) insertI1 s1(6)] unfolding H by blast
  have f2: "frame H {} s s2" using frame_trans [OF s1(3) frame_mono [OF s2(3)]] by auto
  have "\<exists>s3 s4. fs_log_write i (fs_set i d s1) = Inr s3 \<and> fs_brelse pid i s3 = Inr s4 \<and> ftx pid H s4 \<and> frame H {b} s s4
      \<and> fcont s4 = (fcont s)(b := d) \<and> itable s4 = itable s" if l: "1 \<le> l_outstanding (flog s)" "b \<notin> in_log s" for d
  proof -
    have "card (flogged s1) < LOGBLOCKS" using assms(3) frameD(5) [OF s1(3)] by (simp add: NBUF_def LOGBLOCKS_def)
    moreover have "1 \<le> l_outstanding (flog s1)" "b \<notin> in_log s1" using l frameD(3,6) [OF s1(3)] by simp_all
    ultimately obtain s3 where s3: "fs_log_write i (fs_set i d s1) = Inr s3" "ftx pid (insert b H) s3" "frame (insert b H) {b} s1 s3"
      "fcont s3 = (fcont s1)(b := d)" "itable s3 = itable s1" "fslot s3 = fslot s1"
      using fs_log_ok [OF s1(2) insertI1 s1(6), of d] by blast
    have "fslot s3 b = Some i" using s3(6) s1(6) by simp
    then obtain s4 where s4: "fs_brelse pid i s3 = Inr s4" "ftx pid H s4" "frame (insert b H) {} s3 s4" "fcont s4 = fcont s3" "itable s4 = itable s3"
      using fs_brelse_ok [OF s3(2) insertI1] unfolding H by blast
    have "frame H {b} s s4"
      using frame_trans [OF s1(3) frame_trans [OF frame_mono [OF s3(3)] frame_mono [OF s4(3)]]] by auto
    with s1 s3 s4 show ?thesis by (intro exI [of _ s3] exI [of _ s4]) simp
  qed
  with s1 s2 f2 that [of i s1 s2] show ?thesis by simp
qed

lemma fs_modify:
  assumes "ftx pid H s" and "b \<notin> H" and "card (flogged s) + card H < NBUF" and "1 \<le> l_outstanding (flog s)" and "b \<notin> in_log s"
    and "fs_bread pid ROOTDEV b s = Inr (i, s1)"
  obtains s2 s3 where "fs_log_write i (fs_set i d s1) = Inr s2" and "fs_brelse pid i s2 = Inr s3" and "ftx pid H s3"
    and "frame H {b} s s3" and "fcont s3 = (fcont s)(b := d)" and "itable s3 = itable s"
proof (rule fs_use_ok [OF assms(1-3)])
  fix j t assume "fs_bread pid ROOTDEV b s = Inr (j, t)"
    and all: "\<And>d. 1 \<le> l_outstanding (flog s) \<Longrightarrow> b \<notin> in_log s \<Longrightarrow> \<exists>s3 s4. fs_log_write j (fs_set j d t) = Inr s3
      \<and> fs_brelse pid j s3 = Inr s4 \<and> ftx pid H s4 \<and> frame H {b} s s4 \<and> fcont s4 = (fcont s)(b := d) \<and> itable s4 = itable s"
  with assms(6) have "j = i" "t = s1" by simp_all
  with all [OF assms(4,5), of d] show ?thesis using that by blast
qed

end
