(* ===== verification/FsAlloc.thy ===== *)
theory FsAlloc
  imports FsTx
begin

text \<open>
  The free map of the disk: \<open>balloc\<close> and \<open>bfree\<close> as operations on the set of free blocks.
\<close>

section \<open>Bits of a block\<close>

definition mark_used :: "block \<Rightarrow> nat \<Rightarrow> block" where
  "mark_used d bi = d[bi div 8 := d ! (bi div 8) OR bit_mask bi]"

definition mark_free :: "block \<Rightarrow> nat \<Rightarrow> block" where
  "mark_free d bi = d[bi div 8 := d ! (bi div 8) AND NOT (bit_mask bi)]"

lemma length_mark [simp]: "length (mark_used d bi) = length d" "length (mark_free d bi) = length d"
  by (simp_all add: mark_used_def mark_free_def)

lemma bit_clear_iff: "bit_clear d bi \<longleftrightarrow> \<not> bit (d ! (bi div 8)) (bi mod 8)"
proof -
  have m: "bit_mask bi = (2 :: u8) ^ (bi mod 8)" by (simp add: bit_mask_def push_bit_eq_mult)
  show ?thesis unfolding bit_clear_def m by (rule and_exp_eq_0_iff_not_bit)
qed

lemma bit_bit_mask: "n < 8 \<Longrightarrow> bit (bit_mask bi) n \<longleftrightarrow> n = bi mod 8"
  by (auto simp: bit_mask_def push_bit_eq_mult bit_exp_iff)

lemma same_bit: "bi div 8 = bj div 8 \<Longrightarrow> bi mod 8 = bj mod 8 \<Longrightarrow> bi = (bj :: nat)"
  by (metis mult_div_mod_eq)

lemma bit_clear_mark:
  assumes "bj div 8 < length d"
  shows "bit_clear (mark_used d bi) bj \<longleftrightarrow> bit_clear d bj \<and> bj \<noteq> bi"
    and "bit_clear (mark_free d bi) bj \<longleftrightarrow> bit_clear d bj \<or> bj = bi"
proof -
  have "bit (mark_used d bi ! (bj div 8)) (bj mod 8) \<longleftrightarrow> bit (d ! (bj div 8)) (bj mod 8) \<or> bj = bi"
    using assms same_bit [of bj bi]
    by (cases "bj div 8 = bi div 8") (auto simp: mark_used_def bit_or_iff bit_bit_mask)
  then show "bit_clear (mark_used d bi) bj \<longleftrightarrow> bit_clear d bj \<and> bj \<noteq> bi" by (simp add: bit_clear_iff)
  have "bit (mark_free d bi ! (bj div 8)) (bj mod 8) \<longleftrightarrow> bit (d ! (bj div 8)) (bj mod 8) \<and> bj \<noteq> bi"
    using assms same_bit [of bj bi]
    by (cases "bj div 8 = bi div 8") (auto simp: mark_free_def bit_and_iff bit_not_iff bit_bit_mask)
  then show "bit_clear (mark_free d bi) bj \<longleftrightarrow> bit_clear d bj \<or> bj = bi" by (simp add: bit_clear_iff)
qed

lemma balloc_scan_None:
  "balloc_scan d b sz [i..<n] = None \<Longrightarrow> i \<le> bi \<Longrightarrow> bi < n \<Longrightarrow> b + bi < sz \<Longrightarrow> \<not> bit_clear d bi"
proof (induction "n - i" arbitrary: i)
  case (Suc k)
  then have "[i..<n] = i # [Suc i..<n]" by (simp add: upt_conv_Cons)
  with Suc.prems Suc.hyps(2) Suc.hyps(1) [of "Suc i"] show ?case by (cases "bi = i") (auto split: if_splits)
qed simp

lemma balloc_scan_Some:
  "balloc_scan d b sz [i..<n] = Some bi \<Longrightarrow> i \<le> bi \<and> bi < n \<and> b + bi < sz \<and> bit_clear d bi \<and> (\<forall>bj<bi. i \<le> bj \<longrightarrow> \<not> bit_clear d bj)"
proof (induction "n - i" arbitrary: i)
  case (Suc k)
  then have u: "[i..<n] = i # [Suc i..<n]" by (simp add: upt_conv_Cons)
  show ?case
  proof (cases "bit_clear d i")
    case True
    with Suc.prems u Suc.hyps(2) show ?thesis by (auto split: if_splits)
  next
    case False
    then have "balloc_scan d b sz [Suc i..<n] = Some bi" using Suc.prems u by (simp split: if_splits)
    then have IH: "Suc i \<le> bi \<and> bi < n \<and> b + bi < sz \<and> bit_clear d bi \<and> (\<forall>bj<bi. Suc i \<le> bj \<longrightarrow> \<not> bit_clear d bj)"
      using Suc.hyps(1) [of "Suc i"] Suc.hyps(2) by simp
    with False show ?thesis by (metis Suc_leI le_eq_less_or_eq Suc_leD)
  qed
qed simp

section \<open>The layout of the disk\<close>

definition fs_size :: "fsys \<Rightarrow> nat" where
  "fs_size s = unat (sb_size (fsb s))"

definition is_free :: "fsys \<Rightarrow> u32 \<Rightarrow> bool" where
  "is_free s b \<longleftrightarrow> unat b < fs_size s \<and> bit_clear (fcont s (BBLOCK b (fsb s))) (unat b mod BPB)"

definition bitmap_blocks :: "superblock \<Rightarrow> u32 set" where
  "bitmap_blocks sb = (\<lambda>b. BBLOCK b sb) ` {b. b < sb_size sb}"

definition inode_blocks :: "superblock \<Rightarrow> u32 set" where
  "inode_blocks sb = (\<lambda>i. IBLOCK i sb) ` {i. i < sb_ninodes sb}"

definition meta :: "fsys \<Rightarrow> u32 set" where
  "meta s = bitmap_blocks (fsb s) \<union> inode_blocks (fsb s) \<union> in_log s \<union> {0, 1}"

text \<open>
  The disk as \<open>mkfs\<close> lays it out: the log, the inodes and the free map do not overlap, their
  blocks are marked as used, and blocks have their size.
\<close>

definition layout_ok :: "fsys \<Rightarrow> bool" where
  "layout_ok s \<longleftrightarrow> fs_size s \<le> 2 ^ 31 \<and> bitmap_blocks (fsb s) \<inter> inode_blocks (fsb s) = {}
    \<and> (bitmap_blocks (fsb s) \<union> inode_blocks (fsb s)) \<inter> (in_log s \<union> {0, 1}) = {}
    \<and> (\<forall>b. is_free s b \<longrightarrow> b \<notin> meta s) \<and> (\<forall>b. length (fcont s b) = BSIZE)"

lemma layoutD:
  assumes "layout_ok s"
  shows "fs_size s \<le> 2 ^ 31" "bitmap_blocks (fsb s) \<inter> inode_blocks (fsb s) = {}"
    "bitmap_blocks (fsb s) \<inter> (in_log s \<union> {0, 1}) = {}" "inode_blocks (fsb s) \<inter> (in_log s \<union> {0, 1}) = {}"
    "\<And>b. is_free s b \<Longrightarrow> b \<notin> meta s" "\<And>b. length (fcont s b) = BSIZE"
  using assms unfolding layout_ok_def by auto

lemma BPB_pos [simp]: "0 < BPB"
  by (simp add: BPB_def BSIZE_def)

lemma BBLOCK_inj: "BBLOCK b sb = BBLOCK c sb \<longleftrightarrow> unat b div BPB = unat c div BPB"
proof -
  have "unat (of_nat (unat x div BPB) :: u32) = unat x div BPB" for x :: u32
    using le_less_trans [OF div_le_dividend [of "unat x" BPB] unsigned_less [of x]] by (simp add: unat_of_nat)
  then show ?thesis unfolding BBLOCK_def by (metis add_right_cancel)
qed

lemma same_block: "BBLOCK b sb = BBLOCK c sb \<Longrightarrow> unat b mod BPB = unat c mod BPB \<Longrightarrow> b = c"
  unfolding BBLOCK_inj by (metis mult_div_mod_eq word_unat_eq_iff)

lemma BBLOCK_bitmap: "unat b < fs_size s \<Longrightarrow> BBLOCK b (fsb s) \<in> bitmap_blocks (fsb s)"
  by (auto simp: bitmap_blocks_def fs_size_def word_less_nat_alt)

lemma is_free_cong: "fsb s' = fsb s \<Longrightarrow> (\<And>b. b \<in> bitmap_blocks (fsb s) \<Longrightarrow> fcont s' b = fcont s b) \<Longrightarrow> is_free s' b = is_free s b"
  using BBLOCK_bitmap [of b s] by (auto simp: is_free_def fs_size_def)

lemma byte_of_bit: "unat b mod BPB div 8 < BSIZE"
  using mod_less_divisor [OF BPB_pos, of "unat b"] by (intro less_mult_imp_div_less) (simp add: BPB_def)

text \<open>The free blocks after a change of one bit; \<open>r\<close> is given or taken.\<close>

lemma is_free_mark:
  assumes "fsb s' = fsb s" and "length (fcont s (BBLOCK r (fsb s))) = BSIZE" and "unat r < fs_size s"
    and "\<And>b. b \<in> bitmap_blocks (fsb s) \<Longrightarrow> b \<noteq> BBLOCK r (fsb s) \<Longrightarrow> fcont s' b = fcont s b"
  shows "fcont s' (BBLOCK r (fsb s)) = mark_used (fcont s (BBLOCK r (fsb s))) (unat r mod BPB) \<Longrightarrow> is_free s' b \<longleftrightarrow> is_free s b \<and> b \<noteq> r"
    and "fcont s' (BBLOCK r (fsb s)) = mark_free (fcont s (BBLOCK r (fsb s))) (unat r mod BPB) \<Longrightarrow> is_free s' b \<longleftrightarrow> is_free s b \<or> b = r"
proof -
  let ?B = "\<lambda>x. BBLOCK x (fsb s)"
  have l: "unat b mod BPB div 8 < length (fcont s (?B r))" using byte_of_bit assms(2) by simp
  have sz: "fs_size s' = fs_size s" using assms(1) by (simp add: fs_size_def)
  have same: "fcont s' (?B b) = fcont s (?B b)" if "?B b \<noteq> ?B r" "unat b < fs_size s"
    using assms(4) that BBLOCK_bitmap by blast
  show "is_free s' b \<longleftrightarrow> is_free s b \<and> b \<noteq> r" if "fcont s' (?B r) = mark_used (fcont s (?B r)) (unat r mod BPB)"
  proof (cases "?B b = ?B r")
    case True
    then show ?thesis unfolding is_free_def assms(1) sz True that bit_clear_mark(1) [OF l] using same_block [OF True] by auto
  next
    case False
    then show ?thesis unfolding is_free_def assms(1) sz using same by auto
  qed
  show "is_free s' b \<longleftrightarrow> is_free s b \<or> b = r" if "fcont s' (?B r) = mark_free (fcont s (?B r)) (unat r mod BPB)"
  proof (cases "?B b = ?B r")
    case True
    then show ?thesis unfolding is_free_def assms(1) sz True that bit_clear_mark(2) [OF l] using same_block [OF True] assms(3) by auto
  next
    case False
    then show ?thesis unfolding is_free_def assms(1) sz using same by auto
  qed
qed

section \<open>bzero, balloc and bfree\<close>

lemma bzero_ok:
  assumes "ftx pid H s" and "b \<notin> H" and "card (flogged s) + card H < NBUF" and "1 \<le> l_outstanding (flog s)" and "b \<notin> in_log s"
  obtains s' where "bzero pid ROOTDEV b s = Inr s'" and "ftx pid H s'" and "frame H {b} s s'"
    and "fcont s' = (fcont s)(b := replicate BSIZE 0)" and "itable s' = itable s"
proof -
  obtain i s1 s3 s4 where "fs_bread pid ROOTDEV b s = Inr (i, s1)" "fs_log_write i (fs_set i (replicate BSIZE 0) s1) = Inr s3"
    "fs_brelse pid i s3 = Inr s4" "ftx pid H s4" "frame H {b} s s4" "fcont s4 = (fcont s)(b := replicate BSIZE 0)" "itable s4 = itable s"
    using fs_use_ok [OF assms(1-3)] assms(4,5) by metis
  then show ?thesis by (intro that [of s4]) (simp_all add: bzero_def)
qed

definition balloc_post :: "int \<Rightarrow> u32 set \<Rightarrow> fsys \<Rightarrow> u32 \<Rightarrow> fsys \<Rightarrow> bool" where
  "balloc_post pid H s r s' \<longleftrightarrow> ftx pid H s' \<and> itable s' = itable s \<and>
    (r = 0 \<and> (\<forall>b. \<not> is_free s b) \<and> frame H {} s s' \<and> fcont s' = fcont s
     \<or> is_free s r \<and> (\<forall>b<r. \<not> is_free s b) \<and> frame H {BBLOCK r (fsb s), r} s s'
       \<and> fcont s' = (fcont s)(BBLOCK r (fsb s) := mark_used (fcont s (BBLOCK r (fsb s))) (unat r mod BPB), r := replicate BSIZE 0))"

lemma balloc_found:
  assumes "ftx pid H s" and "layout_ok s" and "H \<inter> bitmap_blocks (fsb s) = {}" and "is_free s r" and "r \<notin> H"
    and "card (flogged s) + card H + 1 < NBUF" and "1 \<le> l_outstanding (flog s)" and B: "B = BBLOCK r (fsb s)"
    and s1: "fs_bread pid ROOTDEV B s = Inr (i, s1)"
  obtains s2 s3 s4 where "fs_log_write i (fs_set i (mark_used (fcont s B) (unat r mod BPB)) s1) = Inr s2" and "fs_brelse pid i s2 = Inr s3"
    and "bzero pid ROOTDEV r s3 = Inr s4" and "ftx pid H s4" and "itable s4 = itable s" and "frame H {B, r} s s4"
    and "fcont s4 = (fcont s)(B := mark_used (fcont s B) (unat r mod BPB), r := replicate BSIZE 0)"
proof -
  note L = layoutD [OF assms(2)]
  have Bm: "B \<in> bitmap_blocks (fsb s)" using BBLOCK_bitmap assms(4) by (auto simp: is_free_def B)
  then have B': "B \<notin> H" "B \<notin> in_log s" using assms(3) L(3) by auto
  have r: "r \<notin> in_log s" "r \<noteq> B" using L(5) [OF assms(4)] Bm by (auto simp: meta_def)
  have c: "card (flogged s) + card H < NBUF" using assms(6) by simp
  obtain s2 s3 where s3: "fs_log_write i (fs_set i (mark_used (fcont s B) (unat r mod BPB)) s1) = Inr s2" "fs_brelse pid i s2 = Inr s3"
    "ftx pid H s3" "frame H {B} s s3" "fcont s3 = (fcont s)(B := mark_used (fcont s B) (unat r mod BPB))" "itable s3 = itable s"
    by (rule fs_modify [OF assms(1) B'(1) c assms(7) B'(2) s1]) blast
  have "card (flogged s3) \<le> Suc (card (flogged s))" using frameD(5) [OF s3(4)] by (simp add: card_insert_if)
  then have "card (flogged s3) + card H < NBUF" using assms(6) by linarith
  moreover have "1 \<le> l_outstanding (flog s3)" "r \<notin> in_log s3" using assms(7) r frameD(3,6) [OF s3(4)] by simp_all
  ultimately obtain s4 where "bzero pid ROOTDEV r s3 = Inr s4" "ftx pid H s4" "frame H {r} s3 s4"
    "fcont s4 = (fcont s3)(r := replicate BSIZE 0)" "itable s4 = itable s3"
    using bzero_ok [OF s3(3) assms(5)] by blast
  with s3 frame_trans [OF s3(4), of "{r}" s4] show ?thesis
    by (intro that [of s2 s3 s4]) (simp_all add: insert_commute)
qed

lemma balloc_post_shift:
  assumes "frame H {} s t" and "fcont t = fcont s" and "itable t = itable s" and "balloc_post pid H t r s'"
  shows "balloc_post pid H s r s'"
proof -
  have sb: "fsb t = fsb s" by (rule frameD(2) [OF assms(1)])
  then have "is_free t = is_free s" by (auto simp: is_free_def fs_size_def assms(2) fun_eq_iff)
  moreover have "frame H D t s' \<Longrightarrow> frame H D s s'" for D using frame_trans [OF assms(1), of D s'] by simp
  ultimately show ?thesis using assms(2-4) unfolding balloc_post_def sb by auto
qed

lemma map_block:
  assumes "j * BPB < fs_size s" and "fs_size s \<le> 2 ^ 31"
  shows "unat (of_nat (j * BPB) :: u32) = j * BPB" and "BBLOCK (of_nat (j * BPB)) sb = BBLOCK b sb \<longleftrightarrow> unat b div BPB = j"
proof -
  show u: "unat (of_nat (j * BPB) :: u32) = j * BPB" using assms by (simp add: unat_of_nat del: of_nat_mult)
  show "BBLOCK (of_nat (j * BPB)) sb = BBLOCK b sb \<longleftrightarrow> unat b div BPB = j" unfolding BBLOCK_inj u by auto
qed

text \<open>What the scan of one block of the map says about the blocks it describes.\<close>

lemma scan_none_free:
  assumes "balloc_scan (fcont s (BBLOCK (of_nat (j * BPB)) (fsb s))) (j * BPB) (fs_size s) [0..<BPB] = None"
    and "j * BPB < fs_size s" and "fs_size s \<le> 2 ^ 31" and "unat b div BPB = j"
  shows "\<not> is_free s b"
proof
  assume f: "is_free s b"
  have "unat b = j * BPB + unat b mod BPB" using assms(4) by (metis div_mult_mod_eq)
  then have "\<not> bit_clear (fcont s (BBLOCK (of_nat (j * BPB)) (fsb s))) (unat b mod BPB)"
    using balloc_scan_None [OF assms(1), of "unat b mod BPB"] f mod_less_divisor [OF BPB_pos] by (simp add: is_free_def)
  moreover have "BBLOCK (of_nat (j * BPB)) (fsb s) = BBLOCK b (fsb s)" using map_block(2) [OF assms(2,3)] assms(4) by simp
  ultimately show False using f by (simp add: is_free_def)
qed

lemma scan_some_free:
  assumes "balloc_scan (fcont s (BBLOCK (of_nat (j * BPB)) (fsb s))) (j * BPB) (fs_size s) [0..<BPB] = Some bi"
    and "j * BPB < fs_size s" and "fs_size s \<le> 2 ^ 31" and "\<And>b. unat b < j * BPB \<Longrightarrow> \<not> is_free s b" and "r = of_nat (j * BPB + bi)"
  shows "is_free s r" and "\<forall>b<r. \<not> is_free s b" and "unat r mod BPB = bi" and "BBLOCK (of_nat (j * BPB)) (fsb s) = BBLOCK r (fsb s)"
proof -
  note S = balloc_scan_Some [OF assms(1)]
  have r: "unat r = j * BPB + bi" unfolding assms(5) using S assms(3) by (simp add: unat_of_nat del: of_nat_add of_nat_mult)
  then show m: "unat r mod BPB = bi" using S by simp
  have "unat r div BPB = j" using r S by simp
  then show B: "BBLOCK (of_nat (j * BPB)) (fsb s) = BBLOCK r (fsb s)" using map_block(2) [OF assms(2,3)] by simp
  show "is_free s r" using S r m B by (simp add: is_free_def)
  show "\<forall>b<r. \<not> is_free s b"
  proof (intro allI impI)
    fix b assume b: "b < r"
    show "\<not> is_free s b"
    proof (cases "unat b < j * BPB")
      case False
      let ?k = "unat b - j * BPB"
      have k: "unat b = ?k + j * BPB" "?k < bi" using False b r by (auto simp: word_less_nat_alt)
      then have "unat b div BPB = j" "unat b mod BPB = ?k" using S
        by (metis add.commute div_mult_self1 BPB_pos div_less less_trans add_0 not_gr_zero, metis mod_mult_self1 mod_less less_trans S)
      moreover have "\<not> bit_clear (fcont s (BBLOCK (of_nat (j * BPB)) (fsb s))) ?k" using S k(2) by blast
      ultimately show ?thesis using map_block(2) [OF assms(2,3), of "fsb s" b] by (simp add: is_free_def)
    qed (use assms(4) in blast)
  qed
qed

lemma balloc_loop_ok:
  assumes "ftx pid H s" and "layout_ok s" and "H \<inter> bitmap_blocks (fsb s) = {}" and "\<And>x. x \<in> H \<Longrightarrow> \<not> is_free s x"
    and "card (flogged s) + card H + 1 < NBUF" and "1 \<le> l_outstanding (flog s)"
    and "N = (fs_size s + BPB - 1) div BPB" and "j \<le> N" and "\<And>b. unat b < j * BPB \<Longrightarrow> \<not> is_free s b"
  shows "\<exists>r s'. balloc_loop pid ROOTDEV (map (\<lambda>k. k * BPB) [j..<N]) s = Inr (r, s') \<and> balloc_post pid H s r s'"
  using assms
proof (induction "N - j" arbitrary: j s)
  case 0
  have "fs_size s \<le> N * BPB" unfolding "0.prems"(7)
    using div_mult_mod_eq [of "fs_size s + BPB - 1" BPB] mod_less_divisor [OF BPB_pos, of "fs_size s + BPB - 1"] by linarith
  with 0 have "\<not> is_free s b" for b by (cases "unat b < j * BPB") (auto simp: is_free_def)
  then show ?case using 0 by (auto simp: balloc_post_def)
next
  case (Suc k)
  note L = layoutD [OF Suc.prems(2)]
  let ?b = "of_nat (j * BPB) :: u32" and ?B = "BBLOCK (of_nat (j * BPB)) (fsb s)"
  have jN: "j < N" using Suc.hyps(2) by simp
  have "j * BPB < fs_size s"
  proof -
    have "Suc j * BPB \<le> (fs_size s + BPB - 1) div BPB * BPB" using jN Suc.prems(7) by (intro mult_right_mono) auto
    also have "\<dots> \<le> fs_size s + BPB - 1" by (rule div_times_less_eq_dividend)
    finally have "BPB + j * BPB \<le> fs_size s + BPB - 1" by simp
    then show ?thesis using BPB_pos by linarith
  qed
  note jb = this L(1)
  have Bm: "?B \<in> bitmap_blocks (fsb s)" using BBLOCK_bitmap map_block(1) [OF jb] jb(1) by simp
  then have BH: "?B \<notin> H" using Suc.prems(3) by auto
  have c: "card (flogged s) + card H < NBUF" using Suc.prems(5) by simp
  obtain i s1 s2 where s1: "fs_bread pid ROOTDEV ?B s = Inr (i, s1)" "bdata i s1 = fcont s ?B" "itable s1 = itable s" "fsb s1 = fsb s"
    and s2: "fs_brelse pid i s1 = Inr s2" "ftx pid H s2" "frame H {} s s2" "fcont s2 = fcont s" "itable s2 = itable s"
    by (rule fs_use_ok [OF Suc.prems(1) BH c]) blast
  have u: "[j..<N] = j # [Suc j..<N]" using jN by (simp add: upt_conv_Cons)
  have nb: "\<not> 2 ^ 31 \<le> j * BPB" using jb by simp
  show ?case
  proof (cases "balloc_scan (fcont s ?B) (j * BPB) (fs_size s) [0..<BPB]")
    case None
    have nf: "\<not> is_free s b" if "unat b < Suc j * BPB" for b
    proof (cases "unat b < j * BPB")
      case False
      then have "unat b div BPB = j" using that by (intro div_nat_eqI) (simp_all add: mult.commute)
      then show ?thesis by (rule scan_none_free [OF None jb])
    qed (rule Suc.prems(9))
    have free: "is_free s2 b = is_free s b" for b using frameD(2) [OF s2(3)] s2(4) by (simp add: is_free_def fs_size_def)
    have lay: "layout_ok s2"
      using Suc.prems(2) free frameD(2,6) [OF s2(3)] s2(4) by (simp add: layout_ok_def meta_def fs_size_def)
    have "\<exists>r s'. balloc_loop pid ROOTDEV (map (\<lambda>k. k * BPB) [Suc j..<N]) s2 = Inr (r, s') \<and> balloc_post pid H s2 r s'"
      by (rule Suc.hyps(1)) (use Suc.hyps(2) Suc.prems nf free lay s2(2) frameD(2,3,5) [OF s2(3)] jN in \<open>auto simp: fs_size_def\<close>)
    then obtain r s' where "balloc_loop pid ROOTDEV (map (\<lambda>k. k * BPB) [Suc j..<N]) s2 = Inr (r, s')" "balloc_post pid H s2 r s'" by blast
    moreover from this(2) have "balloc_post pid H s r s'" by (rule balloc_post_shift [OF s2(3-5)])
    ultimately show ?thesis using s1 s2(1) None nb by (auto simp: u fs_size_def)
  next
    case (Some bi)
    let ?r = "of_nat (j * BPB + bi) :: u32"
    note F = scan_some_free [OF Some jb Suc.prems(9) refl]
    have rH: "?r \<notin> H" using F(1) Suc.prems(4) by blast
    obtain s3 s4 s5 where "fs_log_write i (fs_set i (mark_used (fcont s ?B) (unat ?r mod BPB)) s1) = Inr s3" "fs_brelse pid i s3 = Inr s4"
      "bzero pid ROOTDEV ?r s4 = Inr s5" "ftx pid H s5" "itable s5 = itable s" "frame H {?B, ?r} s s5"
      "fcont s5 = (fcont s)(?B := mark_used (fcont s ?B) (unat ?r mod BPB), ?r := replicate BSIZE 0)"
      by (rule balloc_found [OF Suc.prems(1-3) F(1) rH Suc.prems(5,6) F(4) s1(1)]) blast
    then show ?thesis using s1 Some nb F
      by (simp add: u fs_size_def Let_def mark_used_def balloc_post_def del: of_nat_add of_nat_mult)
  qed
qed

lemma balloc_ok:
  assumes "ftx pid H s" and "layout_ok s" and "H \<inter> bitmap_blocks (fsb s) = {}" and "\<And>x. x \<in> H \<Longrightarrow> \<not> is_free s x"
    and "card (flogged s) + card H + 1 < NBUF" and "1 \<le> l_outstanding (flog s)"
  obtains r s' where "balloc pid ROOTDEV s = Inr (r, s')" and "balloc_post pid H s r s'"
  using balloc_loop_ok [OF assms refl, of 0] by (auto simp: balloc_def fs_size_def)

lemma bfree_ok:
  assumes "ftx pid H s" and "layout_ok s" and "H \<inter> bitmap_blocks (fsb s) = {}" and "unat b < fs_size s"
    and "card (flogged s) + card H < NBUF" and "1 \<le> l_outstanding (flog s)"
  shows "is_free s b \<Longrightarrow> bfree pid ROOTDEV b s = Inl (Panic ''freeing free block'')"
    and "\<not> is_free s b \<Longrightarrow> \<exists>s'. bfree pid ROOTDEV b s = Inr s' \<and> ftx pid H s' \<and> frame H {BBLOCK b (fsb s)} s s' \<and> itable s' = itable s
      \<and> fcont s' = (fcont s)(BBLOCK b (fsb s) := mark_free (fcont s (BBLOCK b (fsb s))) (unat b mod BPB))"
proof -
  note L = layoutD [OF assms(2)]
  let ?B = "BBLOCK b (fsb s)"
  have Bm: "?B \<in> bitmap_blocks (fsb s)" by (rule BBLOCK_bitmap [OF assms(4)])
  then have B: "?B \<notin> H" "?B \<notin> in_log s" using assms(3) L(3) by auto
  obtain i s1 where s1: "fs_bread pid ROOTDEV ?B s = Inr (i, s1)" "bdata i s1 = fcont s ?B"
    by (rule fs_use_ok [OF assms(1) B(1) assms(5)]) blast
  have f: "is_free s b = bit_clear (bdata i s1) (unat b mod BPB)" using assms(4) s1(2) by (simp add: is_free_def)
  show "is_free s b \<Longrightarrow> bfree pid ROOTDEV b s = Inl (Panic ''freeing free block'')"
    using s1(1) f by (simp add: bfree_def Let_def)
  assume "\<not> is_free s b"
  moreover obtain s2 s3 where "fs_log_write i (fs_set i (mark_free (fcont s ?B) (unat b mod BPB)) s1) = Inr s2" "fs_brelse pid i s2 = Inr s3"
    "ftx pid H s3" "frame H {?B} s s3" "fcont s3 = (fcont s)(?B := mark_free (fcont s ?B) (unat b mod BPB))" "itable s3 = itable s"
    by (rule fs_modify [OF assms(1) B(1) assms(5,6) B(2) s1(1)]) blast
  ultimately show "\<exists>s'. bfree pid ROOTDEV b s = Inr s' \<and> ftx pid H s' \<and> frame H {?B} s s' \<and> itable s' = itable s
      \<and> fcont s' = (fcont s)(?B := mark_free (fcont s ?B) (unat b mod BPB))"
    using s1 f by (simp add: bfree_def Let_def mark_free_def)
qed

text \<open>The layout is kept, and the block is taken from the free blocks or given back to them.\<close>

lemma layout_change:
  assumes "layout_ok s" and "frame H D s s'" and "\<And>b. length (fcont s' b) = BSIZE" and "\<And>b. is_free s' b \<Longrightarrow> is_free s b \<or> b \<notin> meta s"
  shows "layout_ok s'"
proof -
  have "fsb s' = fsb s" "in_log s' = in_log s" using frameD(2,6) [OF assms(2)] by simp_all
  then have "meta s' = meta s" "fs_size s' = fs_size s" by (simp_all add: meta_def fs_size_def)
  with assms \<open>fsb s' = fsb s\<close> \<open>in_log s' = in_log s\<close> layoutD(5) [OF assms(1)] show ?thesis unfolding layout_ok_def by auto
qed

lemma balloc_post_free:
  assumes "balloc_post pid H s r s'" and "r \<noteq> 0" and "layout_ok s"
  shows "is_free s r" "r \<notin> meta s" "is_free s' b \<longleftrightarrow> is_free s b \<and> b \<noteq> r" "frame H {BBLOCK r (fsb s), r} s s'" "layout_ok s'"
    "fcont s' r = replicate BSIZE 0" "\<And>b. b \<noteq> r \<Longrightarrow> b \<notin> bitmap_blocks (fsb s) \<Longrightarrow> fcont s' b = fcont s b"
    "BBLOCK r (fsb s) \<in> bitmap_blocks (fsb s)"
proof -
  note L = layoutD [OF assms(3)]
  let ?B = "BBLOCK r (fsb s)"
  have P: "is_free s r" "frame H {?B, r} s s'"
    "fcont s' = (fcont s)(?B := mark_used (fcont s ?B) (unat r mod BPB), r := replicate BSIZE 0)"
    using assms(1,2) by (auto simp: balloc_post_def)
  then show "is_free s r" "frame H {?B, r} s s'" "fcont s' r = replicate BSIZE 0" by simp_all
  show m: "r \<notin> meta s" by (rule L(5) [OF P(1)])
  have rs: "unat r < fs_size s" using P(1) by (simp add: is_free_def)
  show Bm: "?B \<in> bitmap_blocks (fsb s)" by (rule BBLOCK_bitmap [OF rs])
  then have Br: "?B \<noteq> r" using m by (auto simp: meta_def)
  show "\<And>b. b \<noteq> r \<Longrightarrow> b \<notin> bitmap_blocks (fsb s) \<Longrightarrow> fcont s' b = fcont s b" using P(3) Bm by auto
  have "fcont s' ?B = mark_used (fcont s ?B) (unat r mod BPB)" using P(3) Br by simp
  moreover have "fcont s' b = fcont s b" if "b \<in> bitmap_blocks (fsb s)" "b \<noteq> ?B" for b using that m P(3) by (auto simp: meta_def)
  ultimately have F: "is_free s' b \<longleftrightarrow> is_free s b \<and> b \<noteq> r" for b
    using is_free_mark(1) [OF frameD(2) [OF P(2)] L(6) rs] by blast
  then show "is_free s' b \<longleftrightarrow> is_free s b \<and> b \<noteq> r" .
  have "length (fcont s' b) = BSIZE" for b using P(3) L(6) by simp
  then show "layout_ok s'" using layout_change [OF assms(3) P(2)] F by blast
qed

lemma balloc_post_full:
  assumes "balloc_post pid H s r s'" and "r = 0" and "layout_ok s"
  shows "\<not> is_free s b" "frame H {} s s'" "fcont s' = fcont s" "layout_ok s'"
proof -
  have z: "\<not> is_free s 0" using layoutD(5) [OF assms(3), of 0] by (auto simp: meta_def)
  then show "\<not> is_free s b" "frame H {} s s'" "fcont s' = fcont s" using assms(1,2) by (auto simp: balloc_post_def)
  then show "layout_ok s'" using layout_change [OF assms(3), of H "{}" s'] layoutD(6) [OF assms(3)]
    is_free_cong [OF frameD(2), of H "{}" s s'] by auto
qed

lemma bfree_free:
  assumes "frame H {BBLOCK b (fsb s)} s s'" and "fcont s' = (fcont s)(BBLOCK b (fsb s) := mark_free (fcont s (BBLOCK b (fsb s))) (unat b mod BPB))"
    and "layout_ok s" and "unat b < fs_size s" and "b \<notin> meta s"
  shows "is_free s' x \<longleftrightarrow> is_free s x \<or> x = b" "layout_ok s'"
proof -
  note L = layoutD [OF assms(3)]
  have F: "is_free s' x \<longleftrightarrow> is_free s x \<or> x = b" for x
    using is_free_mark(2) [OF frameD(2) [OF assms(1)] L(6) assms(4)] assms(2) by simp
  then show "is_free s' x \<longleftrightarrow> is_free s x \<or> x = b" .
  have "length (fcont s' b) = BSIZE" for b using assms(2) L(6) by simp
  then show "layout_ok s'" using layout_change [OF assms(3,1)] F assms(5) by blast
qed

end
