(* ===== verification/FsFile.thy ===== *)
theory FsFile
  imports FsAlloc
begin

text \<open>
  The contents of a file. The blocks of an inode are numbered as \<open>bmap\<close> does, with \<open>MAXFILE\<close> for
  the indirect block. \<open>bmap\<close> adds blocks without touching what is there, \<open>writei\<close> replaces a range
  of the bytes of the file and \<open>readi\<close> returns one.
\<close>

section \<open>The blocks of a file\<close>

definition fblock :: "(u32 \<Rightarrow> block) \<Rightarrow> inode \<Rightarrow> nat \<Rightarrow> u32" where
  "fblock c x k =
    (if k < NDIRECT then i_addrs x ! k
     else if k = MAXFILE then i_addrs x ! NDIRECT
     else if i_addrs x ! NDIRECT = 0 then 0
     else get32 (c (i_addrs x ! NDIRECT)) (4 * (k - NDIRECT)))"

text \<open>
  No block is used twice, none is free or belongs to the metadata, and there is a block for every
  byte of the file.
\<close>

definition blocks_ok :: "fsys \<Rightarrow> (nat \<Rightarrow> u32) \<Rightarrow> bool" where
  "blocks_ok s f \<longleftrightarrow> (\<forall>k\<le>MAXFILE. f k \<noteq> 0 \<longrightarrow> f k \<notin> meta s \<and> \<not> is_free s (f k) \<and> unat (f k) < fs_size s)
    \<and> (\<forall>k\<le>MAXFILE. \<forall>l\<le>MAXFILE. f k \<noteq> 0 \<longrightarrow> f k = f l \<longrightarrow> k = l)"

definition file_ok :: "fsys \<Rightarrow> inode \<Rightarrow> bool" where
  "file_ok s x \<longleftrightarrow> i_dev x = ROOTDEV \<and> length (i_addrs x) = NDIRECT + 1 \<and> unat (i_size x) \<le> MAXFILE * BSIZE
    \<and> i_inum x < sb_ninodes (fsb s) \<and> blocks_ok s (fblock (fcont s) x)
    \<and> (\<forall>k. k * BSIZE < unat (i_size x) \<longrightarrow> fblock (fcont s) x k \<noteq> 0)"

lemma const_simps: "NDIRECT = 12" "MAXFILE = 268" "NINDIRECT = 256"
  by (simp_all add: NDIRECT_def MAXFILE_def NINDIRECT_def BSIZE_def)

lemma file_okD:
  assumes "file_ok s x"
  shows "i_dev x = ROOTDEV" "length (i_addrs x) = NDIRECT + 1" "unat (i_size x) \<le> MAXFILE * BSIZE" "i_inum x < sb_ninodes (fsb s)"
    "blocks_ok s (fblock (fcont s) x)" "\<And>k. k * BSIZE < unat (i_size x) \<Longrightarrow> fblock (fcont s) x k \<noteq> 0"
  using assms unfolding file_ok_def by auto

lemma blocks_okD:
  assumes "blocks_ok s f" and "k \<le> MAXFILE" and "f k \<noteq> 0"
  shows "f k \<notin> meta s" "\<not> is_free s (f k)" "unat (f k) < fs_size s" "\<And>l. l \<le> MAXFILE \<Longrightarrow> f k = f l \<Longrightarrow> k = l"
    "f k \<notin> bitmap_blocks (fsb s)" "f k \<notin> in_log s" "f k \<notin> inode_blocks (fsb s)"
  using assms unfolding blocks_ok_def meta_def by auto

text \<open>A free block becomes block \<open>k\<close> of the file.\<close>

lemma blocks_ok_extend:
  assumes "blocks_ok s f" and "k \<le> MAXFILE" and "is_free s r" and "layout_ok s" and "frame H D s s'"
    and "\<And>b. is_free s' b \<Longrightarrow> is_free s b \<and> b \<noteq> r" and "\<And>l. l \<le> MAXFILE \<Longrightarrow> g l = (if l = k then r else f l)"
  shows "blocks_ok s' g"
proof -
  have m: "meta s' = meta s" "fs_size s' = fs_size s" using frameD(2,6) [OF assms(5)] by (simp_all add: meta_def fs_size_def)
  have r: "r \<notin> meta s" "unat r < fs_size s" using layoutD(5) [OF assms(4,3)] assms(3) by (simp_all add: is_free_def)
  have n: "f l \<noteq> r" if "l \<le> MAXFILE" "f l \<noteq> 0" for l using blocks_okD(2) [OF assms(1) that] assms(3) by auto
  have r0: "r \<noteq> 0" using r(1) by (auto simp: meta_def)
  have "g l \<notin> meta s' \<and> \<not> is_free s' (g l) \<and> unat (g l) < fs_size s'" if "l \<le> MAXFILE" "g l \<noteq> 0" for l
    using that r assms(6,7) blocks_okD(1-3) [OF assms(1), of l] unfolding m by (cases "l = k") auto
  moreover have "l = j" if "l \<le> MAXFILE" "j \<le> MAXFILE" "g l \<noteq> 0" "g l = g j" for l j
  proof -
    have "g l = (if l = k then r else f l)" "g j = (if j = k then r else f j)" using assms(7) that(1,2) by simp_all
    with that n [of l] n [of j] r0 blocks_okD(4) [OF assms(1), of l j] show ?thesis by (auto split: if_splits)
  qed
  ultimately show ?thesis unfolding blocks_ok_def by blast
qed

lemma blocks_ok_keep:
  assumes "blocks_ok s f" and "frame H D s s'" and "\<And>b. is_free s' b \<Longrightarrow> is_free s b" and "\<And>l. l \<le> MAXFILE \<Longrightarrow> g l = f l"
  shows "blocks_ok s' g"
proof -
  have "meta s' = meta s" "fs_size s' = fs_size s" using frameD(2,6) [OF assms(2)] by (simp_all add: meta_def fs_size_def)
  with assms show ?thesis unfolding blocks_ok_def by auto
qed

text \<open>The blocks of a file after a change of the inode or of the indirect block.\<close>

lemma fblock_direct: "k < NDIRECT \<Longrightarrow> length (i_addrs x) = NDIRECT + 1 \<Longrightarrow> l \<le> MAXFILE \<Longrightarrow>
    fblock c (x\<lparr>i_addrs := (i_addrs x)[k := r]\<rparr>) l = (if l = k then r else fblock c x l)"
  by (auto simp: fblock_def nth_list_update)

lemma fblock_indirect: "length (i_addrs x) = NDIRECT + 1 \<Longrightarrow> i_addrs x ! NDIRECT = 0 \<Longrightarrow> r \<noteq> 0 \<Longrightarrow> c r = replicate BSIZE 0 \<Longrightarrow> l \<le> MAXFILE \<Longrightarrow>
    fblock c (x\<lparr>i_addrs := (i_addrs x)[NDIRECT := r]\<rparr>) l = (if l = MAXFILE then r else fblock c x l)"
proof -
  assume a: "length (i_addrs x) = NDIRECT + 1" "i_addrs x ! NDIRECT = 0" "r \<noteq> 0" "c r = replicate BSIZE 0" "l \<le> MAXFILE"
  have "get32 (replicate BSIZE 0) (4 * (l - NDIRECT)) = 0" if "NDIRECT \<le> l" "l \<noteq> MAXFILE"
    using that a(5) by (simp add: get32_def const_simps BSIZE_def)
  with a show ?thesis by (auto simp: fblock_def const_simps nth_list_update)
qed

lemma fblock_entry:
  assumes "NDIRECT \<le> k" and "k < MAXFILE" and "i_addrs x ! NDIRECT \<noteq> 0" and "length (c (i_addrs x ! NDIRECT)) = BSIZE"
    and "c' (i_addrs x ! NDIRECT) = put32 (4 * (k - NDIRECT)) r (c (i_addrs x ! NDIRECT))" and "l \<le> MAXFILE"
  shows "fblock c' x l = (if l = k then r else fblock c x l)"
proof (cases "l = k")
  case True
  then show ?thesis using assms by (simp add: fblock_def const_simps BSIZE_def)
next
  case False
  then have "4 * (l - NDIRECT) + 4 \<le> 4 * (k - NDIRECT) \<or> 4 * (k - NDIRECT) + 4 \<le> 4 * (l - NDIRECT)" if "NDIRECT \<le> l"
    using that assms(1) by linarith
  then have "get32 (c' (i_addrs x ! NDIRECT)) (4 * (l - NDIRECT)) = get32 (c (i_addrs x ! NDIRECT)) (4 * (l - NDIRECT))" if "NDIRECT \<le> l"
    using that unfolding assms(5) by (intro get32_put_other(1)) simp
  with False show ?thesis by (simp add: fblock_def)
qed

lemma fblock_cong: "(i_addrs x ! NDIRECT \<noteq> 0 \<Longrightarrow> c' (i_addrs x ! NDIRECT) = c (i_addrs x ! NDIRECT)) \<Longrightarrow> i_addrs x' = i_addrs x \<Longrightarrow>
    fblock c' x' = fblock c x"
  by (auto simp: fblock_def fun_eq_iff)

section \<open>Growth of a file\<close>

text \<open>
  The effect of a part of \<open>bmap\<close> that may add blocks at the positions \<open>K\<close>: the other blocks of the
  file stay, and so do the contents of all blocks in use except the free map and, for \<open>MAXFILE\<close> in
  \<open>K\<close>, the indirect block.
\<close>

definition grow :: "int \<Rightarrow> u32 set \<Rightarrow> nat \<Rightarrow> nat set \<Rightarrow> fsys \<Rightarrow> fsys \<Rightarrow> bool" where
  "grow pid H ip K s s' \<longleftrightarrow> ftx pid H s' \<and> layout_ok s' \<and> file_ok s' (inode_at ip s')
    \<and> (\<exists>as. itable s' = (itable s)[ip := (inode_at ip s)\<lparr>i_addrs := as\<rparr>])
    \<and> (\<exists>D. frame H D s s' \<and> D \<subseteq> bitmap_blocks (fsb s) \<union> (fblock (fcont s') (inode_at ip s') ` K - {0}))
    \<and> (\<forall>k\<le>MAXFILE. k \<notin> K \<or> fblock (fcont s) (inode_at ip s) k \<noteq> 0 \<longrightarrow>
        fblock (fcont s') (inode_at ip s') k = fblock (fcont s) (inode_at ip s) k)
    \<and> (\<forall>b. \<not> is_free s b \<longrightarrow> b \<notin> bitmap_blocks (fsb s) \<longrightarrow> (MAXFILE \<in> K \<longrightarrow> b \<noteq> fblock (fcont s) (inode_at ip s) MAXFILE) \<longrightarrow>
        fcont s' b = fcont s b)
    \<and> (\<forall>b. is_free s' b \<longrightarrow> is_free s b)
    \<and> (\<forall>k\<le>MAXFILE. fblock (fcont s) (inode_at ip s) k = 0 \<longrightarrow> fblock (fcont s') (inode_at ip s') k \<noteq> 0 \<longrightarrow>
        is_free s (fblock (fcont s') (inode_at ip s') k))"

lemma growD:
  assumes "grow pid H ip K s s'"
  shows "ftx pid H s'" "layout_ok s'" "file_ok s' (inode_at ip s')"
    "\<exists>as. itable s' = (itable s)[ip := (inode_at ip s)\<lparr>i_addrs := as\<rparr>]"
    "\<exists>D. frame H D s s' \<and> D \<subseteq> bitmap_blocks (fsb s) \<union> (fblock (fcont s') (inode_at ip s') ` K - {0})"
    "\<And>k. k \<le> MAXFILE \<Longrightarrow> k \<notin> K \<or> fblock (fcont s) (inode_at ip s) k \<noteq> 0 \<Longrightarrow>
        fblock (fcont s') (inode_at ip s') k = fblock (fcont s) (inode_at ip s) k"
    "\<And>b. \<not> is_free s b \<Longrightarrow> b \<notin> bitmap_blocks (fsb s) \<Longrightarrow> (MAXFILE \<in> K \<Longrightarrow> b \<noteq> fblock (fcont s) (inode_at ip s) MAXFILE) \<Longrightarrow>
        fcont s' b = fcont s b"
    "\<And>b. is_free s' b \<Longrightarrow> is_free s b"
    "\<And>k. k \<le> MAXFILE \<Longrightarrow> fblock (fcont s) (inode_at ip s) k = 0 \<Longrightarrow> fblock (fcont s') (inode_at ip s') k \<noteq> 0 \<Longrightarrow>
        is_free s (fblock (fcont s') (inode_at ip s') k)"
  using assms unfolding grow_def by blast+

lemma grow_refl: "ftx pid H s \<Longrightarrow> layout_ok s \<Longrightarrow> file_ok s (inode_at ip s) \<Longrightarrow> grow pid H ip K s s"
  unfolding grow_def by (auto intro!: exI [of _ "i_addrs (inode_at ip s)"] exI [of _ "{}"])

lemma grow_same:
  assumes "ftx pid H s'" and "layout_ok s" and "file_ok s (inode_at ip s)" and "frame H {} s s'" and "fcont s' = fcont s" and "itable s' = itable s"
  shows "grow pid H ip K s s'"
proof -
  note F = file_okD [OF assms(3)]
  have free: "is_free s' b = is_free s b" for b using frameD(2) [OF assms(4)] assms(5) by (simp add: is_free_def fs_size_def)
  have "layout_ok s'" using layout_change [OF assms(2,4)] layoutD(6) [OF assms(2)] assms(5) free by simp
  moreover have "file_ok s' (inode_at ip s)"
    using F blocks_ok_keep [OF F(5) assms(4), of "fblock (fcont s) (inode_at ip s)"] free assms(5) frameD(2) [OF assms(4)] by (simp add: file_ok_def)
  ultimately show ?thesis unfolding grow_def using assms(1,4-6) free
    by (auto intro!: exI [of _ "i_addrs (inode_at ip s)"] exI [of _ "{}"])
qed

lemma grow_mono: "grow pid H ip K s s' \<Longrightarrow> K \<subseteq> K' \<Longrightarrow> grow pid H ip K' s s'"
proof -
  assume g: "grow pid H ip K s s'" and K: "K \<subseteq> K'"
  obtain D where D: "frame H D s s'" "D \<subseteq> bitmap_blocks (fsb s) \<union> (fblock (fcont s') (inode_at ip s') ` K - {0})"
    using growD(5) [OF g] by blast
  then have "D \<subseteq> bitmap_blocks (fsb s) \<union> (fblock (fcont s') (inode_at ip s') ` K' - {0})" using K by blast
  with D(1) growD(1-4,6-9) [OF g] K show ?thesis unfolding grow_def by blast
qed

lemma grow_trans:
  assumes g: "grow pid H ip K s t" and h: "grow pid H ip K t u" and ip: "ip < length (itable s)" and K: "K \<subseteq> {..MAXFILE}"
  shows "grow pid H ip K s u"
proof -
  let ?f = "fblock (fcont s) (inode_at ip s)" and ?g = "fblock (fcont t) (inode_at ip t)" and ?h = "fblock (fcont u) (inode_at ip u)"
  note G = growD [OF g] and U = growD [OF h]
  obtain as bs where "itable t = (itable s)[ip := (inode_at ip s)\<lparr>i_addrs := as\<rparr>]" "itable u = (itable t)[ip := (inode_at ip t)\<lparr>i_addrs := bs\<rparr>]"
    using G(4) U(4) by blast
  then have it: "\<exists>as. itable u = (itable s)[ip := (inode_at ip s)\<lparr>i_addrs := as\<rparr>]" using ip by auto
  obtain D E where D: "frame H D s t" "D \<subseteq> bitmap_blocks (fsb s) \<union> (?g ` K - {0})"
    and E: "frame H E t u" "E \<subseteq> bitmap_blocks (fsb t) \<union> (?h ` K - {0})" using G(5) U(5) by blast
  have sb: "fsb t = fsb s" by (rule frameD(2) [OF D(1)])
  have sub: "?g ` K - {0} \<subseteq> ?h ` K - {0}"
  proof
    fix y assume "y \<in> ?g ` K - {0}"
    then obtain k where k: "k \<in> K" "y = ?g k" "y \<noteq> 0" by blast
    then have "?h k = y" using U(6) [of k] K by auto
    with k show "y \<in> ?h ` K - {0}" using image_eqI [of y ?h k K] by simp
  qed
  have "D \<subseteq> bitmap_blocks (fsb s) \<union> (?h ` K - {0})" by (rule order_trans [OF D(2) Un_mono [OF subset_refl sub]])
  then have "D \<union> E \<subseteq> bitmap_blocks (fsb s) \<union> (?h ` K - {0})" using E(2) unfolding sb by (rule Un_least)
  with frame_trans [OF D(1) E(1)] have fr: "\<exists>D. frame H D s u \<and> D \<subseteq> bitmap_blocks (fsb s) \<union> (?h ` K - {0})" by blast
  have keep: "?h k = ?f k" if "k \<le> MAXFILE" "k \<notin> K \<or> ?f k \<noteq> 0" for k
    using G(6) [OF that] U(6) [OF that(1)] that by auto
  have cont: "fcont u b = fcont s b" if b: "\<not> is_free s b" "b \<notin> bitmap_blocks (fsb s)" "MAXFILE \<in> K \<Longrightarrow> b \<noteq> ?f MAXFILE" for b
  proof -
    have "b \<noteq> ?g MAXFILE" if "MAXFILE \<in> K"
    proof (cases "?f MAXFILE = 0")
      case True
      then show ?thesis using G(9) [of MAXFILE] b that by (cases "?g MAXFILE = 0") auto
    next
      case False
      then show ?thesis using G(6) [of MAXFILE] b that by simp
    qed
    then have "fcont u b = fcont t b" using U(7) [of b] b G(8) [of b] sb by auto
    with G(7) [OF b] show ?thesis by simp
  qed
  have new: "is_free s (?h k)" if "k \<le> MAXFILE" "?f k = 0" "?h k \<noteq> 0" for k
    using G(8) [of "?h k"] U(9) [of k] G(9) [of k] U(6) [of k] that by (cases "?g k = 0") auto
  show ?thesis unfolding grow_def using U(1-3) it fr keep cont G(8) U(8) new by blast
qed

text \<open>A free block \<open>r\<close> becomes the block at position \<open>p\<close>.\<close>

lemma grow_add:
  assumes x: "x = inode_at ip s" and "file_ok s x" and "layout_ok s" and "ip < length (itable s)" and "p \<le> MAXFILE" and "fblock (fcont s) x p = 0"
    and "is_free s r" and "ftx pid H s'" and "layout_ok s'" and "frame H D s s'" and "itable s' = (itable s)[ip := x\<lparr>i_addrs := as\<rparr>]"
    and "length as = NDIRECT + 1" and f: "\<And>l. l \<le> MAXFILE \<Longrightarrow> fblock (fcont s') (x\<lparr>i_addrs := as\<rparr>) l = (if l = p then r else fblock (fcont s) x l)"
    and fr: "\<And>b. is_free s' b \<Longrightarrow> is_free s b \<and> b \<noteq> r" and "D \<subseteq> bitmap_blocks (fsb s) \<union> (fblock (fcont s') (x\<lparr>i_addrs := as\<rparr>) ` K - {0})" and "p \<in> K"
    and "\<And>b. \<not> is_free s b \<Longrightarrow> b \<notin> bitmap_blocks (fsb s) \<Longrightarrow> (MAXFILE \<in> K \<Longrightarrow> b \<noteq> fblock (fcont s) x MAXFILE) \<Longrightarrow> fcont s' b = fcont s b"
  shows "grow pid H ip K s s'"
proof -
  note F = file_okD [OF assms(2)]
  have x': "inode_at ip s' = x\<lparr>i_addrs := as\<rparr>" using assms(4,11) by simp
  have r0: "r \<noteq> 0" using layoutD(5) [OF assms(3,7)] by (auto simp: meta_def)
  have sb: "fsb s' = fsb s" by (rule frameD(2) [OF assms(10)])
  have "fblock (fcont s') (x\<lparr>i_addrs := as\<rparr>) k \<noteq> 0" if k: "k * BSIZE < unat (i_size x)" for k
  proof -
    have "k * BSIZE < MAXFILE * BSIZE" using k F(3) by linarith
    then have "k \<le> MAXFILE" by simp
    then show ?thesis using f F(6) [OF k] r0 by simp
  qed
  then have "file_ok s' (x\<lparr>i_addrs := as\<rparr>)"
    using F(1-4) assms(12) sb blocks_ok_extend [OF F(5) assms(5,7,3,10) fr f] unfolding file_ok_def by auto
  then show ?thesis using assms(6-11,15-17) f r0 fr unfolding grow_def x' x [symmetric] by auto
qed

lemma bmap_slot_ok:
  assumes "ftx pid {} s" and "layout_ok s" and "file_ok s (inode_at ip s)" and "ip < length (itable s)" and "k \<le> NDIRECT"
    and "card (flogged s) + 1 < NBUF" and "1 \<le> l_outstanding (flog s)" and p: "p = (if k < NDIRECT then k else MAXFILE)"
  obtains a s' where "bmap_slot pid ip k s = Inr (a, s')" and "grow pid {} ip {p} s s'" and "a = fblock (fcont s') (inode_at ip s') p"
    and "a = 0 \<Longrightarrow> \<forall>b. \<not> is_free s' b" and "fblock (fcont s) (inode_at ip s) p \<noteq> 0 \<Longrightarrow> s' = s"
proof -
  let ?x = "inode_at ip s"
  note F = file_okD [OF assms(3)] and L = layoutD [OF assms(2)]
  have pk: "fblock (fcont s) ?x p = i_addrs ?x ! k" using assms(5) p by (auto simp: fblock_def const_simps)
  have pM: "p \<le> MAXFILE" using p assms(5) by (simp add: const_simps)
  show ?thesis
  proof (cases "i_addrs ?x ! k = 0")
    case False
    then show ?thesis using pk grow_refl [OF assms(1-3)] by (intro that [of "i_addrs ?x ! k" s]) (simp_all add: bmap_slot_def)
  next
    case True
    obtain r s1 where s1: "balloc pid ROOTDEV s = Inr (r, s1)" "balloc_post pid {} s r s1"
      using balloc_ok [OF assms(1,2)] assms(6,7) by auto
    show ?thesis
    proof (cases "r = 0")
      case r0: True
      note B = balloc_post_full [OF s1(2) r0 assms(2)]
      have it: "itable s1 = itable s" and tx1: "ftx pid {} s1" using s1(2) by (simp_all add: balloc_post_def)
      have fr: "is_free s1 b = is_free s b" for b using frameD(2) [OF B(2)] B(3) by (simp add: is_free_def fs_size_def)
      have "grow pid {} ip {p} s s1" by (rule grow_same [OF tx1 assms(2,3) B(2,3) it])
      then show ?thesis using True s1(1) r0 F(1) B fr pk it by (intro that [of 0 s1]) (simp_all add: bmap_slot_def)
    next
      case r0: False
      note B = balloc_post_free [OF s1(2) r0 assms(2)]
      have it: "itable s1 = itable s" and tx1: "ftx pid {} s1" using s1(2) by (simp_all add: balloc_post_def)
      let ?s = "set_addr ip k r s1" and ?as = "(i_addrs ?x)[k := r]"
      have c: "fcont ?s = fcont s1" "flog ?s = flog s1" "fsb ?s = fsb s1" and it': "itable ?s = (itable s)[ip := ?x\<lparr>i_addrs := ?as\<rparr>]"
        using it assms(4) by (simp_all add: set_addr_def upd_nth_def)
      have "fcont s1 (i_addrs ?x ! NDIRECT) = fcont s (i_addrs ?x ! NDIRECT)" if "i_addrs ?x ! NDIRECT \<noteq> 0"
      proof -
        have "fblock (fcont s) ?x MAXFILE = i_addrs ?x ! NDIRECT" by (simp add: fblock_def const_simps)
        then have "\<not> is_free s (i_addrs ?x ! NDIRECT)" "i_addrs ?x ! NDIRECT \<notin> bitmap_blocks (fsb s)"
          using blocks_okD(2,5) [OF F(5), of MAXFILE] that by simp_all
        moreover from this(1) have "i_addrs ?x ! NDIRECT \<noteq> r" using B(1) by auto
        ultimately show ?thesis by (intro B(7))
      qed
      then have "fblock (fcont s1) ?x = fblock (fcont s) ?x" by (intro fblock_cong) auto
      then have f: "fblock (fcont s1) (?x\<lparr>i_addrs := ?as\<rparr>) l = (if l = p then r else fblock (fcont s) ?x l)" if "l \<le> MAXFILE" for l
        using fblock_direct [of k ?x l "fcont s1" r] fblock_indirect [of ?x r "fcont s1" l] that F(2) True r0 B(6) p assms(5)
        by (cases "k < NDIRECT") auto
      have free: "is_free ?s b \<longleftrightarrow> is_free s b \<and> b \<noteq> r" for b using B(3) c by (simp add: is_free_def fs_size_def)
      have lay: "layout_ok ?s" using B(5) by (simp add: layout_ok_def set_addr_def meta_def is_free_def fs_size_def)
      have fp: "fblock (fcont s1) (?x\<lparr>i_addrs := ?as\<rparr>) p = r" using f [OF pM] by simp
      have ct: "fcont s1 b = fcont s b" if "\<not> is_free s b" "b \<notin> bitmap_blocks (fsb s)" for b
        by (rule B(7)) (use that B(1) in auto)
      have "frame {} {BBLOCK r (fsb s), r} s ?s" using B(4) by (simp add: set_addr_def)
      then have "grow pid {} ip {p} s ?s"
        by (rule grow_add [OF refl assms(3,2,4) pM _ B(1) _ lay _ it', rotated 2])
          (use pk True tx1 c B(8) F(2) f free r0 fp ct in auto)
      moreover have "r = fblock (fcont ?s) (inode_at ip ?s) p" using f [OF pM] c it' assms(4) by simp
      ultimately show ?thesis using True s1(1) r0 F(1) pk by (intro that [of r ?s]) (simp_all add: bmap_slot_def)
    qed
  qed
qed

lemma bmap_entry_new:
  assumes "ftx pid {addr} s2" and "layout_ok s" and "file_ok s (inode_at ip s)" and "ip < length (itable s)" and "bn < NINDIRECT"
    and addr: "addr = i_addrs (inode_at ip s) ! NDIRECT" "addr \<noteq> 0" and "fblock (fcont s) (inode_at ip s) (bn + NDIRECT) = 0"
    and "card (flogged s) + 2 < NBUF" and "1 \<le> l_outstanding (flog s)"
    and s2: "frame {} {} s s2" "fcont s2 = fcont s" "itable s2 = itable s" "fslot s2 addr = Some i"
    and s3: "balloc_post pid {addr} s2 r s3" "r \<noteq> 0"
  obtains s4 s5 where "fs_log_write i (fs_set i (put32 (4 * bn) r (bdata i s3)) s3) = Inr s4" and "fs_brelse pid i s4 = Inr s5"
    and "grow pid {} ip {bn + NDIRECT, MAXFILE} s s5" and "r = fblock (fcont s5) (inode_at ip s5) (bn + NDIRECT)"
proof -
  let ?x = "inode_at ip s" and ?K = "{bn + NDIRECT, MAXFILE}"
  note F = file_okD [OF assms(3)]
  have M: "fblock (fcont s) ?x MAXFILE = addr" by (simp add: fblock_def const_simps addr)
  note A = blocks_okD [OF F(5), of MAXFILE, unfolded M, OF order_refl addr(2)]
  have sb2: "fsb s2 = fsb s" by (rule frameD(2) [OF s2(1)])
  have fr2: "is_free s2 b = is_free s b" for b using sb2 s2(2) by (simp add: is_free_def fs_size_def)
  have lay2: "layout_ok s2" using layout_change [OF assms(2) s2(1)] layoutD(6) [OF assms(2)] s2(2) fr2 by simp
  note B = balloc_post_free [OF s3 lay2, unfolded sb2 fr2 s2(2)]
  have it3: "itable s3 = itable s" and tx3: "ftx pid {addr} s3" using s3(1) s2(3) by (simp_all add: balloc_post_def)
  have ar: "addr \<noteq> r" using A(2) B(1) by auto
  have slot3: "fslot s3 addr = Some i" using frameD(1) [OF B(4)] s2(4) by simp
  have d3: "bdata i s3 = fcont s addr" using held_data [OF tx3 _ slot3] B(7) [OF ar A(5)] by simp
  have f3: "frame {} {BBLOCK r (fsb s), r} s s3" using frame_trans [OF s2(1) frame_mono [OF B(4)]] by simp
  have "card (flogged s3) \<le> card (flogged s) + 2"
    using frameD(5) [OF f3] card_Un_le [of "flogged s" "{BBLOCK r (fsb s), r}"] card_insert_le_m1 [of 2 "{r}" "BBLOCK r (fsb s)"] by simp
  then have c3: "card (flogged s3) < LOGBLOCKS" using assms(9) by (simp add: NBUF_def LOGBLOCKS_def)
  have "1 \<le> l_outstanding (flog s3)" "addr \<notin> in_log s3" using assms(10) A(6) frameD(3,6) [OF f3] by simp_all
  then obtain s4 where s4: "fs_log_write i (fs_set i (put32 (4 * bn) r (fcont s addr)) s3) = Inr s4" "ftx pid {addr} s4"
    "frame {addr} {addr} s3 s4" "fcont s4 = (fcont s3)(addr := put32 (4 * bn) r (fcont s addr))" "itable s4 = itable s3" "fslot s4 = fslot s3"
    using fs_log_ok [OF tx3 _ slot3 c3, of "put32 (4 * bn) r (fcont s addr)"] by blast
  have "fslot s4 addr = Some i" using s4(6) slot3 by simp
  then obtain s5 where s5: "fs_brelse pid i s4 = Inr s5" "ftx pid {} s5" "frame {addr} {} s4 s5" "fcont s5 = fcont s4" "itable s5 = itable s4"
    using fs_brelse_ok [OF s4(2), of addr i] by auto
  have f5: "frame {} {BBLOCK r (fsb s), r, addr} s s5"
    using frame_trans [OF f3 frame_trans [OF frame_mono [OF s4(3)] frame_mono [OF s5(3)]]] by (simp add: insert_commute)
  have c5: "fcont s5 = (fcont s3)(addr := put32 (4 * bn) r (fcont s addr))" using s4(4) s5(4) by simp
  have "is_free s5 b = is_free s3 b" for b
    by (rule is_free_cong) (use frameD(2) [OF f5] frameD(2) [OF f3] c5 A(5) in auto)
  then have free5: "is_free s5 b \<longleftrightarrow> is_free s b \<and> b \<noteq> r" for b using B(3) by simp
  have lay5: "layout_ok s5"
    by (rule layout_change [OF assms(2) f5]) (use free5 c5 layoutD(6) [OF assms(2)] layoutD(6) [OF B(5)] in auto)
  have it5: "itable s5 = (itable s)[ip := ?x\<lparr>i_addrs := i_addrs ?x\<rparr>]" using it3 s4(5) s5(5) by simp
  have f: "fblock (fcont s5) ?x l = (if l = bn + NDIRECT then r else fblock (fcont s) ?x l)" if "l \<le> MAXFILE" for l
    by (rule fblock_entry) (use assms(5) addr that c5 layoutD(6) [OF assms(2)] in \<open>auto simp: const_simps\<close>)
  have p: "bn + NDIRECT \<le> MAXFILE" "bn + NDIRECT \<noteq> MAXFILE" using assms(5) by (simp_all add: const_simps)
  have fp: "fblock (fcont s5) ?x (bn + NDIRECT) = r" "fblock (fcont s5) ?x MAXFILE = addr" using f [OF p(1)] f [of MAXFILE] p M by simp_all
  have "grow pid {} ip ?K s s5"
  proof (rule grow_add [OF refl assms(3,2,4) p(1) assms(8) B(1) s5(2) lay5 f5 it5])
    show "{BBLOCK r (fsb s), r, addr} \<subseteq> bitmap_blocks (fsb s) \<union> (fblock (fcont s5) (?x\<lparr>i_addrs := i_addrs ?x\<rparr>) ` ?K - {0})"
      using fp B(8) s3(2) addr(2) by auto
    show "fcont s5 b = fcont s b" if "\<not> is_free s b" "b \<notin> bitmap_blocks (fsb s)" "MAXFILE \<in> ?K \<Longrightarrow> b \<noteq> fblock (fcont s) ?x MAXFILE" for b
    proof -
      have "b \<noteq> addr" "b \<noteq> r" using that M B(1) by auto
      then show ?thesis using c5 B(7) [of b] that(2) by simp
    qed
  qed (use F(2) f free5 in auto)
  moreover have "inode_at ip s5 = ?x" using it5 by simp
  ultimately show ?thesis using s4(1) s5(1) d3 fp(1) by (intro that [of s4 s5]) simp_all
qed

text \<open>What is known of an address that \<open>bmap\<close> returns for block \<open>bn\<close>.\<close>

definition mapped :: "int \<Rightarrow> nat \<Rightarrow> nat set \<Rightarrow> nat \<Rightarrow> fsys \<Rightarrow> u32 \<Rightarrow> fsys \<Rightarrow> bool" where
  "mapped pid ip K bn s a s' \<longleftrightarrow> grow pid {} ip K s s' \<and> a = fblock (fcont s') (inode_at ip s') bn
    \<and> (a = 0 \<longrightarrow> (\<forall>b. \<not> is_free s' b))
    \<and> (fblock (fcont s) (inode_at ip s) bn \<noteq> 0 \<longrightarrow> frame {} {} s s' \<and> fcont s' = fcont s \<and> itable s' = itable s)"

lemma bmap_entry_ok:
  assumes "ftx pid {} s" and "layout_ok s" and "file_ok s (inode_at ip s)" and "ip < length (itable s)" and "bn < NINDIRECT"
    and addr: "addr = i_addrs (inode_at ip s) ! NDIRECT" "addr \<noteq> 0" and "card (flogged s) + 2 < NBUF" and "1 \<le> l_outstanding (flog s)"
  obtains a s' where "bmap_entry pid ip addr bn s = Inr (a, s')" and "mapped pid ip {bn + NDIRECT, MAXFILE} (bn + NDIRECT) s a s'"
proof -
  let ?x = "inode_at ip s" and ?K = "{bn + NDIRECT, MAXFILE}" and ?p = "bn + NDIRECT"
  note F = file_okD [OF assms(3)]
  have M: "fblock (fcont s) ?x MAXFILE = addr" by (simp add: fblock_def const_simps addr)
  note A = blocks_okD [OF F(5), of MAXFILE, unfolded M, OF order_refl addr(2)]
  have a0: "get32 (fcont s addr) (4 * bn) = fblock (fcont s) ?x ?p" using assms(5) addr by (auto simp: fblock_def const_simps)
  have c: "card (flogged s) + card ({} :: u32 set) < NBUF" using assms(8) by simp
  obtain i s2 where s2: "fs_bread pid ROOTDEV addr s = Inr (i, s2)" "ftx pid {addr} s2" "frame {} {} s s2" "fcont s2 = fcont s"
    "itable s2 = itable s" "fslot s2 addr = Some i" "bdata i s2 = fcont s addr"
    by (rule fs_bread_ok [OF assms(1) _ c]) auto
  show ?thesis
  proof (cases "fblock (fcont s) ?x ?p = 0")
    case False
    obtain s3 where s3: "fs_brelse pid i s2 = Inr s3" "ftx pid {} s3" "frame {addr} {} s2 s3" "fcont s3 = fcont s2" "itable s3 = itable s2"
      using fs_brelse_ok [OF s2(2) _ s2(6)] by auto
    have f3: "frame {} {} s s3" using frame_trans [OF s2(3) frame_mono [OF s3(3)]] by simp
    have "fcont s3 = fcont s" "itable s3 = itable s" using s2 s3 by simp_all
    then have "mapped pid ip ?K ?p s (fblock (fcont s) ?x ?p) s3"
      using grow_same [OF s3(2) assms(2,3) f3] f3 False by (simp add: mapped_def)
    then show ?thesis using s2 s3 a0 False F(1) by (intro that [of "fblock (fcont s) ?x ?p" s3]) (simp_all add: bmap_entry_def)
  next
    case True
    have sb2: "fsb s2 = fsb s" by (rule frameD(2) [OF s2(3)])
    have fr2: "is_free s2 b = is_free s b" for b using sb2 s2(4) by (simp add: is_free_def fs_size_def)
    have lay2: "layout_ok s2" using layout_change [OF assms(2) s2(3)] layoutD(6) [OF assms(2)] s2(4) fr2 by simp
    have lg: "flogged s2 = flogged s" "l_outstanding (flog s2) = l_outstanding (flog s)" using frameD(3,5) [OF s2(3)] by simp_all
    obtain r s3 where s3: "balloc pid ROOTDEV s2 = Inr (r, s3)" "balloc_post pid {addr} s2 r s3"
      by (rule balloc_ok [OF s2(2) lay2]) (use A fr2 sb2 lg assms(8,9) in auto)
    show ?thesis
    proof (cases "r = 0")
      case r0: True
      note B = balloc_post_full [OF s3(2) r0 lay2]
      have it3: "itable s3 = itable s" and tx3: "ftx pid {addr} s3" using s3(2) s2(5) by (simp_all add: balloc_post_def)
      have "fslot s3 addr = Some i" using frameD(1) [OF B(2)] s2(6) by simp
      then obtain s4 where s4: "fs_brelse pid i s3 = Inr s4" "ftx pid {} s4" "frame {addr} {} s3 s4" "fcont s4 = fcont s3" "itable s4 = itable s3"
        using fs_brelse_ok [OF tx3, of addr i] by auto
      have f4: "frame {} {} s s4" using frame_trans [OF s2(3) frame_trans [OF frame_mono [OF B(2)] frame_mono [OF s4(3)]]] by simp
      have c4: "fcont s4 = fcont s" "itable s4 = itable s" using s4(4,5) B(3) s2(4) it3 by simp_all
      have "is_free s4 b = is_free s b" for b using frameD(2) [OF f4] c4 by (simp add: is_free_def fs_size_def)
      then have "\<not> is_free s4 b" for b using B(1) [of b] fr2 by simp
      then have "mapped pid ip ?K ?p s 0 s4" using grow_same [OF s4(2) assms(2,3) f4 c4] True c4 by (simp add: mapped_def)
      then show ?thesis using s2 s3(1) s4(1) a0 True r0 F(1) by (intro that [of 0 s4]) (simp_all add: bmap_entry_def)
    next
      case r0: False
      obtain s4 s5 where s5: "fs_log_write i (fs_set i (put32 (4 * bn) r (bdata i s3)) s3) = Inr s4" "fs_brelse pid i s4 = Inr s5"
        "grow pid {} ip ?K s s5" "r = fblock (fcont s5) (inode_at ip s5) ?p"
        by (rule bmap_entry_new [OF s2(2) assms(2-5) addr True assms(8,9) s2(3-6) s3(2) r0]) blast
      then have "mapped pid ip ?K ?p s r s5" using True r0 by (simp add: mapped_def)
      then show ?thesis using s2 s3(1) s5(1,2) a0 True r0 F(1) by (intro that [of r s5]) (simp_all add: bmap_entry_def)
    qed
  qed
qed

text \<open>The blocks that the log may have to hold after growth.\<close>

definition log_set :: "fsys \<Rightarrow> u32 set" where
  "log_set s = flogged s \<union> bitmap_blocks (fsb s)"

lemma finite_log_set [simp]: "finite (log_set s)"
  by (rule finite_subset [OF subset_UNIV]) simp

lemma card_flogged: "card (flogged s) \<le> card (log_set s)"
  by (rule card_mono) (auto simp: log_set_def)

lemma grow_log_set: "grow pid H ip K s s' \<Longrightarrow> log_set s' \<subseteq> log_set s \<union> (fblock (fcont s') (inode_at ip s') ` K - {0})"
proof -
  assume g: "grow pid H ip K s s'"
  define X where "X = fblock (fcont s') (inode_at ip s') ` K - {0}"
  obtain D where D: "frame H D s s'" "D \<subseteq> bitmap_blocks (fsb s) \<union> X" using growD(5) [OF g] unfolding X_def by blast
  then have "log_set s' = flogged s \<union> D \<union> bitmap_blocks (fsb s)" using frameD(2,5) [OF D(1)] by (simp add: log_set_def)
  then show ?thesis using D(2) unfolding X_def [symmetric] log_set_def by auto
qed

text \<open>
  A bound of the blocks in the log: the logged blocks, the free map and the indirect block, which
  counts also when it is still to be allocated.
\<close>

definition pot :: "nat \<Rightarrow> fsys \<Rightarrow> nat" where
  "pot ip s = (let ind = fblock (fcont s) (inode_at ip s) MAXFILE
    in if ind = 0 then Suc (card (log_set s)) else card (insert ind (log_set s)))"

lemma card_log_set: "card (log_set s) \<le> pot ip s"
  by (auto simp: pot_def Let_def intro: card_mono)

lemma bmap_ok:
  assumes "ftx pid {} s" and "layout_ok s" and "file_ok s (inode_at ip s)" and "ip < length (itable s)" and "bn < MAXFILE"
    and "pot ip s + 2 < NBUF" and "1 \<le> l_outstanding (flog s)"
  obtains a s' where "bmap pid ip bn s = Inr (a, s')" and "mapped pid ip {bn, MAXFILE} bn s a s'"
proof (cases "bn < NDIRECT")
  case True
  obtain a s' where "bmap_slot pid ip bn s = Inr (a, s')" "grow pid {} ip {bn} s s'" "a = fblock (fcont s') (inode_at ip s') bn"
    "a = 0 \<Longrightarrow> \<forall>b. \<not> is_free s' b" "fblock (fcont s) (inode_at ip s) bn \<noteq> 0 \<Longrightarrow> s' = s"
    by (rule bmap_slot_ok [OF assms(1-4), of bn bn]) (use True assms(6,7) card_flogged [of s] card_log_set [of s ip] in auto)
  then show ?thesis using grow_mono [of pid "{}" ip "{bn}" s s' "{bn, MAXFILE}"] True by (intro that [of a s']) (auto simp: bmap_def mapped_def)
next
  case False
  let ?bn = "bn - NDIRECT" and ?K = "{bn, MAXFILE}"
  have bn: "?bn < NINDIRECT" "?bn + NDIRECT = bn" using False assms(5) by (simp_all add: const_simps)
  obtain addr s1 where s1: "bmap_slot pid ip NDIRECT s = Inr (addr, s1)" "grow pid {} ip {MAXFILE} s s1"
    "addr = fblock (fcont s1) (inode_at ip s1) MAXFILE" "addr = 0 \<Longrightarrow> \<forall>b. \<not> is_free s1 b" "fblock (fcont s) (inode_at ip s) MAXFILE \<noteq> 0 \<Longrightarrow> s1 = s"
    by (rule bmap_slot_ok [OF assms(1-4), of NDIRECT MAXFILE]) (use assms(6,7) card_flogged [of s] card_log_set [of s ip] in auto)
  have g1: "grow pid {} ip ?K s s1" using grow_mono [OF s1(2)] by simp
  have a1: "addr = i_addrs (inode_at ip s1) ! NDIRECT" using s1(3) by (simp add: fblock_def const_simps)
  show ?thesis
  proof (cases "addr = 0")
    case True
    have "fblock (fcont s1) (inode_at ip s1) bn = 0" using a1 True False assms(5) by (simp add: fblock_def)
    moreover from this have "fblock (fcont s) (inode_at ip s) bn = 0" using growD(6) [OF g1, of bn] assms(5) by auto
    ultimately have "mapped pid ip ?K bn s 0 s1" using g1 s1(4) True by (simp add: mapped_def)
    then show ?thesis using s1(1) True False bn by (intro that [of 0 s1]) (simp_all add: bmap_def)
  next
    case a0: False
    note G = growD [OF s1(2)]
    obtain D where D: "frame {} D s s1" "D \<subseteq> bitmap_blocks (fsb s) \<union> (fblock (fcont s1) (inode_at ip s1) ` {MAXFILE} - {0})" using G(5) by blast
    have len: "ip < length (itable s1)" using G(4) assms(4) by auto
    have "card (log_set s1) \<le> pot ip s"
    proof (cases "fblock (fcont s) (inode_at ip s) MAXFILE = 0")
      case True
      have "card (log_set s1) \<le> card (insert addr (log_set s))" using grow_log_set [OF s1(2)] s1(3) by (intro card_mono) auto
      also have "\<dots> \<le> Suc (card (log_set s))" by (simp add: card_insert_if)
      finally show ?thesis using True by (simp add: pot_def)
    next
      case False
      then show ?thesis using s1(5) card_log_set by simp
    qed
    then have room: "card (flogged s1) + 2 < NBUF" using assms(6) card_flogged [of s1] by linarith
    have out: "1 \<le> l_outstanding (flog s1)" using frameD(3) [OF D(1)] assms(7) by simp
    obtain a s' where s': "bmap_entry pid ip addr ?bn s1 = Inr (a, s')" "mapped pid ip ?K bn s1 a s'"
      by (rule bmap_entry_ok [OF G(1-3) len bn(1) a1 a0 room out]) (use bn(2) in simp)
    have g: "grow pid {} ip ?K s s'" using grow_trans [OF g1 _ assms(4), of s'] s'(2) assms(5) by (simp add: mapped_def)
    moreover have "frame {} {} s s' \<and> fcont s' = fcont s \<and> itable s' = itable s" if "fblock (fcont s) (inode_at ip s) bn \<noteq> 0"
    proof -
      have "fblock (fcont s) (inode_at ip s) MAXFILE \<noteq> 0" using that False assms(5) by (auto simp: fblock_def const_simps split: if_splits)
      with s1(5) s'(2) that show ?thesis by (simp add: mapped_def)
    qed
    ultimately have "mapped pid ip ?K bn s a s'" using s'(2) by (auto simp: mapped_def)
    then show ?thesis using s1(1) s'(1) a0 False bn by (intro that [of a s']) (simp_all add: bmap_def)
  qed
qed

end
