(* ===== verification/FsIO.thy ===== *)
theory FsIO
  imports FsFile
begin

text \<open>
  Reading and writing a file: \<open>readi\<close> and \<open>writei\<close> refine reading a range of an array of bytes and
  replacing one, and a write of a few blocks stays within the space that a transaction reserves in
  the log.
\<close>

section \<open>The bytes of a file\<close>

definition fbyte :: "fsys \<Rightarrow> inode \<Rightarrow> nat \<Rightarrow> u8" where
  "fbyte s x p = fcont s (fblock (fcont s) x (p div BSIZE)) ! (p mod BSIZE)"

definition fbytes :: "fsys \<Rightarrow> inode \<Rightarrow> u8 list" where
  "fbytes s x = map (fbyte s x) [0..<unat (i_size x)]"

lemma length_fbytes [simp]: "length (fbytes s x) = unat (i_size x)"
  by (simp add: fbytes_def)

lemma BSIZE_pos [simp]: "0 < BSIZE"
  by (simp add: BSIZE_def)

lemma same_chunk:
  assumes "j < BSIZE - off mod BSIZE"
  shows "(off + j) div BSIZE = off div BSIZE" and "(off + j) mod BSIZE = off mod BSIZE + j"
proof -
  have "off + j = off div BSIZE * BSIZE + (off mod BSIZE + j)" using div_mult_mod_eq [of off BSIZE] by linarith
  moreover have "off mod BSIZE + j < BSIZE" using assms by linarith
  ultimately show "(off + j) div BSIZE = off div BSIZE" "(off + j) mod BSIZE = off mod BSIZE + j"
    by (metis add.commute div_mult_self1 div_less add_0 BSIZE_pos less_numeral_extra(3), metis mod_mult_self3 mod_less)
qed

lemma chunk_bytes:
  assumes "layout_ok s" and "k \<le> BSIZE - off mod BSIZE" and "off + k \<le> unat (i_size x)"
  shows "take k (drop (off mod BSIZE) (fcont s (fblock (fcont s) x (off div BSIZE)))) = take k (drop off (fbytes s x))"
proof (rule nth_equalityI)
  have l: "length (fcont s b) = BSIZE" for b by (rule layoutD(6) [OF assms(1)])
  show "length (take k (drop (off mod BSIZE) (fcont s (fblock (fcont s) x (off div BSIZE))))) = length (take k (drop off (fbytes s x)))"
    using assms(2,3) l by simp
  fix j assume "j < length (take k (drop (off mod BSIZE) (fcont s (fblock (fcont s) x (off div BSIZE)))))"
  then have j: "j < k" "j < BSIZE - off mod BSIZE" using assms(2) by auto
  then show "take k (drop (off mod BSIZE) (fcont s (fblock (fcont s) x (off div BSIZE)))) ! j = take k (drop off (fbytes s x)) ! j"
    using assms(3) l same_chunk [OF j(2)] by (simp add: fbytes_def fbyte_def)
qed

lemma take_chunk: "k \<le> j \<Longrightarrow> take j (drop p xs) = take k (drop p xs) @ take (j - k) (drop (p + k) xs)"
  using take_add [of k "j - k" "drop p xs"] by (simp add: add.commute)

section \<open>readi\<close>

text \<open>A block that the file has is found without a change of the disk.\<close>

definition unchanged :: "int \<Rightarrow> fsys \<Rightarrow> fsys \<Rightarrow> bool" where
  "unchanged pid s s' \<longleftrightarrow> ftx pid {} s' \<and> frame {} {} s s' \<and> fcont s' = fcont s \<and> itable s' = itable s"

lemma unchanged_trans: "unchanged pid s t \<Longrightarrow> unchanged pid t u \<Longrightarrow> unchanged pid s u"
  using frame_trans [of "{}" "{}" s t "{}" u] by (simp add: unchanged_def)

lemma unchanged_free: "unchanged pid s t \<Longrightarrow> is_free t b = is_free s b"
  by (auto simp: unchanged_def is_free_def fs_size_def dest: frameD(2))

lemma unchanged_ok:
  assumes "unchanged pid s t"
  shows "layout_ok s \<Longrightarrow> layout_ok t" and "file_ok s x \<Longrightarrow> file_ok t x" and "flogged t = flogged s" and "fbytes t x = fbytes s x"
    and "l_outstanding (flog t) = l_outstanding (flog s)" and "log_set t = log_set s"
proof -
  note U = assms [unfolded unchanged_def]
  have f: "frame {} {} s t" "fcont t = fcont s" using U by simp_all
  show "layout_ok t" if "layout_ok s" using layout_change [OF that f(1)] layoutD(6) [OF that] f(2) unchanged_free [OF assms] by simp
  show "file_ok t x" if "file_ok s x"
    using that blocks_ok_keep [OF _ f(1)] f(2) unchanged_free [OF assms] frameD(2) [OF f(1)] unfolding file_ok_def by auto
  show "flogged t = flogged s" "l_outstanding (flog t) = l_outstanding (flog s)" "log_set t = log_set s"
    using frameD(2,3,5) [OF f(1)] by (simp_all add: log_set_def)
  show "fbytes t x = fbytes s x" unfolding fbytes_def fbyte_def f(2) ..
qed

lemma read_block_ok:
  assumes "ftx pid {} s" and "card (flogged s) < NBUF"
  obtains i s1 s2 where "fs_bread pid ROOTDEV b s = Inr (i, s1)" and "bdata i s1 = fcont s b" and "fs_brelse pid i s1 = Inr s2"
    and "unchanged pid s s2"
  by (rule fs_use_ok [OF assms(1), of b]) (use assms(2) in \<open>auto simp: unchanged_def\<close>)

lemma bmap_have:
  assumes "ftx pid {} s" and "file_ok s (inode_at ip s)" and "bn < MAXFILE" and "fblock (fcont s) (inode_at ip s) bn \<noteq> 0" and "card (flogged s) < NBUF"
  obtains s' where "bmap pid ip bn s = Inr (fblock (fcont s) (inode_at ip s) bn, s')" and "unchanged pid s s'"
proof (cases "bn < NDIRECT")
  case True
  then show ?thesis using assms(1,4) by (intro that [of s]) (auto simp: bmap_def bmap_slot_def fblock_def unchanged_def)
next
  case False
  let ?x = "inode_at ip s" and ?bn = "bn - NDIRECT"
  have bn: "?bn < NINDIRECT" using False assms(3) by (simp add: const_simps)
  have a: "i_addrs ?x ! NDIRECT \<noteq> 0" "fblock (fcont s) ?x bn = get32 (fcont s (i_addrs ?x ! NDIRECT)) (4 * ?bn)"
    using assms(3,4) False by (auto simp: fblock_def split: if_splits)
  obtain i s1 s2 where s1: "fs_bread pid ROOTDEV (i_addrs ?x ! NDIRECT) s = Inr (i, s1)" "bdata i s1 = fcont s (i_addrs ?x ! NDIRECT)"
    "fs_brelse pid i s1 = Inr s2" "unchanged pid s s2" by (rule read_block_ok [OF assms(1,5)]) blast
  then have "bmap pid ip bn s = Inr (fblock (fcont s) ?x bn, s2)"
    using False bn a assms(4) file_okD(1) [OF assms(2)] by (simp add: bmap_def bmap_slot_def bmap_entry_def)
  with s1(4) show ?thesis by (intro that)
qed

text \<open>A destination of a copy: two copies in a row are one copy of the bytes together.\<close>

locale copy_out =
  fixes cp :: "'m copier_out"
  assumes cp_Nil: "cp dst [] m = Inr (0, m)"
    and cp_append: "cp dst (xs @ ys) m = bindE (cp dst xs m) (\<lambda>(r, m1). if r = -1 then Inr (-1, m1) else cp (dst + of_nat (length xs)) ys m1)"
begin

lemma readi_loop_ok:
  assumes "ftx pid {} s" and "layout_ok s" and "file_ok s (inode_at ip s)" and "card (flogged s) < NBUF" and "tot \<le> n"
    and "off + (n - tot) \<le> unat (i_size (inode_at ip s))" and "cp dst (take (n - tot) (drop off (fbytes s (inode_at ip s)))) m = Inr (r, m')"
  shows "\<exists>s'. readi_loop cp pid ip dst off n tot (s, m) = Inr (if r = -1 then -1 else of_nat n, s', m') \<and> unchanged pid s s'"
  using assms
proof (induction "n - tot" arbitrary: tot off dst s m rule: less_induct)
  case less
  let ?x = "inode_at ip s"
  note F = file_okD [OF less.prems(3)]
  show ?case
  proof (cases "tot < n")
    case False
    then have "n - tot = 0" "tot = n" using less.prems(5) by simp_all
    then show ?thesis using less.prems(1,7) by (auto simp: readi_loop.simps cp_Nil unchanged_def)
  next
    case True
    define k where "k = min (n - tot) (BSIZE - off mod BSIZE)"
    let ?bn = "off div BSIZE" and ?F = "fbytes s ?x"
    have k: "0 < k" "k \<le> n - tot" "k \<le> BSIZE - off mod BSIZE" using True by (auto simp: k_def)
    have sz: "off < unat (i_size ?x)" using less.prems(6) True by linarith
    have "?bn * BSIZE \<le> off" by simp
    then have "?bn * BSIZE < unat (i_size ?x)" using sz by linarith
    then have a: "fblock (fcont s) ?x ?bn \<noteq> 0" and "?bn * BSIZE < MAXFILE * BSIZE" using F(6) less_le_trans [OF _ F(3)] by blast+
    then have bn: "?bn < MAXFILE" by (simp only: mult_less_cancel2)
    obtain s1 where s1: "bmap pid ip ?bn s = Inr (fblock (fcont s) ?x ?bn, s1)" "unchanged pid s s1"
      by (rule bmap_have [OF less.prems(1,3) bn a less.prems(4)]) blast
    note U1 = s1(2) [unfolded unchanged_def] and O1 = unchanged_ok [OF s1(2)]
    have x1: "inode_at ip s1 = ?x" using U1 by simp
    have c1: "card (flogged s1) < NBUF" using less.prems(4) O1(3) by simp
    obtain i s2 s3 where s2: "fs_bread pid ROOTDEV (fblock (fcont s) ?x ?bn) s1 = Inr (i, s2)" "bdata i s2 = fcont s1 (fblock (fcont s) ?x ?bn)"
      "fs_brelse pid i s2 = Inr s3" "unchanged pid s1 s3" using read_block_ok [OF _ c1] U1 by blast
    have u3: "unchanged pid s s3" by (rule unchanged_trans [OF s1(2) s2(4)])
    note O3 = unchanged_ok [OF u3]
    have x3: "inode_at ip s3 = ?x" using u3 by (simp add: unchanged_def)
    let ?c = "take k (drop off ?F)" and ?rest = "take (n - (tot + k)) (drop (off + k) ?F)"
    have chunk: "take k (drop (off mod BSIZE) (bdata i s2)) = ?c"
      using chunk_bytes [OF less.prems(2) k(3), of ?x] less.prems(6) k(2) s2(2) U1 by simp
    have "take (n - tot) (drop off ?F) = ?c @ ?rest" using take_chunk [OF k(2), of off ?F] by (simp only: diff_diff_left)
    then obtain r1 m1 where c: "cp dst ?c m = Inr (r1, m1)"
      and r: "if r1 = -1 then r = -1 \<and> m' = m1 else cp (dst + of_nat (length ?c)) ?rest m1 = Inr (r, m')"
      using less.prems(7) by (auto simp: cp_append split: if_splits)
    have lc: "length ?c = k" using less.prems(6) k(2) by simp
    have step: "readi_loop cp pid ip dst off n tot (s, m) =
        (if r1 = -1 then Inr (-1, s3, m1) else readi_loop cp pid ip (dst + of_nat k) (off + k) n (tot + k) (s3, m1))"
      unfolding readi_loop.simps [of cp pid ip dst off n tot] using True s1(1) a s2(1,3) x1 F(1) chunk c by (simp add: Let_def k_def [symmetric])
    show ?thesis
    proof (cases "r1 = -1")
      case True
      then show ?thesis using step r u3 by auto
    next
      case False
      have "\<exists>s'. readi_loop cp pid ip (dst + of_nat k) (off + k) n (tot + k) (s3, m1) = Inr (if r = -1 then -1 else of_nat n, s', m') \<and> unchanged pid s3 s'"
      proof (rule less.hyps)
        show "n - (tot + k) < n - tot" using k(1) True by linarith
        show "ftx pid {} s3" using u3 by (simp add: unchanged_def)
        show "layout_ok s3" by (rule O3(1) [OF less.prems(2)])
        show "file_ok s3 (inode_at ip s3)" unfolding x3 by (rule O3(2) [OF less.prems(3)])
        show "card (flogged s3) < NBUF" using less.prems(4) O3(3) by simp
        show "tot + k \<le> n" using k(2) True by linarith
        show "off + k + (n - (tot + k)) \<le> unat (i_size (inode_at ip s3))" unfolding x3 using less.prems(6) k(2) True by linarith
        show "cp (dst + of_nat k) (take (n - (tot + k)) (drop (off + k) (fbytes s3 (inode_at ip s3)))) m1 = Inr (r, m')"
          unfolding x3 O3(4) using r False lc by simp
      qed
      with step False show ?thesis using unchanged_trans [OF u3] by auto
    qed
  qed
qed

lemma readi_ok:
  assumes "ftx pid {} s" and "layout_ok s" and "file_ok s (inode_at ip s)" and "card (flogged s) < NBUF"
    and "off \<le> i_size (inode_at ip s)" and "unat off + unat n < 2 ^ 32"
    and "cp dst (take (unat n) (drop (unat off) (fbytes s (inode_at ip s)))) m = Inr (r, m')"
  shows "\<exists>s'. readi cp pid ip dst off n (s, m) =
      Inr (if r = -1 then -1 else int (min (unat n) (unat (i_size (inode_at ip s)) - unat off)), s', m') \<and> unchanged pid s s'"
proof -
  let ?x = "inode_at ip s"
  define n' where "n' = (if off + n > i_size ?x then i_size ?x - off else n)"
  have u: "unat (off + n) = unat off + unat n" using assms(6) by (simp add: unat_plus_if')
  have le: "unat off \<le> unat (i_size ?x)" using assms(5) by (simp add: word_le_nat_alt)
  have no: "\<not> off + n < off" "\<not> i_size ?x < off" using u le by (simp_all add: word_less_nat_alt)
  have n': "unat n' = min (unat n) (unat (i_size ?x) - unat off)"
    using u le assms(5) by (auto simp: n'_def word_less_nat_alt unat_sub)
  have b: "unat n' < 2 ^ 31" using n' file_okD(3) [OF assms(3)] by (simp add: const_simps BSIZE_def)
  have cp': "cp dst (take (unat n' - 0) (drop (unat off) (fbytes s ?x))) m = Inr (r, m')"
    using assms(7) by (cases "unat n \<le> unat (i_size ?x) - unat off") (simp_all add: n')
  have le': "unat off + (unat n' - 0) \<le> unat (i_size ?x)" using n' le by linarith
  obtain s' where s': "readi_loop cp pid ip dst (unat off) (unat n') 0 (s, m) = Inr (if r = -1 then -1 else of_nat (unat n'), s', m')"
    "unchanged pid s s'" using readi_loop_ok [OF assms(1-4) _ le' cp'] by auto
  have "sint (of_nat (unat n') :: u32) = int (unat n')" using sint_small [OF b] by simp
  then have "sint (if r = -1 then -1 else of_nat (unat n') :: u32) = (if r = -1 then -1 else int (unat n'))" by simp
  with s' no show ?thesis by (auto simp: readi_def Let_def n'_def [symmetric] n')
qed

end

lemma mem_write_append: "mem_write m a (xs @ ys) = mem_write (mem_write m a xs) (a + of_nat (length xs)) ys"
  by (induction xs arbitrary: m a) (simp_all add: add.assoc)

interpretation kco: copy_out kcopy_out
  by unfold_locales (simp_all add: kcopy_out_def mem_write_append)

section \<open>writei\<close>

text \<open>The effect of a part of a write on everything but the bytes of the file.\<close>

definition fstep :: "int \<Rightarrow> nat \<Rightarrow> fsys \<Rightarrow> fsys \<Rightarrow> bool" where
  "fstep pid ip s s' \<longleftrightarrow> ftx pid {} s' \<and> layout_ok s' \<and> file_ok s' (inode_at ip s')
    \<and> (\<exists>as. itable s' = (itable s)[ip := (inode_at ip s)\<lparr>i_addrs := as\<rparr>]) \<and> (\<exists>D. frame {} D s s')
    \<and> (\<forall>k\<le>MAXFILE. fblock (fcont s) (inode_at ip s) k \<noteq> 0 \<longrightarrow> fblock (fcont s') (inode_at ip s') k = fblock (fcont s) (inode_at ip s) k)
    \<and> (\<forall>b. is_free s' b \<longrightarrow> is_free s b)
    \<and> (\<forall>k\<le>MAXFILE. fblock (fcont s) (inode_at ip s) k = 0 \<longrightarrow> fblock (fcont s') (inode_at ip s') k \<noteq> 0 \<longrightarrow>
        is_free s (fblock (fcont s') (inode_at ip s') k))
    \<and> (\<forall>b. \<not> is_free s b \<longrightarrow> b \<notin> bitmap_blocks (fsb s) \<longrightarrow> b \<notin> fblock (fcont s) (inode_at ip s) ` {..MAXFILE} \<longrightarrow> fcont s' b = fcont s b)"

lemma fstepD:
  assumes "fstep pid ip s s'"
  shows "ftx pid {} s'" "layout_ok s'" "file_ok s' (inode_at ip s')"
    "\<exists>as. itable s' = (itable s)[ip := (inode_at ip s)\<lparr>i_addrs := as\<rparr>]" "\<exists>D. frame {} D s s'"
    "\<And>k. k \<le> MAXFILE \<Longrightarrow> fblock (fcont s) (inode_at ip s) k \<noteq> 0 \<Longrightarrow> fblock (fcont s') (inode_at ip s') k = fblock (fcont s) (inode_at ip s) k"
    "\<And>b. is_free s' b \<Longrightarrow> is_free s b"
    "\<And>k. k \<le> MAXFILE \<Longrightarrow> fblock (fcont s) (inode_at ip s) k = 0 \<Longrightarrow> fblock (fcont s') (inode_at ip s') k \<noteq> 0 \<Longrightarrow>
        is_free s (fblock (fcont s') (inode_at ip s') k)"
    "\<And>b. \<not> is_free s b \<Longrightarrow> b \<notin> bitmap_blocks (fsb s) \<Longrightarrow> b \<notin> fblock (fcont s) (inode_at ip s) ` {..MAXFILE} \<Longrightarrow> fcont s' b = fcont s b"
  using assms unfolding fstep_def by blast+

lemma fstep_frame:
  assumes "fstep pid ip s s'"
  shows "fsb s' = fsb s" "l_outstanding (flog s') = l_outstanding (flog s)" "in_log s' = in_log s" "l_start (flog s') = l_start (flog s)"
proof -
  obtain D where "frame {} D s s'" using fstepD(5) [OF assms] by blast
  from frameD [OF this] show "fsb s' = fsb s" "l_outstanding (flog s') = l_outstanding (flog s)" "in_log s' = in_log s"
    "l_start (flog s') = l_start (flog s)" by blast+
qed

lemma fstep_grow: "grow pid {} ip K s s' \<Longrightarrow> fstep pid ip s s'"
proof -
  assume g: "grow pid {} ip K s s'"
  note G = growD [OF g]
  have "\<exists>D. frame {} D s s'" using G(5) by blast
  moreover have "fcont s' b = fcont s b"
    if "\<not> is_free s b" "b \<notin> bitmap_blocks (fsb s)" "b \<notin> fblock (fcont s) (inode_at ip s) ` {..MAXFILE}" for b
    using G(7) [OF that(1,2)] that(3) by blast
  ultimately show ?thesis unfolding fstep_def using G(1-4,6,8,9) by blast
qed

lemma fstep_refl: "ftx pid {} s \<Longrightarrow> layout_ok s \<Longrightarrow> file_ok s (inode_at ip s) \<Longrightarrow> fstep pid ip s s"
  by (rule fstep_grow [OF grow_refl [where K = "{}"]])

lemma fstep_trans:
  assumes g: "fstep pid ip s t" and h: "fstep pid ip t u" and ip: "ip < length (itable s)"
  shows "fstep pid ip s u"
proof -
  let ?f = "fblock (fcont s) (inode_at ip s)" and ?g = "fblock (fcont t) (inode_at ip t)" and ?h = "fblock (fcont u) (inode_at ip u)"
  note G = fstepD [OF g] and U = fstepD [OF h]
  obtain as bs where "itable t = (itable s)[ip := (inode_at ip s)\<lparr>i_addrs := as\<rparr>]" "itable u = (itable t)[ip := (inode_at ip t)\<lparr>i_addrs := bs\<rparr>]"
    using G(4) U(4) by blast
  then have it: "\<exists>as. itable u = (itable s)[ip := (inode_at ip s)\<lparr>i_addrs := as\<rparr>]" using ip by auto
  obtain D E where "frame {} D s t" "frame {} E t u" using G(5) U(5) by blast
  then have fr: "\<exists>D. frame {} D s u" using frame_trans by blast
  have sb: "fsb t = fsb s" by (rule fstep_frame(1) [OF g])
  have keep: "?h k = ?f k" if "k \<le> MAXFILE" "?f k \<noteq> 0" for k using G(6) [OF that] U(6) [OF that(1)] that(2) by simp
  have new: "is_free s (?h k)" if "k \<le> MAXFILE" "?f k = 0" "?h k \<noteq> 0" for k
    using G(7) [of "?h k"] U(8) [of k] G(8) [of k] U(6) [of k] that by (cases "?g k = 0") auto
  have other: "fcont u b = fcont s b" if b: "\<not> is_free s b" "b \<notin> bitmap_blocks (fsb s)" "b \<notin> ?f ` {..MAXFILE}" for b
  proof -
    have "b \<noteq> ?g k" if k: "k \<le> MAXFILE" for k
    proof (cases "?f k = 0")
      case True
      then have "0 \<in> ?f ` {..MAXFILE}" using k by (metis atMost_iff image_eqI)
      then show ?thesis using b G(8) [OF k True] by (cases "?g k = 0") auto
    next
      case False
      then show ?thesis using b(3) G(6) [OF k False] k by auto
    qed
    then have "b \<notin> ?g ` {..MAXFILE}" by auto
    then have "fcont u b = fcont t b" using U(9) [of b] b G(7) [of b] sb by auto
    with G(9) [OF b] show ?thesis by simp
  qed
  show ?thesis unfolding fstep_def using U(1-3) it fr keep G(7) U(7) new other by blast
qed

lemma fstep_data:
  assumes "ftx pid {} s'" and "layout_ok s" and "file_ok s (inode_at ip s)" and "frame {} {a} s s'" and "fcont s' = (fcont s)(a := d)"
    and "length d = BSIZE" and "itable s' = itable s" and "a = fblock (fcont s) (inode_at ip s) bn" and "a \<noteq> 0" and "bn < MAXFILE"
  shows "fstep pid ip s s'" and "fblock (fcont s') (inode_at ip s') = fblock (fcont s) (inode_at ip s)"
proof -
  let ?x = "inode_at ip s"
  note F = file_okD [OF assms(3)]
  have bn: "bn \<le> MAXFILE" using assms(10) by simp
  note A = blocks_okD [OF F(5) bn, folded assms(8), OF assms(9)]
  have sb: "fsb s' = fsb s" by (rule frameD(2) [OF assms(4)])
  have "i_addrs ?x ! NDIRECT \<noteq> a"
    using A(4) [of MAXFILE] assms(10) by (auto simp: fblock_def const_simps)
  then have f: "fblock (fcont s') ?x = fblock (fcont s) ?x" by (intro fblock_cong) (simp_all add: assms(5))
  then show "fblock (fcont s') (inode_at ip s') = fblock (fcont s) ?x" using assms(7) by simp
  have free: "is_free s' b = is_free s b" for b by (rule is_free_cong [OF sb]) (use assms(5) A(5) in auto)
  have "layout_ok s'" using layout_change [OF assms(2,4)] layoutD(6) [OF assms(2)] free assms(5,6) by simp
  moreover have "file_ok s' ?x"
    using F blocks_ok_keep [OF F(5) assms(4), of "fblock (fcont s) ?x"] free f sb unfolding file_ok_def by auto
  moreover have "\<exists>as. itable s' = (itable s)[ip := ?x\<lparr>i_addrs := as\<rparr>]"
    by (rule exI [of _ "i_addrs ?x"]) (simp add: assms(7))
  moreover have "fcont s' b = fcont s b" if "b \<notin> fblock (fcont s) ?x ` {..MAXFILE}" for b
  proof -
    have "b \<noteq> a" using that bn unfolding assms(8) by auto
    then show ?thesis by (simp add: assms(5))
  qed
  ultimately show "fstep pid ip s s'" unfolding fstep_def using assms(1,4,7) f free by auto
qed

lemma pot_grow:
  assumes "grow pid {} ip {bn, MAXFILE} s s'" and "fblock (fcont s') (inode_at ip s') MAXFILE = i" and "fblock (fcont s') (inode_at ip s') bn = a"
    and S: "S = (if i = 0 then {} else {i}) \<union> (if a = 0 then {} else {a})"
  shows "card (log_set s' \<union> S) + (if i = 0 then 1 else 0) \<le> pot ip s + (if a = 0 then 0 else 1)"
proof -
  let ?i = "fblock (fcont s) (inode_at ip s) MAXFILE"
  have sub: "log_set s' \<union> S \<subseteq> log_set s \<union> S" using grow_log_set [OF assms(1)] unfolding S using assms(2,3) by (auto split: if_splits)
  have keep: "?i \<noteq> 0 \<Longrightarrow> i = ?i" using growD(6) [OF assms(1), of MAXFILE] assms(2) by simp
  have "card (log_set s' \<union> S) \<le> card (log_set s \<union> S)" by (rule card_mono [OF _ sub]) (simp add: S)
  also have "\<dots> \<le> card (log_set s \<union> (if i = 0 then {} else {i})) + (if a = 0 then 0 else 1)"
    using card_insert_le_m1 [of _ "log_set s \<union> (if i = 0 then {} else {i})" a] by (simp add: S card_insert_if Un_assoc [symmetric])
  finally have c: "card (log_set s' \<union> S) \<le> card (log_set s \<union> (if i = 0 then {} else {i})) + (if a = 0 then 0 else 1)" .
  show ?thesis
  proof (cases "?i = 0")
    case True
    then show ?thesis using c by (auto simp: pot_def card_insert_if split: if_splits)
  next
    case False
    then show ?thesis using c keep by (auto simp: pot_def)
  qed
qed

text \<open>One round of the loop: the block is found or added, and gets new contents.\<close>

lemma write_block_ok:
  assumes "ftx pid {} s" and "layout_ok s" and "file_ok s (inode_at ip s)" and "ip < length (itable s)" and "bn < MAXFILE"
    and "pot ip s + 2 < NBUF" and "1 \<le> l_outstanding (flog s)"
  obtains a s1 where "bmap pid ip bn s = Inr (a, s1)" and "fstep pid ip s s1" and "pot ip s1 \<le> pot ip s + (if a = 0 then 0 else 1)"
    and "\<And>k. k < MAXFILE \<Longrightarrow> fblock (fcont s) (inode_at ip s) k \<noteq> 0 \<Longrightarrow> fcont s1 (fblock (fcont s) (inode_at ip s) k) = fcont s (fblock (fcont s) (inode_at ip s) k)"
    and "a = 0 \<Longrightarrow> \<forall>b. \<not> is_free s1 b"
    and "a \<noteq> 0 \<Longrightarrow> \<exists>i s2. fs_bread pid ROOTDEV a s1 = Inr (i, s2) \<and> bdata i s2 = fcont s1 a
      \<and> (\<forall>d. length d = BSIZE \<longrightarrow> (\<exists>s3 s4. fs_log_write i (fs_set i d s2) = Inr s3 \<and> fs_brelse pid i s3 = Inr s4
          \<and> fstep pid ip s s4 \<and> fcont s4 = (fcont s1)(a := d) \<and> pot ip s4 \<le> pot ip s + 1
          \<and> fblock (fcont s4) (inode_at ip s4) = fblock (fcont s1) (inode_at ip s1) \<and> fblock (fcont s4) (inode_at ip s4) bn = a))"
proof -
  let ?f = "fblock (fcont s) (inode_at ip s)"
  note F = file_okD [OF assms(3)]
  obtain a s1 where s1: "bmap pid ip bn s = Inr (a, s1)" "mapped pid ip {bn, MAXFILE} bn s a s1"
    by (rule bmap_ok [OF assms(1-7)]) blast
  then have g: "grow pid {} ip {bn, MAXFILE} s s1" and a: "a = fblock (fcont s1) (inode_at ip s1) bn" "a = 0 \<Longrightarrow> \<forall>b. \<not> is_free s1 b"
    by (simp_all add: mapped_def)
  note G = growD [OF g]
  have st1: "fstep pid ip s s1" by (rule fstep_grow [OF g])
  let ?i = "fblock (fcont s1) (inode_at ip s1) MAXFILE"
  let ?S = "(if ?i = 0 then {} else {?i}) \<union> (if a = 0 then {} else {a})"
  have p1: "card (log_set s1 \<union> ?S) + (if ?i = 0 then 1 else 0) \<le> pot ip s + (if a = 0 then 0 else 1)"
    by (rule pot_grow [OF g refl a(1) [symmetric] refl])
  have "pot ip s1 \<le> card (log_set s1 \<union> ?S) + (if ?i = 0 then 1 else 0)" by (auto simp: pot_def intro: card_mono)
  then have pot1: "pot ip s1 \<le> pot ip s + (if a = 0 then 0 else 1)" using p1 by linarith
  have keep: "fcont s1 (?f k) = fcont s (?f k)" if k: "k < MAXFILE" "?f k \<noteq> 0" for k
    using G(7) [of "?f k"] blocks_okD(2,4,5) [OF F(5) _ k(2)] k(1) by fastforce
  have "\<exists>i s2. fs_bread pid ROOTDEV a s1 = Inr (i, s2) \<and> bdata i s2 = fcont s1 a
      \<and> (\<forall>d. length d = BSIZE \<longrightarrow> (\<exists>s3 s4. fs_log_write i (fs_set i d s2) = Inr s3 \<and> fs_brelse pid i s3 = Inr s4
          \<and> fstep pid ip s s4 \<and> fcont s4 = (fcont s1)(a := d) \<and> pot ip s4 \<le> pot ip s + 1
          \<and> fblock (fcont s4) (inode_at ip s4) = fblock (fcont s1) (inode_at ip s1) \<and> fblock (fcont s4) (inode_at ip s4) bn = a))"
    if a0: "a \<noteq> 0"
  proof -
    have c1: "card (flogged s1) + card ({} :: u32 set) < NBUF"
      using card_flogged [of s1] card_log_set [of s1 ip] pot1 assms(6) by (simp split: if_splits)
    have bn: "bn \<le> MAXFILE" using assms(5) by simp
    note A = blocks_okD [OF file_okD(5) [OF G(3)] bn, folded a(1), OF a0]
    have out: "1 \<le> l_outstanding (flog s1)" using fstep_frame(2) [OF st1] assms(7) by simp
    obtain i s2 where s2: "fs_bread pid ROOTDEV a s1 = Inr (i, s2)" "bdata i s2 = fcont s1 a"
      using fs_use_ok [OF G(1) _ c1, of a] by blast
    have "\<exists>s3 s4. fs_log_write i (fs_set i d s2) = Inr s3 \<and> fs_brelse pid i s3 = Inr s4
          \<and> fstep pid ip s s4 \<and> fcont s4 = (fcont s1)(a := d) \<and> pot ip s4 \<le> pot ip s + 1
          \<and> fblock (fcont s4) (inode_at ip s4) = fblock (fcont s1) (inode_at ip s1) \<and> fblock (fcont s4) (inode_at ip s4) bn = a"
      if d: "length d = BSIZE" for d
    proof -
      obtain s3 s4 where s4: "fs_log_write i (fs_set i d s2) = Inr s3" "fs_brelse pid i s3 = Inr s4" "ftx pid {} s4" "frame {} {a} s1 s4"
        "fcont s4 = (fcont s1)(a := d)" "itable s4 = itable s1"
        using fs_modify [OF G(1) _ c1 out A(6) s2(1), of d] by blast
      note W = fstep_data [OF s4(3) G(2,3) s4(4,5) d s4(6) a(1) a0 assms(5)]
      have "log_set s4 = insert a (log_set s1)" using frameD(2,5) [OF s4(4)] by (simp add: log_set_def)
      then have "pot ip s4 \<le> card (log_set s1 \<union> ?S) + (if ?i = 0 then 1 else 0)"
        unfolding pot_def Let_def W(2) using a0 by (auto simp: insert_commute)
      then have "pot ip s4 \<le> pot ip s + 1" using p1 a0 by simp
      then show ?thesis using s4(1,2,5) fstep_trans [OF st1 W(1) assms(4)] W(2) a(1) by (intro exI [of _ s3] exI [of _ s4]) simp
    qed
    with s2 show ?thesis by blast
  qed
  with that [OF s1(1) st1 pot1] keep a(2) show ?thesis by blast
qed

text \<open>A source of bytes that can be read at any place.\<close>

definition source :: "'m copier_in \<Rightarrow> u64 \<Rightarrow> 'm \<Rightarrow> u8 list \<Rightarrow> bool" where
  "source cp src m data \<longleftrightarrow>
    (\<forall>i len. i + unat len \<le> length data \<longrightarrow> cp (src + of_nat i) len m = Inr (0, take (unat len) (drop i data), m))"

lemma source_kcopy: "length data = n \<Longrightarrow> data = mem_read m src n \<Longrightarrow> source kcopy_in src m data"
  by (auto simp: source_def kcopy_in_def mem_read_def take_map drop_map add.assoc intro!: nth_equalityI)

text \<open>The number of blocks that a range of bytes touches.\<close>

definition nblk :: "nat \<Rightarrow> nat \<Rightarrow> nat" where
  "nblk a b = (if a < b then (b - 1) div BSIZE + 1 - a div BSIZE else 0)"

lemma nblk_pos: "a < b \<Longrightarrow> 0 < nblk a b"
proof -
  assume "a < b"
  then have "a div BSIZE \<le> (b - 1) div BSIZE" by (intro div_le_mono) simp
  then show ?thesis using \<open>a < b\<close> by (simp add: nblk_def)
qed

lemma nblk_step:
  assumes "a < b" and "k = min (b - a) (BSIZE - a mod BSIZE)"
  shows "nblk (a + k) b + 1 \<le> nblk a b"
proof (cases "a + k < b")
  case True
  then have k: "k = BSIZE - a mod BSIZE" using assms by (auto simp: min_def split: if_splits)
  have "a + k = a div BSIZE * BSIZE + BSIZE" using div_mult_mod_eq [of a BSIZE] mod_less_divisor [OF BSIZE_pos, of a] unfolding k by linarith
  then have "(a + k) div BSIZE = a div BSIZE + 1" by simp
  moreover have "(a + k) div BSIZE \<le> (b - 1) div BSIZE" using True by (intro div_le_mono) simp
  ultimately show ?thesis using True assms(1) by (simp add: nblk_def)
next
  case False
  then show ?thesis using nblk_pos [OF assms(1)] by (simp add: nblk_def)
qed

text \<open>
  What the loop has done when it has written the bytes from \<open>lo\<close> to \<open>hi\<close> of the file, where byte \<open>p\<close> gets the
  value \<open>v p\<close>.
\<close>

definition written :: "nat \<Rightarrow> nat \<Rightarrow> nat \<Rightarrow> (nat \<Rightarrow> u8) \<Rightarrow> fsys \<Rightarrow> fsys \<Rightarrow> bool" where
  "written ip lo hi v s s' \<longleftrightarrow>
    (\<forall>p. lo \<le> p \<and> p < hi \<longrightarrow> fblock (fcont s') (inode_at ip s') (p div BSIZE) \<noteq> 0 \<and> fbyte s' (inode_at ip s') p = v p)
    \<and> (\<forall>p. p div BSIZE < MAXFILE \<and> fblock (fcont s) (inode_at ip s) (p div BSIZE) \<noteq> 0 \<and> \<not> (lo \<le> p \<and> p < hi) \<longrightarrow>
        fbyte s' (inode_at ip s') p = fbyte s (inode_at ip s) p)"

lemma written_trans:
  assumes "written ip lo mid v s t" and "written ip mid hi v t u" and "fstep pid ip s t" and "fstep pid ip t u" and "lo \<le> mid" and "mid \<le> hi"
    and "hi \<le> MAXFILE * BSIZE"
  shows "written ip lo hi v s u"
  unfolding written_def
proof (intro conjI allI impI)
  fix p assume p: "lo \<le> p \<and> p < hi"
  have pM: "p div BSIZE < MAXFILE" using p assms(7) by (intro less_mult_imp_div_less) linarith
  show "fblock (fcont u) (inode_at ip u) (p div BSIZE) \<noteq> 0" and "fbyte u (inode_at ip u) p = v p"
    using p assms(1,2) pM fstepD(6) [OF assms(4), of "p div BSIZE"] unfolding written_def by (cases "p < mid"; simp)+
next
  fix p assume p: "p div BSIZE < MAXFILE \<and> fblock (fcont s) (inode_at ip s) (p div BSIZE) \<noteq> 0 \<and> \<not> (lo \<le> p \<and> p < hi)"
  then have "fblock (fcont t) (inode_at ip t) (p div BSIZE) \<noteq> 0" using fstepD(6) [OF assms(3), of "p div BSIZE"] by simp
  moreover have "\<not> (lo \<le> p \<and> p < mid)" "\<not> (mid \<le> p \<and> p < hi)" using p assms(5,6) by linarith+
  ultimately show "fbyte u (inode_at ip u) p = fbyte s (inode_at ip s) p" using p assms(1,2) unfolding written_def by simp
qed

lemma nth_put_bytes:
  "p + length ys \<le> length xs \<Longrightarrow> j < length xs \<Longrightarrow> put_bytes p ys xs ! j = (if p \<le> j \<and> j < p + length ys then ys ! (j - p) else xs ! j)"
  by (auto simp: put_bytes_def nth_append)

lemma length_put_bytes [simp]: "p + length ys \<le> length xs \<Longrightarrow> length (put_bytes p ys xs) = length xs"
  by (simp add: put_bytes_def)

text \<open>The bytes after one block has been written.\<close>

lemma written_block:
  assumes "fcont s4 = (fcont s1)(a := put_bytes (off mod BSIZE) bytes (fcont s1 a))" and "length (fcont s1 a) = BSIZE"
    and "fblock (fcont s4) (inode_at ip s4) = fblock (fcont s1) (inode_at ip s1)" and "fblock (fcont s4) (inode_at ip s4) (off div BSIZE) = a"
    and "a \<noteq> 0" and "length bytes = k" and "k \<le> BSIZE - off mod BSIZE" and "fstep pid ip s s1" and "file_ok s1 (inode_at ip s1)" and "off div BSIZE < MAXFILE"
    and "\<And>l. l < MAXFILE \<Longrightarrow> fblock (fcont s) (inode_at ip s) l \<noteq> 0 \<Longrightarrow> fcont s1 (fblock (fcont s) (inode_at ip s) l) = fcont s (fblock (fcont s) (inode_at ip s) l)"
    and "\<And>j. j < k \<Longrightarrow> bytes ! j = v (off + j)"
  shows "written ip off (off + k) v s s4"
  unfolding written_def
proof (intro conjI allI impI)
  let ?o = "off mod BSIZE" and ?bn = "off div BSIZE"
  have mo: "?o < BSIZE" by simp
  have len: "?o + length bytes \<le> length (fcont s1 a)" using assms(2,6,7) mo by linarith
  fix p assume p: "off \<le> p \<and> p < off + k"
  obtain j where j: "p = off + j" "j < k" "j < BSIZE - ?o" using p assms(7) by (metis le_Suc_ex less_le_trans nat_add_left_cancel_less)
  have d: "p div BSIZE = ?bn" "p mod BSIZE = ?o + j" using same_chunk [OF j(3)] j(1) by simp_all
  show "fblock (fcont s4) (inode_at ip s4) (p div BSIZE) \<noteq> 0" using d assms(4,5) by simp
  have "fbyte s4 (inode_at ip s4) p = put_bytes ?o bytes (fcont s1 a) ! (?o + j)" using d assms(1,4) by (simp add: fbyte_def)
  also have "\<dots> = bytes ! j" using nth_put_bytes [OF len, of "?o + j"] j assms(2,6) by simp
  finally show "fbyte s4 (inode_at ip s4) p = v p" using assms(12) [OF j(2)] j(1) by simp
next
  let ?o = "off mod BSIZE" and ?bn = "off div BSIZE"
  have mo: "?o < BSIZE" by simp
  have len: "?o + length bytes \<le> length (fcont s1 a)" using assms(2,6,7) mo by linarith
  fix p assume p: "p div BSIZE < MAXFILE \<and> fblock (fcont s) (inode_at ip s) (p div BSIZE) \<noteq> 0 \<and> \<not> (off \<le> p \<and> p < off + k)"
  let ?q = "p div BSIZE" and ?f = "fblock (fcont s) (inode_at ip s)" and ?g = "fblock (fcont s1) (inode_at ip s1)"
  have q: "?g ?q = ?f ?q" using fstepD(6) [OF assms(8), of ?q] p by simp
  have c: "fcont s1 (?g ?q) = fcont s (?f ?q)" using assms(11) [of ?q] p q by simp
  show "fbyte s4 (inode_at ip s4) p = fbyte s (inode_at ip s) p"
  proof (cases "?q = ?bn")
    case True
    have "p = ?bn * BSIZE + p mod BSIZE" "off = ?bn * BSIZE + ?o" using div_mult_mod_eq [of p BSIZE] div_mult_mod_eq [of off BSIZE] True by simp_all
    then have "\<not> (?o \<le> p mod BSIZE \<and> p mod BSIZE < ?o + length bytes)" using p assms(6) by linarith
    then have "put_bytes ?o bytes (fcont s1 a) ! (p mod BSIZE) = fcont s1 a ! (p mod BSIZE)" using nth_put_bytes [OF len, of "p mod BSIZE"] assms(2) by auto
    then show ?thesis using True assms(1,3,4) c by (simp add: fbyte_def)
  next
    case False
    have "?g ?q \<noteq> a"
      using blocks_okD(4) [OF file_okD(5) [OF assms(9)], of ?q ?bn] p q assms(3,4,10) False by auto
    then show ?thesis using assms(1,3) c by (simp add: fbyte_def)
  qed
qed

lemma writei_loop_ok:
  assumes "ftx pid {} s" and "layout_ok s" and "file_ok s (inode_at ip s)" and "ip < length (itable s)" and "tot \<le> n" and "length data = n"
    and "off + n \<le> MAXFILE * BSIZE" and "source cp src m data" and "pot ip s + nblk (off + tot) (off + n) + 2 < NBUF" and "1 \<le> l_outstanding (flog s)"
  shows "\<exists>tot' s'. writei_loop cp pid ip (src + of_nat tot) (off + tot) n tot (s, m) = Inr (tot', off + tot', s', m) \<and> tot \<le> tot' \<and> tot' \<le> n
    \<and> (tot' < n \<longrightarrow> (\<forall>b. \<not> is_free s' b)) \<and> fstep pid ip s s' \<and> written ip (off + tot) (off + tot') (\<lambda>p. data ! (p - off)) s s'
    \<and> pot ip s' \<le> pot ip s + nblk (off + tot) (off + n)"
  using assms
proof (induction "n - tot" arbitrary: tot s rule: less_induct)
  case less
  let ?x = "inode_at ip s" and ?v = "\<lambda>p. data ! (p - off)"
  show ?case
  proof (cases "tot < n")
    case False
    then have "tot = n" using less.prems(5) by simp
    then show ?thesis using fstep_refl [OF less.prems(1-3)] by (auto simp: writei_loop.simps written_def)
  next
    case True
    define k where "k = min (n - tot) (BSIZE - (off + tot) mod BSIZE)"
    let ?p = "off + tot" and ?bn = "(off + tot) div BSIZE"
    have k: "0 < k" "k \<le> n - tot" "k \<le> BSIZE - ?p mod BSIZE" "k = min (off + n - ?p) (BSIZE - ?p mod BSIZE)" using True by (auto simp: k_def)
    have kB: "k \<le> BSIZE" using k(3) by linarith
    have bn: "?bn < MAXFILE" using True less.prems(7) by (intro less_mult_imp_div_less) linarith
    have lt: "?p < off + n" using True by simp
    note N = nblk_step [OF lt k(4)]
    have p4: "pot ip s + 2 < NBUF" using less.prems(9) by simp
    obtain a s1 where s1: "bmap pid ip ?bn s = Inr (a, s1)" "fstep pid ip s s1" "pot ip s1 \<le> pot ip s + (if a = 0 then 0 else 1)"
      and keep: "\<And>l. l < MAXFILE \<Longrightarrow> fblock (fcont s) ?x l \<noteq> 0 \<Longrightarrow> fcont s1 (fblock (fcont s) ?x l) = fcont s (fblock (fcont s) ?x l)"
      and a0: "a = 0 \<Longrightarrow> \<forall>b. \<not> is_free s1 b"
      and a1: "a \<noteq> 0 \<Longrightarrow> \<exists>i s2. fs_bread pid ROOTDEV a s1 = Inr (i, s2) \<and> bdata i s2 = fcont s1 a
        \<and> (\<forall>d. length d = BSIZE \<longrightarrow> (\<exists>s3 s4. fs_log_write i (fs_set i d s2) = Inr s3 \<and> fs_brelse pid i s3 = Inr s4
            \<and> fstep pid ip s s4 \<and> fcont s4 = (fcont s1)(a := d) \<and> pot ip s4 \<le> pot ip s + 1
            \<and> fblock (fcont s4) (inode_at ip s4) = fblock (fcont s1) (inode_at ip s1) \<and> fblock (fcont s4) (inode_at ip s4) ?bn = a))"
      by (rule write_block_ok [OF less.prems(1-4) bn p4 less.prems(10)]) blast
    note S1 = fstepD [OF s1(2)]
    have dev: "i_dev (inode_at ip s1) = ROOTDEV" by (rule file_okD(1) [OF S1(3)])
    show ?thesis
    proof (cases "a = 0")
      case True
      have "fbyte s1 (inode_at ip s1) p = fbyte s ?x p" if "p div BSIZE < MAXFILE" "fblock (fcont s) ?x (p div BSIZE) \<noteq> 0" for p
        using keep [OF that] S1(6) [of "p div BSIZE"] that by (simp add: fbyte_def)
      then have "written ip ?p ?p ?v s s1" by (auto simp: written_def)
      moreover have "writei_loop cp pid ip (src + of_nat tot) ?p n tot (s, m) = Inr (tot, off + tot, s1, m)"
        using s1(1) True \<open>tot < n\<close> by (simp add: writei_loop.simps)
      ultimately show ?thesis using s1 a0 True less.prems(5) by (intro exI [of _ tot] exI [of _ s1]) auto
    next
      case False
      define bytes where "bytes = take k (drop tot data)"
      have lb: "length bytes = k" using k(2) less.prems(6) by (simp add: bytes_def)
      have "unat (of_nat k :: u64) = k" using kB by (simp add: unat_of_nat BSIZE_def)
      then have c: "cp (src + of_nat tot) (of_nat k) m = Inr (0, bytes, m)"
        using less.prems(6,8) k(2) True by (simp add: source_def bytes_def)
      have len1: "length (fcont s1 a) = BSIZE" by (rule layoutD(6) [OF S1(2)])
      define d where "d = put_bytes (?p mod BSIZE) bytes (fcont s1 a)"
      have ld: "length d = BSIZE"
        using lb len1 k(3) mod_less_divisor [OF BSIZE_pos, of ?p] unfolding d_def by (subst length_put_bytes) linarith+
      obtain i s2 s3 s4 where s4: "fs_bread pid ROOTDEV a s1 = Inr (i, s2)" "bdata i s2 = fcont s1 a" "fs_log_write i (fs_set i d s2) = Inr s3"
        "fs_brelse pid i s3 = Inr s4" "fstep pid ip s s4" "fcont s4 = (fcont s1)(a := d)" "pot ip s4 \<le> pot ip s + 1"
        "fblock (fcont s4) (inode_at ip s4) = fblock (fcont s1) (inode_at ip s1)" "fblock (fcont s4) (inode_at ip s4) ?bn = a"
        using a1 [OF False] ld by blast
      have w: "written ip ?p (?p + k) ?v s s4"
        by (rule written_block [OF s4(6) [unfolded d_def] len1 s4(8,9) False lb k(3) s1(2) S1(3) bn keep])
          (use k(2) less.prems(6) in \<open>auto simp: bytes_def\<close>)
      note S4 = fstepD [OF s4(5)]
      have ip4: "ip < length (itable s4)" using S4(4) less.prems(4) by auto
      have step: "writei_loop cp pid ip (src + of_nat tot) ?p n tot (s, m) = writei_loop cp pid ip (src + of_nat (tot + k)) (off + (tot + k)) n (tot + k) (s4, m)"
        unfolding writei_loop.simps [of cp pid ip "src + of_nat tot" ?p n tot]
        using True s1(1) False dev s4(1-4) c by (simp add: Let_def k_def [symmetric] d_def [symmetric] add.assoc)
      have "n - (tot + k) < n - tot" using k(1) True by linarith
      moreover have "tot + k \<le> n" using k(2) True by linarith
      moreover have "pot ip s4 + nblk (off + (tot + k)) (off + n) + 2 < NBUF" using s4(7) N less.prems(9) by (simp add: add.assoc)
      moreover have "1 \<le> l_outstanding (flog s4)" using fstep_frame(2) [OF s4(5)] less.prems(10) by simp
      ultimately obtain tot' s' where s': "writei_loop cp pid ip (src + of_nat (tot + k)) (off + (tot + k)) n (tot + k) (s4, m) = Inr (tot', off + tot', s', m)"
        "tot + k \<le> tot'" "tot' \<le> n" "tot' < n \<longrightarrow> (\<forall>b. \<not> is_free s' b)" "fstep pid ip s4 s'" "written ip (off + (tot + k)) (off + tot') ?v s4 s'"
        "pot ip s' \<le> pot ip s4 + nblk (off + (tot + k)) (off + n)"
        using less.hyps [OF _ S4(1-3) ip4 _ less.prems(6-8)] by blast
      have "written ip ?p (off + tot') ?v s s'"
        by (rule written_trans [OF w [unfolded add.assoc] s'(6) s4(5) s'(5)]) (use s'(2,3) less.prems(7) in simp_all)
      moreover have "fstep pid ip s s'" by (rule fstep_trans [OF s4(5) s'(5) less.prems(4)])
      moreover have "pot ip s' \<le> pot ip s + nblk ?p (off + n)" using s'(7) s4(7) N by (simp add: add.assoc)
      ultimately show ?thesis using step s'(1-4) by (intro exI [of _ tot'] exI [of _ s']) simp
    qed
  qed
qed

end
