(* ===== verification/FsProps.thy ===== *)
theory FsProps
  imports FsIO
begin

text \<open>
  The main properties of the file system: inodes on the disk, the block allocator, and reading and
  writing files.
\<close>

section \<open>Inodes on the disk\<close>

lemma length_put_addrs [simp]: "length (put_addrs p as d) = length d"
  by (induction as arbitrary: p d) simp_all

lemma put_addrs_nth: "i < p \<or> p + 4 * length as \<le> i \<Longrightarrow> put_addrs p as d ! i = d ! i"
proof (induction as arbitrary: p d)
  case (Cons a as)
  then have "put_addrs (p + 4) as (put32 p a d) ! i = put32 p a d ! i" by (intro Cons.IH) auto
  then show ?case using Cons.prems put32_nth [of i p a d] by auto
qed simp

lemma get32_put_addrs: "j < length as \<Longrightarrow> p + 4 * length as \<le> length d \<Longrightarrow> get32 (put_addrs p as d) (p + 4 * j) = as ! j"
proof (induction as arbitrary: p d j)
  case (Cons a as)
  show ?case
  proof (cases j)
    case 0
    have "get32 (put_addrs (p + 4) as (put32 p a d)) p = get32 (put32 p a d) p" by (rule get32_cong) (simp add: put_addrs_nth)
    then show ?thesis using 0 Cons.prems by simp
  next
    case (Suc i)
    then show ?thesis using Cons.IH [of i "p + 4" "put32 p a d"] Cons.prems by (simp add: add.assoc)
  qed
qed simp

lemma get_put_addrs [simp]: "q + 4 \<le> p \<Longrightarrow> get32 (put_addrs p as d) q = get32 d q" "q + 2 \<le> p \<Longrightarrow> get16 (put_addrs p as d) q = get16 d q"
  by (auto intro!: get32_cong get16_cong simp: put_addrs_nth)

lemma length_store_dinode [simp]: "length (store_dinode x p d) = length d"
  by (simp add: store_dinode_def)

lemma load_store_dinode:
  assumes "length (i_addrs x) = NDIRECT + 1" and "p + 64 \<le> length d"
  shows "load_dinode (store_dinode x p d) p y = y\<lparr>i_type := i_type x, i_major := i_major x, i_minor := i_minor x, i_nlink := i_nlink x,
    i_size := i_size x, i_addrs := i_addrs x\<rparr>"
proof -
  have "map (\<lambda>j. get32 (store_dinode x p d) (p + 12 + 4 * j)) [0..<NDIRECT + 1] = i_addrs x"
    using assms get32_put_addrs [of _ "i_addrs x" "p + 12"]
    by (intro nth_equalityI) (simp_all add: store_dinode_def const_simps del: upt_Suc)
  moreover have "get16 (store_dinode x p d) p = i_type x" "get16 (store_dinode x p d) (p + 2) = i_major x"
    "get16 (store_dinode x p d) (p + 4) = i_minor x" "get16 (store_dinode x p d) (p + 6) = i_nlink x" "get32 (store_dinode x p d) (p + 8) = i_size x"
    using assms(2) by (simp_all add: store_dinode_def)
  ultimately show ?thesis by (simp add: load_dinode_def)
qed

lemma store_dinode_nth: "length (i_addrs x) = NDIRECT + 1 \<Longrightarrow> i < p \<or> p + 64 \<le> i \<Longrightarrow> store_dinode x p d ! i = d ! i"
  by (auto simp: store_dinode_def put_addrs_nth put32_nth put16_nth const_simps)

lemma IBLOCK_inode: "i < sb_ninodes (fsb s) \<Longrightarrow> IBLOCK i (fsb s) \<in> inode_blocks (fsb s)"
  by (auto simp: inode_blocks_def)

text \<open>The inode of a file as it is on the disk.\<close>

definition disk_inode :: "fsys \<Rightarrow> u32 \<Rightarrow> inode \<Rightarrow> inode" where
  "disk_inode s inum = load_dinode (fcont s (IBLOCK inum (fsb s))) (dip_off inum)"

lemma dip_off_bound: "dip_off inum + 64 \<le> BSIZE"
proof -
  have "unat inum mod IPB < 16" by (simp add: IPB_def BSIZE_def)
  then show ?thesis by (simp add: dip_off_def BSIZE_def)
qed

lemma iupdate_ok:
  assumes "ftx pid {} s" and "layout_ok s" and "file_ok s (inode_at ip s)" and "card (flogged s) < NBUF" and "1 \<le> l_outstanding (flog s)"
    and x: "x = inode_at ip s" and I: "I = IBLOCK (i_inum x) (fsb s)"
  obtains s' where "iupdate pid ip s = Inr s'" and "ftx pid {} s'" and "layout_ok s'" and "file_ok s' x" and "frame {} {I} s s'" and "itable s' = itable s"
    and "fcont s' = (fcont s)(I := store_dinode x (dip_off (i_inum x)) (fcont s I))" and "\<And>p. fblock (fcont s') x p = fblock (fcont s) x p"
    and "\<And>b. is_free s' b = is_free s b" and "disk_inode s' (i_inum x) x = x"
proof -
  note F = file_okD [OF assms(3), folded x] and L = layoutD [OF assms(2)]
  let ?d = "store_dinode x (dip_off (i_inum x)) (fcont s I)"
  have Im: "I \<in> inode_blocks (fsb s)" unfolding I by (rule IBLOCK_inode [OF F(4)])
  then have In: "I \<notin> in_log s" "I \<notin> bitmap_blocks (fsb s)" using L(2,4) by auto
  have c: "card (flogged s) + card ({} :: u32 set) < NBUF" using assms(4) by simp
  obtain i s1 where s1: "fs_bread pid ROOTDEV I s = Inr (i, s1)" "bdata i s1 = fcont s I"
    using fs_use_ok [OF assms(1) _ c, of I] by blast
  obtain s2 s3 where s3: "fs_log_write i (fs_set i ?d s1) = Inr s2" "fs_brelse pid i s2 = Inr s3" "ftx pid {} s3" "frame {} {I} s s3"
    "fcont s3 = (fcont s)(I := ?d)" "itable s3 = itable s"
    using fs_modify [OF assms(1) _ c assms(5) In(1) s1(1), of ?d] by blast
  have sb: "fsb s3 = fsb s" by (rule frameD(2) [OF s3(4)])
  have free: "is_free s3 b = is_free s b" for b by (rule is_free_cong [OF sb]) (use s3(5) In(2) in auto)
  have lay: "layout_ok s3" using layout_change [OF assms(2) s3(4)] L(6) free s3(5) by simp
  have "i_addrs x ! NDIRECT \<noteq> I" if "i_addrs x ! NDIRECT \<noteq> 0"
    using blocks_okD(7) [OF F(5), of MAXFILE] that Im by (auto simp: fblock_def const_simps)
  then have fb: "fblock (fcont s3) x = fblock (fcont s) x" by (intro fblock_cong) (auto simp: s3(5))
  have fo: "file_ok s3 x" using F blocks_ok_keep [OF F(5) s3(4), of "fblock (fcont s) x"] free fb sb unfolding file_ok_def by auto
  have "disk_inode s3 (i_inum x) x = load_dinode ?d (dip_off (i_inum x)) x" by (simp add: disk_inode_def sb I [symmetric] s3(5))
  also have "\<dots> = x" using F(2) L(6) dip_off_bound by (subst load_store_dinode) simp_all
  finally have di: "disk_inode s3 (i_inum x) x = x" .
  have "iupdate pid ip s = Inr s3" using s1 s3(1,2) F(1) by (simp add: iupdate_def Let_def x [symmetric] I [symmetric])
  with s3 lay fo fb free di show ?thesis by (intro that [of s3]) simp_all
qed

text \<open>A file whose size follows the bytes that have been written behind its end.\<close>

lemma file_ok_resize:
  assumes "file_ok s x" and "unat sz \<le> MAXFILE * BSIZE" and "\<And>k. k * BSIZE < unat sz \<Longrightarrow> fblock (fcont s) x k \<noteq> 0"
  shows "file_ok s (x\<lparr>i_size := sz\<rparr>)"
proof -
  have "fblock c (x\<lparr>i_size := sz\<rparr>) = fblock c x" for c by (rule fblock_cong) simp_all
  then show ?thesis using assms by (simp add: file_ok_def)
qed

section \<open>writei\<close>

lemma has_block: "file_ok s x \<Longrightarrow> p < unat (i_size x) \<Longrightarrow> p div BSIZE < MAXFILE \<and> fblock (fcont s) x (p div BSIZE) \<noteq> 0"
proof -
  assume f: "file_ok s x" and p: "p < unat (i_size x)"
  have "p div BSIZE * BSIZE \<le> p" by simp
  then have "p div BSIZE * BSIZE < unat (i_size x)" using p by linarith
  moreover have "p div BSIZE < MAXFILE" using p file_okD(3) [OF f] by (intro less_mult_imp_div_less) linarith
  ultimately show ?thesis using file_okD(6) [OF f] by blast
qed

text \<open>The bytes of a file after the loop of \<open>writei\<close> and the update of its size.\<close>

lemma written_bytes:
  assumes "file_ok s x" and "x = inode_at ip s" and "written ip off (off + tot) (\<lambda>p. data ! (p - off)) s s1" and "tot \<le> length data"
    and "off \<le> unat (i_size x)" and "unat sz = max (unat (i_size x)) (off + tot)"
    and same: "\<And>p. p < unat sz \<Longrightarrow> fbyte s' (y\<lparr>i_size := sz\<rparr>) p = fbyte s1 (inode_at ip s1) p"
  shows "fbytes s' (y\<lparr>i_size := sz\<rparr>) = take off (fbytes s x) @ take tot data @ drop (off + tot) (fbytes s x)"
proof (rule nth_equalityI)
  show "length (fbytes s' (y\<lparr>i_size := sz\<rparr>)) = length (take off (fbytes s x) @ take tot data @ drop (off + tot) (fbytes s x))"
    using assms(4-6) by (simp add: max_def)
  fix p assume "p < length (fbytes s' (y\<lparr>i_size := sz\<rparr>))"
  then have p: "p < unat sz" by simp
  then have l: "fbytes s' (y\<lparr>i_size := sz\<rparr>) ! p = fbyte s1 (inode_at ip s1) p" using same by (simp add: fbytes_def)
  have old: "fbyte s1 (inode_at ip s1) p = fbyte s x p" if "p < unat (i_size x)" "\<not> (off \<le> p \<and> p < off + tot)"
    using assms(2,3) has_block [OF assms(1) that(1)] that(2) unfolding written_def by blast
  have new: "fbyte s1 (inode_at ip s1) p = data ! (p - off)" if "off \<le> p \<and> p < off + tot"
    using assms(3) that unfolding written_def by blast
  consider "p < off" | "off \<le> p" "p < off + tot" | "off + tot \<le> p" by linarith
  then show "fbytes s' (y\<lparr>i_size := sz\<rparr>) ! p = (take off (fbytes s x) @ take tot data @ drop (off + tot) (fbytes s x)) ! p"
  proof cases
    case 1
    then show ?thesis using old assms(5) l by (simp add: nth_append fbytes_def)
  next
    case 2
    then obtain j where "p = off + j" "j < tot" by (metis le_Suc_ex nat_add_left_cancel_less)
    then show ?thesis using new assms(4,5) l by (simp add: nth_append)
  next
    case 3
    then have "p < unat (i_size x)" using p assms(6) by (simp add: max_def split: if_splits)
    moreover obtain j where "p = off + tot + j" using 3 le_Suc_ex by blast
    ultimately show ?thesis using old 3 assms(4,5) l by (simp add: nth_append fbytes_def)
  qed
qed

text \<open>The size after the loop; the file has all the blocks below it.\<close>

definition set_size :: "nat \<Rightarrow> nat \<Rightarrow> fsys \<Rightarrow> fsys" where
  "set_size ip hi s = (if hi > unat (i_size (inode_at ip s)) then upd_inode ip (\<lambda>x. x\<lparr>i_size := of_nat hi\<rparr>) s else s)"

lemma set_size_ok:
  assumes "fstep pid ip s s1" and "file_ok s (inode_at ip s)" and "ip < length (itable s)" and "written ip off hi v s s1"
    and "off \<le> unat (i_size (inode_at ip s))" and "hi \<le> MAXFILE * BSIZE" and sz: "sz = of_nat (max (unat (i_size (inode_at ip s))) hi)"
  obtains as where "inode_at ip s1 = (inode_at ip s)\<lparr>i_addrs := as\<rparr>"
    and "itable (set_size ip hi s1) = (itable s)[ip := (inode_at ip s)\<lparr>i_addrs := as, i_size := sz\<rparr>]"
    and "file_ok (set_size ip hi s1) (inode_at ip (set_size ip hi s1))" and "layout_ok (set_size ip hi s1)"
    and "unat sz = max (unat (i_size (inode_at ip s))) hi"
proof -
  let ?x = "inode_at ip s" and ?s = "set_size ip hi s1"
  note F = file_okD [OF assms(2)] and S = fstepD [OF assms(1)]
  have szM: "max (unat (i_size ?x)) hi \<le> MAXFILE * BSIZE" using F(3) assms(6) by simp
  then have u: "unat sz = max (unat (i_size ?x)) hi" unfolding sz by (simp add: unat_of_nat const_simps BSIZE_def)
  obtain as where it1: "itable s1 = (itable s)[ip := ?x\<lparr>i_addrs := as\<rparr>]" using S(4) by blast
  then have x1: "inode_at ip s1 = ?x\<lparr>i_addrs := as\<rparr>" "ip < length (itable s1)" using assms(3) by simp_all
  have c2: "fcont ?s = fcont s1" "flog ?s = flog s1" "fsb ?s = fsb s1" by (simp_all add: set_size_def)
  have "itable ?s = (itable s1)[ip := (inode_at ip s1)\<lparr>i_size := sz\<rparr>]"
  proof (cases "hi > unat (i_size ?x)")
    case True
    then have "sz = of_nat hi" by (simp add: sz max_def)
    then show ?thesis using True x1 by (simp add: set_size_def upd_nth_def)
  next
    case False
    then have "sz = i_size ?x" by (simp add: sz max_def)
    then show ?thesis using False x1(1) list_update_id [of "itable s1" ip] by (simp add: set_size_def)
  qed
  then have it2: "itable ?s = (itable s)[ip := ?x\<lparr>i_addrs := as, i_size := sz\<rparr>]" using it1 assms(3) by simp
  have "fblock (fcont s1) (inode_at ip s1) k \<noteq> 0" if "k * BSIZE < unat sz" for k
  proof (cases "k * BSIZE < unat (i_size ?x)")
    case True
    then show ?thesis using file_okD(6) [OF S(3)] x1(1) by simp
  next
    case False
    then have "off \<le> k * BSIZE \<and> k * BSIZE < hi" using that u assms(5) by (simp add: max_def split: if_splits)
    then show ?thesis using assms(4) unfolding written_def by fastforce
  qed
  then have "file_ok s1 ((inode_at ip s1)\<lparr>i_size := sz\<rparr>)" using file_ok_resize [OF S(3)] u szM by simp
  then have "file_ok ?s (inode_at ip ?s)" using x1 it2 assms(3) c2 by (simp add: file_ok_def blocks_ok_def is_free_def meta_def fs_size_def)
  moreover have "layout_ok ?s" using S(2) c2 by (simp add: layout_ok_def is_free_def meta_def fs_size_def)
  ultimately show ?thesis using that x1(1) it2 u by blast
qed

definition writei_post :: "int \<Rightarrow> nat \<Rightarrow> nat \<Rightarrow> u8 list \<Rightarrow> nat \<Rightarrow> fsys \<Rightarrow> fsys \<Rightarrow> bool" where
  "writei_post pid ip off data tot s s' \<longleftrightarrow> tot \<le> length data \<and> (tot < length data \<longrightarrow> (\<forall>b. \<not> is_free s' b))
    \<and> ftx pid {} s' \<and> layout_ok s' \<and> file_ok s' (inode_at ip s')
    \<and> fbytes s' (inode_at ip s') = take off (fbytes s (inode_at ip s)) @ take tot data @ drop (off + tot) (fbytes s (inode_at ip s))
    \<and> (\<exists>as. itable s' = (itable s)[ip := (inode_at ip s)\<lparr>i_addrs := as, i_size := of_nat (max (unat (i_size (inode_at ip s))) (off + tot))\<rparr>])
    \<and> disk_inode s' (i_inum (inode_at ip s)) (inode_at ip s') = inode_at ip s'
    \<and> (\<forall>b. \<not> is_free s b \<longrightarrow> b \<notin> bitmap_blocks (fsb s) \<longrightarrow> b \<noteq> IBLOCK (i_inum (inode_at ip s)) (fsb s) \<longrightarrow>
        b \<notin> fblock (fcont s) (inode_at ip s) ` {..MAXFILE} \<longrightarrow> fcont s' b = fcont s b)
    \<and> (\<forall>b. is_free s' b \<longrightarrow> is_free s b) \<and> fsb s' = fsb s \<and> l_outstanding (flog s') = l_outstanding (flog s)
    \<and> card (flogged s') \<le> pot ip s + nblk off (off + length data) + 1"

lemma writei_ok:
  assumes "ftx pid {} s" and "layout_ok s" and "file_ok s (inode_at ip s)" and "ip < length (itable s)" and "length data = unat n"
    and "off \<le> i_size (inode_at ip s)" and "unat off + unat n \<le> MAXFILE * BSIZE" and "source cp src m data"
    and "pot ip s + nblk (unat off) (unat off + unat n) + 2 < NBUF" and "1 \<le> l_outstanding (flog s)"
  obtains tot s' where "writei cp pid ip src off n (s, m) = Inr (int tot, s', m)" and "writei_post pid ip (unat off) data tot s s'"
proof -
  let ?x = "inode_at ip s" and ?o = "unat off"
  note F = file_okD [OF assms(3)]
  have M: "MAXFILE * BSIZE < 2 ^ 32" by (simp add: const_simps BSIZE_def)
  have u: "unat (off + n) = ?o + unat n" using assms(7) M by (simp add: unat_plus_if')
  have le: "?o \<le> unat (i_size ?x)" using assms(6) by (simp add: word_le_nat_alt)
  have no: "\<not> off + n < off" "\<not> i_size ?x < off" "\<not> unat (off + n) > MAXFILE * BSIZE" using u le assms(7) by (simp_all add: word_less_nat_alt)
  obtain tot s1 where s1: "writei_loop cp pid ip src ?o (unat n) 0 (s, m) = Inr (tot, ?o + tot, s1, m)" "tot \<le> unat n"
    "tot < unat n \<longrightarrow> (\<forall>b. \<not> is_free s1 b)" "fstep pid ip s s1" "written ip ?o (?o + tot) (\<lambda>p. data ! (p - ?o)) s s1"
    "pot ip s1 \<le> pot ip s + nblk ?o (?o + unat n)"
    using writei_loop_ok [OF assms(1-4) _ assms(5,7,8) _ assms(10), of 0] assms(9) by auto
  note S = fstepD [OF s1(4)] and SF = fstep_frame [OF s1(4)]
  define sz :: u32 where "sz = of_nat (max (unat (i_size ?x)) (?o + tot))"
  define s2 where "s2 = set_size ip (?o + tot) s1"
  have hi: "?o + tot \<le> MAXFILE * BSIZE" using s1(2) assms(7) by simp
  obtain as where x1: "inode_at ip s1 = ?x\<lparr>i_addrs := as\<rparr>" and it2: "itable s2 = (itable s)[ip := ?x\<lparr>i_addrs := as, i_size := sz\<rparr>]"
    and f2: "file_ok s2 (inode_at ip s2)" and l2: "layout_ok s2" and sz: "unat sz = max (unat (i_size ?x)) (?o + tot)"
    using set_size_ok [OF s1(4) assms(3,4) s1(5) le hi refl] unfolding s2_def sz_def by blast
  let ?x2 = "?x\<lparr>i_addrs := as, i_size := sz\<rparr>"
  have x2: "inode_at ip s2 = ?x2" using it2 assms(4) by simp
  have c2: "fcont s2 = fcont s1" "flog s2 = flog s1" "fsb s2 = fsb s1" by (simp_all add: s2_def set_size_def)
  have fb2: "fblock c ?x2 = fblock c (inode_at ip s1)" for c by (rule fblock_cong) (simp_all add: x1)
  have "ftx pid {} s2" "card (flogged s2) < NBUF" "1 \<le> l_outstanding (flog s2)"
    using S(1) c2 SF(2) assms(9,10) s1(6) card_flogged [of s1] card_log_set [of s1 ip] by simp_all
  then obtain s3 where s3: "iupdate pid ip s2 = Inr s3" "ftx pid {} s3" "layout_ok s3" "file_ok s3 ?x2" "frame {} {IBLOCK (i_inum ?x) (fsb s)} s2 s3"
    "itable s3 = itable s2" "fcont s3 = (fcont s2)(IBLOCK (i_inum ?x) (fsb s) := store_dinode ?x2 (dip_off (i_inum ?x)) (fcont s2 (IBLOCK (i_inum ?x) (fsb s))))"
    "\<And>p. fblock (fcont s3) ?x2 p = fblock (fcont s2) ?x2 p" "\<And>b. is_free s3 b = is_free s2 b" "disk_inode s3 (i_inum ?x) ?x2 = ?x2"
    using iupdate_ok [OF _ l2 f2 _ _ refl refl] unfolding x2 c2(3) SF(1) by auto
  have free: "is_free s3 b = is_free s1 b" for b using s3(9) c2 by (simp add: is_free_def fs_size_def)
  have same: "fbyte s3 ?x2 p = fbyte s1 (inode_at ip s1) p" if p: "p < unat sz" for p
  proof -
    have b: "p div BSIZE < MAXFILE" "fblock (fcont s3) ?x2 (p div BSIZE) \<noteq> 0" using has_block [OF s3(4)] p by simp_all
    then have "fblock (fcont s3) ?x2 (p div BSIZE) \<noteq> IBLOCK (i_inum ?x) (fsb s)"
      using blocks_okD(7) [OF file_okD(5) [OF s3(4)], of "p div BSIZE"] IBLOCK_inode [OF F(4)] frameD(2) [OF s3(5)] c2(3) SF(1) by auto
    then show ?thesis using s3(7,8) c2 fb2 by (simp add: fbyte_def)
  qed
  have "fbytes s3 ?x2 = take ?o (fbytes s ?x) @ take tot data @ drop (?o + tot) (fbytes s ?x)"
    using written_bytes [OF assms(3) refl s1(5) _ le sz, of s3 "?x\<lparr>i_addrs := as\<rparr>"] s1(2) assms(5) same by simp
  moreover have "fcont s3 b = fcont s b" if "\<not> is_free s b" "b \<notin> bitmap_blocks (fsb s)" "b \<noteq> IBLOCK (i_inum ?x) (fsb s)"
    "b \<notin> fblock (fcont s) ?x ` {..MAXFILE}" for b using S(9) [OF that(1,2,4)] that(3) s3(7) c2 by simp
  moreover have "card (flogged s3) \<le> pot ip s + nblk ?o (?o + unat n) + 1"
    using frameD(5) [OF s3(5)] c2 card_flogged [of s1] card_log_set [of s1 ip] s1(6) by (simp add: card_insert_if)
  moreover have "writei cp pid ip src off n (s, m) = Inr (int tot, s3, m)"
    using no s1(1) s3(1) by (simp add: writei_def Let_def s2_def set_size_def)
  moreover have "inode_at ip s3 = ?x2" "fsb s3 = fsb s" "l_outstanding (flog s3) = l_outstanding (flog s)"
    using s3(6) x2 frameD(2,3) [OF s3(5)] c2 SF by simp_all
  ultimately show ?thesis using s1(2,3) s3(2-4,10) it2 s3(6) free S(7) assms(5)
    by (intro that [of tot s3]) (auto simp: writei_post_def sz_def)
qed

section \<open>The properties\<close>

lemma bitmap_one: "fs_size s \<le> BPB \<Longrightarrow> card (bitmap_blocks (fsb s)) \<le> 1"
proof -
  assume "fs_size s \<le> BPB"
  then have "bitmap_blocks (fsb s) \<subseteq> {sb_bmapstart (fsb s)}"
    by (auto simp: bitmap_blocks_def BBLOCK_def fs_size_def word_less_nat_alt)
  then show ?thesis using card_mono [of "{sb_bmapstart (fsb s)}"] by simp
qed

lemma pot_bound: "fs_size s \<le> BPB \<Longrightarrow> pot ip s \<le> card (flogged s) + 2"
proof -
  assume "fs_size s \<le> BPB"
  then have "card (log_set s) \<le> card (flogged s) + 1"
    using card_Un_le [of "flogged s" "bitmap_blocks (fsb s)"] bitmap_one [of s] by (simp add: log_set_def)
  then show ?thesis by (auto simp: pot_def Let_def card_insert_if)
qed

lemma nblk_bound: "n \<le> 3 * BSIZE \<Longrightarrow> nblk a (a + n) \<le> 4"
proof -
  assume n: "n \<le> 3 * BSIZE"
  have "(a + n - 1) div BSIZE \<le> (a + 3 * BSIZE) div BSIZE" using n by (intro div_le_mono) simp
  also have "\<dots> = a div BSIZE + 3" by simp
  finally show ?thesis by (auto simp: nblk_def)
qed

lemma writei_chunk:
  assumes "log_ok (flog s)" and "layout_ok s" and "file_ok s (inode_at ip s)" and "ip < length (itable s)"
    and "source cp src m data" and "length data = unat n" and "off \<le> i_size (inode_at ip s)" and "unat off + unat n \<le> MAXFILE * BSIZE"
    and "unat n \<le> 3 * BSIZE" and "fs_size s \<le> BPB" and "lh_n (flog s) + int MAXOPBLOCKS \<le> int LOGBLOCKS" and "1 \<le> l_outstanding (flog s)"
  obtains tot s' where "writei cp pid ip src off n (s, m) = Inr (int tot, s', m)" and "writei_post pid ip (unat off) data tot s s'"
    and "lh_n (flog s') \<le> lh_n (flog s) + int MAXOPBLOCKS" and "card (flogged s') < NBUF"
proof -
  have t: "ftx pid {} s" using assms(1) by (simp add: tx_empty)
  have c: "int (card (flogged s)) = lh_n (flog s)" using tx_card [OF t] txD(3) [OF t] by simp
  have p: "pot ip s \<le> card (flogged s) + 2" "nblk (unat off) (unat off + unat n) \<le> 4"
    using pot_bound [OF assms(10)] nblk_bound [OF assms(9)] by blast+
  have "int (pot ip s + nblk (unat off) (unat off + unat n) + 2) < int NBUF"
    using p c assms(11) by (simp add: NBUF_def LOGBLOCKS_def MAXOPBLOCKS_def)
  then have room: "pot ip s + nblk (unat off) (unat off + unat n) + 2 < NBUF" by (simp only: of_nat_less_iff)
  obtain tot s' where s': "writei cp pid ip src off n (s, m) = Inr (int tot, s', m)" "writei_post pid ip (unat off) data tot s s'"
    using writei_ok [OF t assms(2-4,6-8,5) room assms(12)] by blast
  then have t': "ftx pid {} s'" and c': "card (flogged s') \<le> pot ip s + nblk (unat off) (unat off + unat n) + 1"
    using assms(6) by (simp_all add: writei_post_def)
  have "card (flogged s') \<le> card (flogged s) + MAXOPBLOCKS" using p c' by (simp add: MAXOPBLOCKS_def)
  moreover have "int (card (flogged s')) = lh_n (flog s')" using tx_card [OF t'] txD(3) [OF t'] by simp
  ultimately have "lh_n (flog s') \<le> lh_n (flog s) + int MAXOPBLOCKS" using c by linarith
  with s' c' room that show ?thesis by simp
qed

text \<open>
  C11: A write of up to three blocks, the most that \<open>filewrite\<close> writes at once, replaces the bytes of
  the file in its range and extends the file where it ends behind it, allocating blocks as
  needed. It writes less than it was asked to only when no block of the disk is left. It never
  panics: it adds at most \<open>MAXOPBLOCKS\<close> blocks to the log, which the transaction has reserved. The
  inode on the disk is up to date afterwards, and no block in use by anything else changes.
\<close>

theorem writei_refines_bytes:
  assumes "log_ok (flog s)" and "layout_ok s" and "file_ok s (inode_at ip s)" and "ip < length (itable s)"
    and "source cp src m data" and "length data = unat n" and "off \<le> i_size (inode_at ip s)" and "unat off + unat n \<le> MAXFILE * BSIZE"
    and "unat n \<le> 3 * BSIZE" and "fs_size s \<le> BPB" and "lh_n (flog s) + int MAXOPBLOCKS \<le> int LOGBLOCKS" and "1 \<le> l_outstanding (flog s)"
  shows "\<exists>tot s'. writei cp pid ip src off n (s, m) = Inr (int tot, s', m) \<and> tot \<le> unat n \<and> (tot < unat n \<longrightarrow> (\<forall>b. \<not> is_free s' b))
    \<and> fbytes s' (inode_at ip s') = take (unat off) (fbytes s (inode_at ip s)) @ take tot data @ drop (unat off + tot) (fbytes s (inode_at ip s))
    \<and> log_ok (flog s') \<and> layout_ok s' \<and> file_ok s' (inode_at ip s') \<and> lh_n (flog s') \<le> lh_n (flog s) + int MAXOPBLOCKS
    \<and> disk_inode s' (i_inum (inode_at ip s)) (inode_at ip s') = inode_at ip s'
    \<and> (\<forall>b. \<not> is_free s b \<longrightarrow> b \<notin> bitmap_blocks (fsb s) \<longrightarrow> b \<noteq> IBLOCK (i_inum (inode_at ip s)) (fsb s) \<longrightarrow>
        b \<notin> fblock (fcont s) (inode_at ip s) ` {..MAXFILE} \<longrightarrow> fcont s' b = fcont s b)"
proof -
  obtain tot s' where s': "writei cp pid ip src off n (s, m) = Inr (int tot, s', m)" "writei_post pid ip (unat off) data tot s s'"
    "lh_n (flog s') \<le> lh_n (flog s) + int MAXOPBLOCKS" by (rule writei_chunk [OF assms]) blast
  then show ?thesis using assms(6) by (intro exI [of _ tot] exI [of _ s']) (simp add: writei_post_def tx_empty)
qed

text \<open>
  C12: What \<open>writei\<close> has written is what \<open>readi\<close> reads: reading the range that was written gives the
  bytes that were written, and does not change the disk.
\<close>

theorem read_after_write:
  assumes "log_ok (flog s)" and "layout_ok s" and "file_ok s (inode_at ip s)" and "ip < length (itable s)"
    and "source cp src m data" and "length data = unat n" and "off \<le> i_size (inode_at ip s)" and "unat off + unat n \<le> MAXFILE * BSIZE"
    and "unat n \<le> 3 * BSIZE" and "fs_size s \<le> BPB" and "lh_n (flog s) + int MAXOPBLOCKS \<le> int LOGBLOCKS" and "1 \<le> l_outstanding (flog s)"
  shows "\<exists>tot s1 s2. writei cp pid ip src off n (s, m) = Inr (int tot, s1, m)
    \<and> readi kcopy_out pid ip dst off (of_nat tot) (s1, m1) = Inr (int tot, s2, mem_write m1 dst (take tot data)) \<and> fcont s2 = fcont s1"
proof -
  obtain tot s1 where s1: "writei cp pid ip src off n (s, m) = Inr (int tot, s1, m)" "writei_post pid ip (unat off) data tot s s1"
    "card (flogged s1) < NBUF" by (rule writei_chunk [OF assms]) blast
  note P = s1(2) [unfolded writei_post_def]
  let ?x = "inode_at ip s1"
  have M: "MAXFILE * BSIZE < 2 ^ 32" by (simp add: const_simps BSIZE_def)
  have tot: "tot \<le> unat n" "unat (of_nat tot :: u32) = tot" using P assms(6,8) M by (simp_all add: unat_of_nat)
  have le: "unat off \<le> unat (i_size (inode_at ip s))" using assms(7) by (simp add: word_le_nat_alt)
  have "length (fbytes s1 ?x) = length (take (unat off) (fbytes s (inode_at ip s)) @ take tot data @ drop (unat off + tot) (fbytes s (inode_at ip s)))"
    using P by simp
  then have sz: "unat off + tot \<le> unat (i_size ?x)" using tot(1) assms(6) le by simp
  have "off \<le> i_size ?x" using sz by (simp add: word_le_nat_alt)
  moreover have "unat off + unat (of_nat tot :: u32) < 2 ^ 32" using tot assms(8) M by linarith
  moreover have "take tot (drop (unat off) (fbytes s1 ?x)) = take tot data" using P le tot(1) assms(6) by simp
  ultimately obtain s2 where "readi kcopy_out pid ip dst off (of_nat tot) (s1, m1) =
      Inr (int (min tot (unat (i_size ?x) - unat off)), s2, mem_write m1 dst (take tot data))" "unchanged pid s1 s2"
    using kco.readi_ok [of pid s1 ip off "of_nat tot" dst m1 0 "mem_write m1 dst (take tot data)"] P s1(3) tot(2) by (auto simp: kcopy_out_def)
  then show ?thesis using s1(1) sz by (intro exI [of _ tot] exI [of _ s1] exI [of _ s2]) (auto simp: unchanged_def min_def)
qed

text \<open>
  C13: \<open>balloc\<close> returns the first free block, cleared and marked as used, and \<open>bfree\<close> makes it free
  again; no other block changes but the free map. Without a free block it returns 0 and changes
  nothing. \<open>bfree\<close> of a free block panics.
\<close>

theorem balloc_bfree_correct:
  assumes "log_ok (flog s)" and "layout_ok s" and "lh_n (flog s) + 3 < int NBUF" and "1 \<le> l_outstanding (flog s)"
  shows "\<exists>r s'. balloc pid ROOTDEV s = Inr (r, s') \<and> log_ok (flog s') \<and> layout_ok s' \<and>
    (if \<exists>b. is_free s b
     then is_free s r \<and> (\<forall>b<r. \<not> is_free s b) \<and> (\<forall>b. is_free s' b \<longleftrightarrow> is_free s b \<and> b \<noteq> r) \<and> fcont s' r = replicate BSIZE 0
       \<and> (\<forall>b. b \<noteq> r \<longrightarrow> b \<notin> bitmap_blocks (fsb s) \<longrightarrow> fcont s' b = fcont s b)
       \<and> bfree pid ROOTDEV r s = Inl (Panic ''freeing free block'')
       \<and> (\<exists>s2. bfree pid ROOTDEV r s' = Inr s2 \<and> log_ok (flog s2) \<and> layout_ok s2 \<and> (\<forall>b. is_free s2 b = is_free s b))
     else r = 0 \<and> fcont s' = fcont s)"
proof -
  have t: "ftx pid {} s" using assms(1) by (simp add: tx_empty)
  have c: "card (flogged s) + card ({} :: u32 set) + 2 < NBUF" using tx_card [OF t] txD(3) [OF t] assms(3) by simp
  obtain r s' where s': "balloc pid ROOTDEV s = Inr (r, s')" "balloc_post pid {} s r s'"
    using balloc_ok [OF t assms(2)] c assms(4) by auto
  have t': "ftx pid {} s'" using s'(2) by (simp add: balloc_post_def)
  show ?thesis
  proof (cases "r = 0")
    case True
    note B = balloc_post_full [OF s'(2) True assms(2)]
    show ?thesis using s'(1) t' B True by (intro exI [of _ r] exI [of _ s']) (simp add: tx_empty)
  next
    case False
    note B = balloc_post_free [OF s'(2) False assms(2)]
    have least: "\<forall>b<r. \<not> is_free s b" using s'(2) False by (simp add: balloc_post_def)
    have r: "unat r < fs_size s" using B(1) by (simp add: is_free_def)
    have c': "card (flogged s') + card ({} :: u32 set) < NBUF"
      using frameD(5) [OF B(4)] card_Un_le [of "flogged s" "{BBLOCK r (fsb s), r}"] card_insert_le_m1 [of 2 "{r}" "BBLOCK r (fsb s)"] c by simp
    have r': "unat r < fs_size s'" "r \<notin> meta s'" using r B(2) frameD(2,6) [OF B(4)] by (simp_all add: fs_size_def meta_def)
    have out: "1 \<le> l_outstanding (flog s')" using frameD(3) [OF B(4)] assms(4) by simp
    obtain s2 where s2: "bfree pid ROOTDEV r s' = Inr s2" "ftx pid {} s2" "frame {} {BBLOCK r (fsb s')} s' s2"
      "fcont s2 = (fcont s')(BBLOCK r (fsb s') := mark_free (fcont s' (BBLOCK r (fsb s'))) (unat r mod BPB))"
      using bfree_ok(2) [OF t' B(5) _ r'(1) c' out] B(3) by auto
    note R = bfree_free [OF s2(3,4) B(5) r']
    have "bfree pid ROOTDEV r s = Inl (Panic ''freeing free block'')" using bfree_ok(1) [OF t assms(2) _ r _ assms(4) B(1)] c by simp
    moreover have "\<exists>b. is_free s b" using B(1) by blast
    moreover have "is_free s2 b = is_free s b" for b using R(1) [of b] B(1) B(3) by auto
    ultimately show ?thesis using s'(1) t' B least s2(1,2) R(2) by (intro exI [of _ r] exI [of _ s']) (simp add: tx_empty)
  qed
qed

section \<open>A small file system\<close>

text \<open>A disk of 100 blocks, of which 48 to 99 are free, and an empty file.\<close>

definition map_block0 :: block where
  "map_block0 = replicate 6 255 @ replicate (BSIZE - 6) 0"

definition disk0 :: "u32 \<Rightarrow> block" where
  "disk0 b = (if b = 45 then map_block0 else replicate BSIZE 0)"

definition sb0 :: superblock where
  "sb0 = \<lparr>sb_magic = FSMAGIC, sb_size = 100, sb_nblocks = 54, sb_ninodes = 16, sb_nlog = 31, sb_logstart = 2,
     sb_inodestart = 33, sb_bmapstart = 45\<rparr>"

definition file0 :: inode where
  "file0 = \<lparr>i_dev = ROOTDEV, i_inum = 1, i_ref = 1, i_locked = True, i_pid = 1, i_valid = True, i_type = T_FILE, i_major = 0, i_minor = 0,
     i_nlink = 1, i_size = 0, i_addrs = replicate (NDIRECT + 1) 0\<rparr>"

definition fs0 :: fsys where
  "fs0 = \<lparr>flog = (boot_log disk0)\<lparr>l_start := 2, l_dev := ROOTDEV, l_outstanding := 1\<rparr>, fsb = sb0, itable = [file0]\<rparr>"

lemma fs0_log: "log_ok (flog fs0)" "lh_n (flog fs0) = 0" "l_outstanding (flog fs0) = 1" "l_start (flog fs0) = 2"
proof -
  have "get32 (replicate BSIZE 0) 0 = 0" by (simp add: get32_def BSIZE_def)
  then have "head_n (disk0 2) = 0" by (simp add: head_n_def disk0_def)
  then show "log_ok (flog fs0)"
    using boot_facts [of disk0] by (simp add: log_ok_def fs0_def boot_log_def disk0_def BSIZE_def LOGBLOCKS_def MAXOPBLOCKS_def)
qed (simp_all add: fs0_def boot_log_def)

lemma fs0_cont: "fcont fs0 = disk0"
  using boot_facts(2) [of disk0] by (simp add: fcont_def fs0_def boot_log_def)

lemma fs0_blocks: "bitmap_blocks (fsb fs0) = {45}" "inode_blocks (fsb fs0) = {33}" "fs_size fs0 = 100"
proof -
  have "(\<lambda>b. BBLOCK b sb0) ` {b. b < 100} = (\<lambda>b. 45) ` {b :: u32. b < 100}"
    by (rule image_cong) (simp_all add: BBLOCK_def sb0_def BPB_def BSIZE_def word_less_nat_alt)
  also have "\<dots> = {45}" by (rule image_constant [of 0]) simp
  finally show "bitmap_blocks (fsb fs0) = {45}" by (simp add: bitmap_blocks_def fs0_def sb0_def)
  have "(\<lambda>i. IBLOCK i sb0) ` {i. i < 16} = (\<lambda>i. 33) ` {i :: u32. i < 16}"
    by (rule image_cong) (simp_all add: IBLOCK_def sb0_def IPB_def BSIZE_def word_less_nat_alt)
  also have "\<dots> = {33}" by (rule image_constant [of 0]) simp
  finally show "inode_blocks (fsb fs0) = {33}" by (simp add: inode_blocks_def fs0_def sb0_def)
  show "fs_size fs0 = 100" by (simp add: fs_size_def fs0_def sb0_def)
qed

lemma fs0_in_log: "b \<in> in_log fs0 \<Longrightarrow> 2 \<le> unat b \<and> unat b \<le> 32"
proof -
  assume "b \<in> in_log fs0"
  then consider "b = 2" | t where "t < LOGBLOCKS" "b = lblk (flog fs0) t" by (auto simp: log_area_def fs0_log(4))
  then show ?thesis
  proof cases
    case 2
    then have "b = of_nat (3 + t)" by (simp add: lblk_def fs0_log(4))
    then have "unat b = 3 + t" using 2(1) by (simp only: unat_of_nat) (simp add: LOGBLOCKS_def MAXOPBLOCKS_def)
    then show ?thesis using 2(1) by (simp add: LOGBLOCKS_def MAXOPBLOCKS_def)
  qed simp
qed

lemma fs0_free: "is_free fs0 b \<longleftrightarrow> 48 \<le> unat b \<and> unat b < 100"
proof (cases "unat b < 100")
  case True
  have B: "BBLOCK b (fsb fs0) = 45" using BBLOCK_bitmap [of b fs0] True fs0_blocks by simp
  have m: "unat b mod BPB = unat b" "unat b div 8 < 13" using True by (simp_all add: BPB_def BSIZE_def)
  have byte: "map_block0 ! (unat b div 8) = (if unat b div 8 < 6 then 255 else 0)"
    using m(2) by (simp add: map_block0_def nth_append BSIZE_def)
  have "bit (255 :: u8) (unat b mod 8)"
  proof -
    have eq: "(255 :: u8) = mask 8" by (simp add: mask_eq_exp_minus_1)
    show ?thesis unfolding eq bit_mask_iff by simp
  qed
  then have "bit_clear map_block0 (unat b) \<longleftrightarrow> \<not> unat b div 8 < 6" unfolding bit_clear_iff byte by auto
  moreover have "unat b div 8 < 6 \<longleftrightarrow> unat b < 48" by (simp add: div_less_iff_less_mult)
  ultimately show ?thesis using True by (simp add: is_free_def fs0_cont disk0_def B m(1) fs0_blocks(3) not_less)
qed (simp add: is_free_def fs0_blocks(3))

lemma fs0_layout: "layout_ok fs0"
proof -
  have l: "length (disk0 b) = BSIZE" for b by (simp add: disk0_def map_block0_def BSIZE_def)
  have "45 \<notin> in_log fs0" "33 \<notin> in_log fs0" using fs0_in_log [of 45] fs0_in_log [of 33] by auto
  moreover have "b \<notin> meta fs0" if "is_free fs0 b" for b
    using that fs0_in_log [of b] unfolding fs0_free meta_def fs0_blocks by auto
  ultimately show ?thesis unfolding layout_ok_def fs0_blocks fs0_cont using l by auto
qed

lemma fs0_file: "file_ok fs0 (inode_at 0 fs0)" "inode_at 0 fs0 = file0" "length (itable fs0) = 1"
proof -
  have "fblock c file0 k = 0" if "k \<le> MAXFILE" for c k
    using that by (simp add: fblock_def file0_def const_simps del: replicate.simps)
  then show "file_ok fs0 (inode_at 0 fs0)"
    by (simp add: file_ok_def blocks_ok_def fs0_def file0_def sb0_def)
qed (simp_all add: fs0_def)

definition mem0 :: memory where
  "mem0 a = ucast a"

lemma mem0_source: "source kcopy_in 0 mem0 (mem_read mem0 0 2000)" "length (mem_read mem0 0 2000) = unat (2000 :: u32)"
proof -
  show l: "length (mem_read mem0 0 2000) = unat (2000 :: u32)" by (simp add: mem_read_def)
  show "source kcopy_in 0 mem0 (mem_read mem0 0 2000)" by (rule source_kcopy [of _ 2000]) (simp_all add: mem_read_def)
qed

theorem writei_refines_bytes_witness:
  "\<exists>tot s'. writei kcopy_in 1 0 0 0 2000 (fs0, mem0) = Inr (int tot, s', mem0) \<and> fbytes s' (inode_at 0 s') = take tot (mem_read mem0 0 2000)"
proof -
  have "fbytes fs0 (inode_at 0 fs0) = []" by (simp add: fbytes_def fs0_file(2)) (simp add: file0_def)
  then show ?thesis
    using writei_refines_bytes [OF fs0_log(1) fs0_layout fs0_file(1) _ mem0_source, of 0 1] fs0_blocks(3) fs0_file(2,3) fs0_log(2,3)
    by (auto simp: BPB_def BSIZE_def const_simps LOGBLOCKS_def MAXOPBLOCKS_def)
qed

theorem read_after_write_witness:
  "\<exists>tot s1 s2. writei kcopy_in 1 0 0 0 2000 (fs0, mem0) = Inr (int tot, s1, mem0)
    \<and> readi kcopy_out 1 0 4096 0 (of_nat tot) (s1, mem0) = Inr (int tot, s2, mem_write mem0 4096 (take tot (mem_read mem0 0 2000)))"
  using read_after_write [OF fs0_log(1) fs0_layout fs0_file(1) _ mem0_source, of 0 1 4096 mem0] fs0_blocks(3) fs0_file(2,3) fs0_log(2,3)
  by (auto simp: BPB_def BSIZE_def const_simps LOGBLOCKS_def MAXOPBLOCKS_def)

theorem balloc_bfree_correct_witness:
  "\<exists>s'. balloc 1 ROOTDEV fs0 = Inr (48, s') \<and> (\<exists>s2. bfree 1 ROOTDEV 48 s' = Inr s2)"
proof -
  have room: "lh_n (flog fs0) + 3 < int NBUF" "1 \<le> l_outstanding (flog fs0)" using fs0_log by (simp_all add: NBUF_def MAXOPBLOCKS_def)
  have ex: "is_free fs0 48" by (simp add: fs0_free)
  then obtain r s' where r: "balloc 1 ROOTDEV fs0 = Inr (r, s')" "is_free fs0 r" "\<forall>b<r. \<not> is_free fs0 b" "\<exists>s2. bfree 1 ROOTDEV r s' = Inr s2"
    using balloc_bfree_correct [OF fs0_log(1) fs0_layout room, of 1] by (auto split: if_splits)
  have "r = 48"
  proof (rule ccontr)
    assume "r \<noteq> 48"
    moreover have "48 \<le> r" using r(2) unfolding fs0_free word_le_nat_alt by simp
    ultimately have "48 < r" by simp
    then show False using r(3) ex by blast
  qed
  with r show ?thesis by blast
qed

end
