(* ===== verification/FsDir.thy ===== *)
theory FsDir
  imports FsProps
begin

text \<open>
  Directories: \<open>dirlookup\<close> searches the entries of the directory in order, and a name that \<open>dirlink\<close>
  has entered is found with its inode number. Paths: \<open>skipelem\<close> splits a path at its slashes.
\<close>

section \<open>Directory entries\<close>

definition dirents :: "fsys \<Rightarrow> inode \<Rightarrow> dirent list" where
  "dirents s x = map (\<lambda>k. get_dirent (take DIRENT (drop (k * DIRENT) (fbytes s x)))) [0..<unat (i_size x) div DIRENT]"

definition dir_ok :: "inode \<Rightarrow> bool" where
  "dir_ok x \<longleftrightarrow> i_type x = T_DIR \<and> unat (i_size x) mod DIRENT = 0"

definition names :: "u8 list \<Rightarrow> dirent \<Rightarrow> bool" where
  "names name de \<longleftrightarrow> de_inum de \<noteq> 0 \<and> namecmp name (de_name de) = 0"

lemma DIRENT_16: "DIRENT = 16"
  by (simp add: DIRENT_def DIRSIZ_def)

lemma length_dirents [simp]: "length (dirents s x) = unat (i_size x) div DIRENT"
  by (simp add: dirents_def)

lemma dir_offs_eq: "dir_ok x \<Longrightarrow> dir_offs (i_size x) = map (\<lambda>k. k * DIRENT) [0..<unat (i_size x) div DIRENT]"
proof -
  assume "dir_ok x"
  then obtain q where "unat (i_size x) = 16 * q" by (auto simp: dir_ok_def DIRENT_16 dest: mod_0_imp_dvd)
  then have "(unat (i_size x) + DIRENT - 1) div DIRENT = unat (i_size x) div DIRENT" by (simp add: DIRENT_16)
  then show ?thesis by (simp add: dir_offs_def)
qed

lemma read_dirent_ok:
  assumes "ftx pid {} s" and "layout_ok s" and "file_ok s (inode_at dp s)" and "card (flogged s) < NBUF"
    and "k < length (dirents s (inode_at dp s))"
  obtains s' where "read_dirent pid dp (k * DIRENT) s = Inr (int DIRENT, dirents s (inode_at dp s) ! k, s')" and "unchanged pid s s'"
proof -
  let ?x = "inode_at dp s" and ?off = "k * DIRENT"
  let ?c = "take DIRENT (drop ?off (fbytes s ?x))"
  have k: "?off + DIRENT \<le> unat (i_size ?x)"
  proof -
    have "Suc k * DIRENT \<le> unat (i_size ?x) div DIRENT * DIRENT" using assms(5) by (intro mult_right_mono) simp_all
    also have "\<dots> \<le> unat (i_size ?x)" by simp
    finally show ?thesis by simp
  qed
  have lt: "unat (i_size ?x) < 2 ^ 31" using file_okD(3) [OF assms(3)] by (simp add: const_simps BSIZE_def)
  have u: "unat (of_nat ?off :: u32) = ?off" "unat (of_nat DIRENT :: u32) = DIRENT" using k lt
    by (simp_all add: unat_of_nat DIRENT_16 del: of_nat_mult)
  have lc: "length ?c = DIRENT" using k by simp
  have "(of_nat ?off :: u32) \<le> i_size ?x" using u k by (simp add: word_le_nat_alt del: of_nat_mult)
  moreover have "unat (of_nat ?off :: u32) + unat (of_nat DIRENT :: u32) < 2 ^ 32" unfolding u using k lt by simp
  ultimately obtain s' where s': "readi kcopy_out pid dp 0 (of_nat ?off) (of_nat DIRENT) (s, zero_mem) =
      Inr (int (min DIRENT (unat (i_size ?x) - ?off)), s', mem_write zero_mem 0 ?c)" "unchanged pid s s'"
    using kco.readi_ok [OF assms(1-4), of "of_nat ?off" "of_nat DIRENT" 0 zero_mem 0 "mem_write zero_mem 0 ?c"] unfolding u
    by (auto simp: kcopy_out_def)
  have "mem_read (mem_write zero_mem 0 ?c) 0 DIRENT = ?c" using mem_read_write [of ?c zero_mem 0] lc by (simp add: DIRENT_16)
  moreover have "min DIRENT (unat (i_size ?x) - ?off) = DIRENT" using k by simp
  moreover have "dirents s ?x ! k = get_dirent ?c" using assms(5) by (simp add: dirents_def)
  ultimately have "read_dirent pid dp ?off s = Inr (int DIRENT, dirents s ?x ! k, s')" using s'(1) by (simp add: read_dirent_def)
  with s'(2) show ?thesis by (intro that)
qed

lemma unchanged_dirents: "unchanged pid s t \<Longrightarrow> dirents t x = dirents s x"
  unfolding dirents_def unchanged_ok(4) ..

text \<open>The search of \<open>dirlookup\<close> from entry \<open>k\<close> on.\<close>

lemma dirlookup_loop_ok:
  assumes "ftx pid {} s" and "layout_ok s" and "file_ok s (inode_at dp s)" and "card (flogged s) < NBUF" and "n = length (dirents s (inode_at dp s))"
  shows "\<exists>s'. unchanged pid s s' \<and> dirlookup_loop pid dp name (map (\<lambda>k. k * DIRENT) [k..<n]) s =
    (case find_idx (names name) (drop k (dirents s (inode_at dp s))) of
       None \<Rightarrow> Inr (None, s')
     | Some j \<Rightarrow> bindE (iget ROOTDEV (ucast (de_inum (dirents s (inode_at dp s) ! (k + j)))) s') (\<lambda>(ip, s2). Inr (Some (ip, (k + j) * DIRENT), s2)))"
  using assms
proof (induction "n - k" arbitrary: k s)
  case 0
  then have "unchanged pid s s" by (simp add: unchanged_def)
  with 0 show ?case by (intro exI [of _ s]) simp
next
  case (Suc m)
  let ?x = "inode_at dp s" and ?des = "dirents s (inode_at dp s)"
  have k: "k < length ?des" "k < n" using Suc.hyps(2) Suc.prems(5) by linarith+
  obtain s1 where s1: "read_dirent pid dp (k * DIRENT) s = Inr (int DIRENT, ?des ! k, s1)" "unchanged pid s s1"
    by (rule read_dirent_ok [OF Suc.prems(1-4) k(1)]) blast
  have x1: "inode_at dp s1 = ?x" "ftx pid {} s1" using s1(2) by (simp_all add: unchanged_def)
  note U = unchanged_ok [OF s1(2)] and D1 = unchanged_dirents [OF s1(2)]
  have dev: "i_dev ?x = ROOTDEV" by (rule file_okD(1) [OF Suc.prems(3)])
  have u: "[k..<n] = k # [Suc k..<n]" "drop k ?des = ?des ! k # drop (Suc k) ?des" using k by (simp_all add: upt_conv_Cons Cons_nth_drop_Suc)
  show ?case
  proof (cases "names name (?des ! k)")
    case True
    then show ?thesis using s1 x1 dev by (intro exI [of _ s1]) (simp add: u names_def)
  next
    case False
    have "\<exists>s'. unchanged pid s1 s' \<and> dirlookup_loop pid dp name (map (\<lambda>k. k * DIRENT) [Suc k..<n]) s1 =
      (case find_idx (names name) (drop (Suc k) (dirents s1 (inode_at dp s1))) of
         None \<Rightarrow> Inr (None, s')
       | Some j \<Rightarrow> bindE (iget ROOTDEV (ucast (de_inum (dirents s1 (inode_at dp s1) ! (Suc k + j)))) s') (\<lambda>(ip, s2). Inr (Some (ip, (Suc k + j) * DIRENT), s2)))"
      by (rule Suc.hyps(1)) (use Suc.hyps(2) Suc.prems x1 U D1 in simp_all)
    then obtain s' where s': "unchanged pid s1 s'" "dirlookup_loop pid dp name (map (\<lambda>k. k * DIRENT) [Suc k..<n]) s1 =
      (case find_idx (names name) (drop (Suc k) ?des) of
         None \<Rightarrow> Inr (None, s')
       | Some j \<Rightarrow> bindE (iget ROOTDEV (ucast (de_inum (?des ! (Suc k + j)))) s') (\<lambda>(ip, s2). Inr (Some (ip, (Suc k + j) * DIRENT), s2)))"
      unfolding x1 D1 by blast
    have "dirlookup_loop pid dp name (map (\<lambda>k. k * DIRENT) [k..<n]) s = dirlookup_loop pid dp name (map (\<lambda>k. k * DIRENT) [Suc k..<n]) s1"
      using s1(1) False by (auto simp: u names_def)
    then show ?thesis using s'(2) False unchanged_trans [OF s1(2) s'(1)]
      by (intro exI [of _ s']) (cases "find_idx (names name) (drop (Suc k) ?des)"; simp add: u)
  qed
qed

lemma dirlookup_ok:
  assumes "ftx pid {} s" and "layout_ok s" and "file_ok s (inode_at dp s)" and "dir_ok (inode_at dp s)" and "card (flogged s) < NBUF"
  obtains s' where "unchanged pid s s'" and "dirlookup pid dp name s =
    (case find_idx (names name) (dirents s (inode_at dp s)) of
       None \<Rightarrow> Inr (None, s')
     | Some j \<Rightarrow> bindE (iget ROOTDEV (ucast (de_inum (dirents s (inode_at dp s) ! j))) s') (\<lambda>(ip, s2). Inr (Some (ip, j * DIRENT), s2)))"
proof -
  have "dirlookup pid dp name s = dirlookup_loop pid dp name (map (\<lambda>k. k * DIRENT) [0..<length (dirents s (inode_at dp s))]) s"
    using assms(4) dir_offs_eq [OF assms(4)] by (simp add: dirlookup_def dir_ok_def)
  then show ?thesis using dirlookup_loop_ok [OF assms(1-3,5) refl, of name 0, unfolded drop_0 add_0] that by auto
qed

text \<open>The search of \<open>dirlink\<close> for an unused entry.\<close>

lemma dirlink_scan_ok:
  assumes "ftx pid {} s" and "layout_ok s" and "file_ok s (inode_at dp s)" and "card (flogged s) < NBUF" and "n = length (dirents s (inode_at dp s))"
  shows "\<exists>s'. unchanged pid s s' \<and> dirlink_scan pid dp (map (\<lambda>k. k * DIRENT) [k..<n]) s =
    Inr (map_option (\<lambda>j. (k + j) * DIRENT) (find_idx (\<lambda>de. de_inum de = 0) (drop k (dirents s (inode_at dp s)))), s')"
  using assms
proof (induction "n - k" arbitrary: k s)
  case 0
  then have "unchanged pid s s" by (simp add: unchanged_def)
  with 0 show ?case by (intro exI [of _ s]) simp
next
  case (Suc m)
  let ?x = "inode_at dp s" and ?des = "dirents s (inode_at dp s)" and ?P = "\<lambda>de. de_inum de = 0"
  have k: "k < length ?des" "k < n" using Suc.hyps(2) Suc.prems(5) by linarith+
  obtain s1 where s1: "read_dirent pid dp (k * DIRENT) s = Inr (int DIRENT, ?des ! k, s1)" "unchanged pid s s1"
    by (rule read_dirent_ok [OF Suc.prems(1-4) k(1)]) blast
  have x1: "inode_at dp s1 = ?x" "ftx pid {} s1" using s1(2) by (simp_all add: unchanged_def)
  note U = unchanged_ok [OF s1(2)] and D1 = unchanged_dirents [OF s1(2)]
  have u: "[k..<n] = k # [Suc k..<n]" "drop k ?des = ?des ! k # drop (Suc k) ?des" using k by (simp_all add: upt_conv_Cons Cons_nth_drop_Suc)
  show ?case
  proof (cases "?P (?des ! k)")
    case True
    then show ?thesis using s1 by (intro exI [of _ s1]) (simp add: u)
  next
    case False
    have "\<exists>s'. unchanged pid s1 s' \<and> dirlink_scan pid dp (map (\<lambda>k. k * DIRENT) [Suc k..<n]) s1 =
        Inr (map_option (\<lambda>j. (Suc k + j) * DIRENT) (find_idx ?P (drop (Suc k) (dirents s1 (inode_at dp s1)))), s')"
      by (rule Suc.hyps(1)) (use Suc.hyps(2) Suc.prems x1 U D1 in simp_all)
    then obtain s' where s': "unchanged pid s1 s'" "dirlink_scan pid dp (map (\<lambda>k. k * DIRENT) [Suc k..<n]) s1 =
        Inr (map_option (\<lambda>j. (Suc k + j) * DIRENT) (find_idx ?P (drop (Suc k) ?des)), s')"
      unfolding x1 D1 by blast
    have "dirlink_scan pid dp (map (\<lambda>k. k * DIRENT) [k..<n]) s = dirlink_scan pid dp (map (\<lambda>k. k * DIRENT) [Suc k..<n]) s1"
      using s1(1) False by (simp add: u)
    then show ?thesis using s'(2) False unchanged_trans [OF s1(2) s'(1)]
      by (intro exI [of _ s']) (simp add: u option.map_comp comp_def)
  qed
qed

lemma get_put_dirent: "length (de_name de) = DIRSIZ \<Longrightarrow> get_dirent (put_dirent de) = de"
proof -
  assume l: "length (de_name de) = DIRSIZ"
  let ?p = "put16 0 (de_inum de) (replicate 2 0)"
  have "get16 (?p @ de_name de) 0 = get16 ?p 0" by (rule get16_cong) (simp add: nth_append)
  moreover have "get16 ?p 0 = de_inum de" by (rule get16_put16) simp
  ultimately show ?thesis using l by (simp add: get_dirent_def put_dirent_def)
qed

lemma length_put_dirent: "length (de_name de) = DIRSIZ \<Longrightarrow> length (put_dirent de) = DIRENT"
  by (simp add: put_dirent_def DIRENT_def)

lemma length_pad_name: "length (pad_name name) = DIRSIZ"
  by (simp add: pad_name_def)

lemma namecmp_pad: "0 \<notin> set name \<Longrightarrow> namecmp name (pad_name name) = 0"
proof -
  have "0 \<notin> set s \<Longrightarrow> n \<le> k \<Longrightarrow> namecmp_loop n s (take n (s @ replicate k 0)) = 0" for n k and s :: "u8 list"
  proof (induction n arbitrary: s)
    case (Suc n)
    then show ?case by (cases s; cases k) (auto simp: first_byte_def)
  qed simp
  from this [of name DIRSIZ DIRSIZ] show "0 \<notin> set name \<Longrightarrow> namecmp name (pad_name name) = 0"
    by (simp add: namecmp_def pad_name_def)
qed

text \<open>The entries of a directory after one entry has been written.\<close>

lemma chunk_replaced:
  fixes xs :: "'a list"
  assumes "length xs = n * c" and "length ys = c" and "k \<le> n" and "j < (if k = n then Suc n else n)" and "0 < c"
  shows "take c (drop (j * c) (take (k * c) xs @ ys @ drop (k * c + c) xs)) = (if j = k then ys else take c (drop (j * c) xs))"
proof -
  have kc: "k * c \<le> length xs" using assms(1,3) by simp
  consider "j < k" | "j = k" | "k < j" by linarith
  then show ?thesis
  proof cases
    case 1
    then have "Suc j * c \<le> k * c" by (intro mult_right_mono) simp_all
    then have "j * c + c \<le> k * c" by simp
    then show ?thesis using 1 kc by (simp add: drop_take min_absorb1)
  next
    case 2
    then show ?thesis using kc assms(2) by simp
  next
    case 3
    then have "Suc k * c \<le> j * c" by (intro mult_right_mono) simp_all
    then have "k * c + c \<le> j * c" by simp
    then show ?thesis using 3 kc assms(2) by simp
  qed
qed

lemma dirents_replaced:
  assumes "dir_ok x" and "length (put_dirent de) = DIRENT" and "k \<le> length (dirents s x)" and "length (de_name de) = DIRSIZ"
    and "fbytes s' x' = take (k * DIRENT) (fbytes s x) @ put_dirent de @ drop (k * DIRENT + DIRENT) (fbytes s x)"
  shows "dirents s' x' = (if k = length (dirents s x) then dirents s x @ [de] else (dirents s x)[k := de])" and "unat (i_size x') mod DIRENT = 0"
proof -
  let ?n = "length (dirents s x)"
  have n: "length (fbytes s x) = ?n * DIRENT" using assms(1) by (auto simp: dir_ok_def)
  have "length (fbytes s' x') = (if k = ?n then Suc ?n else ?n) * DIRENT"
  proof (cases "k = ?n")
    case False
    then have "Suc k * DIRENT \<le> ?n * DIRENT" using assms(3) by (intro mult_right_mono) simp_all
    then show ?thesis using False assms(2) n unfolding assms(5) by simp
  qed (use assms(2) n in \<open>simp add: assms(5)\<close>)
  then have sz: "unat (i_size x') = (if k = ?n then Suc ?n else ?n) * DIRENT" by simp
  then show "unat (i_size x') mod DIRENT = 0" by simp
  have n': "unat (i_size x') div DIRENT = (if k = ?n then Suc ?n else ?n)" unfolding sz by (simp add: DIRENT_16)
  have e: "dirents s' x' ! j = (if j = k then de else dirents s x ! j)" if j: "j < (if k = ?n then Suc ?n else ?n)" for j
  proof -
    have "dirents s' x' ! j = get_dirent (if j = k then put_dirent de else take DIRENT (drop (j * DIRENT) (fbytes s x)))"
      using chunk_replaced [OF n assms(2,3) j] j n' unfolding assms(5) [symmetric] by (simp add: dirents_def DIRENT_16)
    moreover have "j < ?n" if "j \<noteq> k" using that j by (auto split: if_splits)
    ultimately show ?thesis using get_put_dirent [OF assms(4)] by (simp add: dirents_def)
  qed
  show "dirents s' x' = (if k = ?n then dirents s x @ [de] else (dirents s x)[k := de])"
    by (rule nth_equalityI) (use n' e assms(3) in \<open>auto simp: nth_append nth_list_update split: if_splits\<close>)
qed

section \<open>Entering a name\<close>

definition dir_put :: "dirent \<Rightarrow> dirent list \<Rightarrow> dirent list" where
  "dir_put de des = (case find_idx (\<lambda>e. de_inum e = 0) des of Some k \<Rightarrow> des[k := de] | None \<Rightarrow> des @ [de])"

definition dir_slot :: "dirent list \<Rightarrow> nat" where
  "dir_slot des = (case find_idx (\<lambda>e. de_inum e = 0) des of Some k \<Rightarrow> k | None \<Rightarrow> length des)"

lemma dir_slot_le: "dir_slot des \<le> length des"
  by (auto simp: dir_slot_def find_idx_Some split: option.splits)

lemma dir_put_slot: "dir_put de des = (if dir_slot des = length des then des @ [de] else des[dir_slot des := de])"
  by (cases "find_idx (\<lambda>e. de_inum e = 0) des") (auto simp: dir_put_def dir_slot_def dest: find_idxD(1))

lemma find_append: "List.find P (xs @ ys) = (case List.find P xs of None \<Rightarrow> List.find P ys | Some x \<Rightarrow> Some x)"
  by (induction xs) simp_all

lemma find_put_same:
  assumes "find_idx P des = None" and "P de"
  shows "find_idx P (dir_put de des) = Some (dir_slot des)" and "dir_put de des ! dir_slot des = de"
proof -
  have n: "\<not> P (des ! j)" if "j < length des" for j using assms(1) that by (simp add: find_idx_None)
  show "find_idx P (dir_put de des) = Some (dir_slot des)" and "dir_put de des ! dir_slot des = de"
    using n assms(2) dir_slot_le [of des] unfolding dir_put_slot find_idx_Some by (auto simp: nth_append nth_list_update)
qed

lemma find_put_other:
  assumes "\<not> P de" and "\<And>e. de_inum e = 0 \<Longrightarrow> \<not> P e"
  shows "List.find P (dir_put de des) = List.find P des"
proof (cases "find_idx (\<lambda>e. de_inum e = 0) des")
  case None
  then show ?thesis using assms(1) by (simp add: dir_put_def find_append split: option.split)
next
  case (Some k)
  then have k: "k < length des" "\<not> P (des ! k)" using assms(2) by (simp_all add: find_idx_Some)
  have "List.find P des = List.find P (take k des @ des ! k # drop (Suc k) des)" using id_take_nth_drop [OF k(1)] by simp
  then show ?thesis using Some k assms(1) by (simp add: dir_put_def upd_conv_take_nth_drop find_append split: option.split)
qed

lemma writei_post_unchanged:
  assumes "unchanged pid s t" and "writei_post pid ip off data tot t s'"
  shows "writei_post pid ip off data tot s s'"
proof -
  have "itable t = itable s" "fcont t = fcont s" "fsb t = fsb s" using assms(1) by (auto simp: unchanged_def dest: frameD(2))
  then have "pot ip t = pot ip s" unfolding pot_def unchanged_ok(6) [OF assms(1)] by (simp only:)
  then show ?thesis using assms(2) \<open>itable t = _\<close> \<open>fcont t = _\<close> \<open>fsb t = _\<close>
    unfolding writei_post_def unchanged_ok(4,5) [OF assms(1)] unchanged_free [OF assms(1)] by simp
qed

lemma put_dirent_source:
  assumes "length (de_name de) = DIRSIZ"
  shows "source kcopy_in 0 (mem_write zero_mem 0 (put_dirent de)) (put_dirent de)"
proof (rule source_kcopy [of _ DIRENT])
  show l: "length (put_dirent de) = DIRENT" by (rule length_put_dirent [OF assms])
  show "put_dirent de = mem_read (mem_write zero_mem 0 (put_dirent de)) 0 DIRENT"
    using mem_read_write [of "put_dirent de" zero_mem 0] unfolding l by (simp add: DIRENT_16)
qed

lemma dirlink_ok:
  assumes "log_ok (flog s)" and "layout_ok s" and "file_ok s (inode_at dp s)" and "dir_ok (inode_at dp s)" and "dp < length (itable s)"
    and "find_idx (names name) (dirents s (inode_at dp s)) = None" and "unat (i_size (inode_at dp s)) + DIRENT \<le> MAXFILE * BSIZE"
    and "fs_size s \<le> BPB" and "lh_n (flog s) + int MAXOPBLOCKS \<le> int LOGBLOCKS" and "1 \<le> l_outstanding (flog s)"
  obtains tot s' where "dirlink pid dp name inum s = Inr (if tot = DIRENT then 0 else -1, s')"
    and "writei_post pid dp (dir_slot (dirents s (inode_at dp s)) * DIRENT) (put_dirent \<lparr>de_inum = ucast inum, de_name = pad_name name\<rparr>) tot s s'"
    and "card (flogged s') < NBUF"
proof -
  let ?x = "inode_at dp s" and ?de = "\<lparr>de_inum = ucast inum, de_name = pad_name name\<rparr>" and ?n = "length (dirents s (inode_at dp s))"
  define k where "k = dir_slot (dirents s ?x)"
  have t: "ftx pid {} s" using assms(1) by (simp add: tx_empty)
  have c: "int (card (flogged s)) = lh_n (flog s)" using tx_card [OF t] txD(3) [OF t] by simp
  have c': "card (flogged s) < NBUF" using c assms(9) by (simp add: NBUF_def LOGBLOCKS_def MAXOPBLOCKS_def)
  obtain s1 where s1: "unchanged pid s s1" "dirlookup pid dp name s = Inr (None, s1)"
    by (rule dirlookup_ok [OF t assms(2-4) c', of name]) (use assms(6) in simp)
  note U1 = unchanged_ok [OF s1(1)]
  have t1: "ftx pid {} s1" "inode_at dp s1 = ?x" using s1(1) by (simp_all add: unchanged_def)
  note D1 = unchanged_dirents [OF s1(1)]
  have n: "dir_offs (i_size ?x) = map (\<lambda>k. k * DIRENT) [0..<?n]" using dir_offs_eq [OF assms(4)] by simp
  have "\<exists>s2. unchanged pid s1 s2 \<and> dirlink_scan pid dp (dir_offs (i_size ?x)) s1 =
      Inr (map_option (\<lambda>j. j * DIRENT) (find_idx (\<lambda>de. de_inum de = 0) (dirents s ?x)), s2)"
    using dirlink_scan_ok [of pid s1 dp ?n 0] t1 U1(1,2,3) assms(2,3) c' D1 unfolding n by simp
  then obtain s2 where s2: "unchanged pid s1 s2" "dirlink_scan pid dp (dir_offs (i_size ?x)) s1 =
      Inr (map_option (\<lambda>j. j * DIRENT) (find_idx (\<lambda>de. de_inum de = 0) (dirents s ?x)), s2)" by blast
  have s02: "unchanged pid s s2" by (rule unchanged_trans [OF s1(1) s2(1)])
  note U2 = unchanged_ok [OF s02]
  have "k * DIRENT \<le> ?n * DIRENT" unfolding k_def by (intro mult_right_mono dir_slot_le) simp
  also have "\<dots> \<le> unat (i_size ?x)" unfolding length_dirents by (rule div_times_less_eq_dividend)
  finally have kn: "k * DIRENT \<le> unat (i_size ?x)" .
  have off: "(case map_option (\<lambda>j. j * DIRENT) (find_idx (\<lambda>de. de_inum de = 0) (dirents s ?x)) of Some off \<Rightarrow> off
      | None \<Rightarrow> length (dir_offs (i_size (inode_at dp s1))) * DIRENT) = k * DIRENT"
    unfolding t1(2) n by (auto simp: k_def dir_slot_def split: option.splits)
  have M: "MAXFILE * BSIZE < 2 ^ 31" by (simp add: const_simps BSIZE_def)
  have u: "unat (of_nat (k * DIRENT) :: u32) = k * DIRENT" "unat (of_nat DIRENT :: u32) = DIRENT" using kn assms(7) M
    by (simp_all add: unat_of_nat DIRENT_16 del: of_nat_mult)
  have x2: "inode_at dp s2 = ?x" "ftx pid {} s2" "length (itable s2) = length (itable s)" "fs_size s2 = fs_size s"
    using s02 by (auto simp: unchanged_def fs_size_def dest: frameD(2))
  have c2: "lh_n (flog s2) = lh_n (flog s)" using tx_card [OF x2(2)] txD(3) [OF x2(2)] c U2(3) by simp
  have le: "(of_nat (k * DIRENT) :: u32) \<le> i_size ?x" using u kn by (simp add: word_le_nat_alt del: of_nat_mult)
  have de: "length (put_dirent ?de) = DIRENT" "source kcopy_in 0 (mem_write zero_mem 0 (put_dirent ?de)) (put_dirent ?de)"
    using length_put_dirent [of ?de] put_dirent_source [of ?de] by (simp_all add: length_pad_name)
  obtain tot s3 where s3: "writei kcopy_in pid dp 0 (of_nat (k * DIRENT)) (of_nat DIRENT) (s2, mem_write zero_mem 0 (put_dirent ?de)) =
      Inr (int tot, s3, mem_write zero_mem 0 (put_dirent ?de))"
    "writei_post pid dp (unat (of_nat (k * DIRENT) :: u32)) (put_dirent ?de) tot s2 s3" "card (flogged s3) < NBUF"
  proof (rule writei_chunk [where s = s2 and ip = dp and off = "of_nat (k * DIRENT)" and n = "of_nat DIRENT" and pid = pid, OF _ _ _ _ de(2)])
    show "unat (of_nat (k * DIRENT) :: u32) + unat (of_nat DIRENT :: u32) \<le> MAXFILE * BSIZE" unfolding u using kn assms(7) by simp
    show "unat (of_nat DIRENT :: u32) \<le> 3 * BSIZE" unfolding u by (simp add: DIRENT_16 BSIZE_def)
  qed (use x2 U2(1,2,5) assms(2,3,5,8,9,10) c2 le de(1) u(2) in \<open>simp_all add: tx_empty\<close>)
  have "dirlink pid dp name inum s = Inr (if tot = DIRENT then 0 else -1, s3)"
    by (simp add: dirlink_def s1(2) t1(2) s2(2) Let_def off s3(1) del: of_nat_mult case_map_option)
  moreover have "writei_post pid dp (k * DIRENT) (put_dirent ?de) tot s s3" using writei_post_unchanged [OF s02 s3(2)] unfolding u .
  ultimately show ?thesis using that s3(3) unfolding k_def by blast
qed

text \<open>
  C14: After \<open>dirlink\<close> has entered a name in a directory that does not have it, \<open>dirlookup\<close> finds the
  name and returns the inode that was linked; every other name is found as before. \<open>dirlink\<close> returns
  -1 only when the disk is full. The entry is the first unused one, or a new one at the end.
\<close>

theorem dirlink_dirlookup:
  assumes "log_ok (flog s)" and "layout_ok s" and "file_ok s (inode_at dp s)" and "dir_ok (inode_at dp s)" and "dp < length (itable s)"
    and "find_idx (names name) (dirents s (inode_at dp s)) = None" and "unat (i_size (inode_at dp s)) + DIRENT \<le> MAXFILE * BSIZE"
    and "fs_size s \<le> BPB" and "lh_n (flog s) + int MAXOPBLOCKS \<le> int LOGBLOCKS" and "1 \<le> l_outstanding (flog s)"
    and "0 \<notin> set name" and "inum \<noteq> 0" and "unat inum < 2 ^ 16"
  shows "\<exists>r s'. dirlink pid dp name inum s = Inr (r, s') \<and> log_ok (flog s') \<and> layout_ok s' \<and> file_ok s' (inode_at dp s')
    \<and> (r = 0 \<and> dir_ok (inode_at dp s')
        \<and> (\<exists>s2. unchanged pid s' s2 \<and> dirlookup pid dp name s' =
            bindE (iget ROOTDEV inum s2) (\<lambda>(ip, s3). Inr (Some (ip, dir_slot (dirents s (inode_at dp s)) * DIRENT), s3)))
        \<and> (\<forall>other. namecmp other (pad_name name) \<noteq> 0 \<longrightarrow>
            List.find (names other) (dirents s' (inode_at dp s')) = List.find (names other) (dirents s (inode_at dp s)))
      \<or> r = -1 \<and> (\<forall>b. \<not> is_free s' b))"
proof -
  let ?x = "inode_at dp s" and ?de = "\<lparr>de_inum = ucast inum, de_name = pad_name name\<rparr>"
  define k where "k = dir_slot (dirents s ?x)"
  obtain tot s' where s': "dirlink pid dp name inum s = Inr (if tot = DIRENT then 0 else -1, s')"
    "writei_post pid dp (k * DIRENT) (put_dirent ?de) tot s s'" "card (flogged s') < NBUF"
    unfolding k_def by (rule dirlink_ok [OF assms(1-10)]) blast
  note P = s'(2) [unfolded writei_post_def]
  have de: "length (put_dirent ?de) = DIRENT" "length (de_name ?de) = DIRSIZ"
    using length_put_dirent [of ?de] by (simp_all add: length_pad_name)
  show ?thesis
  proof (cases "tot = DIRENT")
    case True
    have fb: "fbytes s' (inode_at dp s') = take (k * DIRENT) (fbytes s ?x) @ put_dirent ?de @ drop (k * DIRENT + DIRENT) (fbytes s ?x)"
      using P True de(1) by simp
    have k: "k \<le> length (dirents s ?x)" unfolding k_def by (rule dir_slot_le)
    note D = dirents_replaced [OF assms(4) de(1) k de(2) fb]
    have put: "dirents s' (inode_at dp s') = dir_put ?de (dirents s ?x)" unfolding D(1) dir_put_slot k_def ..
    have "i_type (inode_at dp s') = i_type ?x" using P assms(5) by auto
    then have dir: "dir_ok (inode_at dp s')" using D(2) assms(4) by (simp add: dir_ok_def)
    have u: "(ucast (ucast inum :: u16) :: u32) = inum" 
      by (rule word_unat_eq_iff [THEN iffD2]) (use assms(13) in \<open>simp add: unsigned_ucast_eq unsigned_take_bit_eq take_bit_nat_eq_self\<close>)
    then have "(ucast inum :: u16) \<noteq> 0" using assms(12) by auto
    then have nm: "names name ?de" using namecmp_pad [OF assms(11)] by (simp add: names_def)
    note F = find_put_same [OF assms(6) nm]
    obtain s2 where "unchanged pid s' s2" "dirlookup pid dp name s' =
        bindE (iget ROOTDEV inum s2) (\<lambda>(ip, s3). Inr (Some (ip, dir_slot (dirents s ?x) * DIRENT), s3))"
      by (rule dirlookup_ok [of pid s' dp name]) (use P dir s'(3) F u in \<open>simp_all add: put\<close>)
    moreover have "List.find (names other) (dirents s' (inode_at dp s')) = List.find (names other) (dirents s ?x)"
      if "namecmp other (pad_name name) \<noteq> 0" for other
      unfolding put by (rule find_put_other) (use that in \<open>simp_all add: names_def\<close>)
    ultimately show ?thesis using s'(1) True P dir by (intro exI [of _ 0] exI [of _ s']) (auto simp: tx_empty)
  next
    case False
    then show ?thesis using s'(1) P de(1) by (intro exI [of _ "-1"] exI [of _ s']) (simp add: tx_empty)
  qed
qed

section \<open>A directory on the small disk\<close>

definition dir0 :: inode where
  "dir0 = file0\<lparr>i_type := T_DIR\<rparr>"

definition fsd0 :: fsys where
  "fsd0 = fs0\<lparr>itable := [dir0]\<rparr>"

lemma fsd0_facts: "flog fsd0 = flog fs0" "fcont fsd0 = fcont fs0" "fsb fsd0 = fsb fs0" "inode_at 0 fsd0 = dir0" "length (itable fsd0) = 1"
  by (simp_all add: fsd0_def fcont_def)

lemma fsd0_ok: "layout_ok fsd0" "file_ok fsd0 dir0" "dir_ok dir0" "dirents fsd0 dir0 = []"
proof -
  have free: "is_free fsd0 b = is_free fs0 b" for b by (simp add: is_free_def fs_size_def fsd0_facts)
  have sz: "fs_size fsd0 = fs_size fs0" by (simp add: fs_size_def fsd0_facts)
  then show "layout_ok fsd0" using fs0_layout unfolding layout_ok_def fsd0_facts meta_def free by simp
  have "fblock c dir0 k = fblock c file0 k" for c k by (simp add: fblock_def dir0_def)
  then show "file_ok fsd0 dir0" using fs0_file(1) unfolding fs0_file(2)
    by (simp add: file_ok_def blocks_ok_def fsd0_facts free meta_def dir0_def sz)
  show "dir_ok dir0" "dirents fsd0 dir0 = []" by (simp_all add: dir_ok_def dirents_def dir0_def file0_def)
qed

theorem dirlink_dirlookup_witness:
  "\<exists>r s'. dirlink 1 0 [97, 98] 5 fsd0 = Inr (r, s')
    \<and> (r = 0 \<and> (\<exists>s2. dirlookup 1 0 [97, 98] s' = bindE (iget ROOTDEV 5 s2) (\<lambda>(ip, s3). Inr (Some (ip, 0), s3)))
      \<or> r = -1 \<and> \<not> (\<exists>b. is_free s' b))"
proof -
  have "dir_slot [] = 0" by (simp add: dir_slot_def)
  moreover have "i_size dir0 = 0" by (simp add: dir0_def file0_def)
  moreover have "fs_size fsd0 = 100" using fs0_blocks(3) by (simp add: fs_size_def fsd0_facts)
  ultimately show ?thesis
    using dirlink_dirlookup [of fsd0 0 "[97, 98]" 5 1] fsd0_ok fs0_log unfolding fsd0_facts
    by (auto simp: BPB_def BSIZE_def const_simps LOGBLOCKS_def MAXOPBLOCKS_def DIRENT_16)
qed

section \<open>Path elements\<close>

text \<open>The elements of a path, cut to the length of a directory entry's name.\<close>

function path_elems :: "u8 list \<Rightarrow> u8 list list" where
  "path_elems path = (case skipelem path of None \<Rightarrow> [] | Some (name, rest) \<Rightarrow> name # path_elems rest)"
  by pat_completeness auto
termination
  by (relation "measure length") (auto dest: skipelem_shorter)

declare path_elems.simps [simp del]

lemma skipelem_elem:
  assumes "e \<noteq> []" and "slash \<notin> set e" and "rest = [] \<or> hd rest = slash"
  shows "skipelem (replicate n slash @ e @ rest) = Some (take DIRSIZ e, dropWhile (\<lambda>c. c = slash) rest)"
proof -
  have d: "dropWhile (\<lambda>c. c = slash) (replicate n slash @ e @ rest) = e @ rest" 
  proof (induction n)
    case 0
    then show ?case using assms(1,2) by (cases e) auto
  qed simp
  have "takeWhile (\<lambda>c. c \<noteq> slash) (e @ rest) = e" using assms(2,3) by (induction e) (cases rest; auto)+
  moreover have "dropWhile (\<lambda>c. c \<noteq> slash) (e @ rest) = rest" using assms(2,3) by (induction e) (cases rest; auto)+
  ultimately show ?thesis using assms(1) by (simp add: skipelem_def d)
qed

lemma path_elems_slashes: "path_elems (replicate n slash) = []"
proof -
  have "dropWhile (\<lambda>c. c = slash) (replicate n slash) = []" by simp
  then show ?thesis by (simp add: path_elems.simps [of "replicate n slash"] skipelem_def)
qed

lemma path_elems_drop: "path_elems (dropWhile (\<lambda>c. c = slash) path) = path_elems path"
  by (simp add: path_elems.simps [of path] path_elems.simps [of "dropWhile (\<lambda>c. c = slash) path"] skipelem_def)

text \<open>The elements of names joined with any numbers of slashes are the names, cut to \<open>DIRSIZ\<close> bytes.\<close>

fun join_path :: "(nat \<times> u8 list) list \<Rightarrow> nat \<Rightarrow> u8 list" where
  "join_path [] t = replicate t slash"
| "join_path ((n, e) # es) t = replicate (Suc n) slash @ e @ join_path es t"

lemma path_elems_join:
  assumes "\<forall>(n, e) \<in> set es. e \<noteq> [] \<and> slash \<notin> set e"
  shows "path_elems (join_path es t) = map (\<lambda>(n, e). take DIRSIZ e) es"
  using assms
proof (induction es)
  case Nil
  then show ?case by (simp add: path_elems_slashes)
next
  case (Cons p es)
  obtain n e where p: "p = (n, e)" by (cases p)
  have h: "join_path es t = [] \<or> hd (join_path es t) = slash" by (cases es; cases t) auto
  have "skipelem (join_path (p # es) t) = Some (take DIRSIZ e, dropWhile (\<lambda>c. c = slash) (join_path es t))"
    using skipelem_elem [of e "join_path es t" "Suc n"] h Cons.prems by (auto simp: p)
  then show ?case using Cons unfolding path_elems.simps [of "join_path (p # es) t"] by (simp add: path_elems_drop p)
qed

end
