(* ===== verification/Lexer.thy ===== *)
theory Lexer
  imports Prelude
begin

text \<open>
  The tokenizer of the shell: the growing string buffer of \<open>dynstring.c\<close> and the scanner of
  \<open>lexer.c\<close>. The scanner works on an index into the NUL-terminated line, as the C code does;
  a word that is not terminated is the result \<open>None\<close> (the C functions return -1 or \<open>NULL\<close>).
  The last section relates it to a grammar of lines.
\<close>

section \<open>Growing strings\<close>

text \<open>
  The buffer holds \<open>Some c\<close> where a character was stored and \<open>None\<close> where the allocation is
  still uninitialised.
\<close>

record DynString =
  ds_data :: "char option list"
  ds_len :: nat
  ds_capacity :: nat

definition DYNSTRING_DEFAULT_CAPACITY :: nat where
  "DYNSTRING_DEFAULT_CAPACITY = 16"

definition ds_init :: DynString where
  "ds_init = \<lparr>ds_data = (replicate DYNSTRING_DEFAULT_CAPACITY None)[0 := Some NUL], ds_len = 0,
     ds_capacity = DYNSTRING_DEFAULT_CAPACITY\<rparr>"

definition ds_append_char :: "DynString \<Rightarrow> char \<Rightarrow> DynString" where
  "ds_append_char ds c =
    (let ds1 = (if ds_len ds + 2 > ds_capacity ds
                then ds\<lparr>ds_capacity := ds_capacity ds * 2,
                        ds_data := ds_data ds @ replicate (ds_capacity ds * 2 - length (ds_data ds)) None\<rparr>
                else ds);
         ds2 = ds1\<lparr>ds_data := (ds_data ds1)[ds_len ds1 := Some c]\<rparr>;
         ds3 = ds2\<lparr>ds_len := ds_len ds2 + 1\<rparr>
     in ds3\<lparr>ds_data := (ds_data ds3)[ds_len ds3 := Some NUL]\<rparr>)"

text \<open>The C string at \<open>data\<close>: the stored characters up to the first NUL.\<close>

definition ds_string :: "DynString \<Rightarrow> string" where
  "ds_string ds = takeWhile (\<lambda>c. c \<noteq> NUL) (map the (takeWhile (\<lambda>b. b \<noteq> None) (ds_data ds)))"

text \<open>\<open>ds_holds ds v\<close>: the buffer is well formed and holds the characters \<open>v\<close>, terminated.\<close>

definition ds_holds :: "DynString \<Rightarrow> string \<Rightarrow> bool" where
  "ds_holds ds v \<longleftrightarrow> length (ds_data ds) = ds_capacity ds \<and> ds_len ds = length v
     \<and> length v < ds_capacity ds \<and> 2 \<le> ds_capacity ds \<and> take (Suc (length v)) (ds_data ds) = map Some v @ [Some NUL]"

lemma ds_init_holds: "ds_holds ds_init []"
  by (simp add: ds_holds_def ds_init_def DYNSTRING_DEFAULT_CAPACITY_def numeral_eq_Suc)

lemma take_update_two:
  assumes "take (Suc n) xs = ys @ [z]" and "length ys = n" and "Suc n < length xs"
  shows "take (Suc (Suc n)) (xs[n := a, Suc n := b]) = ys @ [a, b]"
proof -
  have "take n xs = take n (take (Suc n) xs)" by simp
  also have "\<dots> = ys" using assms(1,2) by simp
  finally have "take n xs = ys" .
  then show ?thesis using assms(2,3)
    by (simp add: take_Suc_conv_app_nth nth_list_update)
qed

lemma ds_append_char_holds:
  assumes "ds_holds ds v"
  shows "ds_holds (ds_append_char ds c) (v @ [c])"
proof -
  define xs where "xs = (if ds_len ds + 2 > ds_capacity ds
      then ds_data ds @ replicate (ds_capacity ds * 2 - length (ds_data ds)) None else ds_data ds)"
  define cap where "cap = (if ds_len ds + 2 > ds_capacity ds then ds_capacity ds * 2 else ds_capacity ds)"
  have eq: "ds_append_char ds c = ds\<lparr>ds_data := xs[length v := Some c, Suc (length v) := Some NUL],
      ds_len := Suc (length v), ds_capacity := cap\<rparr>"
    using assms by (simp add: ds_append_char_def xs_def cap_def ds_holds_def)
  have len: "length xs = cap" "Suc (length v) < cap" "2 \<le> cap" using assms by (auto simp: xs_def cap_def ds_holds_def)
  have "take (Suc (length v)) xs = map Some v @ [Some NUL]"
    using assms by (auto simp: xs_def ds_holds_def)
  from take_update_two [OF this _, of "Some c" "Some NUL"] len show ?thesis
    by (simp add: eq ds_holds_def)
qed

lemma ds_holds_string:
  assumes "ds_holds ds v" and "cstring v"
  shows "ds_string ds = v"
proof -
  have "ds_data ds = (map Some v @ [Some NUL]) @ drop (Suc (length v)) (ds_data ds)"
    using assms(1) unfolding ds_holds_def by (metis append_take_drop_id)
  then obtain rest where d: "ds_data ds = map Some v @ Some NUL # rest" by auto
  show ?thesis using assms(2)
    by (simp add: ds_string_def d takeWhile_append cstring_def)
qed

section \<open>Tokens\<close>

datatype TokenType = TOK_WORD | TOK_PIPE | TOK_AMP | TOK_SEMI | TOK_LT | TOK_GT | TOK_GTGT

record Token =
  tok_type :: TokenType
  tok_value :: "string option"

abbreviation squote :: char where "squote \<equiv> CHR 0x27"
abbreviation dquote :: char where "dquote \<equiv> CHR 0x22"
abbreviation backslash :: char where "backslash \<equiv> CHR 0x5C"

definition is_blank :: "char \<Rightarrow> bool" where
  "is_blank c \<longleftrightarrow> c = CHR '' '' \<or> c = CHR 0x09 \<or> c = CHR 0x0A \<or> c = CHR 0x0D"

definition is_operator :: "char \<Rightarrow> bool" where
  "is_operator c \<longleftrightarrow> c = CHR ''|'' \<or> c = CHR ''&'' \<or> c = CHR '';'' \<or> c = CHR ''<'' \<or> c = CHR ''>''"

section \<open>The scanner\<close>

function consume_single_loop :: "string \<Rightarrow> nat \<Rightarrow> DynString \<Rightarrow> (nat \<times> DynString) option" where
  "consume_single_loop line i out =
    (if chr_at line i = squote then Some (i + 1, out)
     else if chr_at line i = NUL then None
     else consume_single_loop line (i + 1) (ds_append_char out (chr_at line i)))"
  by pat_completeness auto
termination
  by (relation "measure (\<lambda>(line, i, out). length line - i)") (auto simp: chr_at_def split: if_splits)

declare consume_single_loop.simps [simp del]

definition consume_single_quoted :: "string \<Rightarrow> nat \<Rightarrow> DynString \<Rightarrow> (nat \<times> DynString) option" where
  "consume_single_quoted line i out = consume_single_loop line (i + 1) out"

function consume_double_loop :: "string \<Rightarrow> nat \<Rightarrow> DynString \<Rightarrow> (nat \<times> DynString) option" where
  "consume_double_loop line i out =
    (if chr_at line i = dquote then Some (i + 1, out)
     else if chr_at line i = NUL then None
     else if chr_at line i = backslash then
       (let next = chr_at line (i + 1)
        in if next = NUL then None
           else if next = dquote \<or> next = backslash
           then consume_double_loop line (i + 2) (ds_append_char out next)
           else consume_double_loop line (i + 2) (ds_append_char (ds_append_char out backslash) next))
     else consume_double_loop line (i + 1) (ds_append_char out (chr_at line i)))"
  by pat_completeness auto
termination
  by (relation "measure (\<lambda>(line, i, out). length line - i)") (auto simp: chr_at_def split: if_splits)

declare consume_double_loop.simps [simp del]

definition consume_double_quoted :: "string \<Rightarrow> nat \<Rightarrow> DynString \<Rightarrow> (nat \<times> DynString) option" where
  "consume_double_quoted line i out = consume_double_loop line (i + 1) out"

definition consume_escape :: "string \<Rightarrow> nat \<Rightarrow> DynString \<Rightarrow> (nat \<times> DynString) option" where
  "consume_escape line i out =
    (let c = chr_at line (i + 1)
     in if c = NUL \<or> c = CHR 0x0A \<or> c = CHR 0x0D then None else Some (i + 2, ds_append_char out c))"

definition consume_piece :: "string \<Rightarrow> nat \<Rightarrow> DynString \<Rightarrow> (nat \<times> DynString) option" where
  "consume_piece line i ds =
    (if chr_at line i = squote then consume_single_quoted line i ds
     else if chr_at line i = dquote then consume_double_quoted line i ds
     else if chr_at line i = backslash then consume_escape line i ds
     else Some (i + 1, ds_append_char ds (chr_at line i)))"

definition ends_word :: "char \<Rightarrow> bool" where
  "ends_word c \<longleftrightarrow> c = NUL \<or> is_blank c \<or> is_operator c"

lemma consume_single_progress:
  "consume_single_loop line i ds = Some (j, ds') \<Longrightarrow> i < j"
proof (induction line i ds arbitrary: j ds' rule: consume_single_loop.induct)
  case (1 line i out)
  from "1.prems" show ?case
    by (subst (asm) consume_single_loop.simps) (auto simp: Let_def dest!: "1.IH" split: if_splits)
qed

lemma consume_double_progress:
  "consume_double_loop line i ds = Some (j, ds') \<Longrightarrow> i < j"
proof (induction line i ds arbitrary: j ds' rule: consume_double_loop.induct)
  case (1 line i out)
  then show ?case unfolding consume_double_loop.simps [of line i out]
    by (fastforce simp: Let_def split: if_splits)
qed

lemma consume_piece_progress:
  "consume_piece line i ds = Some (j, ds') \<Longrightarrow> i < j"
  by (auto simp: consume_piece_def consume_single_quoted_def consume_double_quoted_def consume_escape_def Let_def
      split: if_splits dest!: consume_single_progress consume_double_progress)

function consume_word_loop :: "string \<Rightarrow> nat \<Rightarrow> DynString \<Rightarrow> (nat \<times> DynString) option" where
  "consume_word_loop line i ds =
    (if ends_word (chr_at line i) then Some (i, ds)
     else case consume_piece line i ds of
       None \<Rightarrow> None
     | Some (j, ds') \<Rightarrow> consume_word_loop line j ds')"
  by pat_completeness auto
termination
  by (relation "measure (\<lambda>(line, i, ds). length line - i)")
    (auto simp: chr_at_def ends_word_def split: if_splits dest: consume_piece_progress)

declare consume_word_loop.simps [simp del]

definition consume_word :: "string \<Rightarrow> nat \<Rightarrow> (nat \<times> string) option" where
  "consume_word line i = map_option (\<lambda>(j, ds). (j, ds_string ds)) (consume_word_loop line i ds_init)"

definition consume_operator :: "string \<Rightarrow> nat \<Rightarrow> TokenType \<times> nat" where
  "consume_operator line i =
    (let c = chr_at line i
     in if c = CHR ''>'' \<and> chr_at line (i + 1) = CHR ''>'' then (TOK_GTGT, i + 2)
        else if c = CHR ''|'' then (TOK_PIPE, i + 1)
        else if c = CHR ''&'' then (TOK_AMP, i + 1)
        else if c = CHR '';'' then (TOK_SEMI, i + 1)
        else if c = CHR ''<'' then (TOK_LT, i + 1)
        else if c = CHR ''>'' then (TOK_GT, i + 1)
        else (TOK_WORD, i + 1))"

lemma consume_operator_progress: "i < snd (consume_operator line i)"
  by (simp add: consume_operator_def Let_def)

lemma consume_word_loop_progress:
  "consume_word_loop line i ds = Some (j, ds') \<Longrightarrow> i \<le> j"
proof (induction line i ds arbitrary: j ds' rule: consume_word_loop.induct)
  case (1 line i ds)
  then show ?case unfolding consume_word_loop.simps [of line i ds]
    by (fastforce split: if_splits option.splits dest: consume_piece_progress)
qed

lemma consume_word_progress:
  assumes "consume_word line i = Some (j, w)" and "\<not> ends_word (chr_at line i)"
  shows "i < j"
proof -
  from assms obtain ds where "consume_word_loop line i ds_init = Some (j, ds)"
    by (auto simp: consume_word_def)
  then obtain k ds' where "consume_piece line i ds_init = Some (k, ds')" and "consume_word_loop line k ds' = Some (j, ds)"
    using assms(2) unfolding consume_word_loop.simps [of line i ds_init] by (auto split: option.splits)
  then show ?thesis using consume_piece_progress consume_word_loop_progress by fastforce
qed

text \<open>
  The loop of \<open>lexer_tokenize\<close>; the argument \<open>toks\<close> is the array filled so far. The array
  itself only grows by doubling, which \<open>@\<close> stands for; freeing it on an error has no other
  effect than that the result is \<open>NULL\<close>.
\<close>

function lexer_loop :: "string \<Rightarrow> nat \<Rightarrow> Token list \<Rightarrow> Token list option" where
  "lexer_loop line i toks =
    (if chr_at line i = NUL then Some toks
     else if is_blank (chr_at line i) then lexer_loop line (i + 1) toks
     else if is_operator (chr_at line i) then
       (let (t, j) = consume_operator line i in lexer_loop line j (toks @ [\<lparr>tok_type = t, tok_value = None\<rparr>]))
     else case consume_word line i of
       None \<Rightarrow> None
     | Some (j, w) \<Rightarrow> lexer_loop line j (toks @ [\<lparr>tok_type = TOK_WORD, tok_value = Some w\<rparr>]))"
  by pat_completeness auto
termination
proof (relation "measure (\<lambda>(line, i, toks). length line - i)", goal_cases)
  case (3 line i toks x t j)
  then show ?case using consume_operator_progress [of i line]
    by (cases "i < length line"; cases "consume_operator line i") (auto simp: chr_at_def)
next
  case (4 line i toks x j w)
  then have "i < j" by (intro consume_word_progress [of line i j w]) (auto simp: ends_word_def)
  with 4 show ?case by (cases "i < length line") (auto simp: chr_at_def)
qed (auto simp: chr_at_def split: if_splits)

declare lexer_loop.simps [simp del]

definition lexer_tokenize :: "string \<Rightarrow> Token list option" where
  "lexer_tokenize line = lexer_loop line 0 []"

section \<open>The grammar of lines\<close>

text \<open>
  Three relations describe what a line means, on the characters themselves: the source, its
  value, and (for the parts of a word) what follows. Inside double quotes a backslash keeps a
  following quote or backslash and stands for itself before any other character; outside
  quotes it keeps any character but a line end; single quotes keep everything.
\<close>

inductive dq_body :: "string \<Rightarrow> string \<Rightarrow> string \<Rightarrow> bool" where
  dq_end: "dq_body (dquote # r) [] r"
| dq_char: "c \<noteq> dquote \<Longrightarrow> c \<noteq> backslash \<Longrightarrow> dq_body s v r \<Longrightarrow> dq_body (c # s) (c # v) r"
| dq_escape: "c = dquote \<or> c = backslash \<Longrightarrow> dq_body s v r \<Longrightarrow> dq_body (backslash # c # s) (c # v) r"
| dq_keep: "c \<noteq> dquote \<Longrightarrow> c \<noteq> backslash \<Longrightarrow> dq_body s v r \<Longrightarrow> dq_body (backslash # c # s) (backslash # c # v) r"

inductive word_body :: "string \<Rightarrow> string \<Rightarrow> string \<Rightarrow> bool" where
  w_end: "s = [] \<or> ends_word (hd s) \<Longrightarrow> word_body s [] s"
| w_single: "squote \<notin> set u \<Longrightarrow> word_body s v r \<Longrightarrow> word_body (squote # u @ squote # s) (u @ v) r"
| w_double: "dq_body s u t \<Longrightarrow> word_body t v r \<Longrightarrow> word_body (dquote # s) (u @ v) r"
| w_escape: "c \<noteq> CHR 0x0A \<Longrightarrow> c \<noteq> CHR 0x0D \<Longrightarrow> word_body s v r \<Longrightarrow> word_body (backslash # c # s) (c # v) r"
| w_plain: "\<not> ends_word c \<Longrightarrow> c \<noteq> squote \<Longrightarrow> c \<noteq> dquote \<Longrightarrow> c \<noteq> backslash \<Longrightarrow> word_body s v r \<Longrightarrow>
    word_body (c # s) (c # v) r"

abbreviation op_token :: "TokenType \<Rightarrow> Token" where
  "op_token t \<equiv> \<lparr>tok_type = t, tok_value = None\<rparr>"

abbreviation word_token :: "string \<Rightarrow> Token" where
  "word_token w \<equiv> \<lparr>tok_type = TOK_WORD, tok_value = Some w\<rparr>"

fun operator_of :: "char \<Rightarrow> TokenType" where
  "operator_of c = (if c = CHR ''|'' then TOK_PIPE else if c = CHR ''&'' then TOK_AMP
     else if c = CHR '';'' then TOK_SEMI else if c = CHR ''<'' then TOK_LT else TOK_GT)"

inductive line_tokens :: "string \<Rightarrow> Token list \<Rightarrow> bool" where
  l_nil: "line_tokens [] []"
| l_blank: "is_blank c \<Longrightarrow> line_tokens s ts \<Longrightarrow> line_tokens (c # s) ts"
| l_append: "line_tokens s ts \<Longrightarrow> line_tokens (CHR ''>'' # CHR ''>'' # s) (op_token TOK_GTGT # ts)"
| l_op: "is_operator c \<Longrightarrow> \<not> (c = CHR ''>'' \<and> s \<noteq> [] \<and> hd s = CHR ''>'') \<Longrightarrow> line_tokens s ts \<Longrightarrow>
    line_tokens (c # s) (op_token (operator_of c) # ts)"
| l_word: "\<not> ends_word c \<Longrightarrow> word_body (c # s) v r \<Longrightarrow> line_tokens r ts \<Longrightarrow> line_tokens (c # s) (word_token v # ts)"

lemma chr_at_drop: "chr_at line i = (case drop i line of [] \<Rightarrow> NUL | c # _ \<Rightarrow> c)"
  by (cases "i < length line") (auto simp: chr_at_def Cons_nth_drop_Suc [symmetric])

lemma drop_chr_at: "chr_at line i = c \<Longrightarrow> c \<noteq> NUL \<Longrightarrow> drop i line = c # drop (Suc i) line"
  by (auto simp: chr_at_def Cons_nth_drop_Suc split: if_splits)

lemma drop_ConsD:
  assumes "drop i line = c # s"
  shows "chr_at line i = c" and "drop (Suc i) line = s"
  using assms by (simp_all add: chr_at_drop drop_Suc drop_tl [symmetric]) (metis drop_Suc list.sel(3) tl_drop)

lemma drop_cstring: "cstring line \<Longrightarrow> drop i line = s \<Longrightarrow> cstring s"
  using cstring_drop by blast

subsection \<open>The scanner follows the grammar\<close>

lemma single_sound:
  assumes "consume_single_loop line i ds = Some (j, ds')" and "ds_holds ds w"
  shows "\<exists>u. drop i line = u @ squote # drop j line \<and> squote \<notin> set u \<and> ds_holds ds' (w @ u)"
  using assms
proof (induction line i ds arbitrary: w rule: consume_single_loop.induct)
  case (1 line i ds)
  consider "chr_at line i = squote" | "chr_at line i = NUL" | "chr_at line i \<noteq> squote" "chr_at line i \<noteq> NUL" by blast
  then show ?case
  proof cases
    case 1
    with "1.prems" show ?thesis unfolding consume_single_loop.simps [of line i ds]
      by (intro exI [of _ "[]"]) (auto simp: drop_chr_at)
  next
    case 2
    with "1.prems" show ?thesis unfolding consume_single_loop.simps [of line i ds] by simp
  next
    case 3
    then have "consume_single_loop line (i + 1) (ds_append_char ds (chr_at line i)) = Some (j, ds')"
      using "1.prems"(1) unfolding consume_single_loop.simps [of line i ds] by simp
    from "1.IH" [OF 3 this ds_append_char_holds [OF "1.prems"(2)]]
    obtain u where "drop (i + 1) line = u @ squote # drop j line" "squote \<notin> set u" "ds_holds ds' ((w @ [chr_at line i]) @ u)"
      by blast
    then show ?thesis using 3 drop_chr_at [of line i "chr_at line i"]
      by (intro exI [of _ "chr_at line i # u"]) simp
  qed
qed

lemma double_sound:
  assumes "consume_double_loop line i ds = Some (j, ds')" and "ds_holds ds w"
  shows "\<exists>u. dq_body (drop i line) u (drop j line) \<and> ds_holds ds' (w @ u)"
  using assms
proof (induction line i ds arbitrary: w rule: consume_double_loop.induct)
  case (1 line i ds)
  let ?c = "chr_at line i" and ?n = "chr_at line (i + 1)"
  consider (stop) "?c = dquote" | (nul) "?c = NUL" | (bnul) "?c = backslash" "?n = NUL"
    | (esc) "?c = backslash" "?n = dquote \<or> ?n = backslash"
    | (keep) "?c = backslash" "?n \<noteq> NUL" "\<not> (?n = dquote \<or> ?n = backslash)"
    | (char) "?c \<noteq> dquote" "?c \<noteq> NUL" "?c \<noteq> backslash" by blast
  then show ?case
  proof cases
    case stop
    with "1.prems" show ?thesis unfolding consume_double_loop.simps [of line i ds]
      by (intro exI [of _ "[]"]) (auto simp: drop_chr_at dq_end)
  next
    case nul
    with "1.prems" show ?thesis unfolding consume_double_loop.simps [of line i ds] by simp
  next
    case bnul
    with "1.prems" show ?thesis unfolding consume_double_loop.simps [of line i ds] by simp
  next
    case esc
    then have "consume_double_loop line (i + 2) (ds_append_char ds ?n) = Some (j, ds')"
      using "1.prems"(1) unfolding consume_double_loop.simps [of line i ds] by (auto simp: Let_def)
    with "1.IH"(1) [OF _ _ _ refl _ _ this ds_append_char_holds [OF "1.prems"(2)]] esc
    obtain u where "dq_body (drop (i + 2) line) u (drop j line)" "ds_holds ds' ((w @ [?n]) @ u)" by auto
    then show ?thesis using esc drop_chr_at [of line i backslash] drop_chr_at [of line "i + 1" ?n]
      by (intro exI [of _ "?n # u"]) (auto intro: dq_escape)
  next
    case keep
    then have "consume_double_loop line (i + 2) (ds_append_char (ds_append_char ds backslash) ?n) = Some (j, ds')"
      using "1.prems"(1) unfolding consume_double_loop.simps [of line i ds] by (auto simp: Let_def)
    with "1.IH"(2) [OF _ _ _ refl _ _ this ds_append_char_holds [OF ds_append_char_holds [OF "1.prems"(2)]]] keep
    obtain u where "dq_body (drop (i + 2) line) u (drop j line)" "ds_holds ds' (((w @ [backslash]) @ [?n]) @ u)" by auto
    then show ?thesis using keep drop_chr_at [of line i backslash] drop_chr_at [of line "i + 1" ?n]
      by (intro exI [of _ "backslash # ?n # u"]) (auto intro: dq_keep)
  next
    case char
    then have "consume_double_loop line (i + 1) (ds_append_char ds ?c) = Some (j, ds')"
      using "1.prems"(1) unfolding consume_double_loop.simps [of line i ds] by simp
    from "1.IH"(3) [OF char this ds_append_char_holds [OF "1.prems"(2)]]
    obtain u where "dq_body (drop (i + 1) line) u (drop j line)" "ds_holds ds' ((w @ [?c]) @ u)" by auto
    then show ?thesis using char drop_chr_at [of line i ?c]
      by (intro exI [of _ "?c # u"]) (auto intro: dq_char)
  qed
qed

lemma ends_word_chr: "\<not> ends_word (chr_at line i) \<Longrightarrow> drop i line = chr_at line i # drop (Suc i) line"
  by (rule drop_chr_at [OF refl]) (auto simp: ends_word_def)

lemma piece_sound:
  assumes "consume_piece line i ds = Some (j, ds')" and "\<not> ends_word (chr_at line i)" and "ds_holds ds w"
  shows "\<exists>u. ds_holds ds' (w @ u) \<and> (\<forall>v r. word_body (drop j line) v r \<longrightarrow> word_body (drop i line) (u @ v) r)"
proof -
  let ?c = "chr_at line i"
  note d = ends_word_chr [OF assms(2)]
  consider (sq) "?c = squote" | (dq) "?c = dquote" | (bs) "?c = backslash"
    | (pl) "?c \<noteq> squote" "?c \<noteq> dquote" "?c \<noteq> backslash" by blast
  then show ?thesis
  proof cases
    case sq
    then have "consume_single_loop line (Suc i) ds = Some (j, ds')"
      using assms(1) by (simp add: consume_piece_def consume_single_quoted_def)
    from single_sound [OF this assms(3)] show ?thesis using d sq by (metis append_Cons w_single)
  next
    case dq
    then have "consume_double_loop line (Suc i) ds = Some (j, ds')"
      using assms(1) by (simp add: consume_piece_def consume_double_quoted_def)
    from double_sound [OF this assms(3)] show ?thesis using d dq by (metis w_double)
  next
    case bs
    let ?n = "chr_at line (Suc i)"
    from bs assms(1) have n: "?n \<noteq> NUL" "?n \<noteq> CHR 0x0A" "?n \<noteq> CHR 0x0D" "j = Suc (Suc i)" "ds' = ds_append_char ds ?n"
      by (auto simp: consume_piece_def consume_escape_def Let_def split: if_splits)
    then have "drop i line = backslash # ?n # drop j line" using d bs drop_chr_at [of line "Suc i" ?n] by simp
    then show ?thesis using n ds_append_char_holds [OF assms(3)]
      by (intro exI [of _ "[?n]"]) (simp add: w_escape)
  next
    case pl
    then have "j = Suc i" "ds' = ds_append_char ds ?c" using assms(1) by (simp_all add: consume_piece_def)
    then show ?thesis using d pl assms(2) ds_append_char_holds [OF assms(3), of ?c]
      by (intro exI [of _ "[?c]"]) (simp add: w_plain)
  qed
qed

lemma word_sound:
  assumes "consume_word_loop line i ds = Some (j, ds')" and "ds_holds ds w"
  shows "\<exists>v. word_body (drop i line) v (drop j line) \<and> ds_holds ds' (w @ v)"
  using assms
proof (induction line i ds arbitrary: w rule: consume_word_loop.induct)
  case (1 line i ds)
  show ?case
  proof (cases "ends_word (chr_at line i)")
    case True
    then have "drop i line = [] \<or> ends_word (hd (drop i line))" by (auto simp: chr_at_drop split: list.splits)
    then show ?thesis using True "1.prems" unfolding consume_word_loop.simps [of line i ds]
      by (intro exI [of _ "[]"]) (auto intro: w_end)
  next
    case False
    then obtain k ds1 where k: "consume_piece line i ds = Some (k, ds1)" "consume_word_loop line k ds1 = Some (j, ds')"
      using "1.prems"(1) unfolding consume_word_loop.simps [of line i ds] by (auto split: option.splits)
    from piece_sound [OF k(1) False "1.prems"(2)] obtain u where u: "ds_holds ds1 (w @ u)"
      "\<forall>v r. word_body (drop k line) v r \<longrightarrow> word_body (drop i line) (u @ v) r" by blast
    from "1.IH" [OF False k(1) refl k(2) u(1)] u(2) show ?thesis by auto
  qed
qed

lemma dq_body_cstring: "dq_body s v r \<Longrightarrow> cstring s \<Longrightarrow> cstring v \<and> cstring r"
  by (induction rule: dq_body.induct) auto

lemma word_body_cstring: "word_body s v r \<Longrightarrow> cstring s \<Longrightarrow> cstring v \<and> cstring r"
  by (induction rule: word_body.induct) (auto dest: dq_body_cstring)

lemma consume_word_sound:
  assumes "consume_word line i = Some (j, v)" and "cstring line"
  shows "word_body (drop i line) v (drop j line)"
proof -
  from assms(1) obtain ds where ds: "consume_word_loop line i ds_init = Some (j, ds)" "v = ds_string ds"
    by (auto simp: consume_word_def)
  from word_sound [OF ds(1) ds_init_holds] obtain w where w: "word_body (drop i line) w (drop j line)" "ds_holds ds w"
    by auto
  moreover have "cstring w" using word_body_cstring [OF w(1)] cstring_drop assms(2) by blast
  ultimately show ?thesis using ds(2) ds_holds_string by blast
qed

lemma consume_operator_cases:
  assumes "is_operator (chr_at line i)" and "consume_operator line i = (t, j)"
  shows "line_tokens (drop j line) ts \<Longrightarrow> line_tokens (drop i line) (op_token t # ts)"
proof -
  assume ts: "line_tokens (drop j line) ts"
  let ?c = "chr_at line i" and ?n = "chr_at line (Suc i)"
  have d: "drop i line = ?c # drop (Suc i) line" using assms(1) by (intro drop_chr_at) (auto simp: is_operator_def)
  show ?thesis
  proof (cases "?c = CHR ''>'' \<and> ?n = CHR ''>''")
    case True
    then have "t = TOK_GTGT" "drop i line = CHR ''>'' # CHR ''>'' # drop j line"
      using assms(2) d drop_chr_at [of line "Suc i" ?n] by (auto simp: consume_operator_def Let_def)
    then show ?thesis using ts by (simp add: l_append)
  next
    case False
    then have "t = operator_of ?c" "j = Suc i"
      using assms by (auto simp: consume_operator_def is_operator_def Let_def split: if_splits)
    moreover have "\<not> (?c = CHR ''>'' \<and> drop (Suc i) line \<noteq> [] \<and> hd (drop (Suc i) line) = CHR ''>'')"
      using False by (auto simp: chr_at_drop split: list.splits)
    ultimately show ?thesis using ts assms(1) unfolding d by (simp only:) (rule l_op)
  qed
qed

lemma lexer_loop_sound:
  assumes "lexer_loop line i toks = Some res" and "cstring line"
  shows "\<exists>ts. line_tokens (drop i line) ts \<and> res = toks @ ts"
  using assms
proof (induction line i toks rule: lexer_loop.induct)
  case (1 line i toks)
  let ?c = "chr_at line i"
  consider (nul) "?c = NUL" | (bl) "is_blank ?c" | (op) "is_operator ?c" "\<not> is_blank ?c" "?c \<noteq> NUL" | (wd) "\<not> ends_word ?c"
    by (auto simp: ends_word_def)
  then show ?case
  proof cases
    case nul
    with "1.prems" have "drop i line = []" by (simp add: chr_at_NUL)
    with nul "1.prems" show ?thesis unfolding lexer_loop.simps [of line i toks] by (auto intro: l_nil)
  next
    case bl
    then have c: "?c \<noteq> NUL" by (auto simp: is_blank_def)
    then have "lexer_loop line (i + 1) toks = Some res"
      using bl "1.prems"(1) unfolding lexer_loop.simps [of line i toks] by simp
    from "1.IH"(1) [OF c bl this "1.prems"(2)] show ?thesis using bl drop_chr_at [OF refl c]
      by (auto intro: l_blank)
  next
    case op
    obtain t j where tj: "consume_operator line i = (t, j)" by fastforce
    then have "lexer_loop line j (toks @ [op_token t]) = Some res"
      using op "1.prems"(1) unfolding lexer_loop.simps [of line i toks] by simp
    from "1.IH"(2) [OF op(3,2,1) refl tj [symmetric] this "1.prems"(2)] show ?thesis
      using consume_operator_cases [OF op(1) tj] by auto
  next
    case wd
    then have c: "?c \<noteq> NUL" "\<not> is_blank ?c" "\<not> is_operator ?c" by (auto simp: ends_word_def)
    then obtain j v where jv: "consume_word line i = Some (j, v)" "lexer_loop line j (toks @ [word_token v]) = Some res"
      using "1.prems"(1) unfolding lexer_loop.simps [of line i toks] by (auto split: option.splits)
    from "1.IH"(3) [OF c jv(1) refl jv(2) "1.prems"(2)] show ?thesis
      using consume_word_sound [OF jv(1) "1.prems"(2)] ends_word_chr [OF wd] l_word [OF wd] by fastforce
  qed
qed

subsection \<open>The scanner reads every line of the grammar\<close>

lemma single_complete:
  assumes "drop i line = u @ squote # s" and "squote \<notin> set u" and "cstring line" and "ds_holds ds w"
  shows "\<exists>j ds'. consume_single_loop line i ds = Some (j, ds') \<and> drop j line = s \<and> ds_holds ds' (w @ u)"
  using assms
proof (induction u arbitrary: i ds w)
  case Nil
  then show ?case using drop_ConsD [of i line squote s] by (simp add: consume_single_loop.simps [of line i])
next
  case (Cons c u)
  then have d: "chr_at line i = c" "drop (Suc i) line = u @ squote # s" using drop_ConsD [of i line c] by simp_all
  have "c \<noteq> NUL" "c \<noteq> squote" using drop_cstring [OF Cons.prems(3,1)] Cons.prems(2) by auto
  with Cons.IH [OF d(2) _ Cons.prems(3) ds_append_char_holds [OF Cons.prems(4), of c]] d(1) Cons.prems(2)
  show ?case by (simp add: consume_single_loop.simps [of line i])
qed

lemma double_complete:
  assumes "dq_body s u r" and "drop i line = s" and "cstring line" and "ds_holds ds w"
  shows "\<exists>j ds'. consume_double_loop line i ds = Some (j, ds') \<and> drop j line = r \<and> ds_holds ds' (w @ u)"
  using assms
proof (induction arbitrary: i ds w rule: dq_body.induct)
  case (dq_end r)
  then show ?case using drop_ConsD [of i line dquote r] by (simp add: consume_double_loop.simps [of line i])
next
  case (dq_char c s v r)
  note d = drop_ConsD [OF dq_char.prems(1)]
  have "c \<noteq> NUL" using drop_cstring [OF dq_char.prems(2,1)] by simp
  with dq_char.IH [OF d(2) dq_char.prems(2) ds_append_char_holds [OF dq_char.prems(3), of c]] d(1) dq_char.hyps
  show ?case by (simp add: consume_double_loop.simps [of line i])
next
  case (dq_escape c s v r)
  note d = drop_ConsD [OF dq_escape.prems(1)]
  note e = drop_ConsD [OF d(2)]
  have "c \<noteq> NUL" using drop_cstring [OF dq_escape.prems(2,1)] by simp
  with dq_escape.IH [OF e(2) dq_escape.prems(2) ds_append_char_holds [OF dq_escape.prems(3), of c]] d(1) e(1) dq_escape.hyps
  show ?case by (auto simp: consume_double_loop.simps [of line i] Let_def)
next
  case (dq_keep c s v r)
  note d = drop_ConsD [OF dq_keep.prems(1)]
  note e = drop_ConsD [OF d(2)]
  have "c \<noteq> NUL" using drop_cstring [OF dq_keep.prems(2,1)] by simp
  with dq_keep.IH [OF e(2) dq_keep.prems(2) ds_append_char_holds [OF ds_append_char_holds [OF dq_keep.prems(3), of backslash], of c]]
    d(1) e(1) dq_keep.hyps
  show ?case by (simp add: consume_double_loop.simps [of line i] Let_def)
qed

lemma word_complete:
  assumes "word_body s v r" and "drop i line = s" and "cstring line" and "ds_holds ds w"
  shows "\<exists>j ds'. consume_word_loop line i ds = Some (j, ds') \<and> drop j line = r \<and> ds_holds ds' (w @ v)"
  using assms
proof (induction arbitrary: i ds w rule: word_body.induct)
  case (w_end s)
  then have "ends_word (chr_at line i)" by (cases s) (auto simp: chr_at_drop ends_word_def)
  with w_end show ?case by (simp add: consume_word_loop.simps [of line i])
next
  case (w_single u s v r)
  note d = drop_ConsD [OF w_single.prems(1)]
  from single_complete [OF d(2) w_single.hyps(1) w_single.prems(2,3)]
  obtain j ds' where j: "consume_single_loop line (Suc i) ds = Some (j, ds')" "drop j line = s" "ds_holds ds' (w @ u)" by blast
  with w_single.IH [OF j(2) w_single.prems(2) j(3)] d(1) show ?case
    by (simp add: consume_word_loop.simps [of line i] consume_piece_def consume_single_quoted_def ends_word_def
        is_blank_def is_operator_def)
next
  case (w_double s u t v r)
  note d = drop_ConsD [OF w_double.prems(1)]
  from double_complete [OF w_double.hyps(1) d(2) w_double.prems(2,3)]
  obtain j ds' where j: "consume_double_loop line (Suc i) ds = Some (j, ds')" "drop j line = t" "ds_holds ds' (w @ u)" by blast
  with w_double.IH [OF j(2) w_double.prems(2) j(3)] d(1) show ?case
    by (simp add: consume_word_loop.simps [of line i] consume_piece_def consume_double_quoted_def ends_word_def
        is_blank_def is_operator_def)
next
  case (w_escape c s v r)
  note d = drop_ConsD [OF w_escape.prems(1)]
  note e = drop_ConsD [OF d(2)]
  have "c \<noteq> NUL" using drop_cstring [OF w_escape.prems(2,1)] by simp
  with w_escape.IH [OF e(2) w_escape.prems(2) ds_append_char_holds [OF w_escape.prems(3), of c]] d(1) e(1) w_escape.hyps
  show ?case
    by (simp add: consume_word_loop.simps [of line i] consume_piece_def consume_escape_def ends_word_def
        is_blank_def is_operator_def)
next
  case (w_plain c s v r)
  note d = drop_ConsD [OF w_plain.prems(1)]
  from w_plain.IH [OF d(2) w_plain.prems(2) ds_append_char_holds [OF w_plain.prems(3), of c]] d(1) w_plain.hyps
  show ?case by (simp add: consume_word_loop.simps [of line i] consume_piece_def)
qed

lemma consume_word_complete:
  assumes "word_body (drop i line) v r" and "cstring line"
  shows "\<exists>j. consume_word line i = Some (j, v) \<and> drop j line = r"
proof -
  from word_complete [OF assms(1) refl assms(2) ds_init_holds] obtain j ds where
    j: "consume_word_loop line i ds_init = Some (j, ds)" "drop j line = r" "ds_holds ds v" by auto
  have "ds_string ds = v"
    using ds_holds_string [OF j(3)] word_body_cstring [OF assms(1) cstring_drop [OF assms(2)]] by blast
  with j show ?thesis by (simp add: consume_word_def)
qed

lemma lexer_loop_complete:
  assumes "line_tokens s ts" and "drop i line = s" and "cstring line"
  shows "lexer_loop line i toks = Some (toks @ ts)"
  using assms
proof (induction arbitrary: i toks rule: line_tokens.induct)
  case l_nil
  then show ?case by (simp add: lexer_loop.simps [of line i] chr_at_drop)
next
  case (l_blank c s ts)
  note d = drop_ConsD [OF l_blank.prems(1)]
  from l_blank.IH [OF d(2) l_blank.prems(2)] d(1) l_blank.hyps show ?case
    by (auto simp: lexer_loop.simps [of line i] is_blank_def)
next
  case (l_append s ts)
  note d = drop_ConsD [OF l_append.prems(1)]
  note e = drop_ConsD [OF d(2)]
  from l_append.IH [OF e(2) l_append.prems(2)] d(1) e(1) show ?case
    by (simp add: lexer_loop.simps [of line i] is_blank_def is_operator_def consume_operator_def)
next
  case (l_op c s ts)
  note d = drop_ConsD [OF l_op.prems(1)]
  have "\<not> (c = CHR ''>'' \<and> chr_at line (Suc i) = CHR ''>'')"
    using l_op.hyps(2) d(2) by (auto simp: chr_at_drop split: list.splits)
  then have "consume_operator line i = (operator_of c, Suc i)"
    using l_op.hyps(1) d(1) by (auto simp: consume_operator_def is_operator_def Let_def)
  moreover have "c \<noteq> NUL" "\<not> is_blank c" using l_op.hyps(1) by (auto simp: is_operator_def is_blank_def)
  ultimately show ?case using l_op.IH [OF d(2) l_op.prems(2)] d(1) l_op.hyps(1)
    by (simp add: lexer_loop.simps [of line i])
next
  case (l_word c s v r ts)
  note d = drop_ConsD [OF l_word.prems(1)]
  obtain j where j: "consume_word line i = Some (j, v)" "drop j line = r"
    using consume_word_complete [of i line v r] l_word.hyps(2) l_word.prems by auto
  from l_word.IH [OF j(2) l_word.prems(2)] j(1) d(1) l_word.hyps(1) show ?case
    by (simp add: lexer_loop.simps [of line i] ends_word_def)
qed

section \<open>Quoting\<close>

text \<open>
  A quoting that needs no knowledge of the characters: a word between single quotes, with
  every quote in it written as \<open>'\''\<close>; operators between blanks.
\<close>

fun quote_chars :: "string \<Rightarrow> string" where
  "quote_chars [] = []"
| "quote_chars (c # s) = (if c = squote then [squote, backslash, squote, squote] else [c]) @ quote_chars s"

definition quote_word :: "string \<Rightarrow> string" where
  "quote_word w = squote # quote_chars w @ [squote]"

fun operator_chars :: "TokenType \<Rightarrow> string" where
  "operator_chars TOK_PIPE = ''|''"
| "operator_chars TOK_AMP = ''&''"
| "operator_chars TOK_SEMI = '';''"
| "operator_chars TOK_LT = ''<''"
| "operator_chars TOK_GT = ''>''"
| "operator_chars TOK_GTGT = ''>>''"
| "operator_chars TOK_WORD = []"

definition token_ok :: "Token \<Rightarrow> bool" where
  "token_ok t = (case tok_value t of
     Some w \<Rightarrow> tok_type t = TOK_WORD \<and> cstring w
   | None \<Rightarrow> tok_type t \<noteq> TOK_WORD)"

definition render :: "Token list \<Rightarrow> string" where
  "render ts = concat (map (\<lambda>t. case tok_value t of
     Some w \<Rightarrow> quote_word w @ '' ''
   | None \<Rightarrow> operator_chars (tok_type t) @ '' '') ts)"

lemma quoted_word_body:
  assumes "squote \<notin> set u" and "s = [] \<or> ends_word (hd s)"
  shows "word_body (squote # u @ quote_chars w @ squote # s) (u @ w) s"
  using assms
proof (induction w arbitrary: u)
  case Nil
  then show ?case using w_single [OF Nil.prems(1) w_end [of s]] by simp
next
  case (Cons c w)
  show ?case
  proof (cases "c = squote")
    case True
    have "word_body (squote # [] @ quote_chars w @ squote # s) ([] @ w) s" using Cons.IH [of "[]"] Cons.prems by simp
    from w_single [OF Cons.prems(1) w_escape [OF _ _ this]] show ?thesis using True by simp
  next
    case False
    then show ?thesis using Cons.IH [of "u @ [c]"] Cons.prems by simp
  qed
qed

lemma quote_word_body:
  assumes "s = [] \<or> ends_word (hd s)"
  shows "word_body (quote_word w @ s) w s"
  using quoted_word_body [OF _ assms, of "[]" w] by (simp add: quote_word_def)

lemma render_tokens: "list_all token_ok ts \<Longrightarrow> line_tokens (render ts) ts"
proof (induction ts)
  case Nil
  then show ?case by (simp add: render_def l_nil)
next
  case (Cons t ts)
  have b: "is_blank (CHR '' '')" "ends_word (CHR '' '')" by (simp_all add: is_blank_def ends_word_def)
  from Cons have r: "line_tokens (CHR '' '' # render ts) ts" by (intro l_blank b) simp
  show ?case
  proof (cases "tok_value t")
    case None
    then have t: "tok_type t \<noteq> TOK_WORD" "t = op_token (tok_type t)" using Cons.prems by (simp_all add: token_ok_def)
    have "render (t # ts) = operator_chars (tok_type t) @ CHR '' '' # render ts" using None by (simp add: render_def)
    moreover have "line_tokens (operator_chars (tok_type t) @ CHR '' '' # render ts) (op_token (tok_type t) # ts)"
      using t(1) l_append [OF r] l_op [OF _ _ r] by (cases "tok_type t") (fastforce simp: is_operator_def)+
    ultimately show ?thesis using t(2) by simp
  next
    case (Some w)
    then have t: "t = word_token w" using Cons.prems by (simp add: token_ok_def)
    have "render (t # ts) = quote_word w @ CHR '' '' # render ts" using Some by (simp add: render_def)
    moreover have "line_tokens (quote_word w @ CHR '' '' # render ts) (word_token w # ts)"
      using l_word [of squote _ w "CHR '' '' # render ts" ts] quote_word_body [of "CHR '' '' # render ts" w] b r
      by (simp add: quote_word_def ends_word_def is_operator_def is_blank_def)
    ultimately show ?thesis using t by simp
  qed
qed

lemma quote_chars_cstring [simp]: "cstring (quote_chars w) \<longleftrightarrow> cstring w"
  by (induction w) auto

lemma render_cstring: "list_all token_ok ts \<Longrightarrow> cstring (render ts)"
proof (induction ts)
  case (Cons t ts)
  then show ?case
    by (cases "tok_type t") (auto simp: render_def token_ok_def quote_word_def split: option.splits)
qed (simp add: render_def)

section \<open>Properties\<close>

text \<open>
  C27: \<open>lexer_tokenize\<close> reads exactly the lines of the grammar: for a line without NULs it
  returns the token list \<open>ts\<close> if and only if the grammar gives the line that token list, and
  so it reports an error exactly for the lines that have no tokens, those with an open quote
  or a backslash at the end.
\<close>

theorem lexer_reads_grammar:
  assumes "cstring line"
  shows "lexer_tokenize line = Some ts \<longleftrightarrow> line_tokens line ts"
proof
  assume "lexer_tokenize line = Some ts"
  then show "line_tokens line ts" using lexer_loop_sound [of line 0 "[]" ts] assms by (auto simp: lexer_tokenize_def)
next
  assume "line_tokens line ts"
  then show "lexer_tokenize line = Some ts" using lexer_loop_complete [of line ts 0 line "[]"] assms
    by (simp add: lexer_tokenize_def)
qed

theorem lexer_reads_grammar_witness:
  "lexer_tokenize ''a>>b'' = Some [word_token ''a'', op_token TOK_GTGT, word_token ''b'']"
proof -
  have b: "\<not> ends_word (CHR ''a'')" "\<not> ends_word (CHR ''b'')" "ends_word (CHR ''>'')"
    by (simp_all add: ends_word_def is_blank_def is_operator_def)
  have "line_tokens ''b'' [word_token ''b'']"
    using l_word [OF b(2) w_plain [OF b(2) _ _ _ w_end [of "[]"]] l_nil] by simp
  then have "line_tokens ''>>b'' [op_token TOK_GTGT, word_token ''b'']" by (rule l_append)
  then have "line_tokens ''a>>b'' [word_token ''a'', op_token TOK_GTGT, word_token ''b'']"
    using l_word [OF b(1) w_plain [OF b(1) _ _ _ w_end [of "''>>b''"]]] b(3) by simp
  then show ?thesis using lexer_reads_grammar [of "''a>>b''"] by simp
qed

text \<open>
  C28: quoting a token list and tokenizing the result gives the list back: every sequence of
  words and operators can be typed, whatever characters its words have.
\<close>

theorem lexer_quote_roundtrip:
  assumes "list_all token_ok ts"
  shows "lexer_tokenize (render ts) = Some ts"
  using lexer_loop_complete [OF render_tokens [OF assms] _ render_cstring [OF assms], of 0 "[]"]
  by (simp add: lexer_tokenize_def)

theorem lexer_quote_roundtrip_witness:
  "lexer_tokenize (render [word_token ''it's'', op_token TOK_GTGT, word_token ''a b'']) =
     Some [word_token ''it's'', op_token TOK_GTGT, word_token ''a b'']"
  by (rule lexer_quote_roundtrip) (simp add: token_ok_def)

end
