(* ===== verification/Parser.thy ===== *)
theory Parser
  imports Lexer
begin

text \<open>
  The syntax check of the shell (\<open>parser.c\<close>): a four-state automaton over the token types.
  The property at the end says which token lists it accepts.
\<close>

datatype ParserState = STATE_LINE | STATE_ARG | STATE_NEED_WORD | STATE_BG

text \<open>One round of the loop; \<open>None\<close> is the early \<open>return 0\<close>.\<close>

fun parser_step :: "ParserState \<Rightarrow> TokenType \<Rightarrow> ParserState option" where
  "parser_step STATE_LINE t = (if t = TOK_WORD then Some STATE_ARG else None)"
| "parser_step STATE_ARG t =
    (case t of
       TOK_WORD \<Rightarrow> Some STATE_ARG
     | TOK_LT \<Rightarrow> Some STATE_NEED_WORD
     | TOK_GT \<Rightarrow> Some STATE_NEED_WORD
     | TOK_GTGT \<Rightarrow> Some STATE_NEED_WORD
     | TOK_PIPE \<Rightarrow> Some STATE_NEED_WORD
     | TOK_SEMI \<Rightarrow> Some STATE_NEED_WORD
     | TOK_AMP \<Rightarrow> Some STATE_BG)"
| "parser_step STATE_NEED_WORD t = (if t = TOK_WORD then Some STATE_ARG else None)"
| "parser_step STATE_BG t = (if t = TOK_WORD then Some STATE_ARG else None)"

fun parser_loop :: "ParserState \<Rightarrow> Token list \<Rightarrow> bool" where
  "parser_loop state [] = (state = STATE_LINE \<or> state = STATE_ARG \<or> state = STATE_BG)"
| "parser_loop state (tok # toks) =
    (case parser_step state (tok_type tok) of
       None \<Rightarrow> False
     | Some state' \<Rightarrow> parser_loop state' toks)"

definition parser_validate :: "Token list \<Rightarrow> bool" where
  "parser_validate tokens = parser_loop STATE_LINE tokens"

section \<open>What is accepted\<close>

text \<open>
  \<open>words_follow\<close>: every operator is followed by a word, except that a line may end in \<open>&\<close>.
\<close>

fun words_follow :: "TokenType list \<Rightarrow> bool" where
  "words_follow [] = True"
| "words_follow [t] = (t = TOK_WORD \<or> t = TOK_AMP)"
| "words_follow (t # u # ts) = ((t \<noteq> TOK_WORD \<longrightarrow> u = TOK_WORD) \<and> words_follow (u # ts))"

definition line_ok :: "TokenType list \<Rightarrow> bool" where
  "line_ok ts \<longleftrightarrow> ts = [] \<or> hd ts = TOK_WORD \<and> words_follow ts"

lemma parser_loop_words:
  "parser_loop STATE_ARG toks = words_follow (TOK_WORD # map tok_type toks)"
  "parser_loop STATE_NEED_WORD toks = (toks \<noteq> [] \<and> hd (map tok_type toks) = TOK_WORD \<and> words_follow (map tok_type toks))"
  "parser_loop STATE_BG toks = line_ok (map tok_type toks)"
proof (induction toks)
  case (Cons tok toks)
  {
    case 1
    show ?case using Cons by (cases toks; cases "tok_type tok") (auto simp: line_ok_def)
  next
    case 2
    show ?case using Cons by simp
  next
    case 3
    show ?case using Cons by (simp add: line_ok_def)
  }
qed (simp_all add: line_ok_def)

text \<open>
  C34: \<open>parser_validate\<close> accepts exactly the empty line and the lines that start with a word,
  in which every operator is followed by a word, with the one exception of a \<open>&\<close> at the end.
\<close>

theorem parser_accepts:
  "parser_validate toks \<longleftrightarrow>
    toks = [] \<or>
    tok_type (hd toks) = TOK_WORD
    \<and> (\<forall>i. Suc i < length toks \<longrightarrow> tok_type (toks ! i) = TOK_WORD \<or> tok_type (toks ! Suc i) = TOK_WORD)
    \<and> (tok_type (last toks) = TOK_WORD \<or> tok_type (last toks) = TOK_AMP)"
proof -
  have wf: "words_follow ts \<longleftrightarrow> ts = [] \<or> (\<forall>i. Suc i < length ts \<longrightarrow> ts ! i = TOK_WORD \<or> ts ! Suc i = TOK_WORD)
      \<and> (last ts = TOK_WORD \<or> last ts = TOK_AMP)" for ts
    by (induction ts rule: words_follow.induct) (auto simp: All_less_Suc2)
  have "parser_validate toks \<longleftrightarrow> line_ok (map tok_type toks)"
    by (cases toks) (simp_all add: parser_validate_def parser_loop_words line_ok_def)
  then show ?thesis
    by (cases "toks = []") (auto simp: line_ok_def wf hd_map last_map)
qed

theorem parser_accepts_witness:
  "parser_validate [word_token ''ls'', op_token TOK_PIPE, word_token ''wc'', op_token TOK_AMP]
   \<and> \<not> parser_validate [word_token ''ls'', op_token TOK_SEMI]"
  unfolding parser_accepts [of "[word_token ''ls'', op_token TOK_PIPE, word_token ''wc'', op_token TOK_AMP]"]
    parser_accepts [of "[word_token ''ls'', op_token TOK_SEMI]"]
  by (auto simp: less_Suc_eq nth_Cons')

end
