(* ===== verification/Clib.thy ===== *)
theory Clib
  imports Prelude
begin

text \<open>
  The functions of the C library that the shell uses on strings and numbers: decimal output
  of \<open>printf\<close>, \<open>strtol\<close>/\<open>strtoll\<close> in base ten, \<open>strncpy\<close> into a fixed buffer, \<open>strstr\<close>,
  \<open>strtok_r\<close>, and the conversion of a \<open>long\<close> to an \<open>int\<close>. A C string is the list of its
  characters without the terminator.
\<close>

section \<open>Decimal output\<close>

definition digit_char :: "nat \<Rightarrow> char" where
  "digit_char d = char_of (48 + d)"

definition is_digit :: "char \<Rightarrow> bool" where
  "is_digit c \<longleftrightarrow> 48 \<le> (of_char c :: nat) \<and> (of_char c :: nat) \<le> 57"

definition digit_val :: "char \<Rightarrow> int" where
  "digit_val c = of_char c - 48"

fun dec_nat :: "nat \<Rightarrow> string" where
  "dec_nat n = (if n < 10 then [digit_char n] else dec_nat (n div 10) @ [digit_char (n mod 10)])"

declare dec_nat.simps [simp del]

definition dec :: "int \<Rightarrow> string" where
  "dec n = (if n < 0 then CHR ''-'' # dec_nat (nat (- n)) else dec_nat (nat n))"

section \<open>Decimal input\<close>

definition is_space :: "char \<Rightarrow> bool" where
  "is_space c \<longleftrightarrow> c = CHR '' '' \<or> 9 \<le> (of_char c :: nat) \<and> (of_char c :: nat) \<le> 13"

definition LONG_MAX :: int where "LONG_MAX = 2 ^ 63 - 1"
definition LONG_MIN :: int where "LONG_MIN = - (2 ^ 63)"

definition digits_value :: "string \<Rightarrow> int" where
  "digits_value ds = foldl (\<lambda>v c. 10 * v + digit_val c) 0 ds"

text \<open>
  \<open>strtol s\<close> gives the value, the unread rest, and whether the value was out of range: blanks
  and a sign are skipped, a value out of range is cut to the nearest limit, and without a digit
  the value is 0 and nothing is read.
\<close>

definition strtol :: "string \<Rightarrow> int \<times> string \<times> bool" where
  "strtol s =
    (let s1 = dropWhile is_space s;
         neg = (s1 \<noteq> [] \<and> hd s1 = CHR ''-'');
         s2 = (if s1 \<noteq> [] \<and> (hd s1 = CHR ''-'' \<or> hd s1 = CHR ''+'') then tl s1 else s1);
         ds = takeWhile is_digit s2;
         v = (if neg then - digits_value ds else digits_value ds)
     in if ds = [] then (0, s, False)
        else (max LONG_MIN (min LONG_MAX v), dropWhile is_digit s2, v < LONG_MIN \<or> LONG_MAX < v))"

text \<open>The conversion of a \<open>long\<close> to an \<open>int\<close> keeps the low 32 bits.\<close>

definition to_int32 :: "int \<Rightarrow> int" where
  "to_int32 v = (v + 2 ^ 31) mod 2 ^ 32 - 2 ^ 31"

section \<open>Strings\<close>

text \<open>\<open>strncpy(buf, s, n - 1); buf[n - 1] = 0\<close> on a buffer of \<open>n\<close> bytes.\<close>

definition strncpy_buf :: "nat \<Rightarrow> string \<Rightarrow> string" where
  "strncpy_buf n s = take (n - 1) s"

fun starts_with :: "string \<Rightarrow> string \<Rightarrow> bool" where
  "starts_with [] s = True"
| "starts_with (c # p) [] = False"
| "starts_with (c # p) (d # s) = (c = d \<and> starts_with p s)"

fun strstr :: "string \<Rightarrow> string \<Rightarrow> bool" where
  "strstr [] p = (p = [])"
| "strstr (c # s) p = (starts_with p (c # s) \<or> strstr s p)"

text \<open>The tokens that repeated calls of \<open>strtok_r(s, d)\<close> give: the maximal parts without \<open>d\<close>.\<close>

function strtok :: "char \<Rightarrow> string \<Rightarrow> string list" where
  "strtok d s =
    (let s1 = dropWhile (\<lambda>c. c = d) s
     in if s1 = [] then [] else takeWhile (\<lambda>c. c \<noteq> d) s1 # strtok d (dropWhile (\<lambda>c. c \<noteq> d) s1))"
  by pat_completeness auto
termination
proof (relation "measure (\<lambda>(d, s). length s)", goal_cases)
  case (2 d s s1)
  then have "hd s1 \<noteq> d" using hd_dropWhile [of "\<lambda>c. c = d" s] by simp
  with 2(2) have "length (dropWhile (\<lambda>c. c \<noteq> d) s1) < length s1" by (cases s1) (auto simp: length_dropWhile_le le_imp_less_Suc)
  moreover have "length s1 \<le> length s" using 2(1) by (simp add: length_dropWhile_le)
  ultimately show ?case by simp
qed simp

declare strtok.simps [simp del]

section \<open>Lemmas\<close>

lemma starts_with_append: "starts_with p s \<longleftrightarrow> (\<exists>r. s = p @ r)"
  by (induction p s rule: starts_with.induct) auto

lemma strstr_append: "strstr s p \<longleftrightarrow> (\<exists>u r. s = u @ p @ r)"
proof (induction s)
  case (Cons c s)
  show ?case
  proof
    assume "strstr (c # s) p"
    then show "\<exists>u r. c # s = u @ p @ r" using Cons.IH by (auto simp: starts_with_append) (metis append_Cons append_Nil)+
  next
    assume "\<exists>u r. c # s = u @ p @ r"
    then obtain u r where "c # s = u @ p @ r" by blast
    then show "strstr (c # s) p" using Cons.IH
    proof (cases u)
      case Nil
      with \<open>c # s = u @ p @ r\<close> have "starts_with p (c # s)" by (auto simp: starts_with_append)
      then show ?thesis by simp
    qed auto
  qed
qed auto

lemma is_digit_digit_char: "d < 10 \<Longrightarrow> is_digit (digit_char d)"
  by (simp add: is_digit_def digit_char_def of_char_of)

lemma digit_val_digit_char: "d < 10 \<Longrightarrow> digit_val (digit_char d) = int d"
proof -
  assume "d < 10"
  then have "(of_char (digit_char d) :: nat) = 48 + d" by (simp add: digit_char_def of_char_of)
  then show ?thesis unfolding digit_val_def by (metis add_diff_cancel_left' of_nat_add of_nat_numeral of_nat_of_char)
qed

lemma digits_value_snoc [simp]: "digits_value (ds @ [c]) = 10 * digits_value ds + digit_val c"
  by (simp add: digits_value_def)

lemma dec_nat_digits: "list_all is_digit (dec_nat n) \<and> dec_nat n \<noteq> [] \<and> digits_value (dec_nat n) = int n"
proof (induction n rule: dec_nat.induct)
  case (1 n)
  show ?case
  proof (cases "n < 10")
    case True
    then show ?thesis unfolding dec_nat.simps [of n]
      by (simp add: is_digit_digit_char digits_value_def digit_val_digit_char)
  next
    case False
    have d: "n mod 10 < 10" "10 * int (n div 10) + int (n mod 10) = int n" by (simp, presburger)
    from False "1.IH" show ?thesis unfolding dec_nat.simps [of n]
      by (simp add: is_digit_digit_char digit_val_digit_char d)
  qed
qed

lemma is_digit_not_space: "is_digit c \<Longrightarrow> \<not> is_space c \<and> c \<noteq> CHR ''-'' \<and> c \<noteq> CHR ''+''"
proof -
  assume d: "is_digit c"
  then have "c \<noteq> CHR ''-''" "c \<noteq> CHR ''+''" "c \<noteq> CHR '' ''" by (auto simp: is_digit_def)
  with d show ?thesis by (simp add: is_digit_def is_space_def)
qed

lemma strtol_digits:
  assumes "list_all is_digit ds" and "ds \<noteq> []" and "r = [] \<or> \<not> is_digit (hd r)" and "digits_value ds \<le> LONG_MAX"
  shows "strtol (ds @ r) = (max LONG_MIN (digits_value ds), r, digits_value ds < LONG_MIN)"
proof -
  obtain c ds' where c: "ds = c # ds'" using assms(2) by (cases ds) auto
  then have nd: "\<not> is_space c" "c \<noteq> CHR ''-''" "c \<noteq> CHR ''+''" using assms(1) is_digit_not_space by auto
  have "takeWhile is_digit (ds @ r) = ds" "dropWhile is_digit (ds @ r) = r"
    using assms(1,3) by (cases r; simp add: takeWhile_append2 dropWhile_append2 list_all_iff)+
  then show ?thesis using nd assms(4) by (simp add: strtol_def c Let_def min_def)
qed

lemma strtol_dec:
  assumes "0 \<le> n" and "n \<le> LONG_MAX"
  shows "strtol (dec n) = (n, [], False)"
proof -
  have "strtol (dec_nat (nat n) @ []) = (max LONG_MIN n, [], n < LONG_MIN)"
    using strtol_digits [of "dec_nat (nat n)" "[]"] dec_nat_digits [of "nat n"] assms by auto
  moreover have "max LONG_MIN n = n" "\<not> n < LONG_MIN" using assms(1) by (simp_all add: LONG_MIN_def)
  ultimately show ?thesis using assms(1) by (simp add: dec_def)
qed

lemma to_int32_small: "- (2 ^ 31) \<le> v \<Longrightarrow> v < 2 ^ 31 \<Longrightarrow> to_int32 v = v"
  by (simp add: to_int32_def)

lemma to_int32_add: "to_int32 (v + 2 ^ 32) = to_int32 v"
proof -
  have "v + 2 ^ 32 + 2 ^ 31 = (v + 2 ^ 31) + 2 ^ 32" by simp
  then show ?thesis unfolding to_int32_def by (simp only: mod_add_self2)
qed

lemma to_int32_range: "- (2 ^ 31) \<le> to_int32 v \<and> to_int32 v < 2 ^ 31"
proof -
  have "0 \<le> (v + 2 ^ 31) mod 2 ^ 32" "(v + 2 ^ 31) mod 2 ^ 32 < 2 ^ 32"
    by (rule pos_mod_sign pos_mod_bound; simp)+
  then show ?thesis by (simp add: to_int32_def)
qed

end
