(* ===== verification/Shell.thy ===== *)
theory Shell
  imports Clib
begin

text \<open>
  The state of the shell process: its global variables, what it has written to standard
  output, and the world outside. The system calls the shell makes are not part of the
  program: they are the functions of a record that every operation takes as its argument,
  over an abstract type of worlds.
\<close>

section \<open>System calls\<close>

text \<open>
  The status word of \<open>waitpid\<close>, as the macros \<open>WIFEXITED\<close>, \<open>WIFSIGNALED\<close>, \<open>WIFSTOPPED\<close> and
  \<open>WIFCONTINUED\<close> classify it, and the values of \<open>errno\<close> that the code looks at.
\<close>

datatype wstatus = WExited int | WSignaled int | WStopped int | WContinued

datatype wopt = WNOHANG | WUNTRACED | WCONTINUED

datatype errno = EINTR | ESRCH | EOTHER

record file_stat =
  st_isdir :: bool
  st_size :: nat

record 'w sys =
  sys_waitpid :: "int \<Rightarrow> wopt list \<Rightarrow> 'w \<Rightarrow> (int \<times> wstatus \<times> errno) \<times> 'w"
  sys_kill :: "int \<Rightarrow> int \<Rightarrow> 'w \<Rightarrow> (int \<times> errno) \<times> 'w"
  sys_getpgrp :: "'w \<Rightarrow> int"
  sys_isatty :: "'w \<Rightarrow> bool"
  sys_tcsetpgrp :: "int \<Rightarrow> 'w \<Rightarrow> 'w"
  sys_alarm :: "int \<Rightarrow> 'w \<Rightarrow> 'w"
  sys_alarm_clear :: "'w \<Rightarrow> 'w"
  sys_alarm_fired :: "'w \<Rightarrow> bool"
  sys_getcwd :: "'w \<Rightarrow> string option"
  sys_chdir :: "string \<Rightarrow> 'w \<Rightarrow> bool \<times> 'w"
  sys_stat :: "string \<Rightarrow> 'w \<Rightarrow> file_stat option"
  sys_access_x :: "string \<Rightarrow> 'w \<Rightarrow> bool"
  sys_getenv_PATH :: "'w \<Rightarrow> string option"
  sys_time :: "'w \<Rightarrow> int"
  sys_read_file :: "string \<Rightarrow> 'w \<Rightarrow> string option"
  sys_write_file :: "string \<Rightarrow> string \<Rightarrow> 'w \<Rightarrow> 'w option"
  sys_read_stdin :: "'w \<Rightarrow> string \<times> 'w"

definition SIGHUP :: int where "SIGHUP = 1"
definition SIGTERM :: int where "SIGTERM = 15"
definition SIGCONT :: int where "SIGCONT = 18"
definition SIGSTOP :: int where "SIGSTOP = 19"
definition SIGTSTP :: int where "SIGTSTP = 20"

section \<open>Global variables\<close>

datatype JobState = JOB_RUNNING | JOB_STOPPED

definition MAX_JOBS :: nat where "MAX_JOBS = 256"
definition MAX_PROCS_PER_JOB :: nat where "MAX_PROCS_PER_JOB = 32"

record JobProc =
  jp_pid :: int
  jp_cmd_name :: string
  jp_exited :: bool

record Job =
  job_number :: int
  job_pgid :: int
  job_cmd_line :: string
  job_state :: JobState
  job_active :: bool
  num_procs :: nat
  job_procs :: "JobProc list"

record Entry =
  e_path :: string
  e_visits :: nat
  e_last_visit :: int

record 'w shell =
  g_jobs :: "Job list"
  g_next_job_num :: int
  g_shell_pgid :: int
  g_ctrl_d_warned :: bool
  sigchld_blocked :: bool
  shell_home :: string
  previous_dir :: string
  db_path :: string
  entries :: "Entry list"
  sh_out :: string
  sh_world :: 'w

definition emit :: "string \<Rightarrow> 'w shell \<Rightarrow> 'w shell" where
  "emit s st = st\<lparr>sh_out := sh_out st @ s\<rparr>"

abbreviation newline :: string where
  "newline \<equiv> [CHR 0x0A]"

text \<open>A system call that changes the world, run on the state of the shell.\<close>

definition os_call :: "('w \<Rightarrow> 'r \<times> 'w) \<Rightarrow> 'w shell \<Rightarrow> 'r \<times> 'w shell" where
  "os_call f st = (case f (sh_world st) of (r, w) \<Rightarrow> (r, st\<lparr>sh_world := w\<rparr>))"

definition upd_job :: "nat \<Rightarrow> (Job \<Rightarrow> Job) \<Rightarrow> 'w shell \<Rightarrow> 'w shell" where
  "upd_job i f st = st\<lparr>g_jobs := upd_nth i f (g_jobs st)\<rparr>"

abbreviation job_at :: "nat \<Rightarrow> 'w shell \<Rightarrow> Job" where
  "job_at i st \<equiv> g_jobs st ! i"

lemma emit_simps [simp]:
  "g_jobs (emit s st) = g_jobs st" "g_next_job_num (emit s st) = g_next_job_num st"
  "g_ctrl_d_warned (emit s st) = g_ctrl_d_warned st" "sh_world (emit s st) = sh_world st"
  "g_shell_pgid (emit s st) = g_shell_pgid st" "sh_out (emit s st) = sh_out st @ s"
  "entries (emit s st) = entries st" "previous_dir (emit s st) = previous_dir st"
  "shell_home (emit s st) = shell_home st" "db_path (emit s st) = db_path st"
  "sigchld_blocked (emit s st) = sigchld_blocked st"
  by (simp_all add: emit_def)

lemma upd_job_simps [simp]:
  "g_jobs (upd_job i f st) = upd_nth i f (g_jobs st)" "g_next_job_num (upd_job i f st) = g_next_job_num st"
  "g_ctrl_d_warned (upd_job i f st) = g_ctrl_d_warned st" "sh_world (upd_job i f st) = sh_world st"
  "g_shell_pgid (upd_job i f st) = g_shell_pgid st" "sh_out (upd_job i f st) = sh_out st"
  "entries (upd_job i f st) = entries st" "previous_dir (upd_job i f st) = previous_dir st"
  "shell_home (upd_job i f st) = shell_home st" "sigchld_blocked (upd_job i f st) = sigchld_blocked st"
  by (simp_all add: upd_job_def)

lemma os_call_simps [simp]:
  "g_jobs (snd (os_call f st)) = g_jobs st" "g_next_job_num (snd (os_call f st)) = g_next_job_num st"
  "g_ctrl_d_warned (snd (os_call f st)) = g_ctrl_d_warned st" "sh_out (snd (os_call f st)) = sh_out st"
  "g_shell_pgid (snd (os_call f st)) = g_shell_pgid st" "entries (snd (os_call f st)) = entries st"
  "fst (os_call f st) = fst (f (sh_world st))" "sh_world (snd (os_call f st)) = snd (f (sh_world st))"
  by (simp_all add: os_call_def split: prod.split)

lemma os_call_eqD:
  assumes "os_call f st = (r, st')"
  shows "g_jobs st' = g_jobs st" and "g_next_job_num st' = g_next_job_num st"
    and "g_ctrl_d_warned st' = g_ctrl_d_warned st" and "sh_out st' = sh_out st" and "g_shell_pgid st' = g_shell_pgid st"
    and "r = fst (f (sh_world st))" and "sh_world st' = snd (f (sh_world st))"
  using assms by (auto simp: os_call_def split: prod.splits)

end
