(* ===== verification/Jobs.thy ===== *)
theory Jobs
  imports Shell
begin

text \<open>
  The job table and the terminal of the shell (\<open>term_control.c\<close>) and the builtin that lists
  the jobs (\<open>activities.c\<close>). A \<open>Job *\<close> is an index into the table, \<open>NULL\<close> is \<open>None\<close>.
\<close>

section \<open>The job table\<close>

definition blank_proc :: JobProc where
  "blank_proc = \<lparr>jp_pid = 0, jp_cmd_name = [], jp_exited = False\<rparr>"

definition blank_job :: Job where
  "blank_job = \<lparr>job_number = 0, job_pgid = 0, job_cmd_line = [], job_state = JOB_RUNNING, job_active = False,
     num_procs = 0, job_procs = replicate MAX_PROCS_PER_JOB blank_proc\<rparr>"

definition term_control_init :: "'w sys \<Rightarrow> 'w shell \<Rightarrow> 'w shell" where
  "term_control_init sys st = st\<lparr>g_jobs := replicate MAX_JOBS blank_job, g_shell_pgid := sys_getpgrp sys (sh_world st)\<rparr>"

definition term_give_to_pgid :: "'w sys \<Rightarrow> int \<Rightarrow> 'w shell \<Rightarrow> 'w shell" where
  "term_give_to_pgid sys pgid st =
    (if sys_isatty sys (sh_world st) \<and> pgid > 0 then st\<lparr>sh_world := sys_tcsetpgrp sys pgid (sh_world st)\<rparr> else st)"

definition term_reclaim :: "'w sys \<Rightarrow> 'w shell \<Rightarrow> 'w shell" where
  "term_reclaim sys st =
    (if sys_isatty sys (sh_world st) \<and> g_shell_pgid st > 0
     then st\<lparr>sh_world := sys_tcsetpgrp sys (g_shell_pgid st) (sh_world st)\<rparr> else st)"

definition term_get_shell_pgid :: "'w shell \<Rightarrow> int" where
  "term_get_shell_pgid st = g_shell_pgid st"

definition term_block_sigchld :: "'w shell \<Rightarrow> 'w shell" where
  "term_block_sigchld st = st\<lparr>sigchld_blocked := True\<rparr>"

definition term_unblock_sigchld :: "'w shell \<Rightarrow> 'w shell" where
  "term_unblock_sigchld st = st\<lparr>sigchld_blocked := False\<rparr>"

definition job_add :: "int \<Rightarrow> string option \<Rightarrow> JobState \<Rightarrow> 'w shell \<Rightarrow> nat option \<times> 'w shell" where
  "job_add pgid cmd_line state st =
    (case find_idx (\<lambda>j. \<not> job_active j) (g_jobs st) of
       None \<Rightarrow> (None, st)
     | Some i \<Rightarrow>
         (Some i, (upd_job i (\<lambda>j. j\<lparr>job_number := g_next_job_num st, job_pgid := pgid, job_state := state,
             job_active := True, num_procs := 0,
             job_cmd_line := (case cmd_line of Some s \<Rightarrow> strncpy_buf 512 s | None \<Rightarrow> [])\<rparr>) st)
           \<lparr>g_next_job_num := g_next_job_num st + 1\<rparr>))"

definition job_add_proc :: "nat option \<Rightarrow> int \<Rightarrow> string option \<Rightarrow> 'w shell \<Rightarrow> 'w shell" where
  "job_add_proc job pid cmd_name st =
    (case job of
       None \<Rightarrow> st
     | Some i \<Rightarrow>
         if num_procs (job_at i st) \<ge> MAX_PROCS_PER_JOB then st
         else
           let name = (case cmd_name of
                         None \<Rightarrow> ''?''
                       | Some s \<Rightarrow> if s \<noteq> [] \<and> hd s = CHR 0x25 then tl s else s);
               n = num_procs (job_at i st)
           in upd_job i (\<lambda>j. j\<lparr>job_procs := upd_nth n (\<lambda>p. \<lparr>jp_pid = pid, jp_cmd_name = strncpy_buf 128 name,
                jp_exited = False\<rparr>) (job_procs j), num_procs := n + 1\<rparr>) st)"

definition job_get_by_number :: "int \<Rightarrow> 'w shell \<Rightarrow> nat option" where
  "job_get_by_number n st = find_idx (\<lambda>j. job_active j \<and> job_number j = n) (g_jobs st)"

definition job_get_by_pgid :: "int \<Rightarrow> 'w shell \<Rightarrow> nat option" where
  "job_get_by_pgid pgid st = find_idx (\<lambda>j. job_active j \<and> job_pgid j = pgid) (g_jobs st)"

text \<open>The processes of a job are the first \<open>num_procs\<close> entries of its array.\<close>

definition procs_of :: "Job \<Rightarrow> JobProc list" where
  "procs_of j = take (num_procs j) (job_procs j)"

fun job_pid_scan :: "int \<Rightarrow> Job list \<Rightarrow> (nat \<times> nat) option" where
  "job_pid_scan pid [] = None"
| "job_pid_scan pid (j # js) =
    (case (if job_active j then find_idx (\<lambda>p. jp_pid p = pid) (procs_of j) else None) of
       Some p \<Rightarrow> Some (0, p)
     | None \<Rightarrow> map_option (\<lambda>(i, p). (Suc i, p)) (job_pid_scan pid js))"

definition job_get_by_pid :: "int \<Rightarrow> 'w shell \<Rightarrow> (nat \<times> nat) option" where
  "job_get_by_pid pid st = job_pid_scan pid (g_jobs st)"

definition job_remove :: "int \<Rightarrow> 'w shell \<Rightarrow> 'w shell" where
  "job_remove n st =
    (case job_get_by_number n st of
       None \<Rightarrow> st
     | Some i \<Rightarrow> upd_job i (\<lambda>j. j\<lparr>job_active := False\<rparr>) st)"

definition mark_exited :: "nat \<Rightarrow> Job \<Rightarrow> Job" where
  "mark_exited p j = j\<lparr>job_procs := upd_nth p (\<lambda>q. q\<lparr>jp_exited := True\<rparr>) (job_procs j)\<rparr>"

definition all_exited :: "Job \<Rightarrow> bool" where
  "all_exited j = list_all jp_exited (procs_of j)"

section \<open>Children that change state\<close>

text \<open>The body of the loop in \<open>sigchld_handler\<close> for one reported child.\<close>

definition child_changed :: "int \<Rightarrow> wstatus \<Rightarrow> 'w shell \<Rightarrow> 'w shell" where
  "child_changed pid status st =
    (case job_get_by_pid pid st of
       None \<Rightarrow> st
     | Some (i, p) \<Rightarrow>
         (case status of
            WStopped _ \<Rightarrow> upd_job i (\<lambda>j. j\<lparr>job_state := JOB_STOPPED\<rparr>) st
          | WContinued \<Rightarrow> upd_job i (\<lambda>j. j\<lparr>job_state := JOB_RUNNING\<rparr>) st
          | _ \<Rightarrow>
              let st1 = upd_job i (mark_exited p) st;
                  name = jp_cmd_name (job_procs (job_at i st1) ! p);
                  how = (if status = WExited 0 then '' exited normally'' else '' exited abnormally'');
                  st2 = emit (name @ '' with pid '' @ dec pid @ how @ newline) st1
              in if all_exited (job_at i st2) then upd_job i (\<lambda>j. j\<lparr>job_active := False\<rparr>) st2 else st2))"

text \<open>
  The handler reaps until \<open>waitpid\<close> has no more child to report; \<open>None\<close> stands for a run that
  does not end.
\<close>

partial_function (option) sigchld_handler :: "'w sys \<Rightarrow> 'w shell \<Rightarrow> 'w shell option" where
  "sigchld_handler sys st =
    (case os_call (sys_waitpid sys (- 1) [WNOHANG, WUNTRACED, WCONTINUED]) st of
       ((pid, status, e), st1) \<Rightarrow>
         if pid > 0 then sigchld_handler sys (child_changed pid status st1) else Some st1)"

text \<open>
  One round of the inner loop of \<open>job_sweep\<close>: the new state and whether \<open>all_exited\<close> may stay
  set.
\<close>

definition sweep_proc :: "'w sys \<Rightarrow> nat \<Rightarrow> nat \<Rightarrow> 'w shell \<Rightarrow> bool \<times> 'w shell" where
  "sweep_proc sys i p st =
    (let q = job_procs (job_at i st) ! p
     in if jp_exited q then (True, st)
        else case os_call (sys_waitpid sys (jp_pid q) [WNOHANG, WUNTRACED, WCONTINUED]) st of
          ((res, status, e), st1) \<Rightarrow>
            if res > 0 then
              (case status of
                 WStopped _ \<Rightarrow> (False, upd_job i (\<lambda>j. j\<lparr>job_state := JOB_STOPPED\<rparr>) st1)
               | WContinued \<Rightarrow> (False, upd_job i (\<lambda>j. j\<lparr>job_state := JOB_RUNNING\<rparr>) st1)
               | _ \<Rightarrow> (True, upd_job i (mark_exited p) st1))
            else if res = 0 then (False, st1)
            else (True, upd_job i (mark_exited p) st1))"

fun sweep_procs :: "'w sys \<Rightarrow> nat \<Rightarrow> nat list \<Rightarrow> bool \<Rightarrow> 'w shell \<Rightarrow> bool \<times> 'w shell" where
  "sweep_procs sys i [] ok st = (ok, st)"
| "sweep_procs sys i (p # ps) ok st =
    (case sweep_proc sys i p st of (b, st1) \<Rightarrow> sweep_procs sys i ps (ok \<and> b) st1)"

definition sweep_job :: "'w sys \<Rightarrow> nat \<Rightarrow> 'w shell \<Rightarrow> 'w shell" where
  "sweep_job sys i st =
    (if \<not> job_active (job_at i st) then st
     else case sweep_procs sys i [0..<num_procs (job_at i st)] True st of
       (ok, st1) \<Rightarrow> if ok then upd_job i (\<lambda>j. j\<lparr>job_active := False\<rparr>) st1 else st1)"

definition job_sweep :: "'w sys \<Rightarrow> 'w shell \<Rightarrow> 'w shell" where
  "job_sweep sys st = fold (sweep_job sys) [0..<MAX_JOBS] st"

definition job_has_stopped :: "'w sys \<Rightarrow> 'w shell \<Rightarrow> bool \<times> 'w shell" where
  "job_has_stopped sys st =
    (let st1 = job_sweep sys st
     in (list_ex (\<lambda>j. job_active j \<and> job_state j = JOB_STOPPED) (g_jobs st1), st1))"

fun sighup_loop :: "'w sys \<Rightarrow> Job list \<Rightarrow> 'w shell \<Rightarrow> 'w shell" where
  "sighup_loop sys [] st = st"
| "sighup_loop sys (j # js) st =
    sighup_loop sys js (if job_active j \<and> job_pgid j > 0 then snd (os_call (sys_kill sys (- job_pgid j) SIGHUP) st) else st)"

definition job_kill_all_sighup :: "'w sys \<Rightarrow> 'w shell \<Rightarrow> 'w shell" where
  "job_kill_all_sighup sys st = sighup_loop sys (g_jobs st) st"

definition job_get_next_number :: "'w shell \<Rightarrow> int" where
  "job_get_next_number st = g_next_job_num st"

definition term_handle_ctrl_d :: "'w sys \<Rightarrow> 'w shell \<Rightarrow> bool \<times> 'w shell" where
  "term_handle_ctrl_d sys st =
    (case job_has_stopped sys st of
       (stopped, st1) \<Rightarrow>
         if stopped then
           if g_ctrl_d_warned st1 then (True, st1)
           else (False, (emit (''cshell: there are stopped jobs'' @ newline) st1)\<lparr>g_ctrl_d_warned := True\<rparr>)
         else (True, st1))"

definition term_reset_ctrl_d :: "'w shell \<Rightarrow> 'w shell" where
  "term_reset_ctrl_d st = st\<lparr>g_ctrl_d_warned := False\<rparr>"

section \<open>The list of jobs\<close>

definition state_str :: "Job \<Rightarrow> string" where
  "state_str j = (if job_state j = JOB_STOPPED then ''Stopped'' else ''Running'')"

definition job_lines :: "Job \<Rightarrow> string" where
  "job_lines j =
    CHR ''['' # dec (job_number j) @ ''] pgid '' @ dec (job_pgid j) @ newline
    @ concat (map (\<lambda>p. if jp_exited p then [] else
        ''  '' @ dec (jp_pid p) @ '' '' @ jp_cmd_name p @ ''  '' @ state_str j @ newline) (procs_of j))"

fun activities_loop :: "nat list \<Rightarrow> 'w shell \<Rightarrow> 'w shell" where
  "activities_loop [] st = st"
| "activities_loop (i # is) st =
    activities_loop is (case job_get_by_number (int i + 1) st of
       None \<Rightarrow> st
     | Some k \<Rightarrow> emit (job_lines (job_at k st)) st)"

definition activities_builtin :: "'w sys \<Rightarrow> 'w shell \<Rightarrow> int \<times> 'w shell" where
  "activities_builtin sys st = (0, activities_loop [0..<MAX_JOBS] (job_sweep sys st))"

end
