(* ===== verification/JobCtl.thy ===== *)
theory JobCtl
  imports Jobs
begin

text \<open>The builtins that signal and resume jobs (\<open>ping.c\<close>, \<open>resume.c\<close>).\<close>

section \<open>ping\<close>

definition is_valid_signal_number :: "string \<Rightarrow> int option" where
  "is_valid_signal_number str =
    (if str = [] then None
     else if hd str = CHR ''-'' then None
     else if hd str = CHR ''+'' \<and> tl str = [] then None
     else if \<not> list_all is_digit (if hd str = CHR ''+'' then tl str else str) then None
     else case strtol str of
       (val, rest, ov) \<Rightarrow> if ov \<or> rest \<noteq> [] \<or> val < 0 then None else Some val)"

text \<open>The fallback of \<open>ping\<close>: the signal goes to each process that has not exited.\<close>

fun kill_procs :: "'w sys \<Rightarrow> int \<Rightarrow> JobProc list \<Rightarrow> 'w shell \<Rightarrow> 'w shell" where
  "kill_procs sys sig [] st = st"
| "kill_procs sys sig (p # ps) st =
    kill_procs sys sig ps (if jp_exited p then st else snd (os_call (sys_kill sys (jp_pid p) sig) st))"

definition kill_job :: "'w sys \<Rightarrow> int \<Rightarrow> nat \<Rightarrow> 'w shell \<Rightarrow> 'w shell" where
  "kill_job sys sig i st =
    (let j = job_at i st
     in if job_pgid j > 0
        then case os_call (sys_kill sys (- job_pgid j) sig) st of
          ((r, e), st1) \<Rightarrow> if r = 0 then st1 else kill_procs sys sig (procs_of j) st1
        else kill_procs sys sig (procs_of j) st)"

definition set_state_for :: "int \<Rightarrow> Job \<Rightarrow> Job" where
  "set_state_for sig j =
    (if sig = SIGCONT then j\<lparr>job_state := JOB_RUNNING\<rparr>
     else if sig = SIGSTOP \<or> sig = SIGTSTP then j\<lparr>job_state := JOB_STOPPED\<rparr>
     else j)"

definition ping_no_process :: "'w shell \<Rightarrow> int \<times> 'w shell" where
  "ping_no_process st = (- 1, emit (''ping: no such process found'' @ newline) st)"

definition ping_sent :: "string list \<Rightarrow> 'w shell \<Rightarrow> int \<times> 'w shell" where
  "ping_sent argv st = (0, emit (''Sent signal '' @ argv ! 2 @ '' to '' @ argv ! 1 @ newline) st)"

definition ping_job :: "'w sys \<Rightarrow> string list \<Rightarrow> int \<Rightarrow> 'w shell \<Rightarrow> int \<times> 'w shell" where
  "ping_job sys argv sig st =
    (let target = tl (argv ! 1)
     in if target = [] \<or> hd target = CHR ''-'' then ping_no_process st
        else case strtol target of
          (job_num, rest, ov) \<Rightarrow>
            if rest \<noteq> [] \<or> job_num \<le> 0 then ping_no_process st
            else case job_get_by_number (to_int32 job_num) st of
              None \<Rightarrow> ping_no_process st
            | Some i \<Rightarrow> ping_sent argv (upd_job i (set_state_for sig) (kill_job sys sig i st)))"

definition ping_pid :: "'w sys \<Rightarrow> string list \<Rightarrow> int \<Rightarrow> 'w shell \<Rightarrow> int \<times> 'w shell" where
  "ping_pid sys argv sig st =
    (case strtol (argv ! 1) of
       (pid_val, rest, ov) \<Rightarrow>
         if rest \<noteq> [] \<or> pid_val \<le> 0 then ping_no_process st
         else case job_get_by_pid (to_int32 pid_val) st of
           None \<Rightarrow> ping_no_process st
         | Some (i, p) \<Rightarrow>
             if jp_exited (job_procs (job_at i st) ! p) then ping_no_process st
             else case os_call (sys_kill sys (to_int32 pid_val) sig) st of
               ((r, e), st1) \<Rightarrow>
                 if r < 0 \<and> e = ESRCH then ping_no_process st1
                 else ping_sent argv (upd_job i (set_state_for sig) st1))"

definition ping_builtin :: "'w sys \<Rightarrow> string list \<Rightarrow> 'w shell \<Rightarrow> int \<times> 'w shell" where
  "ping_builtin sys argv st =
    (if length argv \<noteq> 3 then (- 1, emit (''ping: invalid syntax'' @ newline) st)
     else case is_valid_signal_number (argv ! 2) of
       None \<Rightarrow> (- 1, emit (''ping: invalid syntax'' @ newline) st)
     | Some sig_num \<Rightarrow>
         let st1 = job_sweep sys st;
             sig = sig_num mod 64
         in if argv ! 1 \<noteq> [] \<and> hd (argv ! 1) = CHR 0x25 then ping_job sys argv sig st1
            else ping_pid sys argv sig st1)"

section \<open>resume\<close>

definition resume_syntax :: "'w shell \<Rightarrow> int \<times> 'w shell" where
  "resume_syntax st = (- 1, emit (''resume: invalid syntax'' @ newline) st)"

definition mark_pid :: "int \<Rightarrow> Job \<Rightarrow> Job" where
  "mark_pid pid j =
    (case find_idx (\<lambda>p. jp_pid p = pid) (procs_of j) of None \<Rightarrow> j | Some p \<Rightarrow> mark_exited p j)"

text \<open>
  The waiting loop of \<open>resume ... fg\<close>: the result says whether the job was stopped; \<open>None\<close>
  stands for a job that is waited for forever.
\<close>

partial_function (option) resume_wait :: "'w sys \<Rightarrow> nat \<Rightarrow> 'w shell \<Rightarrow> (bool \<times> 'w shell) option" where
  "resume_wait sys i st =
    (if sys_alarm_fired sys (sh_world st) then Some (False, st)
     else if all_exited (job_at i st) then Some (False, st)
     else case os_call (sys_waitpid sys (- job_pgid (job_at i st)) [WUNTRACED]) st of
       ((pid, status, e), st1) \<Rightarrow>
         if pid < 0 then
           (if e = EINTR then
              (if sys_alarm_fired sys (sh_world st1) then Some (False, st1) else resume_wait sys i st1)
            else Some (False, st1))
         else case status of
           WStopped _ \<Rightarrow> Some (True, st1)
         | WContinued \<Rightarrow> resume_wait sys i st1
         | _ \<Rightarrow> resume_wait sys i (upd_job i (mark_pid pid) st1))"

definition resume_bg :: "'w sys \<Rightarrow> nat \<Rightarrow> 'w shell \<Rightarrow> int \<times> 'w shell" where
  "resume_bg sys i st =
    (let st1 = snd (os_call (sys_kill sys (- job_pgid (job_at i st)) SIGCONT) st);
         st2 = upd_job i (\<lambda>j. j\<lparr>job_state := JOB_RUNNING\<rparr>) st1;
         j = job_at i st2
     in (0, emit (CHR ''['' # dec (job_number j) @ ''] + Running    '' @ job_cmd_line j @ newline) st2))"

definition resume_fg_start :: "'w sys \<Rightarrow> nat \<Rightarrow> int \<Rightarrow> 'w shell \<Rightarrow> 'w shell" where
  "resume_fg_start sys i timeout_sec st =
    (let st1 = emit (job_cmd_line (job_at i st) @ newline) st;
         st2 = term_give_to_pgid sys (job_pgid (job_at i st1)) st1;
         st3 = upd_job i (\<lambda>j. j\<lparr>job_state := JOB_RUNNING\<rparr>) st2;
         st4 = snd (os_call (sys_kill sys (- job_pgid (job_at i st3)) SIGCONT) st3);
         st5 = st4\<lparr>sh_world := sys_alarm_clear sys (sh_world st4)\<rparr>;
         st6 = (if timeout_sec > 0 then st5\<lparr>sh_world := sys_alarm sys (timeout_sec mod 2 ^ 32) (sh_world st5)\<rparr> else st5)
     in term_block_sigchld st6)"

definition resume_fg_end :: "'w sys \<Rightarrow> nat \<Rightarrow> int \<Rightarrow> bool \<Rightarrow> 'w shell \<Rightarrow> int \<times> 'w shell" where
  "resume_fg_end sys i timeout_sec stopped st =
    (let st1 = (if timeout_sec > 0 then st\<lparr>sh_world := sys_alarm sys 0 (sh_world st)\<rparr> else st);
         st2 =
           (if sys_alarm_fired sys (sh_world st1) then
              let st3 = snd (os_call (sys_kill sys (- job_pgid (job_at i st1)) SIGTERM) st1);
                  st4 = emit (''resume: job timed out'' @ newline) st3
              in upd_job i (\<lambda>j. j\<lparr>job_active := False\<rparr>) st4
            else if stopped then
              let st3 = upd_job i (\<lambda>j. j\<lparr>job_state := JOB_STOPPED\<rparr>) st1;
                  j = job_at i st3
              in emit (CHR ''['' # dec (job_number j) @ ''] + Stopped    '' @ job_cmd_line j @ newline) st3
            else if all_exited (job_at i st1) then upd_job i (\<lambda>j. j\<lparr>job_active := False\<rparr>) st1
            else st1)
     in (0, term_unblock_sigchld (term_reclaim sys st2)))"

definition resume_fg :: "'w sys \<Rightarrow> nat \<Rightarrow> int \<Rightarrow> 'w shell \<Rightarrow> (int \<times> 'w shell) option" where
  "resume_fg sys i timeout_sec st =
    (case resume_wait sys i (resume_fg_start sys i timeout_sec st) of
       None \<Rightarrow> None
     | Some (stopped, st1) \<Rightarrow> Some (resume_fg_end sys i timeout_sec stopped st1))"

text \<open>The arguments of \<open>resume\<close>: job number, foreground or not, timeout; \<open>None\<close> is a syntax error.\<close>

definition resume_args :: "string list \<Rightarrow> (int \<times> bool \<times> int) option" where
  "resume_args argv =
    (if length argv < 3 then None
     else if argv ! 1 = [] \<or> hd (argv ! 1) \<noteq> CHR 0x25 then None
     else case strtol (tl (argv ! 1)) of
       (job_num, rest, ov) \<Rightarrow>
         if rest \<noteq> [] \<or> job_num \<le> 0 then None
         else if argv ! 2 = ''bg'' then (if length argv \<noteq> 3 then None else Some (job_num, False, 0))
         else if argv ! 2 = ''fg'' then
           (if length argv = 3 then Some (job_num, True, 0)
            else if length argv = 5 \<and> argv ! 3 = ''--timeout'' then
              (case strtol (argv ! 4) of
                 (timeout_sec, tend, ov') \<Rightarrow>
                   if tend \<noteq> [] \<or> timeout_sec \<le> 0 then None else Some (job_num, True, timeout_sec))
            else None)
         else None)"

definition resume_builtin :: "'w sys \<Rightarrow> string list \<Rightarrow> 'w shell \<Rightarrow> (int \<times> 'w shell) option" where
  "resume_builtin sys argv st =
    (case resume_args argv of
       None \<Rightarrow> Some (resume_syntax st)
     | Some (job_num, is_fg, timeout_sec) \<Rightarrow>
         let st1 = job_sweep sys st
         in case job_get_by_number (to_int32 job_num) st1 of
              None \<Rightarrow> Some (- 1, emit (''resume: no such job'' @ newline) st1)
            | Some i \<Rightarrow> if is_fg then resume_fg sys i timeout_sec st1 else Some (resume_bg sys i st1))"

end
