(* ===== verification/JobProps.thy ===== *)
theory JobProps
  imports JobCtl "HOL-Library.Multiset"
begin

text \<open>
  The job table is well formed in every state the shell reaches, the list of \<open>activities\<close>,
  the reaping of children, \<open>Ctrl-D\<close>, and the errors of \<open>ping\<close> and \<open>resume\<close>.
\<close>

section \<open>The invariant of the job table\<close>

definition job_ok :: "Job \<Rightarrow> bool" where
  "job_ok j \<longleftrightarrow> length (job_procs j) = MAX_PROCS_PER_JOB \<and> num_procs j \<le> MAX_PROCS_PER_JOB"

definition jobs_ok :: "int \<Rightarrow> Job list \<Rightarrow> bool" where
  "jobs_ok next js \<longleftrightarrow> length js = MAX_JOBS \<and> 1 \<le> next
    \<and> (\<forall>i<length js. job_ok (js ! i) \<and> (job_active (js ! i) \<longrightarrow> 1 \<le> job_number (js ! i) \<and> job_number (js ! i) < next))
    \<and> (\<forall>i<length js. \<forall>k<length js. job_active (js ! i) \<longrightarrow> job_active (js ! k) \<longrightarrow>
         job_number (js ! i) = job_number (js ! k) \<longrightarrow> i = k)"

abbreviation jobs_inv :: "'w shell \<Rightarrow> bool" where
  "jobs_inv st \<equiv> jobs_ok (g_next_job_num st) (g_jobs st)"

text \<open>
  Most operations keep the number, the group and the processes of every job and never make a
  free slot active.
\<close>

definition job_le :: "Job \<Rightarrow> Job \<Rightarrow> bool" where
  "job_le j j' \<longleftrightarrow> job_number j' = job_number j \<and> job_pgid j' = job_pgid j \<and> job_cmd_line j' = job_cmd_line j
    \<and> num_procs j' = num_procs j \<and> length (job_procs j') = length (job_procs j) \<and> (\<forall>p<length (job_procs j). jp_pid (job_procs j' ! p) = jp_pid (job_procs j ! p))
    \<and> (job_active j' \<longrightarrow> job_active j)"

definition jobs_kept :: "'w shell \<Rightarrow> 'w shell \<Rightarrow> bool" where
  "jobs_kept st st' \<longleftrightarrow> g_next_job_num st' = g_next_job_num st \<and> list_all2 job_le (g_jobs st) (g_jobs st')"

lemma job_le_refl [simp]: "job_le j j"
  by (simp add: job_le_def)

lemma job_le_trans: "job_le j k \<Longrightarrow> job_le k l \<Longrightarrow> job_le j l"
  by (auto simp: job_le_def)

lemma jobs_kept_refl [simp]: "jobs_kept st st"
  by (simp add: jobs_kept_def list_all2_refl)

lemma jobs_kept_trans: "jobs_kept st st1 \<Longrightarrow> jobs_kept st1 st2 \<Longrightarrow> jobs_kept st st2"
  unfolding jobs_kept_def using list_all2_trans [of job_le job_le job_le, OF job_le_trans] by auto

lemma jobs_kept_same:
  assumes "g_jobs st' = g_jobs st" and "g_next_job_num st' = g_next_job_num st" and "jobs_kept s st"
  shows "jobs_kept s st'"
  using assms by (simp add: jobs_kept_def)

lemma jobs_kept_upd:
  assumes "jobs_kept s st" and "\<And>j. job_le j (f j)"
  shows "jobs_kept s (upd_job i f st)"
proof -
  have "jobs_kept st (upd_job i f st)"
    using assms(2) by (simp add: jobs_kept_def list_all2_conv_all_nth nth_upd_nth)
  with assms(1) show ?thesis by (rule jobs_kept_trans)
qed

lemma jobs_kept_emit: "jobs_kept s st \<Longrightarrow> jobs_kept s (emit x st)"
  by (rule jobs_kept_same [of _ st]) simp_all

lemma jobs_kept_os_call: "jobs_kept s st \<Longrightarrow> jobs_kept s (snd (os_call f st))"
  by (rule jobs_kept_same [of _ st]) simp_all

lemma jobs_kept_os_callD: "os_call f st = (r, st1) \<Longrightarrow> jobs_kept s st \<Longrightarrow> jobs_kept s st1"
  using jobs_kept_os_call [of s st f] by simp

lemma job_le_simps [simp]:
  "job_le j (j\<lparr>job_state := s\<rparr>)" "job_le j (j\<lparr>job_active := False\<rparr>)" "job_le j (mark_exited p j)"
  "job_le j (mark_pid pid j)" "job_le j (set_state_for sig j)"
proof -
  show *: "job_le j (mark_exited p j)" for p
    by (simp add: job_le_def mark_exited_def nth_upd_nth)
  show "job_le j (mark_pid pid j)" using * by (simp add: mark_pid_def split: option.split)
qed (simp_all add: job_le_def set_state_for_def)

lemmas kept_intros = jobs_kept_upd jobs_kept_emit jobs_kept_os_call jobs_kept_refl

lemma jobs_kept_inv:
  assumes "jobs_inv st" and "jobs_kept st st'"
  shows "jobs_inv st'"
proof -
  from assms(2) have len: "length (g_jobs st') = length (g_jobs st)" and nxt: "g_next_job_num st' = g_next_job_num st"
    and le: "\<And>i. i < length (g_jobs st) \<Longrightarrow> job_le (g_jobs st ! i) (g_jobs st' ! i)"
    by (auto simp: jobs_kept_def list_all2_conv_all_nth)
  have ok: "job_ok (job_at i st')" "job_active (job_at i st') \<Longrightarrow> 1 \<le> job_number (job_at i st') \<and> job_number (job_at i st') < g_next_job_num st"
    if "i < length (g_jobs st)" for i
    using assms(1) le [OF that] that unfolding jobs_ok_def job_le_def job_ok_def by simp_all
  have "i = k" if "i < length (g_jobs st)" "k < length (g_jobs st)" "job_active (job_at i st')" "job_active (job_at k st')"
    "job_number (job_at i st') = job_number (job_at k st')" for i k
    using assms(1) le [OF that(1)] le [OF that(2)] that unfolding jobs_ok_def job_le_def by simp
  with ok show ?thesis using assms(1) unfolding jobs_ok_def len nxt by blast
qed

section \<open>Operations that keep the jobs\<close>

lemma child_changed_kept: "jobs_kept s st \<Longrightarrow> jobs_kept s (child_changed pid status st)"
  by (cases "job_get_by_pid pid st"; cases status) (simp_all add: child_changed_def Let_def jobs_kept_upd jobs_kept_emit split: prod.split)

lemma sigchld_kept:
  assumes "sigchld_handler sys st = Some st'"
  shows "jobs_kept st st'"
proof (rule sigchld_handler.raw_induct [OF _ assms], goal_cases)
  case (1 f sys st st')
  obtain pid status e st1 where c: "os_call (sys_waitpid sys (- 1) [WNOHANG, WUNTRACED, WCONTINUED]) st = ((pid, status, e), st1)"
    by (metis prod.exhaust)
  have k: "jobs_kept st st1" by (rule jobs_kept_os_callD [OF c jobs_kept_refl])
  show ?case
  proof (cases "0 < pid")
    case True
    with 1(2) c have "f sys (child_changed pid status st1) = Some st'" by simp
    from 1(1) [OF this] show ?thesis by (rule jobs_kept_trans [OF child_changed_kept [OF k]])
  next
    case False
    with 1(2) c k show ?thesis by simp
  qed
qed

lemma sweep_proc_kept: "jobs_kept s st \<Longrightarrow> jobs_kept s (snd (sweep_proc sys i p st))"
proof -
  assume k: "jobs_kept s st"
  let ?q = "job_procs (job_at i st) ! p"
  obtain res status e st1 where c: "os_call (sys_waitpid sys (jp_pid ?q) [WNOHANG, WUNTRACED, WCONTINUED]) st = ((res, status, e), st1)"
    by (metis prod.exhaust)
  have "jobs_kept s st1" by (rule jobs_kept_os_callD [OF c k])
  with k show ?thesis by (cases status) (simp_all add: sweep_proc_def Let_def c jobs_kept_upd)
qed

lemma sweep_procs_kept: "jobs_kept s st \<Longrightarrow> jobs_kept s (snd (sweep_procs sys i ps ok st))"
proof (induction ps arbitrary: ok st)
  case (Cons p ps)
  then show ?case using sweep_proc_kept [OF Cons.prems, of sys i p] by (auto split: prod.split)
qed simp

lemma sweep_job_kept: "jobs_kept s st \<Longrightarrow> jobs_kept s (sweep_job sys i st)"
proof -
  assume k: "jobs_kept s st"
  obtain ok st1 where c: "sweep_procs sys i [0..<num_procs (job_at i st)] True st = (ok, st1)" by fastforce
  with sweep_procs_kept [OF k, of sys i "[0..<num_procs (job_at i st)]" True] have "jobs_kept s st1" by simp
  then show ?thesis using k by (simp add: sweep_job_def c jobs_kept_upd)
qed

lemma job_sweep_kept: "jobs_kept st (job_sweep sys st)"
proof -
  have "jobs_kept s st \<Longrightarrow> jobs_kept s (fold (sweep_job sys) is st)" for s :: "'a shell" and st "is"
    by (induction "is" arbitrary: st) (auto intro: sweep_job_kept)
  then show ?thesis by (simp add: job_sweep_def)
qed

lemma ctrl_d_kept: "jobs_kept st (snd (term_handle_ctrl_d sys st))"
proof -
  define st1 where "st1 = job_sweep sys st"
  have k: "jobs_kept st st1" by (simp add: st1_def job_sweep_kept)
  have "jobs_kept st ((emit x st1)\<lparr>g_ctrl_d_warned := True\<rparr>)" for x
    by (rule jobs_kept_same [OF _ _ k]) simp_all
  with k show ?thesis
    by (simp add: term_handle_ctrl_d_def job_has_stopped_def Let_def st1_def [symmetric])
qed

lemma kill_procs_kept: "jobs_kept s st \<Longrightarrow> jobs_kept s (kill_procs sys sig ps st)"
  by (induction ps arbitrary: st) (auto intro: kept_intros)

lemma kill_job_kept: "jobs_kept s st \<Longrightarrow> jobs_kept s (kill_job sys sig i st)"
proof -
  assume k: "jobs_kept s st"
  obtain r e st1 where c: "os_call (sys_kill sys (- job_pgid (job_at i st)) sig) st = ((r, e), st1)" by (metis prod.exhaust)
  have "jobs_kept s st1" by (rule jobs_kept_os_callD [OF c k])
  with k show ?thesis by (simp add: kill_job_def Let_def c kill_procs_kept)
qed

lemma ping_no_process_kept: "jobs_kept s st \<Longrightarrow> jobs_kept s (snd (ping_no_process st))"
  by (simp add: ping_no_process_def jobs_kept_emit)

lemma ping_sent_kept: "jobs_kept s st \<Longrightarrow> jobs_kept s (snd (ping_sent argv st))"
  by (simp add: ping_sent_def jobs_kept_emit)

lemma ping_job_kept: "jobs_kept s st \<Longrightarrow> jobs_kept s (snd (ping_job sys argv sig st))"
  by (auto simp: ping_job_def Let_def split: option.split prod.split
      intro!: ping_no_process_kept ping_sent_kept jobs_kept_upd kill_job_kept)

lemma ping_pid_kept:
  assumes k: "jobs_kept s st"
  shows "jobs_kept s (snd (ping_pid sys argv sig st))"
proof -
  have "jobs_kept s st1" if "os_call f st = (r, st1)" for f st1 and r :: "int \<times> errno"
    by (rule jobs_kept_os_callD [OF that k])
  then show ?thesis using k
    by (auto simp: ping_pid_def split: option.split prod.split intro!: ping_no_process_kept ping_sent_kept jobs_kept_upd)
qed

lemma ping_kept: "jobs_kept st (snd (ping_builtin sys argv st))"
  by (auto simp: ping_builtin_def Let_def split: option.split
      intro!: jobs_kept_emit ping_job_kept ping_pid_kept job_sweep_kept)

lemma resume_wait_kept:
  assumes "resume_wait sys i st = Some r"
  shows "jobs_kept st (snd r)"
proof (rule resume_wait.raw_induct [OF _ assms], goal_cases)
  case (1 f sys i st r)
  obtain pid status e st1 where c: "os_call (sys_waitpid sys (- job_pgid (job_at i st)) [WUNTRACED]) st = ((pid, status, e), st1)"
    by (metis prod.exhaust)
  have k: "jobs_kept st st1" by (rule jobs_kept_os_callD [OF c jobs_kept_refl])
  have again: "jobs_kept st (snd r)" if "f sys i st2 = Some r" "jobs_kept st st2" for st2
    by (rule jobs_kept_trans [OF that(2) 1(1) [OF that(1)]])
  show ?case
  proof (cases "sys_alarm_fired sys (sh_world st) \<or> all_exited (job_at i st)")
    case True
    with 1(2) show ?thesis by (auto split: if_splits)
  next
    case False
    with 1(2) c k again [OF _ k] again [OF _ jobs_kept_upd [OF k, of "mark_pid pid" i]] show ?thesis
      by (cases status) (auto split: if_splits)
  qed
qed

lemma term_kept: "jobs_kept s st \<Longrightarrow> jobs_kept s (term_give_to_pgid sys pgid st)"
  "jobs_kept s st \<Longrightarrow> jobs_kept s (term_reclaim sys st)"
  "jobs_kept s st \<Longrightarrow> jobs_kept s (term_block_sigchld st)"
  "jobs_kept s st \<Longrightarrow> jobs_kept s (term_unblock_sigchld st)"
  "jobs_kept s st \<Longrightarrow> jobs_kept s (st\<lparr>sh_world := w\<rparr>)"
  by (simp_all add: term_give_to_pgid_def term_reclaim_def term_block_sigchld_def term_unblock_sigchld_def jobs_kept_def)

lemma resume_fg_start_kept: "jobs_kept s st \<Longrightarrow> jobs_kept s (resume_fg_start sys i t st)"
  by (simp add: resume_fg_start_def Let_def jobs_kept_upd jobs_kept_emit jobs_kept_os_call term_kept)

lemma resume_fg_end_kept: "jobs_kept s st \<Longrightarrow> jobs_kept s (snd (resume_fg_end sys i t b st))"
  by (simp add: resume_fg_end_def Let_def jobs_kept_upd jobs_kept_emit jobs_kept_os_call term_kept)

lemma resume_kept:
  assumes "resume_builtin sys argv st = Some r"
  shows "jobs_kept st (snd r)"
proof -
  define st1 where "st1 = job_sweep sys st"
  have k: "jobs_kept st st1" by (simp add: st1_def job_sweep_kept)
  have fg: "jobs_kept st (snd r)" if "resume_fg sys i t st1 = Some r" for i t
  proof -
    from that obtain b st2 where w: "resume_wait sys i (resume_fg_start sys i t st1) = Some (b, st2)"
      and r: "r = resume_fg_end sys i t b st2"
      by (auto simp: resume_fg_def split: option.splits)
    from resume_wait_kept [OF w] have "jobs_kept st st2"
      using jobs_kept_trans [OF resume_fg_start_kept [OF k]] by simp
    then show ?thesis by (simp add: r resume_fg_end_kept)
  qed
  have bg: "jobs_kept st (snd (resume_bg sys i st1))" for i
    by (simp add: resume_bg_def Let_def k jobs_kept_upd jobs_kept_emit jobs_kept_os_call)
  from assms show ?thesis
    by (auto simp: resume_builtin_def resume_syntax_def st1_def [symmetric] Let_def k bg jobs_kept_emit
        split: option.splits if_splits intro: fg)
qed

section \<open>Operations on the table\<close>

lemma jobs_ok_free_slot:
  assumes "jobs_ok next js" and "find_idx (\<lambda>j. \<not> job_active j) js = Some i"
    and "job_number j' = next" and "job_ok j'"
  shows "jobs_ok (next + 1) (js[i := j'])"
proof -
  from find_idxD [OF assms(2)] have i: "i < length js" "\<not> job_active (js ! i)" by simp_all
  have lt: "k < length js \<Longrightarrow> job_active (js ! k) \<Longrightarrow> job_number (js ! k) < next" for k
    using assms(1) unfolding jobs_ok_def by blast
  have "job_ok (js[i := j'] ! k) \<and> (job_active (js[i := j'] ! k) \<longrightarrow> 1 \<le> job_number (js[i := j'] ! k) \<and> job_number (js[i := j'] ! k) < next + 1)"
    if "k < length js" for k
    using assms that unfolding jobs_ok_def by (cases "k = i") auto
  moreover have "k = l" if "k < length js" "l < length js" "job_active (js[i := j'] ! k)" "job_active (js[i := j'] ! l)"
    "job_number (js[i := j'] ! k) = job_number (js[i := j'] ! l)" for k l
    using that assms(1,3) lt [of k] lt [of l] unfolding jobs_ok_def
    by (cases "k = i"; cases "l = i") auto
  ultimately show ?thesis using assms(1) unfolding jobs_ok_def by simp
qed

lemma job_add_inv:
  assumes "jobs_inv st"
  shows "jobs_inv (snd (job_add pgid cmd state st))"
proof (cases "find_idx (\<lambda>j. \<not> job_active j) (g_jobs st)")
  case None
  with assms show ?thesis by (simp add: job_add_def)
next
  case (Some i)
  then have i: "i < length (g_jobs st)" by (simp add: find_idxD)
  then have "job_ok (job_at i st)" using assms by (simp add: jobs_ok_def)
  then show ?thesis using jobs_ok_free_slot [OF assms Some] i
    by (simp add: job_add_def Some upd_nth_def job_ok_def)
qed

lemma job_add_proc_inv:
  assumes "jobs_inv st"
  shows "jobs_inv (job_add_proc job pid name st)"
proof (cases "\<exists>i. job = Some i \<and> num_procs (job_at i st) < MAX_PROCS_PER_JOB")
  case False
  then have "job_add_proc job pid name st = st" by (auto simp: job_add_proc_def split: option.split)
  with assms show ?thesis by simp
next
  case True
  then obtain i nm where i: "num_procs (job_at i st) < MAX_PROCS_PER_JOB"
    "job_add_proc job pid name st = upd_job i (\<lambda>j. j\<lparr>job_procs := upd_nth (num_procs (job_at i st)) (\<lambda>p. \<lparr>jp_pid = pid,
       jp_cmd_name = nm, jp_exited = False\<rparr>) (job_procs j), num_procs := num_procs (job_at i st) + 1\<rparr>) st"
    by (fastforce simp: job_add_proc_def Let_def)
  show ?thesis unfolding i(2) jobs_ok_def
    using i(1) assms by (simp add: jobs_ok_def job_ok_def nth_upd_nth) metis
qed

lemma job_remove_kept: "jobs_kept s st \<Longrightarrow> jobs_kept s (job_remove n st)"
  by (auto simp: job_remove_def split: option.split intro: jobs_kept_upd)

lemma activities_loop_simps [simp]:
  "g_jobs (activities_loop is st) = g_jobs st" "g_next_job_num (activities_loop is st) = g_next_job_num st"
  by (induction "is" st rule: activities_loop.induct) (simp_all split: option.split)

lemma activities_kept: "jobs_kept st (snd (activities_builtin sys st))"
  by (rule jobs_kept_same [OF _ _ job_sweep_kept [of st sys]]) (simp_all add: activities_builtin_def)

section \<open>The states of the job table\<close>

text \<open>
  Any sequence of the operations on the table: pipelines add jobs and processes, the shell is
  interrupted by \<open>SIGCHLD\<close>, and the builtins run.
\<close>

inductive job_step :: "'w sys \<Rightarrow> 'w shell \<Rightarrow> 'w shell \<Rightarrow> bool" for sys where
  js_add: "job_step sys st (snd (job_add pgid cmd state st))"
| js_add_proc: "job_step sys st (job_add_proc job pid name st)"
| js_remove: "job_step sys st (job_remove n st)"
| js_child: "sigchld_handler sys st = Some st' \<Longrightarrow> job_step sys st st'"
| js_sweep: "job_step sys st (job_sweep sys st)"
| js_ctrl_d: "job_step sys st (snd (term_handle_ctrl_d sys st))"
| js_reset: "job_step sys st (term_reset_ctrl_d st)"
| js_activities: "job_step sys st (snd (activities_builtin sys st))"
| js_ping: "job_step sys st (snd (ping_builtin sys argv st))"
| js_resume: "resume_builtin sys argv st = Some (r, st') \<Longrightarrow> job_step sys st st'"

inductive job_reach :: "'w sys \<Rightarrow> 'w shell \<Rightarrow> bool" for sys where
  jr_init: "g_next_job_num st = 1 \<Longrightarrow> job_reach sys (term_control_init sys st)"
| jr_step: "job_reach sys st \<Longrightarrow> job_step sys st st' \<Longrightarrow> job_reach sys st'"

lemma job_step_inv:
  assumes "job_step sys st st'" and "jobs_inv st"
  shows "jobs_inv st'"
  using assms(1)
proof cases
  case js_add
  with assms(2) show ?thesis by (simp add: job_add_inv)
next
  case js_add_proc
  with assms(2) show ?thesis by (simp add: job_add_proc_inv)
next
  case js_remove
  with assms(2) show ?thesis using jobs_kept_inv job_remove_kept jobs_kept_refl by blast
next
  case js_child
  with assms(2) show ?thesis using jobs_kept_inv sigchld_kept by blast
next
  case js_sweep
  with assms(2) show ?thesis using jobs_kept_inv job_sweep_kept by blast
next
  case js_ctrl_d
  with assms(2) show ?thesis using jobs_kept_inv ctrl_d_kept by blast
next
  case js_reset
  with assms(2) show ?thesis by (simp add: term_reset_ctrl_d_def)
next
  case js_activities
  with assms(2) show ?thesis using jobs_kept_inv activities_kept by blast
next
  case js_ping
  with assms(2) show ?thesis using jobs_kept_inv ping_kept by blast
next
  case (js_resume argv r)
  with assms(2) show ?thesis using jobs_kept_inv resume_kept [OF js_resume] by simp
qed

lemma init_inv: "g_next_job_num st = 1 \<Longrightarrow> jobs_inv (term_control_init sys st)"
  by (simp add: term_control_init_def jobs_ok_def job_ok_def blank_job_def)

lemma job_reach_inv: "job_reach sys st \<Longrightarrow> jobs_inv st"
  by (induction rule: job_reach.induct) (simp_all add: init_inv job_step_inv)

lemma job_get_by_number_iff:
  assumes "jobs_inv st"
  shows "job_get_by_number n st = Some i \<longleftrightarrow> i < MAX_JOBS \<and> job_active (job_at i st) \<and> job_number (job_at i st) = n"
proof -
  have len: "length (g_jobs st) = MAX_JOBS" and
    uniq: "i < MAX_JOBS \<Longrightarrow> k < MAX_JOBS \<Longrightarrow> job_active (job_at i st) \<Longrightarrow> job_active (job_at k st) \<Longrightarrow>
      job_number (job_at i st) = job_number (job_at k st) \<Longrightarrow> i = k" for i k
    using assms unfolding jobs_ok_def by auto
  show ?thesis unfolding job_get_by_number_def find_idx_Some len
    using uniq by (metis less_trans nat_neq_iff)
qed

section \<open>The listing\<close>

lemma activities_loop_out:
  "sh_out (activities_loop is st) = sh_out st
    @ concat (map (\<lambda>i. case job_get_by_number (int i + 1) st of None \<Rightarrow> [] | Some k \<Rightarrow> job_lines (job_at k st)) is)"
proof (induction "is" arbitrary: st)
  case (Cons i "is")
  have same: "job_get_by_number n (emit x st) = job_get_by_number n st" for n x by (simp add: job_get_by_number_def)
  show ?case using Cons.IH
    by (cases "job_get_by_number (int i + 1) st") (simp_all add: same cong: option.case_cong)
qed simp

lemma distinct_key_filter:
  assumes "\<And>i k. i < length xs \<Longrightarrow> k < length xs \<Longrightarrow> P (xs ! i) \<Longrightarrow> P (xs ! k) \<Longrightarrow> f (xs ! i) = f (xs ! k) \<Longrightarrow> i = k"
  shows "distinct (map f (filter P xs))"
  using assms
proof (induction xs)
  case (Cons x xs)
  have "distinct (map f (filter P xs))"
    by (rule Cons.IH) (use Cons.prems [of "Suc _" "Suc _"] in auto)
  moreover have "f x \<notin> f ` set (filter P xs)" if "P x"
    using Cons.prems [of 0 "Suc _"] that by (fastforce simp: in_set_conv_nth)
  ultimately show ?case by simp
qed simp

text \<open>The jobs in the order in which the loop finds them.\<close>

definition found_jobs :: "nat list \<Rightarrow> 'w shell \<Rightarrow> Job list" where
  "found_jobs is st = concat (map (\<lambda>i. case job_get_by_number (int i + 1) st of None \<Rightarrow> [] | Some k \<Rightarrow> [job_at k st]) is)"

lemma found_jobs_keys:
  assumes "jobs_inv st"
  shows "sorted (map job_number (found_jobs [m..<n] st)) \<and> distinct (found_jobs [m..<n] st)
    \<and> (\<forall>j\<in>set (found_jobs [m..<n] st). int m < job_number j \<and> job_number j \<le> int n)"
proof (induction n)
  case (Suc n)
  show ?case
  proof (cases "m \<le> n \<and> job_get_by_number (int n + 1) st \<noteq> None")
    case True
    then obtain k where k: "job_get_by_number (int n + 1) st = Some k" by blast
    then have "job_number (job_at k st) = int n + 1" using job_get_by_number_iff [OF assms] by blast
    with Suc True k show ?thesis by (fastforce simp: found_jobs_def sorted_append)
  next
    case False
    then show ?thesis using Suc by (cases "m \<le> n") (fastforce simp: found_jobs_def)+
  qed
qed (simp add: found_jobs_def)

lemma set_case_option: "set (case x of None \<Rightarrow> [] | Some k \<Rightarrow> [f k]) = {y. \<exists>k. x = Some k \<and> y = f k}"
  by (auto split: option.split)

lemma found_jobs_set:
  assumes "jobs_inv st"
  shows "set (found_jobs [0..<MAX_JOBS] st) = set (filter (\<lambda>j. job_active j \<and> job_number j \<le> int MAX_JOBS) (g_jobs st))"
proof -
  have len: "length (g_jobs st) = MAX_JOBS" and pos: "i < MAX_JOBS \<Longrightarrow> job_active (job_at i st) \<Longrightarrow> 1 \<le> job_number (job_at i st)" for i
    using assms unfolding jobs_ok_def by auto
  have "j \<in> set (found_jobs [0..<MAX_JOBS] st) \<longleftrightarrow>
      (\<exists>n<MAX_JOBS. \<exists>k. job_get_by_number (int n + 1) st = Some k \<and> j = job_at k st)" for j
    by (simp add: found_jobs_def set_case_option) force
  also have "\<dots> j \<longleftrightarrow> (\<exists>k<MAX_JOBS. j = job_at k st \<and> job_active j \<and> job_number j \<le> int MAX_JOBS)" for j
  proof
    assume "\<exists>k<MAX_JOBS. j = job_at k st \<and> job_active j \<and> job_number j \<le> int MAX_JOBS"
    then obtain k where k: "k < MAX_JOBS" "j = job_at k st" "job_active j" "job_number j \<le> int MAX_JOBS" by blast
    with pos [of k] have "nat (job_number j - 1) < MAX_JOBS" "int (nat (job_number j - 1)) + 1 = job_number j" by auto
    with k show "\<exists>n<MAX_JOBS. \<exists>k. job_get_by_number (int n + 1) st = Some k \<and> j = job_at k st"
      using job_get_by_number_iff [OF assms] by metis
  qed (use job_get_by_number_iff [OF assms] in fastforce)
  finally show ?thesis using len by (auto simp: in_set_conv_nth)
qed

section \<open>Reaping\<close>

text \<open>
  \<open>delivers sys evs w w'\<close>: asked repeatedly for any child, \<open>waitpid\<close> reports the changes \<open>evs\<close>
  and then that there is no other.
\<close>

fun delivers :: "'w sys \<Rightarrow> (int \<times> wstatus) list \<Rightarrow> 'w \<Rightarrow> 'w \<Rightarrow> bool" where
  "delivers sys [] w w' =
    (case sys_waitpid sys (- 1) [WNOHANG, WUNTRACED, WCONTINUED] w of ((pid, s, e), w1) \<Rightarrow> pid \<le> 0 \<and> w1 = w')"
| "delivers sys (ev # evs) w w' =
    (case sys_waitpid sys (- 1) [WNOHANG, WUNTRACED, WCONTINUED] w of
       ((pid, s, e), w1) \<Rightarrow> pid > 0 \<and> ev = (pid, s) \<and> delivers sys evs w1 w')"

definition after_events :: "(int \<times> wstatus) list \<Rightarrow> 'w shell \<Rightarrow> 'w shell" where
  "after_events evs st = fold (\<lambda>(pid, s). child_changed pid s) evs st"

lemma upd_job_world: "upd_job i f (st\<lparr>sh_world := w\<rparr>) = (upd_job i f st)\<lparr>sh_world := w\<rparr>"
  by (simp add: upd_job_def)

lemma emit_world: "emit x (st\<lparr>sh_world := w\<rparr>) = (emit x st)\<lparr>sh_world := w\<rparr>"
  by (simp add: emit_def)

lemma child_changed_world: "child_changed pid s (st\<lparr>sh_world := w\<rparr>) = (child_changed pid s st)\<lparr>sh_world := w\<rparr>"
  by (cases "job_get_by_pid pid st"; cases s)
    (simp_all add: child_changed_def job_get_by_pid_def Let_def upd_job_world emit_world split: prod.split)

lemma child_changed_sh_world [simp]: "sh_world (child_changed pid s st) = sh_world st"
  by (cases "job_get_by_pid pid st"; cases s) (simp_all add: child_changed_def Let_def split: prod.split)

lemma sigchld_handler_runs:
  "delivers sys evs (sh_world st) w' \<Longrightarrow> sigchld_handler sys st = Some ((after_events evs st)\<lparr>sh_world := w'\<rparr>)"
proof (induction evs arbitrary: st)
  case Nil
  then show ?case by (subst sigchld_handler.simps) (auto simp: after_events_def os_call_def split: prod.splits)
next
  case (Cons ev evs)
  obtain pid s e w1 where c: "sys_waitpid sys (- 1) [WNOHANG, WUNTRACED, WCONTINUED] (sh_world st) = ((pid, s, e), w1)"
    by (metis prod.exhaust)
  with Cons.prems have d: "pid > 0" "ev = (pid, s)" "delivers sys evs w1 w'" by auto
  have "sigchld_handler sys st = sigchld_handler sys (child_changed pid s (st\<lparr>sh_world := w1\<rparr>))"
    using d(1) by (subst sigchld_handler.simps) (simp add: os_call_def c)
  also have "\<dots> = Some ((after_events evs (child_changed pid s (st\<lparr>sh_world := w1\<rparr>)))\<lparr>sh_world := w'\<rparr>)"
    using d(3) by (intro Cons.IH) simp
  also have "\<dots> = Some ((after_events (ev # evs) st)\<lparr>sh_world := w'\<rparr>)"
  proof -
    have "after_events es (s1\<lparr>sh_world := w1\<rparr>) = (after_events es s1)\<lparr>sh_world := w1\<rparr>" for es and s1 :: "'a shell"
      by (induction es arbitrary: s1) (auto simp: after_events_def child_changed_world)
    then show ?thesis by (simp add: child_changed_world d(2)) (simp add: after_events_def)
  qed
  finally show ?case .
qed

text \<open>No process id occurs twice among the processes of the active jobs.\<close>

definition pids_unique :: "'w shell \<Rightarrow> bool" where
  "pids_unique st \<longleftrightarrow> (\<forall>i<length (g_jobs st). \<forall>k<length (g_jobs st). \<forall>p<num_procs (job_at i st). \<forall>q<num_procs (job_at k st).
     job_active (job_at i st) \<longrightarrow> job_active (job_at k st) \<longrightarrow>
     jp_pid (job_procs (job_at i st) ! p) = jp_pid (job_procs (job_at k st) ! q) \<longrightarrow> i = k \<and> p = q)"

lemma job_pid_scan_Some:
  "job_pid_scan pid js = Some (i, p) \<Longrightarrow> i < length js \<and> job_active (js ! i) \<and> p < length (procs_of (js ! i)) \<and> jp_pid (procs_of (js ! i) ! p) = pid"
proof (induction js arbitrary: i)
  case (Cons j js)
  then show ?case
    by (cases "job_active j"; cases "find_idx (\<lambda>p. jp_pid p = pid) (procs_of j)") (auto dest: find_idxD)
qed simp

lemma job_pid_scan_None:
  "job_pid_scan pid js = None \<Longrightarrow> i < length js \<Longrightarrow> job_active (js ! i) \<Longrightarrow> p < length (procs_of (js ! i)) \<Longrightarrow> jp_pid (procs_of (js ! i) ! p) \<noteq> pid"
proof (induction js arbitrary: i)
  case (Cons j js)
  show ?case
  proof (cases i)
    case 0
    with Cons.prems have "find_idx (\<lambda>p. jp_pid p = pid) (procs_of j) = None" by (auto split: option.splits if_splits)
    with 0 Cons.prems show ?thesis by (simp add: find_idx_None)
  next
    case (Suc k)
    have "job_pid_scan pid js = None" using Cons.prems(1) by (auto split: option.splits)
    with Suc Cons show ?thesis by simp
  qed
qed simp

lemma jobs_inv_procs:
  assumes "jobs_inv st" and "i < length (g_jobs st)"
  shows "length (procs_of (job_at i st)) = num_procs (job_at i st)" and "num_procs (job_at i st) \<le> length (job_procs (job_at i st))"
  using assms by (auto simp: jobs_ok_def job_ok_def procs_of_def)

lemma job_get_by_pid_unique:
  assumes "jobs_inv st" and "pids_unique st" and "i < length (g_jobs st)" and "job_active (job_at i st)"
    and "p < num_procs (job_at i st)"
  shows "job_get_by_pid (jp_pid (job_procs (job_at i st) ! p)) st = Some (i, p)"
proof -
  let ?pid = "jp_pid (job_procs (job_at i st) ! p)"
  have "job_pid_scan ?pid (g_jobs st) \<noteq> None"
  proof
    assume "job_pid_scan ?pid (g_jobs st) = None"
    from job_pid_scan_None [OF this assms(3,4), of p] show False
      using jobs_inv_procs [OF assms(1,3)] assms(5) by (simp add: procs_of_def)
  qed
  then obtain k q where kq: "job_pid_scan ?pid (g_jobs st) = Some (k, q)" by auto
  note k = job_pid_scan_Some [OF kq]
  then have "q < num_procs (job_at k st)" "jp_pid (job_procs (job_at k st) ! q) = ?pid"
    using jobs_inv_procs [OF assms(1), of k] by (auto simp: procs_of_def)
  then have "k = i \<and> q = p" using assms(2-5) k unfolding pids_unique_def by blast
  with kq show ?thesis by (simp add: job_get_by_pid_def)
qed

lemma pids_unique_kept:
  assumes "pids_unique st" and "jobs_kept st st'" and "jobs_inv st"
  shows "pids_unique st'"
proof -
  have len: "length (g_jobs st') = length (g_jobs st)" using assms(2) by (auto simp: jobs_kept_def list_all2_lengthD)
  have le: "num_procs (job_at i st') = num_procs (job_at i st) \<and> (job_active (job_at i st') \<longrightarrow> job_active (job_at i st))
      \<and> (p < num_procs (job_at i st) \<longrightarrow> jp_pid (job_procs (job_at i st') ! p) = jp_pid (job_procs (job_at i st) ! p))"
    if "i < length (g_jobs st)" for i p
  proof -
    from assms(2) that have "job_le (job_at i st) (job_at i st')" by (auto simp: jobs_kept_def list_all2_conv_all_nth)
    then show ?thesis using jobs_inv_procs(2) [OF assms(3) that] by (simp add: job_le_def)
  qed
  show ?thesis unfolding pids_unique_def len
  proof (intro allI impI)
    fix i k p q
    assume *: "i < length (g_jobs st)" "k < length (g_jobs st)" "p < num_procs (job_at i st')" "q < num_procs (job_at k st')"
      "job_active (job_at i st')" "job_active (job_at k st')"
      "jp_pid (job_procs (job_at i st') ! p) = jp_pid (job_procs (job_at k st') ! q)"
    with le [of i p] le [of k q] assms(1) show "i = k \<and> p = q" unfolding pids_unique_def by simp
  qed
qed

fun is_exit :: "wstatus \<Rightarrow> bool" where
  "is_exit (WExited c) = True"
| "is_exit (WSignaled c) = True"
| "is_exit _ = False"

text \<open>
  Job \<open>i\<close> is over, or it still has a live process and the end of each of them is among the
  events to come.
\<close>

definition will_end :: "nat \<Rightarrow> (int \<times> wstatus) list \<Rightarrow> 'w shell \<Rightarrow> bool" where
  "will_end i evs st \<longleftrightarrow> \<not> job_active (job_at i st)
    \<or> (\<exists>p<num_procs (job_at i st). \<not> jp_exited (job_procs (job_at i st) ! p))
      \<and> (\<forall>p<num_procs (job_at i st). \<not> jp_exited (job_procs (job_at i st) ! p) \<longrightarrow>
           (\<exists>s. (jp_pid (job_procs (job_at i st) ! p), s) \<in> set evs \<and> is_exit s))"

lemma child_changed_other:
  assumes "job_get_by_pid pid st = Some (k, q)" and "k \<noteq> i"
  shows "job_at i (child_changed pid s st) = job_at i st"
  using assms by (cases s) (simp_all add: child_changed_def Let_def)

lemma child_changed_exit:
  assumes "job_get_by_pid pid st = Some (i, p)" and "is_exit s" and "i < length (g_jobs st)"
  shows "job_at i (child_changed pid s st) =
    (let j = mark_exited p (job_at i st) in if all_exited j then j\<lparr>job_active := False\<rparr> else j)"
  using assms by (cases s) (simp_all add: child_changed_def Let_def)

lemma child_changed_running:
  assumes "job_get_by_pid pid st = Some (i, p)" and "\<not> is_exit s" and "i < length (g_jobs st)"
  shows "\<exists>r. job_at i (child_changed pid s st) = (job_at i st)\<lparr>job_state := r\<rparr>"
  using assms by (cases s) (auto simp: child_changed_def Let_def)

lemma will_end_exit:
  assumes inv: "jobs_inv st" "i < length (g_jobs st)" and "p < num_procs (job_at i st)"
    and obl: "\<And>q. q < num_procs (job_at i st) \<Longrightarrow> q \<noteq> p \<Longrightarrow> \<not> jp_exited (job_procs (job_at i st) ! q) \<Longrightarrow>
      \<exists>s. (jp_pid (job_procs (job_at i st) ! q), s) \<in> set evs \<and> is_exit s"
    and st': "job_at i st' = (let j = mark_exited p (job_at i st) in if all_exited j then j\<lparr>job_active := False\<rparr> else j)"
  shows "will_end i evs st'"
proof (cases "all_exited (mark_exited p (job_at i st))")
  case True
  then show ?thesis by (simp add: will_end_def st' Let_def)
next
  case False
  let ?j = "mark_exited p (job_at i st)"
  note len = jobs_inv_procs(2) [OF inv]
  have m: "num_procs ?j = num_procs (job_at i st)" by (simp add: mark_exited_def)
  have n: "jp_exited (job_procs ?j ! q) \<longleftrightarrow> p = q \<or> jp_exited (job_procs (job_at i st) ! q)"
    "jp_pid (job_procs ?j ! q) = jp_pid (job_procs (job_at i st) ! q)" if "q < num_procs (job_at i st)" for q
    using that len by (auto simp: mark_exited_def nth_upd_nth)
  have "length (job_procs ?j) = length (job_procs (job_at i st))" by (simp add: mark_exited_def)
  with False len have "\<exists>q<num_procs ?j. \<not> jp_exited (job_procs ?j ! q)"
    by (auto simp: all_exited_def list_all_length procs_of_def m)
  moreover have "\<exists>s. (jp_pid (job_procs ?j ! q), s) \<in> set evs \<and> is_exit s"
    if "q < num_procs ?j" "\<not> jp_exited (job_procs ?j ! q)" for q
    using that n [of q] obl [of q] m by auto
  ultimately show ?thesis using False by (simp add: will_end_def st' Let_def)
qed

lemma will_end_step:
  assumes inv: "jobs_inv st" "pids_unique st" "i < length (g_jobs st)" and w: "will_end i ((pid, s) # evs) st"
  shows "will_end i evs (child_changed pid s st)"
proof (cases "job_active (job_at i st)")
  case False
  have "list_all2 job_le (g_jobs st) (g_jobs (child_changed pid s st))"
    using child_changed_kept [OF jobs_kept_refl, of st pid s] by (simp add: jobs_kept_def)
  with inv(3) False show ?thesis by (auto simp: will_end_def job_le_def list_all2_conv_all_nth)
next
  case True
  let ?pid = "\<lambda>p. jp_pid (job_procs (job_at i st) ! p)"
  have live: "\<exists>p<num_procs (job_at i st). \<not> jp_exited (job_procs (job_at i st) ! p)" using w True by (auto simp: will_end_def)
  have obl: "\<exists>t. (?pid p, t) \<in> set evs \<and> is_exit t"
    if "p < num_procs (job_at i st)" "\<not> jp_exited (job_procs (job_at i st) ! p)" "?pid p \<noteq> pid \<or> \<not> is_exit s" for p
    using w True that by (fastforce simp: will_end_def)
  note look = job_get_by_pid_unique [OF inv(1,2,3) True]
  have other: "will_end i evs (child_changed pid s st)"
    if "job_at i (child_changed pid s st) = (job_at i st)\<lparr>job_state := r\<rparr>"
      "\<And>p. p < num_procs (job_at i st) \<Longrightarrow> ?pid p \<noteq> pid \<or> \<not> is_exit s" for r
    using live obl that(2) unfolding will_end_def that(1) by simp
  have same: "job_at i st = (job_at i st)\<lparr>job_state := job_state (job_at i st)\<rparr>" by simp
  show ?thesis
  proof (cases "\<exists>q. job_get_by_pid pid st = Some (i, q)")
    case True
    then obtain q where q: "job_get_by_pid pid st = Some (i, q)" by blast
    from job_pid_scan_Some [OF this [unfolded job_get_by_pid_def]] jobs_inv_procs [OF inv(1,3)]
    have n: "q < num_procs (job_at i st)" "?pid q = pid" by (auto simp: procs_of_def)
    show ?thesis
    proof (cases "is_exit s")
      case True
      have "?pid p \<noteq> pid" if "p < num_procs (job_at i st)" "p \<noteq> q" for p
        using look [OF that(1)] q that(2) by auto
      then show ?thesis by (intro will_end_exit [OF inv(1,3) n(1) _ child_changed_exit [OF q True inv(3)]]) (simp add: obl)
    next
      case False
      with child_changed_running [OF q False inv(3)] show ?thesis using other by blast
    qed
  next
    case False
    then have ne: "?pid p \<noteq> pid" if "p < num_procs (job_at i st)" for p using look [OF that] by auto
    have "job_at i (child_changed pid s st) = job_at i st"
    proof (cases "job_get_by_pid pid st")
      case None
      then show ?thesis by (simp add: child_changed_def)
    next
      case (Some kq)
      with False show ?thesis by (cases kq) (auto intro: child_changed_other)
    qed
    with same other ne show ?thesis by metis
  qed
qed

lemma will_end_events:
  assumes "jobs_inv st" "pids_unique st" "i < length (g_jobs st)" and "will_end i evs st"
  shows "\<not> job_active (job_at i (after_events evs st))"
  using assms
proof (induction evs arbitrary: st)
  case Nil
  then show ?case by (auto simp: will_end_def after_events_def)
next
  case (Cons ev evs)
  obtain pid s where ev: "ev = (pid, s)" by fastforce
  let ?st = "child_changed pid s st"
  have k: "jobs_kept st ?st" by (simp add: child_changed_kept)
  have "\<not> job_active (job_at i (after_events evs ?st))"
    using Cons.prems ev k by (intro Cons.IH jobs_kept_inv [OF _ k] pids_unique_kept [OF _ k] will_end_step)
      (auto simp: jobs_kept_def dest: list_all2_lengthD)
  then show ?case by (simp add: after_events_def ev)
qed

section \<open>Properties\<close>

text \<open>A small world for examples: a queue of changes of children, and a terminal.\<close>

definition queue_sys :: "(int \<times> wstatus) list sys" where
  "queue_sys = \<lparr>
    sys_waitpid = (\<lambda>pid opts w. if pid = - 1 then (case w of [] \<Rightarrow> ((0, WContinued, EOTHER), [])
       | (c, s) # w' \<Rightarrow> ((c, s, EOTHER), w')) else ((0, WContinued, EOTHER), w)),
    sys_kill = (\<lambda>pid sig w. ((0, EOTHER), w)), sys_getpgrp = (\<lambda>w. 100), sys_isatty = (\<lambda>w. True),
    sys_tcsetpgrp = (\<lambda>pgid w. w), sys_alarm = (\<lambda>n w. w), sys_alarm_clear = (\<lambda>w. w), sys_alarm_fired = (\<lambda>w. False),
    sys_getcwd = (\<lambda>w. Some ''/home''), sys_chdir = (\<lambda>d w. (True, w)), sys_stat = (\<lambda>f w. None),
    sys_access_x = (\<lambda>f w. False), sys_getenv_PATH = (\<lambda>w. None), sys_time = (\<lambda>w. 0),
    sys_read_file = (\<lambda>f w. None), sys_write_file = (\<lambda>f s w. None), sys_read_stdin = (\<lambda>w. ([], w))\<rparr>"

definition shell0 :: "'w \<Rightarrow> 'w shell" where
  "shell0 w = \<lparr>g_jobs = replicate MAX_JOBS blank_job, g_next_job_num = 1, g_shell_pgid = 100, g_ctrl_d_warned = False,
     sigchld_blocked = False, shell_home = ''/home'', previous_dir = [], db_path = ''/home/db'', entries = [],
     sh_out = [], sh_world = w\<rparr>"

text \<open>A shell with one background job of one process, 4711, numbered 1.\<close>

definition shell1 :: "'w \<Rightarrow> 'w shell" where
  "shell1 w = (case job_add 4711 (Some ''sleep 9'') JOB_RUNNING (shell0 w) of
     (j, st) \<Rightarrow> job_add_proc j 4711 (Some ''sleep'') st)"

lemma shell0_reach: "job_reach queue_sys (shell0 w)"
proof -
  have "shell0 w = term_control_init queue_sys (shell0 w)" by (simp add: shell0_def term_control_init_def queue_sys_def)
  then show ?thesis using jr_init [of "shell0 w" queue_sys] by (simp add: shell0_def)
qed

lemma find_idx_replicate: "0 < n \<Longrightarrow> P x \<Longrightarrow> find_idx P (replicate n x) = Some 0"
  by (cases n) simp_all

lemma max_pos: "0 < MAX_JOBS" "0 < MAX_PROCS_PER_JOB"
  by (simp_all add: MAX_JOBS_def MAX_PROCS_PER_JOB_def)

lemma strncpy_buf_short: "length s < n \<Longrightarrow> strncpy_buf n s = s"
  by (simp add: strncpy_buf_def)

lemma shell1_eq: "shell1 w = (shell0 w)\<lparr>g_next_job_num := 2, g_jobs := (replicate MAX_JOBS blank_job)[0 :=
    \<lparr>job_number = 1, job_pgid = 4711, job_cmd_line = ''sleep 9'', job_state = JOB_RUNNING, job_active = True, num_procs = 1,
     job_procs = (replicate MAX_PROCS_PER_JOB blank_proc)[0 := \<lparr>jp_pid = 4711, jp_cmd_name = ''sleep'', jp_exited = False\<rparr>]\<rparr>]\<rparr>"
  using max_pos
  by (simp add: shell1_def shell0_def job_add_def job_add_proc_def upd_job_def find_idx_replicate blank_job_def upd_nth_def
      strncpy_buf_short Let_def)

lemma shell1_jobs:
  "job_at 0 (shell1 w) = \<lparr>job_number = 1, job_pgid = 4711, job_cmd_line = ''sleep 9'', job_state = JOB_RUNNING, job_active = True,
     num_procs = 1, job_procs = (replicate MAX_PROCS_PER_JOB blank_proc)[0 := \<lparr>jp_pid = 4711, jp_cmd_name = ''sleep'', jp_exited = False\<rparr>]\<rparr>"
  "length (g_jobs (shell1 w)) = MAX_JOBS" "\<And>i. i < MAX_JOBS \<Longrightarrow> i \<noteq> 0 \<Longrightarrow> job_at i (shell1 w) = blank_job"
  "sh_world (shell1 w) = w" "g_next_job_num (shell1 w) = 2"
  using max_pos by (simp_all add: shell1_eq shell0_def)

lemma shell1_reach: "job_reach queue_sys (shell1 w)"
  unfolding shell1_def
  by (auto split: prod.split intro!: jr_step [OF _ js_add_proc])
    (metis jr_step js_add shell0_reach snd_conv)



text \<open>
  C37: \<open>activities\<close> prints, in the order of their numbers, the active jobs whose number is at most
  256, and no others: a job with a larger number runs but is never listed.
\<close>

theorem activities_lists_jobs:
  assumes "job_reach sys st" and "st1 = job_sweep sys st"
  shows "sh_out (snd (activities_builtin sys st)) = sh_out st1
    @ concat (map job_lines (sort_key job_number (filter (\<lambda>j. job_active j \<and> job_number j \<le> 256) (g_jobs st1))))"
proof -
  have inv: "jobs_inv st1" using jobs_kept_inv [OF job_reach_inv [OF assms(1)] job_sweep_kept] assms(2) by simp
  let ?js = "filter (\<lambda>j. job_active j \<and> job_number j \<le> int MAX_JOBS) (g_jobs st1)"
  have d: "distinct (map job_number ?js)"
    by (rule distinct_key_filter) (use inv in \<open>auto simp: jobs_ok_def\<close>)
  have "sort_key job_number ?js = found_jobs [0..<MAX_JOBS] st1"
  proof (rule sort_key_inj_key_eq)
    show "mset ?js = mset (found_jobs [0..<MAX_JOBS] st1)"
      using found_jobs_keys [OF inv, of 0 MAX_JOBS] found_jobs_set [OF inv] d
      by (intro set_eq_iff_mset_eq_distinct [THEN iffD1]) (auto simp: distinct_map)
    show "inj_on job_number (set ?js)" using d by (simp add: distinct_map)
    show "sorted (map job_number (found_jobs [0..<MAX_JOBS] st1))" using found_jobs_keys [OF inv] by blast
  qed
  moreover have "concat (map job_lines (found_jobs is st1)) =
      concat (map (\<lambda>i. case job_get_by_number (int i + 1) st1 of None \<Rightarrow> [] | Some k \<Rightarrow> job_lines (job_at k st1)) is)" for "is"
    by (induction "is") (auto simp: found_jobs_def split: option.split)
  ultimately show ?thesis
    using activities_loop_out [of "[0..<MAX_JOBS]" st1] by (simp add: activities_builtin_def assms(2) [symmetric] MAX_JOBS_def)
qed

theorem activities_lists_jobs_witness:
  "sh_out (snd (activities_builtin queue_sys (shell0 []))) = sh_out (job_sweep queue_sys (shell0 []))
    @ concat (map job_lines (sort_key job_number (filter (\<lambda>j. job_active j \<and> job_number j \<le> 256) (g_jobs (job_sweep queue_sys (shell0 []))))))"
  by (rule activities_lists_jobs [OF shell0_reach refl])

text \<open>
  C30: the handler of \<open>SIGCHLD\<close> returns once \<open>waitpid\<close> has no more child to report, and it retires
  finished jobs: when the reported changes contain the end of every live process of a job,
  the job is no longer active afterwards, in whatever order the changes come.
\<close>

theorem sigchld_retires_jobs:
  assumes "job_reach sys st" and "pids_unique st" and "delivers sys evs (sh_world st) w'"
    and "i < MAX_JOBS" and "\<exists>p<num_procs (job_at i st). \<not> jp_exited (job_procs (job_at i st) ! p)"
    and "\<forall>p<num_procs (job_at i st). \<not> jp_exited (job_procs (job_at i st) ! p) \<longrightarrow>
      (\<exists>s. (jp_pid (job_procs (job_at i st) ! p), s) \<in> set evs \<and> is_exit s)"
  shows "\<exists>st'. sigchld_handler sys st = Some st' \<and> \<not> job_active (job_at i st')"
proof -
  note inv = job_reach_inv [OF assms(1)]
  have "i < length (g_jobs st)" using inv assms(4) by (simp add: jobs_ok_def)
  then have "\<not> job_active (job_at i (after_events evs st))"
    using assms(5,6) by (intro will_end_events [OF inv assms(2)]) (simp_all add: will_end_def)
  then show ?thesis using sigchld_handler_runs [OF assms(3)] by simp
qed

theorem sigchld_retires_jobs_witness:
  "\<exists>st'. sigchld_handler queue_sys (shell1 [(9, WExited 0), (4711, WSignaled 9)]) = Some st' \<and> \<not> job_active (job_at 0 st')"
proof (rule sigchld_retires_jobs [OF shell1_reach, where evs = "[(9, WExited 0), (4711, WSignaled 9)]" and w' = "[]"])
  let ?st = "shell1 [(9 :: int, WExited 0), (4711, WSignaled 9)]"
  have "i = 0" if "job_active (job_at i ?st)" "i < MAX_JOBS" for i
    using that by (cases "i = 0") (auto simp: shell1_jobs(3) blank_job_def)
  moreover have "num_procs (job_at 0 ?st) = 1" by (simp add: shell1_jobs)
  ultimately show "pids_unique ?st" unfolding pids_unique_def shell1_jobs(2) by (metis less_one)
qed (use max_pos in \<open>auto simp: shell1_jobs queue_sys_def\<close>)

text \<open>
  C39: \<open>ping\<close> does not only accept the numbers of jobs. A job number is read as a \<open>long\<close> and cut
  to an \<open>int\<close>, so that for a job \<open>n\<close> the target \<open>%m\<close> with \<open>m = n + 2^32\<close> signals job \<open>n\<close> and reports
  success.
\<close>

theorem ping_job_number_wraps:
  assumes "0 < n" and "n < 2 ^ 31" and "job_get_by_number n st = Some i"
  shows "ping_job sys [cmd, CHR 0x25 # dec (n + 2 ^ 32), num] sig st =
    (0, emit (''Sent signal '' @ num @ '' to %'' @ dec (n + 2 ^ 32) @ newline) (upd_job i (set_state_for sig) (kill_job sys sig i st)))"
proof -
  have l: "strtol (dec (n + 2 ^ 32)) = (n + 2 ^ 32, [], False)"
    using assms(1,2) by (intro strtol_dec) (simp_all add: LONG_MAX_def)
  have c: "to_int32 (n + 2 ^ 32) = n"
    using assms(1,2) by (simp only: to_int32_add) (simp add: to_int32_small)
  have d: "dec (n + 2 ^ 32) = dec_nat (nat (n + 2 ^ 32))" using assms(1) by (simp add: dec_def)
  have "dec (n + 2 ^ 32) \<noteq> [] \<and> hd (dec (n + 2 ^ 32)) \<noteq> CHR ''-''"
    using dec_nat_digits [of "nat (n + 2 ^ 32)"] is_digit_not_space unfolding d
    by (cases "dec_nat (nat (n + 2 ^ 32))") auto
  with l c show ?thesis using assms
    by (simp add: ping_job_def ping_sent_def Let_def)
qed

theorem ping_job_number_wraps_witness:
  "fst (ping_job queue_sys [''ping'', CHR 0x25 # dec (1 + 2 ^ 32), ''9''] 9 (shell1 [])) = 0"
proof -
  have "job_get_by_number 1 (shell1 w) = Some 0" for w :: "(int \<times> wstatus) list"
    using job_get_by_number_iff [OF job_reach_inv [OF shell1_reach]] max_pos by (simp add: shell1_jobs)
  from ping_job_number_wraps [OF _ _ this] show ?thesis by simp
qed

end
