(* ===== verification/Peek.thy ===== *)
theory Peek
  imports Shell
begin

text \<open>
  The builtin that prints files (\<open>peek.c\<close>), forwards and backwards. A file is the string of
  its bytes; the output of a call is the string it appends to standard output. Backwards, a
  regular file is read in chunks from its end; the properties say that this gives the lines of
  the forward output in reverse order, whatever the chunks are.
\<close>

abbreviation LF :: char where "LF \<equiv> CHR 0x0A"
abbreviation CR :: char where "CR \<equiv> CHR 0x0D"

section \<open>Printing one line\<close>

text \<open>\<open>printf("%.*s", n, s)\<close> writes the characters up to the first NUL.\<close>

definition as_cstring :: "string \<Rightarrow> string" where
  "as_cstring s = takeWhile (\<lambda>c. c \<noteq> NUL) s"

definition numbered :: "bool \<Rightarrow> int \<Rightarrow> string \<Rightarrow> string" where
  "numbered flag_n num line = (if flag_n then dec num @ '' '' @ as_cstring line @ newline else as_cstring line @ newline)"

section \<open>Forward\<close>

text \<open>The lines that \<open>getline\<close> returns, each with its newline if it has one.\<close>

fun getlines :: "string \<Rightarrow> string list" where
  "getlines [] = []"
| "getlines (c # s) =
    (if c = LF then [LF] # getlines s
     else case getlines s of
       [] \<Rightarrow> [[c]]
     | l # ls \<Rightarrow> (c # l) # ls)"

definition strip_eol :: "string \<Rightarrow> string" where
  "strip_eol line = rev (dropWhile (\<lambda>c. c = LF \<or> c = CR) (rev line))"

fun forward_loop :: "bool \<Rightarrow> string list \<Rightarrow> int \<Rightarrow> string \<Rightarrow> int \<times> string" where
  "forward_loop flag_n [] num out = (num, out)"
| "forward_loop flag_n (line # lines) num out =
    (let l = strip_eol line
     in if l = [] then forward_loop flag_n lines num (out @ newline)
        else if flag_n then forward_loop flag_n lines (num + 1) (out @ numbered True num l)
        else forward_loop flag_n lines num (out @ numbered False num l))"

definition peek_forward_stream :: "bool \<Rightarrow> string \<Rightarrow> int \<Rightarrow> int \<times> string" where
  "peek_forward_stream flag_n content num = forward_loop flag_n (getlines content) num []"

section \<open>Backward, from a stream\<close>

record StreamLine =
  sl_text :: string
  sl_is_non_empty :: bool
  sl_line_num :: int

fun collect_lines :: "string list \<Rightarrow> int \<Rightarrow> StreamLine list \<times> int" where
  "collect_lines [] num = ([], num)"
| "collect_lines (line # lines) num =
    (let l = strip_eol line;
         (rest, num') = collect_lines lines (if l \<noteq> [] then num + 1 else num)
     in (\<lparr>sl_text = l, sl_is_non_empty = (l \<noteq> []), sl_line_num = (if l \<noteq> [] then num else 0)\<rparr> # rest, num'))"

definition print_stream_line :: "bool \<Rightarrow> StreamLine \<Rightarrow> string" where
  "print_stream_line flag_n l =
    (if sl_is_non_empty l then numbered flag_n (sl_line_num l) (sl_text l) else newline)"

definition peek_reverse_stream :: "bool \<Rightarrow> string \<Rightarrow> int \<Rightarrow> int \<times> string" where
  "peek_reverse_stream flag_n content num =
    (case collect_lines (getlines content) num of
       (lines, num') \<Rightarrow> (num', concat (map (print_stream_line flag_n) (rev lines))))"

section \<open>Backward, from a regular file\<close>

definition CHUNK_SIZE :: nat where
  "CHUNK_SIZE = 4096"

fun count_loop :: "string \<Rightarrow> nat \<Rightarrow> bool \<Rightarrow> nat" where
  "count_loop [] count has_content = (if has_content then count + 1 else count)"
| "count_loop (c # s) count has_content =
    (if c = LF then count_loop s (if has_content then count + 1 else count) False
     else if c \<noteq> CR then count_loop s count True
     else count_loop s count has_content)"

definition count_non_empty_lines_seekable :: "string \<Rightarrow> nat" where
  "count_non_empty_lines_seekable content = count_loop content 0 False"

definition print_reverse_line :: "bool \<Rightarrow> string \<Rightarrow> int \<Rightarrow> string \<Rightarrow> int \<times> string" where
  "print_reverse_line flag_n line num out =
    (let l = (if line \<noteq> [] \<and> last line = CR then butlast line else line)
     in if l = [] then (num, out @ newline)
        else if flag_n then (num - 1, out @ numbered True num l)
        else (num, out @ numbered False num l))"

text \<open>
  The inner loop, from index \<open>i - 1\<close> down to 0: every newline ends a line that reaches to
  \<open>end_idx\<close>.
\<close>

fun scan_back :: "bool \<Rightarrow> string \<Rightarrow> nat \<Rightarrow> nat \<Rightarrow> int \<Rightarrow> string \<Rightarrow> nat \<times> int \<times> string" where
  "scan_back flag_n combined 0 end_idx num out = (end_idx, num, out)"
| "scan_back flag_n combined (Suc i) end_idx num out =
    (if combined ! i = LF
     then case print_reverse_line flag_n (take (end_idx - Suc i) (drop (Suc i) combined)) num out of
       (num', out') \<Rightarrow> scan_back flag_n combined i i num' out'
     else scan_back flag_n combined i end_idx num out)"

function reverse_loop :: "nat \<Rightarrow> bool \<Rightarrow> string \<Rightarrow> nat \<Rightarrow> string \<Rightarrow> int \<Rightarrow> string \<Rightarrow> string \<times> int \<times> string" where
  "reverse_loop chunk_size flag_n content pos tail num out =
    (if pos = 0 \<or> chunk_size = 0 then (tail, num, out)
     else
       let read_len = (if pos \<ge> chunk_size then chunk_size else pos);
           pos' = pos - read_len;
           combined = take read_len (drop pos' content) @ tail;
           end_idx = (if pos' + read_len = length content \<and> combined \<noteq> [] \<and> last combined = LF
                      then length combined - 1 else length combined)
       in case scan_back flag_n combined end_idx end_idx num out of
            (end_idx', num', out') \<Rightarrow>
              reverse_loop chunk_size flag_n content pos' (take end_idx' combined) num' out')"
  by pat_completeness auto
termination
  by (relation "measure (\<lambda>(k, f, c, pos, t, n, out). pos)") auto

declare reverse_loop.simps [simp del]

definition reverse_chunks :: "nat \<Rightarrow> bool \<Rightarrow> string \<Rightarrow> int \<Rightarrow> int \<times> string" where
  "reverse_chunks chunk_size flag_n content num =
    (if content = [] then (num, [])
     else
       let total = (if flag_n then count_non_empty_lines_seekable content else 0);
           current = (if flag_n then num + int total - 1 else 0)
       in case reverse_loop chunk_size flag_n content (length content) [] current [] of
            (tail, current', out) \<Rightarrow>
              (if flag_n then num + int total else num,
               if tail \<noteq> [] then snd (print_reverse_line flag_n tail current' out) else out @ newline))"

definition peek_reverse_seekable :: "bool \<Rightarrow> string \<Rightarrow> int \<Rightarrow> int \<times> string" where
  "peek_reverse_seekable flag_n content num = reverse_chunks CHUNK_SIZE flag_n content num"

section \<open>The builtin\<close>

fun peek_flags :: "string \<Rightarrow> bool \<times> bool \<Rightarrow> (bool \<times> bool) option" where
  "peek_flags [] flags = Some flags"
| "peek_flags (c # s) (flag_n, flag_r) =
    (if c = CHR ''n'' then peek_flags s (True, flag_r)
     else if c = CHR ''r'' then peek_flags s (flag_n, True)
     else None)"

fun peek_args :: "string list \<Rightarrow> bool \<times> bool \<Rightarrow> string list \<Rightarrow> ((bool \<times> bool) \<times> string list) option" where
  "peek_args [] flags files = Some (flags, files)"
| "peek_args (arg # args) flags files =
    (if arg \<noteq> [] \<and> hd arg = CHR ''-'' then
       (if arg = ''-'' then peek_args args flags (files @ [''-''])
        else case peek_flags (tl arg) flags of
          None \<Rightarrow> None
        | Some flags' \<Rightarrow> peek_args args flags' files)
     else peek_args args flags (files @ [arg]))"

definition peek_file :: "'w sys \<Rightarrow> bool \<Rightarrow> bool \<Rightarrow> string \<Rightarrow> int \<times> int \<times> 'w shell \<Rightarrow> int \<times> int \<times> 'w shell" where
  "peek_file sys flag_n flag_r filename s =
    (case s of (num, status, st) \<Rightarrow>
       if filename = ''-'' then
         (case os_call (sys_read_stdin sys) st of
            (content, st1) \<Rightarrow>
              (case (if flag_r then peek_reverse_stream flag_n content num else peek_forward_stream flag_n content num) of
                 (num', out) \<Rightarrow> (num', status, emit out st1)))
       else case sys_stat sys filename (sh_world st) of
         None \<Rightarrow> (num, 1, emit (''peek: no such file or directory'' @ newline) st)
       | Some ino \<Rightarrow>
           if st_isdir ino then (num, 1, emit (''peek: is a directory'' @ newline) st)
           else case sys_read_file sys filename (sh_world st) of
             None \<Rightarrow> (num, 1, emit (''peek: no such file or directory'' @ newline) st)
           | Some content \<Rightarrow>
               (case (if flag_r then peek_reverse_seekable flag_n content num else peek_forward_stream flag_n content num) of
                  (num', out) \<Rightarrow> (num', status, emit out st)))"

definition peek_builtin :: "'w sys \<Rightarrow> string list \<Rightarrow> 'w shell \<Rightarrow> int \<times> 'w shell" where
  "peek_builtin sys argv st =
    (case peek_args (tl argv) (False, False) [] of
       None \<Rightarrow> (1, emit (''peek: invalid syntax'' @ newline) st)
     | Some ((flag_n, flag_r), files) \<Rightarrow>
         (case fold (peek_file sys flag_n flag_r) (if files = [] then [''-''] else files) (1, 0, st) of
            (num, status, st1) \<Rightarrow> (status, st1)))"

section \<open>Lines\<close>

text \<open>
  The reference: \<open>split_lf\<close> cuts at every newline; a newline at the very end of a file ends its
  last line and does not start another one.
\<close>

fun split_lf :: "string \<Rightarrow> string list" where
  "split_lf [] = [[]]"
| "split_lf (c # s) = (if c = LF then [] # split_lf s else (c # hd (split_lf s)) # tl (split_lf s))"

definition file_lines :: "string \<Rightarrow> string list" where
  "file_lines content =
    (if content = [] then [] else split_lf (if last content = LF then butlast content else content))"

lemma split_lf_not_Nil [simp]: "split_lf s \<noteq> []"
  by (cases s) simp_all

lemma split_lf_plain: "LF \<notin> set s \<Longrightarrow> split_lf s = [s]"
  by (induction s) auto

lemma split_lf_hd: "LF \<notin> set (hd (split_lf s))"
  by (induction s) auto

lemma split_lf_snoc_line: "LF \<notin> set w \<Longrightarrow> split_lf (u @ LF # w) = split_lf u @ [w]"
  by (induction u) (auto simp: split_lf_plain hd_append)

lemma split_lf_append: "split_lf (u @ v) = split_lf (u @ hd (split_lf v)) @ tl (split_lf v)"
proof (induction u)
  case Nil
  then show ?case using split_lf_hd [of v] by (simp add: split_lf_plain)
next
  case (Cons c u)
  then show ?case by (auto simp: hd_append)
qed

abbreviation print_lines :: "bool \<Rightarrow> string list \<Rightarrow> int \<times> string \<Rightarrow> int \<times> string" where
  "print_lines flag_n ls \<equiv> fold (\<lambda>l (num, out). print_reverse_line flag_n l num out) ls"

lemma scan_back_lines:
  assumes "i \<le> e" and "e \<le> length buf" and "LF \<notin> set (take (e - i) (drop i buf))"
  shows "scan_back flag_n buf i e num out =
    (case print_lines flag_n (rev (tl (split_lf (take e buf)))) (num, out) of
       (num', out') \<Rightarrow> (length (hd (split_lf (take e buf))), num', out'))"
  using assms
proof (induction i arbitrary: e num out)
  case 0
  then have "split_lf (take e buf) = [take e buf]" by (simp add: split_lf_plain)
  with 0 show ?case by simp
next
  case (Suc i)
  define w where "w = take (e - Suc i) (drop (Suc i) buf)"
  have i: "i < length buf" using Suc.prems by simp
  have te: "take e buf = take i buf @ buf ! i # w"
  proof -
    have "take e buf = take (Suc i + (e - Suc i)) buf" using Suc.prems(1) by simp
    also have "\<dots> = take (Suc i) buf @ w" unfolding w_def by (rule take_add)
    finally show ?thesis using i by (simp add: take_Suc_conv_app_nth)
  qed
  show ?case
  proof (cases "buf ! i = LF")
    case True
    have sp: "split_lf (take e buf) = split_lf (take i buf) @ [w]"
      using te True Suc.prems(3) by (simp add: split_lf_snoc_line w_def)
    obtain num1 out1 where p: "print_reverse_line flag_n w num out = (num1, out1)" by fastforce
    have "scan_back flag_n buf (Suc i) e num out = scan_back flag_n buf i i num1 out1"
      using True p by (simp add: w_def)
    also have "\<dots> = (case print_lines flag_n (rev (tl (split_lf (take i buf)))) (num1, out1) of
        (num', out') \<Rightarrow> (length (hd (split_lf (take i buf))), num', out'))"
      using i by (intro Suc.IH) simp_all
    finally show ?thesis using p by (simp add: sp hd_append)
  next
    case False
    have "scan_back flag_n buf (Suc i) e num out = scan_back flag_n buf i e num out" using False by simp
    moreover have "take (e - i) (drop i buf) = buf ! i # w"
      using i Suc.prems(1) by (simp add: w_def Cons_nth_drop_Suc [symmetric] Suc_diff_Suc take_Suc_Cons
          del: take_Suc_Cons) (metis Suc_diff_le Suc_le_D take_Suc_Cons diff_Suc_Suc)
    ultimately show ?thesis using Suc.prems False by (intro trans [OF _ Suc.IH]) (auto simp: w_def)
  qed
qed

text \<open>
  The lines from position \<open>pos\<close> of the text \<open>body\<close> on: those after the first newline have been
  printed, the part before it is the tail.
\<close>

definition printed_from :: "bool \<Rightarrow> string \<Rightarrow> int \<Rightarrow> nat \<Rightarrow> string \<times> int \<times> string \<Rightarrow> bool" where
  "printed_from flag_n body num0 pos s \<longleftrightarrow>
    fst s = hd (split_lf (drop pos body)) \<and> snd s = print_lines flag_n (rev (tl (split_lf (drop pos body)))) (num0, [])"

definition file_body :: "string \<Rightarrow> string" where
  "file_body content = (if content \<noteq> [] \<and> last content = LF then butlast content else content)"

lemma split_lf_prefix: "length (hd (split_lf s)) \<le> length s" "take (length (hd (split_lf s))) s = hd (split_lf s)"
  by (induction s) auto

lemma reverse_step:
  assumes "drop p body = u @ drop pos body" and "printed_from flag_n body num0 pos (tail, num, out)"
    and "take e combined = u @ tail" and "e \<le> length combined"
    and "scan_back flag_n combined e e num out = (e', num', out')"
  shows "printed_from flag_n body num0 p (take e' combined, num', out')"
proof -
  let ?v = "drop pos body"
  from assms(2) have t: "tail = hd (split_lf ?v)" "(num, out) = print_lines flag_n (rev (tl (split_lf ?v))) (num0, [])"
    by (simp_all add: printed_from_def)
  have sp: "split_lf (drop p body) = split_lf (u @ tail) @ tl (split_lf ?v)"
    using split_lf_append [of u ?v] assms(1) t(1) by simp
  from assms(5) scan_back_lines [OF order_refl assms(4), of flag_n num out] assms(3)
  have r: "e' = length (hd (split_lf (u @ tail)))" "(num', out') = print_lines flag_n (rev (tl (split_lf (u @ tail)))) (num, out)"
    by (auto split: prod.splits)
  have "e' \<le> e" using r(1) split_lf_prefix(1) [of "u @ tail"] assms(3,4) by (metis length_take min.absorb2)
  then have "take e' combined = take e' (u @ tail)" using assms(3) by (metis min.absorb1 take_take)
  then have "take e' combined = hd (split_lf (u @ tail))" by (simp only: r(1) split_lf_prefix(2))
  with r(2) t(2) show ?thesis by (simp add: printed_from_def sp hd_append)
qed

lemma file_body_drop:
  assumes "p < length content"
  shows "drop p (file_body content) = (if last content = LF then butlast (drop p content) else drop p content)"
  using assms by (auto simp: file_body_def drop_butlast)

lemma file_body_between:
  assumes "p \<le> pos" and "pos < length content"
  shows "drop p (file_body content) = take (pos - p) (drop p content) @ drop pos (file_body content)"
proof -
  have "pos \<le> length (file_body content)" using assms(2) by (auto simp: file_body_def)
  moreover have "take pos (file_body content) = take pos content"
    using assms(2) by (auto simp: file_body_def take_butlast)
  ultimately have "take (pos - p) (drop p (file_body content)) = take (pos - p) (drop p content)"
    by (simp add: take_drop assms(1))
  then show ?thesis using assms(1) by (metis append_take_drop_id drop_drop le_add_diff_inverse2)
qed

lemma reverse_loop_printed:
  assumes "0 < chunk_size" and "content \<noteq> []" and "pos \<le> length content"
    and "printed_from flag_n (file_body content) num0 pos (tail, num, out)"
    and "pos = length content \<Longrightarrow> tail = []"
  shows "printed_from flag_n (file_body content) num0 0 (reverse_loop chunk_size flag_n content pos tail num out)"
  using assms
proof (induction chunk_size flag_n content pos tail num out rule: reverse_loop.induct)
  case (1 chunk_size flag_n content pos tail num out)
  show ?case
  proof (cases "pos = 0")
    case True
    with "1.prems" show ?thesis by (simp add: reverse_loop.simps [of chunk_size flag_n content 0])
  next
    case False
    define rl where "rl = (if pos \<ge> chunk_size then chunk_size else pos)"
    define p where "p = pos - rl"
    define combined where "combined = take rl (drop p content) @ tail"
    define e where "e = (if p + rl = length content \<and> combined \<noteq> [] \<and> last combined = LF then length combined - 1 else length combined)"
    obtain e' num' out' where sc: "scan_back flag_n combined e e num out = (e', num', out')" by (metis prod.exhaust)
    have rl: "0 < rl" "rl \<le> pos" "p + rl = pos" "p < pos" using False "1.prems"(1) by (auto simp: rl_def p_def)
    have eq: "reverse_loop chunk_size flag_n content pos tail num out =
        reverse_loop chunk_size flag_n content p (take e' combined) num' out'"
      using False "1.prems"(1)
      unfolding reverse_loop.simps [of chunk_size flag_n content pos tail num out] Let_def
        rl_def [symmetric] p_def [symmetric] combined_def [symmetric] e_def [symmetric] sc
      by simp
    have le: "e \<le> length combined" by (simp add: e_def)
    have "printed_from flag_n (file_body content) num0 p (take e' combined, num', out')"
    proof (cases "pos = length content")
      case True
      then have c: "combined = drop p content" "combined \<noteq> []" "last combined = last content" "tail = []"
        using "1.prems"(2,5) rl by (auto simp: combined_def)
      then have "take e combined = drop p (file_body content)"
        using True rl by (auto simp: e_def file_body_drop butlast_conv_take)
      then show ?thesis using reverse_step [OF _ "1.prems"(4) _ le sc, of p "drop p (file_body content)"] True c(4)
        by (simp add: file_body_def)
    next
      case False
      then have lt: "pos < length content" using "1.prems"(3) by simp
      then have "take e combined = take (pos - p) (drop p content) @ tail"
        using rl by (auto simp: e_def combined_def)
      with reverse_step [OF file_body_between "1.prems"(4) _ le sc] rl lt show ?thesis by auto
    qed
    then show ?thesis unfolding eq
      using "1.IH" [OF _ rl_def p_def combined_def e_def sc [symmetric] refl] False "1.prems" rl by auto
  qed
qed

text \<open>The chunked reader prints the lines of the file, last line first.\<close>

lemma reverse_chunks_lines:
  assumes "0 < chunk_size" and "content \<noteq> []"
  shows "snd (reverse_chunks chunk_size flag_n content num) =
    snd (print_lines flag_n (rev (file_lines content))
      (if flag_n then num + int (count_non_empty_lines_seekable content) - 1 else 0, []))"
proof -
  define num0 where "num0 = (if flag_n then num + int (count_non_empty_lines_seekable content) - 1 else 0)"
  let ?ls = "split_lf (file_body content)"
  have "printed_from flag_n (file_body content) num0 (length content) ([], num0, [])"
    by (simp add: printed_from_def file_body_def)
  from reverse_loop_printed [OF assms order_refl this] have
    p: "printed_from flag_n (file_body content) num0 0 (reverse_loop chunk_size flag_n content (length content) [] num0 [])"
    by simp
  obtain tail cur out where r: "reverse_loop chunk_size flag_n content (length content) [] num0 [] = (tail, cur, out)"
    by (metis prod.exhaust)
  from p r have t: "tail = hd ?ls" "(cur, out) = print_lines flag_n (rev (tl ?ls)) (num0, [])" by (simp_all add: printed_from_def)
  have "rev ?ls = rev (tl ?ls) @ [hd ?ls]" by (metis list.exhaust_sel rev.simps(2) split_lf_not_Nil)
  then have l: "print_lines flag_n (rev ?ls) (num0, []) = print_reverse_line flag_n tail cur out"
    by (simp add: t(2) [symmetric]) (simp add: t(1))
  have "snd (reverse_chunks chunk_size flag_n content num) = snd (print_reverse_line flag_n tail cur out)"
    using assms(2) r num0_def by (cases "tail = []") (auto simp: reverse_chunks_def Let_def print_reverse_line_def)
  then show ?thesis using assms(2) l by (simp add: num0_def [symmetric] file_lines_def file_body_def)
qed

section \<open>Backward is forward reversed\<close>

text \<open>What each line prints, given its text without the line end.\<close>

fun pieces :: "bool \<Rightarrow> int \<Rightarrow> string list \<Rightarrow> string list" where
  "pieces flag_n num [] = []"
| "pieces flag_n num (l # ls) =
    (if l = [] then newline # pieces flag_n num ls
     else numbered flag_n num l # pieces flag_n (if flag_n then num + 1 else num) ls)"

definition non_empty :: "string list \<Rightarrow> nat" where
  "non_empty ls = length (filter (\<lambda>l. l \<noteq> []) ls)"

lemma length_pieces [simp]: "length (pieces flag_n num ls) = length ls"
  by (induction flag_n num ls rule: pieces.induct) auto

lemma numbered_False: "numbered False n l = numbered False m l"
  by (simp add: numbered_def)

lemma pieces_False: "pieces False n ls = pieces False m ls"
proof (induction ls arbitrary: n m)
  case (Cons l ls)
  then show ?case using numbered_False [of n l m] by (simp split: if_split)
qed simp

lemma forward_loop_pieces:
  "forward_loop flag_n lines num out =
    (num + (if flag_n then int (non_empty (map strip_eol lines)) else 0), out @ concat (pieces flag_n num (map strip_eol lines)))"
proof (induction lines arbitrary: num out)
  case (Cons line lines)
  show ?case using Cons.IH by (cases "strip_eol line = []"; cases flag_n) (simp_all add: Let_def non_empty_def)
qed (simp add: non_empty_def)

lemma strip_eol_LF [simp]: "strip_eol (l @ [LF]) = strip_eol l" "strip_eol [LF] = []" "strip_eol [] = []"
  by (simp_all add: strip_eol_def)

lemma split_lf_snoc_LF: "split_lf (s @ [LF]) = split_lf s @ [[]]"
  using split_lf_snoc_line [of "[]" s] by simp

lemma getlines_not_Nil: "s \<noteq> [] \<Longrightarrow> getlines s \<noteq> []"
  by (cases s) (auto split: list.split)

lemma getlines_file_lines:
  "content \<noteq> [] \<Longrightarrow> (\<exists>ls l. getlines content = map (\<lambda>l. l @ [LF]) ls @ [l] \<and> file_lines content = ls @ [if last content = LF then butlast l else l]
     \<and> (last content = LF \<longrightarrow> l \<noteq> [] \<and> last l = LF))"
proof (induction content)
  case (Cons c s)
  show ?case
  proof (cases "s = []")
    case True
    then show ?thesis by (intro exI [of _ "[]"] exI [of _ "[c]"]) (auto simp: file_lines_def)
  next
    case False
    with Cons.IH obtain ls l where IH: "getlines s = map (\<lambda>l. l @ [LF]) ls @ [l]"
      "file_lines s = ls @ [if last s = LF then butlast l else l]" "last s = LF \<longrightarrow> l \<noteq> [] \<and> last l = LF" by blast
    have fl: "file_lines (c # s) = (if c = LF then [] # file_lines s else (c # hd (file_lines s)) # tl (file_lines s))"
      using False by (simp add: file_lines_def)
    show ?thesis
    proof (cases "c = LF")
      case True
      with IH False fl show ?thesis by (intro exI [of _ "[] # ls"] exI [of _ l]) simp
    next
      case False
      show ?thesis
      proof (cases ls)
        case Nil
        with IH False \<open>s \<noteq> []\<close> fl show ?thesis by (intro exI [of _ "[]"] exI [of _ "c # l"]) auto
      next
        case (Cons k ks)
        with IH False \<open>s \<noteq> []\<close> fl show ?thesis by (intro exI [of _ "(c # k) # ks"] exI [of _ l]) auto
      qed
    qed
  qed
qed simp

lemma strip_getlines: "map strip_eol (getlines content) = map strip_eol (file_lines content)"
proof (cases "content = []")
  case False
  from getlines_file_lines [OF this] obtain ls l where *: "getlines content = map (\<lambda>l. l @ [LF]) ls @ [l]"
    "file_lines content = ls @ [if last content = LF then butlast l else l]" "last content = LF \<longrightarrow> l \<noteq> [] \<and> last l = LF" by blast
  have "strip_eol l = strip_eol (butlast l)" if "last content = LF"
    using *(3) that strip_eol_LF(1) [of "butlast l"] by (metis append_butlast_last_id)
  with * show ?thesis by (simp add: comp_def)
qed (simp add: file_lines_def)

definition strip_cr :: "string \<Rightarrow> string" where
  "strip_cr line = (if line \<noteq> [] \<and> last line = CR then butlast line else line)"

definition double_cr :: "string \<Rightarrow> bool" where
  "double_cr line \<longleftrightarrow> (\<exists>u. line = u @ [CR, CR])"

lemma strip_cr_eol:
  assumes "LF \<notin> set l" and "\<not> double_cr l"
  shows "strip_eol l = strip_cr l"
proof (cases l rule: rev_cases)
  case (snoc m c)
  show ?thesis
  proof (cases m rule: rev_cases)
    case Nil
    with snoc assms show ?thesis by (auto simp: strip_cr_def strip_eol_def)
  next
    case (snoc k d)
    with \<open>l = m @ [c]\<close> assms show ?thesis by (auto simp: strip_cr_def strip_eol_def double_cr_def butlast_append)
  qed
qed (simp add: strip_cr_def strip_eol_def)

lemma split_lf_no_LF: "l \<in> set (split_lf s) \<Longrightarrow> LF \<notin> set l"
proof (induction s arbitrary: l)
  case (Cons c s)
  then show ?case using split_lf_hd [of s] by (auto split: if_splits dest: list.set_sel(2) [rotated])
qed simp

lemma file_lines_no_LF: "l \<in> set (file_lines content) \<Longrightarrow> LF \<notin> set l"
  by (auto simp: file_lines_def split_lf_no_LF split: if_splits)

lemma print_lines_pieces:
  "print_lines flag_n (rev ls) (num + (if flag_n then int (non_empty (map strip_cr ls)) else 0) - 1, out) =
    (num - 1, out @ concat (rev (pieces flag_n num (map strip_cr ls))))"
proof (induction ls arbitrary: num out)
  case (Cons l ls)
  have ne: "non_empty (map strip_cr (l # ls)) = (if strip_cr l = [] then 0 else 1) + non_empty (map strip_cr ls)"
    by (simp add: non_empty_def)
  show ?case
  proof (cases flag_n)
    case True
    have pr: "print_reverse_line True l n out = (if strip_cr l = [] then (n, out @ newline)
        else (n - 1, out @ numbered True n (strip_cr l)))" for n out
      by (simp add: print_reverse_line_def strip_cr_def Let_def)
    show ?thesis using Cons.IH [of num out] Cons.IH [of "num + 1" out] True
      by (simp add: pr ne del: list.map(2)) (simp add: algebra_simps)
  next
    case False
    have pr: "print_reverse_line False l n out = (n, out @ (if strip_cr l = [] then newline else numbered False num (strip_cr l)))" for n out
      using numbered_False [of n "strip_cr l" num] by (simp add: print_reverse_line_def strip_cr_def Let_def)
    show ?thesis using Cons.IH [of num out] False by (simp add: pr)
  qed
qed (simp add: non_empty_def)

subsection \<open>Counting\<close>

definition has_content :: "string \<Rightarrow> bool" where
  "has_content l \<longleftrightarrow> (\<exists>c\<in>set l. c \<noteq> CR)"

lemma has_content_simps [simp]: "\<not> has_content []" "has_content (c # l) \<longleftrightarrow> c \<noteq> CR \<or> has_content l"
  by (auto simp: has_content_def)

lemma count_loop_lines:
  "count_loop s n h = n + (if h \<or> has_content (hd (split_lf s)) then 1 else 0) + length (filter has_content (tl (split_lf s)))"
proof (induction s n h rule: count_loop.induct)
  case (2 c s n h)
  have "length (filter has_content (split_lf s)) =
      (if has_content (hd (split_lf s)) then 1 else 0) + length (filter has_content (tl (split_lf s)))"
    by (cases "split_lf s") simp_all
  note n = this
  consider "c = LF" | "c = CR" | "c \<noteq> LF" "c \<noteq> CR" by blast
  then show ?case
  proof cases
    case 1
    with 2 n show ?thesis by simp
  next
    case 2
    with "2.IH" show ?thesis by simp
  next
    case 3
    with "2.IH" show ?thesis by simp
  qed
qed simp

lemma count_lines: "count_non_empty_lines_seekable content = length (filter has_content (file_lines content))"
proof -
  have all: "count_non_empty_lines_seekable s = length (filter has_content (split_lf s))" for s
    unfolding count_non_empty_lines_seekable_def count_loop_lines
    by (cases "split_lf s") (auto simp: has_content_def)
  show ?thesis
  proof (cases "content \<noteq> [] \<and> last content = LF")
    case True
    then have "split_lf content = split_lf (butlast content) @ [[]]" using split_lf_snoc_LF [of "butlast content"] by (metis append_butlast_last_id)
    then show ?thesis using True all [of content] by (simp add: file_lines_def has_content_def)
  next
    case False
    then show ?thesis using all [of content] by (auto simp: file_lines_def has_content_def)
  qed
qed

lemma has_content_strip: "\<not> double_cr l \<Longrightarrow> has_content l \<longleftrightarrow> strip_cr l \<noteq> []"
proof (cases l rule: rev_cases)
  case (snoc m c)
  assume n: "\<not> double_cr l"
  show ?thesis
  proof (cases m rule: rev_cases)
    case Nil
    with snoc show ?thesis by (auto simp: strip_cr_def has_content_def)
  next
    case (snoc k d)
    with \<open>l = m @ [c]\<close> n show ?thesis by (auto simp: strip_cr_def has_content_def double_cr_def butlast_append)
  qed
qed (simp add: strip_cr_def has_content_def)

lemma pieces_are_lines:
  "list_all (\<lambda>l. LF \<notin> set l) ls \<Longrightarrow> p \<in> set (pieces flag_n num ls) \<Longrightarrow> \<exists>u. p = u @ newline \<and> LF \<notin> set u"
proof (induction ls arbitrary: num)
  case (Cons l ls)
  have d: "LF \<notin> set (dec num)"
  proof -
    have "is_digit c \<or> c = CHR ''-''" if "c \<in> set (dec num)" for c
      using that dec_nat_digits by (auto simp: dec_def list_all_iff split: if_splits)
    then show ?thesis by (force simp: is_digit_def)
  qed
  have "LF \<notin> set (as_cstring l)" using Cons.prems(1) by (auto simp: as_cstring_def dest: set_takeWhileD)
  with d have "\<exists>u. numbered flag_n num l = u @ newline \<and> LF \<notin> set u"
    by (cases flag_n) (auto simp: numbered_def)
  with Cons show ?case by (auto split: if_splits)
qed simp

lemma strip_eol_set: "set (strip_eol l) \<subseteq> set l"
  by (metis set_dropWhileD set_rev strip_eol_def subsetI)

text \<open>The lines printed for a file, in order.\<close>

definition printed_lines :: "bool \<Rightarrow> string \<Rightarrow> int \<Rightarrow> string list" where
  "printed_lines flag_n content num = pieces flag_n num (map strip_eol (file_lines content))"

lemma peek_forward_printed:
  "peek_forward_stream flag_n content num =
    (num + (if flag_n then int (non_empty (map strip_eol (file_lines content))) else 0), concat (printed_lines flag_n content num))"
  by (simp add: peek_forward_stream_def forward_loop_pieces strip_getlines printed_lines_def)

lemma collect_lines_pieces:
  "fst (collect_lines lines num) = sls \<Longrightarrow> map (print_stream_line flag_n) sls = pieces flag_n num (map strip_eol lines)"
proof (induction lines arbitrary: num sls)
  case (Cons line lines)
  obtain rest num' where r: "collect_lines lines (if strip_eol line \<noteq> [] then num + 1 else num) = (rest, num')" by fastforce
  have IH: "map (print_stream_line flag_n) rest = pieces flag_n (if strip_eol line \<noteq> [] then num + 1 else num) (map strip_eol lines)"
    by (rule Cons.IH) (simp add: r)
  have "pieces False (num + 1) ls = pieces False num ls" for ls by (rule pieces_False)
  moreover have "print_stream_line flag_n \<lparr>sl_text = t, sl_is_non_empty = b, sl_line_num = n\<rparr> = (if b then numbered flag_n n t else newline)" for t b n
    by (simp add: print_stream_line_def)
  ultimately show ?case using IH Cons.prems r by (cases flag_n) (auto simp: Let_def split: if_splits)
qed simp

section \<open>Properties\<close>

text \<open>
  C33: \<open>peek -r\<close> on a regular file, which reads chunks backwards from the end of the file, prints
  exactly the lines that \<open>peek\<close> prints, in reverse order and with the same numbers, whatever
  the size of the chunks is, as long as no line ends in two carriage returns.
\<close>

theorem peek_reverse_is_reversed:
  assumes "\<And>l. l \<in> set (file_lines content) \<Longrightarrow> \<not> double_cr l" and "0 < chunk_size"
  shows "\<exists>ls n. peek_forward_stream flag_n content num = (n, concat ls)
    \<and> reverse_chunks chunk_size flag_n content num = (n, concat (rev ls))
    \<and> peek_reverse_seekable flag_n content num = (n, concat (rev ls))
    \<and> length ls = length (file_lines content) \<and> (\<forall>l\<in>set ls. \<exists>u. l = u @ newline \<and> LF \<notin> set u)"
proof -
  let ?fl = "file_lines content" and ?ls = "printed_lines flag_n content num"
  let ?n = "num + (if flag_n then int (non_empty (map strip_eol ?fl)) else 0)"
  have st: "map strip_cr ?fl = map strip_eol ?fl"
    using assms(1) file_lines_no_LF by (auto simp: strip_cr_eol)
  have cnt: "count_non_empty_lines_seekable content = non_empty (map strip_eol ?fl)"
    unfolding count_lines non_empty_def st [symmetric] filter_map length_map comp_def
    using assms(1) has_content_strip by (metis (mono_tags, lifting) filter_cong)
  have rev: "reverse_chunks k flag_n content num = (?n, concat (rev ?ls))" if "0 < k" for k
  proof (cases "content = []")
    case True
    then show ?thesis by (simp add: reverse_chunks_def printed_lines_def file_lines_def non_empty_def)
  next
    case False
    have "snd (reverse_chunks k flag_n content num) = concat (rev ?ls)"
    proof (cases flag_n)
      case True
      with print_lines_pieces [of True ?fl num "[]"] show ?thesis
        by (simp add: reverse_chunks_lines [OF that False] cnt st printed_lines_def)
    next
      case nf: False
      with print_lines_pieces [of False ?fl 1 "[]"] pieces_False [of 1 _ num] show ?thesis
        by (simp add: reverse_chunks_lines [OF that False] st printed_lines_def)
    qed
    moreover have "fst (reverse_chunks k flag_n content num) = ?n"
      using False by (simp add: reverse_chunks_def Let_def cnt split: prod.split)
    ultimately show ?thesis by (metis prod.collapse)
  qed
  have "list_all (\<lambda>l. LF \<notin> set l) (map strip_eol ?fl)"
    using file_lines_no_LF strip_eol_set by (fastforce simp: list_all_iff)
  then have "\<forall>l\<in>set ?ls. \<exists>u. l = u @ newline \<and> LF \<notin> set u" using pieces_are_lines by (simp add: printed_lines_def)
  with rev [OF assms(2)] rev [of CHUNK_SIZE] show ?thesis
    by (intro exI [of _ ?ls] exI [of _ ?n])
      (simp add: peek_forward_printed peek_reverse_seekable_def CHUNK_SIZE_def printed_lines_def)
qed

theorem peek_reverse_is_reversed_witness:
  "\<exists>ls n. peek_forward_stream True ''ab'' 1 = (n, concat ls) \<and> reverse_chunks 1 True ''ab'' 1 = (n, concat (rev ls))
    \<and> length ls = 1"
proof -
  have l: "file_lines ''ab'' = [''ab'']" by (simp add: file_lines_def)
  have "\<not> double_cr ''ab''" by (simp add: double_cr_def Cons_eq_append_conv)
  with peek_reverse_is_reversed [of "''ab''" 1 True 1] show ?thesis unfolding l by auto
qed

text \<open>
  \<open>peek -r\<close> on standard input prints the lines of the forward output in reverse order, with
  the same numbers.
\<close>

lemma peek_stream_is_reversed:
  "\<exists>ls. snd (peek_forward_stream flag_n content num) = concat ls
    \<and> snd (peek_reverse_stream flag_n content num) = concat (rev ls) \<and> length ls = length (file_lines content)"
proof -
  obtain sls n where c: "collect_lines (getlines content) num = (sls, n)" by fastforce
  have "map (print_stream_line flag_n) sls = printed_lines flag_n content num"
    using collect_lines_pieces [of "getlines content" num sls flag_n] c by (simp add: strip_getlines printed_lines_def)
  then have "snd (peek_reverse_stream flag_n content num) = concat (rev (printed_lines flag_n content num))"
    by (simp add: peek_reverse_stream_def c rev_map [symmetric])
  then show ?thesis by (intro exI [of _ "printed_lines flag_n content num"]) (simp add: peek_forward_printed printed_lines_def)
qed


end
