(* ===== verification/Commands.thy ===== *)
theory Commands
  imports Parser Shell
begin

text \<open>
  From a checked line to commands: the splitting of a line at \<open>;\<close> and \<open>&\<close> (\<open>sequence.c\<close>,
  \<open>bg_exec.c\<close>, \<open>executor_run\<close> of \<open>executor.c\<close>), the commands of a pipeline (the first half of
  \<open>executor_execute_group\<close>), and the search for programs (\<open>executor_resolve_path\<close>, \<open>locate.c\<close>).
\<close>

section \<open>The commands of a group\<close>

record OutputRedir =
  filename :: string
  is_append :: bool

record SingleCommand =
  cmd_argv :: "string list"
  input_files :: "string list"
  output_files :: "OutputRedir list"

definition empty_command :: SingleCommand where
  "empty_command = \<lparr>cmd_argv = [], input_files = [], output_files = []\<rparr>"

definition count_cmds :: "Token list \<Rightarrow> nat" where
  "count_cmds tokens = 1 + length (filter (\<lambda>t. tok_type t = TOK_PIPE) tokens)"

abbreviation word_of :: "Token \<Rightarrow> string" where
  "word_of t \<equiv> the (tok_value t)"

definition add_arg :: "string \<Rightarrow> SingleCommand \<Rightarrow> SingleCommand" where
  "add_arg w c = c\<lparr>cmd_argv := cmd_argv c @ [w]\<rparr>"

definition add_input :: "string \<Rightarrow> SingleCommand \<Rightarrow> SingleCommand" where
  "add_input w c = c\<lparr>input_files := input_files c @ [w]\<rparr>"

definition add_output :: "string \<Rightarrow> bool \<Rightarrow> SingleCommand \<Rightarrow> SingleCommand" where
  "add_output w app c = c\<lparr>output_files := output_files c @ [\<lparr>filename = w, is_append = app\<rparr>]\<rparr>"

text \<open>
  The loop that fills the array of commands: a redirection takes the next token if it is a
  word and is skipped otherwise.
\<close>

fun fill_cmds :: "Token list \<Rightarrow> SingleCommand list \<Rightarrow> nat \<Rightarrow> SingleCommand list" where
  "fill_cmds [] cmds idx = cmds"
| "fill_cmds (t # ts) cmds idx =
    (case tok_type t of
       TOK_PIPE \<Rightarrow> fill_cmds ts cmds (idx + 1)
     | TOK_LT \<Rightarrow> (case ts of
         u # us \<Rightarrow> if tok_type u = TOK_WORD then fill_cmds us (upd_nth idx (add_input (word_of u)) cmds) idx
                    else fill_cmds ts cmds idx
       | [] \<Rightarrow> fill_cmds ts cmds idx)
     | TOK_GT \<Rightarrow> (case ts of
         u # us \<Rightarrow> if tok_type u = TOK_WORD then fill_cmds us (upd_nth idx (add_output (word_of u) False) cmds) idx
                    else fill_cmds ts cmds idx
       | [] \<Rightarrow> fill_cmds ts cmds idx)
     | TOK_GTGT \<Rightarrow> (case ts of
         u # us \<Rightarrow> if tok_type u = TOK_WORD then fill_cmds us (upd_nth idx (add_output (word_of u) True) cmds) idx
                    else fill_cmds ts cmds idx
       | [] \<Rightarrow> fill_cmds ts cmds idx)
     | TOK_WORD \<Rightarrow> fill_cmds ts (upd_nth idx (add_arg (word_of t)) cmds) idx
     | _ \<Rightarrow> fill_cmds ts cmds idx)"

definition build_cmds :: "Token list \<Rightarrow> SingleCommand list" where
  "build_cmds tokens = fill_cmds tokens (replicate (count_cmds tokens) empty_command) 0"

text \<open>The text of the job: the words that fit into the buffer of 512 bytes.\<close>

fun build_cmd_line :: "Token list \<Rightarrow> string \<Rightarrow> string" where
  "build_cmd_line [] cur = cur"
| "build_cmd_line (t # ts) cur =
    (case tok_value t of
       None \<Rightarrow> build_cmd_line ts cur
     | Some v \<Rightarrow>
         if length cur + length v + 2 < 512
         then build_cmd_line ts ((if length cur > 0 then cur @ '' '' else cur) @ v)
         else build_cmd_line ts cur)"

section \<open>Lines, sequences and background groups\<close>

text \<open>
  Running something returns a status, or ends the shell (\<open>exit\<close>), or never returns (a
  foreground job that is waited for forever).
\<close>

datatype 's outcome = Returns int 's | Exits 's | Hangs

type_synonym 's group_runner = "Token list \<Rightarrow> bool \<Rightarrow> 's \<Rightarrow> 's outcome"

text \<open>\<open>until t toks\<close> and \<open>after t toks\<close>: the tokens before the first of type \<open>t\<close> and those behind it.\<close>

definition until :: "TokenType \<Rightarrow> Token list \<Rightarrow> Token list" where
  "until t toks = takeWhile (\<lambda>k. tok_type k \<noteq> t) toks"

definition after :: "TokenType \<Rightarrow> Token list \<Rightarrow> Token list" where
  "after t toks = drop 1 (dropWhile (\<lambda>k. tok_type k \<noteq> t) toks)"

lemma length_after: "toks \<noteq> [] \<Longrightarrow> length (after t toks) < length toks"
proof -
  assume "toks \<noteq> []"
  then have "0 < length toks" by simp
  moreover have "length (dropWhile (\<lambda>k. tok_type k \<noteq> t) toks) \<le> length toks" by (rule length_dropWhile_le)
  ultimately show ?thesis unfolding after_def length_drop by linarith
qed

function bg_run :: "'s group_runner \<Rightarrow> Token list \<Rightarrow> 's \<Rightarrow> 's outcome" where
  "bg_run run toks st =
    (if toks = [] then Returns 0 st
     else
       let grp = until TOK_AMP toks;
           amp = list_ex (\<lambda>k. tok_type k = TOK_AMP) toks
       in if grp = [] then bg_run run (after TOK_AMP toks) st
          else case run grp amp st of
            Returns r st' \<Rightarrow> bg_run run (after TOK_AMP toks) st'
          | other \<Rightarrow> other)"
  by pat_completeness auto
termination
  by (relation "measure (\<lambda>(g, toks, st). length toks)") (simp_all add: length_after)

declare bg_run.simps [simp del]

function executor_run :: "'s group_runner \<Rightarrow> Token list \<Rightarrow> 's \<Rightarrow> 's outcome"
  and sequence_run :: "'s group_runner \<Rightarrow> Token list \<Rightarrow> 's \<Rightarrow> 's outcome" where
  "executor_run run toks st =
    (if toks = [] then Returns 0 st
     else if list_ex (\<lambda>k. tok_type k = TOK_SEMI) toks then sequence_run run toks st
     else if list_ex (\<lambda>k. tok_type k = TOK_AMP) toks then bg_run run toks st
     else run toks False st)"
| "sequence_run run toks st =
    (if toks = [] then Returns 0 st
     else if until TOK_SEMI toks = [] then sequence_run run (after TOK_SEMI toks) st
     else case executor_run run (until TOK_SEMI toks) st of
       Returns ret st' \<Rightarrow> if ret \<noteq> 0 then Returns ret st' else sequence_run run (after TOK_SEMI toks) st'
     | other \<Rightarrow> other)"
  by pat_completeness auto
termination
proof (relation "measure (\<lambda>x. case x of
      Inl (g, toks, st) \<Rightarrow> if list_ex (\<lambda>k. tok_type k = TOK_SEMI) toks then 2 * length toks + 2 else 0
    | Inr (g, toks, st) \<Rightarrow> 2 * length toks + 1)", goal_cases)
  case (3 run toks st)
  then show ?case using length_after [of toks TOK_SEMI] by simp
next
  case (4 run toks st)
  have "\<not> list_ex (\<lambda>k. tok_type k = TOK_SEMI) (until TOK_SEMI toks)"
    by (auto simp: until_def list_ex_iff dest: set_takeWhileD)
  then show ?case by simp
next
  case (5 run toks st)
  then show ?case using length_after [of toks TOK_SEMI] by simp
qed simp_all

declare executor_run.simps [simp del] sequence_run.simps [simp del]

section \<open>Programs\<close>

definition is_executable :: "'w sys \<Rightarrow> string \<Rightarrow> 'w \<Rightarrow> bool" where
  "is_executable sys path w =
    (case sys_stat sys path w of
       None \<Rightarrow> False
     | Some st \<Rightarrow> \<not> st_isdir st \<and> sys_access_x sys path w)"

definition join_path :: "string \<Rightarrow> string \<Rightarrow> string" where
  "join_path dir name = (if dir \<noteq> [] \<and> last dir = CHR ''/'' then dir @ name else dir @ ''/'' @ name)"

fun search_path :: "'w sys \<Rightarrow> string list \<Rightarrow> string \<Rightarrow> 'w \<Rightarrow> string option" where
  "search_path sys [] name w = None"
| "search_path sys (dir # dirs) name w =
    (if is_executable sys (join_path dir name) w then Some (join_path dir name) else search_path sys dirs name w)"

definition executor_resolve_path :: "'w sys \<Rightarrow> string \<Rightarrow> 'w \<Rightarrow> string option" where
  "executor_resolve_path sys name0 w =
    (let force = (name0 \<noteq> [] \<and> hd name0 = CHR 0x25);
         name = (if force then tl name0 else name0);
         in_path = (case sys_getenv_PATH sys w of None \<Rightarrow> None | Some p \<Rightarrow> search_path sys (strtok CHR '':'' p) name w)
     in if \<not> force \<and> CHR ''/'' \<in> set name then (if is_executable sys name w then Some name else None)
        else if \<not> force then
          (case sys_getcwd sys w of
             Some cwd \<Rightarrow> if is_executable sys (join_path cwd name) w then Some (join_path cwd name) else in_path
           | None \<Rightarrow> in_path)
        else in_path)"

text \<open>
  \<open>locate\<close> prints every match, in the current directory and then along the path; a candidate is
  cut to its buffer.
\<close>

definition PATH_MAX :: nat where "PATH_MAX = 4096"

definition locate_candidates :: "string \<Rightarrow> string option \<Rightarrow> string \<Rightarrow> string list" where
  "locate_candidates cwd path_env name =
    map (strncpy_buf (PATH_MAX * 2))
     ((cwd @ ''/'' @ name) #
      (case path_env of
         None \<Rightarrow> []
       | Some p \<Rightarrow> map (\<lambda>dir. if hd dir = CHR ''/'' then dir @ ''/'' @ name else cwd @ ''/'' @ dir @ ''/'' @ name) (strtok CHR '':'' p)))"

definition locate_name :: "'w sys \<Rightarrow> string \<Rightarrow> string option \<Rightarrow> string \<Rightarrow> 'w shell \<Rightarrow> 'w shell" where
  "locate_name sys cwd path_env name st =
    (let found = filter (\<lambda>p. is_executable sys p (sh_world st)) (locate_candidates cwd path_env name)
     in if found = [] then emit (''locate: command not found ('' @ name @ '')'' @ newline) st
        else emit (concat (map (\<lambda>p. p @ newline) found)) st)"

definition locate_builtin :: "'w sys \<Rightarrow> string list \<Rightarrow> 'w shell \<Rightarrow> int \<times> 'w shell" where
  "locate_builtin sys argv st =
    (if length argv < 2 then (1, emit (''locate: invalid syntax'' @ newline) st)
     else case sys_getcwd sys (sh_world st) of
       None \<Rightarrow> (1, st)
     | Some cwd \<Rightarrow> (0, fold (locate_name sys cwd (sys_getenv_PATH sys (sh_world st))) (tl argv) st))"

end
