(* ===== verification/CommandProps.thy ===== *)
theory CommandProps
  imports Commands
begin

text \<open>
  What the splitting of a line does: the array of commands is the list of the parts between
  pipes, checked lines give only commands with a name, and running a line is running its
  sequences and groups in order.
\<close>

section \<open>Parts of a token list\<close>

fun split_at :: "TokenType \<Rightarrow> Token list \<Rightarrow> Token list list" where
  "split_at op [] = [[]]"
| "split_at op (t # ts) =
    (if tok_type t = op then [] # split_at op ts
     else (t # hd (split_at op ts)) # tl (split_at op ts))"

lemma split_at_not_Nil [simp]: "split_at op ts \<noteq> []"
  by (cases ts) simp_all

lemma length_split_at: "length (split_at op ts) = Suc (length (filter (\<lambda>t. tok_type t = op) ts))"
  by (induction ts) auto

lemma split_at_until_after:
  "split_at op ts = until op ts # (if list_ex (\<lambda>t. tok_type t = op) ts then split_at op (after op ts) else [])"
  by (induction ts) (auto simp: until_def after_def)

definition is_redirection :: "TokenType \<Rightarrow> bool" where
  "is_redirection t \<longleftrightarrow> t = TOK_LT \<or> t = TOK_GT \<or> t = TOK_GTGT"

text \<open>
  The command that a part between pipes means: a word behind a redirection is its file, all
  other words are the arguments. \<open>prev\<close> is the type of the token before the part.
\<close>

definition with_prev :: "TokenType \<Rightarrow> Token list \<Rightarrow> (TokenType \<times> Token) list" where
  "with_prev prev ts = zip (prev # map tok_type ts) ts"

definition command_from :: "TokenType \<Rightarrow> Token list \<Rightarrow> SingleCommand" where
  "command_from prev ts = \<lparr>
     cmd_argv = map (\<lambda>(p, t). word_of t) (filter (\<lambda>(p, t). tok_type t = TOK_WORD \<and> \<not> is_redirection p) (with_prev prev ts)),
     input_files = map (\<lambda>(p, t). word_of t) (filter (\<lambda>(p, t). tok_type t = TOK_WORD \<and> p = TOK_LT) (with_prev prev ts)),
     output_files = map (\<lambda>(p, t). \<lparr>filename = word_of t, is_append = (p = TOK_GTGT)\<rparr>)
       (filter (\<lambda>(p, t). tok_type t = TOK_WORD \<and> (p = TOK_GT \<or> p = TOK_GTGT)) (with_prev prev ts))\<rparr>"

definition join_cmd :: "SingleCommand \<Rightarrow> SingleCommand \<Rightarrow> SingleCommand" where
  "join_cmd c d = \<lparr>cmd_argv = cmd_argv c @ cmd_argv d, input_files = input_files c @ input_files d,
     output_files = output_files c @ output_files d\<rparr>"

lemma with_prev_simps [simp]: "with_prev p [] = []" "with_prev p (t # ts) = (p, t) # with_prev (tok_type t) ts"
  by (simp_all add: with_prev_def)

lemma command_from_Nil [simp]: "join_cmd c (command_from p []) = c"
  by (simp add: command_from_def join_cmd_def)

lemma join_empty [simp]: "join_cmd empty_command c = c"
  by (simp add: join_cmd_def empty_command_def)

text \<open>The previous token only matters in front of a word.\<close>

lemma command_from_prev:
  "ts = [] \<or> tok_type (hd ts) \<noteq> TOK_WORD \<Longrightarrow> command_from p ts = command_from q ts"
  by (cases ts) (simp_all add: command_from_def)

lemma command_from_prev': "\<not> is_redirection p \<Longrightarrow> \<not> is_redirection q \<Longrightarrow> command_from p ts = command_from q ts"
  by (cases ts) (auto simp: command_from_def is_redirection_def)

lemma join_step:
  "\<not> is_redirection p \<Longrightarrow> tok_type t = TOK_WORD \<Longrightarrow>
    join_cmd c (command_from p (t # ts)) = join_cmd (add_arg (word_of t) c) (command_from TOK_WORD ts)"
  "tok_type t = TOK_LT \<Longrightarrow> tok_type u = TOK_WORD \<Longrightarrow>
    join_cmd c (command_from p (t # u # ts)) = join_cmd (add_input (word_of u) c) (command_from TOK_WORD ts)"
  "tok_type t = TOK_GT \<Longrightarrow> tok_type u = TOK_WORD \<Longrightarrow>
    join_cmd c (command_from p (t # u # ts)) = join_cmd (add_output (word_of u) False c) (command_from TOK_WORD ts)"
  "tok_type t = TOK_GTGT \<Longrightarrow> tok_type u = TOK_WORD \<Longrightarrow>
    join_cmd c (command_from p (t # u # ts)) = join_cmd (add_output (word_of u) True c) (command_from TOK_WORD ts)"
  "tok_type t \<noteq> TOK_WORD \<Longrightarrow> ts = [] \<or> tok_type (hd ts) \<noteq> TOK_WORD \<or> \<not> is_redirection (tok_type t) \<Longrightarrow>
    join_cmd c (command_from p (t # ts)) = join_cmd c (command_from TOK_WORD ts)"
proof -
  show "tok_type t \<noteq> TOK_WORD \<Longrightarrow> ts = [] \<or> tok_type (hd ts) \<noteq> TOK_WORD \<or> \<not> is_redirection (tok_type t) \<Longrightarrow>
    join_cmd c (command_from p (t # ts)) = join_cmd c (command_from TOK_WORD ts)"
  proof -
    assume a: "tok_type t \<noteq> TOK_WORD" "ts = [] \<or> tok_type (hd ts) \<noteq> TOK_WORD \<or> \<not> is_redirection (tok_type t)"
    have "command_from p (t # ts) = command_from (tok_type t) ts" using a(1) by (simp add: command_from_def)
    also have "\<dots> = command_from TOK_WORD ts"
      using a(2) command_from_prev [of ts] command_from_prev' [of "tok_type t" TOK_WORD ts] by (auto simp: is_redirection_def)
    finally show ?thesis by simp
  qed
qed (simp_all add: join_cmd_def command_from_def add_arg_def add_input_def add_output_def is_redirection_def)

lemma upd_nth_mid: "upd_nth (length xs) f (xs @ y # ys) = xs @ f y # ys"
  by (simp add: upd_nth_def)

definition parts :: "Token list \<Rightarrow> Token list list" where
  "parts ts = split_at TOK_PIPE ts"

lemma parts_simps [simp]:
  "tok_type t = TOK_PIPE \<Longrightarrow> parts (t # ts) = [] # parts ts"
  "tok_type t \<noteq> TOK_PIPE \<Longrightarrow> parts (t # ts) = (t # hd (parts ts)) # tl (parts ts)"
  "parts [] = [[]]"
  by (simp_all add: parts_def)

lemma fill_cmds_parts:
  "fill_cmds ts (done @ cur # replicate (length (filter (\<lambda>t. tok_type t = TOK_PIPE) ts)) empty_command) (length done) =
    done @ join_cmd cur (command_from TOK_WORD (hd (parts ts))) # map (command_from TOK_WORD) (tl (parts ts))"
proof (induction "length ts" arbitrary: ts "done" cur rule: less_induct)
  case less
  have IH: "fill_cmds us (done @ cur # replicate (length (filter (\<lambda>t. tok_type t = TOK_PIPE) us)) empty_command) (length done) =
      done @ join_cmd cur (command_from TOK_WORD (hd (parts us))) # map (command_from TOK_WORD) (tl (parts us))"
    if "length us < length ts" for us "done" cur using less that by blast
  show ?case
  proof (cases ts)
    case (Cons t us)
    have hdp: "hd (parts us) = [] \<or> tok_type (hd (hd (parts us))) \<noteq> TOK_WORD"
      if "us = [] \<or> tok_type (hd us) \<noteq> TOK_WORD"
      using that by (cases us; cases "tok_type (hd us) = TOK_PIPE") auto
    show ?thesis
    proof (cases "tok_type t = TOK_PIPE")
      case True
      have "map (command_from TOK_WORD) (parts us) = command_from TOK_WORD (hd (parts us)) # map (command_from TOK_WORD) (tl (parts us))"
        by (cases "parts us") (simp_all add: parts_def)
      with IH [of us "done @ [cur]" empty_command] Cons True show ?thesis by simp
    next
      case False
      show ?thesis
      proof (cases "is_redirection (tok_type t) \<and> us \<noteq> [] \<and> tok_type (hd us) = TOK_WORD")
        case True
        then obtain u vs where u: "us = u # vs" "tok_type u = TOK_WORD" by (cases us) auto
        with True IH [of vs "done"] Cons show ?thesis
          by (auto simp: is_redirection_def upd_nth_mid join_step)
      next
        case no: False
        have "fill_cmds ts cmds idx = (if tok_type t = TOK_WORD then fill_cmds us (upd_nth idx (add_arg (word_of t)) cmds) idx
            else fill_cmds us cmds idx)" for cmds idx
          using no False Cons by (cases "tok_type t") (auto simp: is_redirection_def split: list.splits)
        with IH [of us "done"] Cons False no hdp show ?thesis
          by (auto simp: upd_nth_mid join_step is_redirection_def)
      qed
    qed
  qed simp
qed

lemma build_cmds_parts: "build_cmds ts = map (command_from TOK_WORD) (parts ts)"
proof -
  have ne: "parts ts = hd (parts ts) # tl (parts ts)" by (simp add: parts_def)
  show ?thesis unfolding build_cmds_def count_cmds_def using fill_cmds_parts [of ts "[]" empty_command] by (subst ne) simp
qed

section \<open>Checked lines\<close>

text \<open>Next to every operator of the list stands a word.\<close>

definition adjacent_ok :: "Token list \<Rightarrow> bool" where
  "adjacent_ok ts \<longleftrightarrow> (\<forall>i. Suc i < length ts \<longrightarrow> tok_type (ts ! i) = TOK_WORD \<or> tok_type (ts ! Suc i) = TOK_WORD)"

definition group_ok :: "Token list \<Rightarrow> bool" where
  "group_ok ts \<longleftrightarrow> ts = [] \<or> tok_type (hd ts) = TOK_WORD \<and> tok_type (last ts) = TOK_WORD \<and> adjacent_ok ts"

lemma adjacent_ok_Cons:
  "adjacent_ok (t # ts) \<longleftrightarrow> ts = [] \<or> (tok_type t = TOK_WORD \<or> tok_type (hd ts) = TOK_WORD) \<and> adjacent_ok ts"
proof (cases ts)
  case (Cons u us)
  then show ?thesis by (simp add: adjacent_ok_def All_less_Suc2)
qed (simp add: adjacent_ok_def)

lemma adjacent_ok_Nil [simp]: "adjacent_ok []"
  by (simp add: adjacent_ok_def)

lemma adjacent_ok_append:
  "adjacent_ok (xs @ x # ys) \<longleftrightarrow> adjacent_ok xs \<and> adjacent_ok (x # ys) \<and>
    (xs = [] \<or> tok_type (last xs) = TOK_WORD \<or> tok_type x = TOK_WORD)"
  by (induction xs) (auto simp: adjacent_ok_Cons hd_append)

lemma split_at_append:
  "\<forall>t\<in>set xs. tok_type t \<noteq> op \<Longrightarrow> tok_type x = op \<Longrightarrow> split_at op (xs @ x # ys) = xs # split_at op ys"
  "\<forall>t\<in>set xs. tok_type t \<noteq> op \<Longrightarrow> split_at op xs = [xs]"
  by (induction xs) simp_all

text \<open>
  A list that starts with a word and has a word next to every operator splits into parts of
  the same kind; only the last one may be empty, if the list ends with the operator.
\<close>

lemma split_at_good:
  assumes "op \<noteq> TOK_WORD" and "ts \<noteq> []" and "tok_type (hd ts) = TOK_WORD" and "adjacent_ok ts" and "s \<in> set (split_at op ts)"
  shows "s = [] \<and> tok_type (last ts) = op \<or>
    s \<noteq> [] \<and> tok_type (hd s) = TOK_WORD \<and> adjacent_ok s \<and> (tok_type (last s) = TOK_WORD \<or> last s = last ts)"
  using assms(2-5)
proof (induction "length ts" arbitrary: ts rule: less_induct)
  case less
  show ?case
  proof (cases "\<exists>t\<in>set ts. tok_type t = op")
    case False
    with less.prems split_at_append(2) [of ts op] show ?thesis by auto
  next
    case True
    then obtain xs x ys where ts: "ts = xs @ x # ys" "tok_type x = op" "\<forall>t\<in>set xs. tok_type t \<noteq> op"
      using split_list_first_prop [of ts "\<lambda>t. tok_type t = op"] by blast
    have xs: "xs \<noteq> []" "tok_type (hd xs) = TOK_WORD" "adjacent_ok xs" "tok_type (last xs) = TOK_WORD"
      using less.prems assms(1) ts by (auto simp: adjacent_ok_append hd_append split: if_splits)
    have ys: "ys = [] \<or> tok_type (hd ys) = TOK_WORD \<and> adjacent_ok ys"
      using less.prems(3) ts assms(1) by (auto simp: adjacent_ok_append adjacent_ok_Cons)
    consider "s = xs" | "s \<in> set (split_at op ys)" "s \<noteq> xs" using less.prems(4) ts by (auto simp: split_at_append)
    then show ?thesis
    proof cases
      case 2
      show ?thesis
      proof (cases "ys = []")
        case False
        with less.hyps [of ys] ys 2 ts show ?thesis by simp
      qed (use 2 ts in simp)
    qed (use xs in simp)
  qed
qed

definition bg_groups :: "Token list \<Rightarrow> (Token list \<times> bool) list" where
  "bg_groups toks = map (\<lambda>g. (g, True)) (butlast (split_at TOK_AMP toks)) @ [(last (split_at TOK_AMP toks), False)]"

definition line_groups :: "Token list \<Rightarrow> (Token list \<times> bool) list list" where
  "line_groups toks = map bg_groups (split_at TOK_SEMI toks)"

lemma bg_groups_fst: "map fst (bg_groups toks) = split_at TOK_AMP toks"
  by (simp add: bg_groups_def comp_def)

lemma parser_validate_good:
  assumes "parser_validate toks" and "toks \<noteq> []"
  shows "tok_type (hd toks) = TOK_WORD" "adjacent_ok toks" "tok_type (last toks) \<in> {TOK_WORD, TOK_AMP}"
proof -
  have "line_ok (map tok_type toks)"
    using assms by (cases toks) (simp_all add: parser_validate_def parser_loop_words line_ok_def split: if_splits)
  then have h: "tok_type (hd toks) = TOK_WORD" "words_follow (map tok_type toks)"
    using assms(2) by (auto simp: line_ok_def hd_map)
  have "words_follow ts \<Longrightarrow> ts = map tok_type us \<Longrightarrow> us \<noteq> [] \<Longrightarrow> adjacent_ok us \<and> tok_type (last us) \<in> {TOK_WORD, TOK_AMP}" for ts us
  proof (induction ts arbitrary: us rule: words_follow.induct)
    case (2 t)
    then show ?case by (cases us) (auto simp: adjacent_ok_Cons)
  next
    case (3 t u ts)
    then obtain a b cs where us: "us = a # b # cs" by (cases us; cases "tl us") auto
    with 3 show ?case using "3.IH" [of "b # cs"] by (auto simp: adjacent_ok_Cons)
  qed simp
  with h assms(2) show "tok_type (hd toks) = TOK_WORD" "adjacent_ok toks" "tok_type (last toks) \<in> {TOK_WORD, TOK_AMP}"
    by blast+
qed

lemma bg_group_cases:
  assumes "(g, bg) \<in> set (bg_groups s)" shows "g \<in> set (split_at TOK_AMP s)"
  using assms bg_groups_fst [of s] by (metis fst_conv image_eqI set_map)

lemma line_groups_good:
  assumes "parser_validate toks" and "gs \<in> set (line_groups toks)" and "(g, bg) \<in> set gs" and "g \<noteq> []"
  shows "tok_type (hd g) = TOK_WORD \<and> adjacent_ok g \<and> tok_type (last g) = TOK_WORD"
proof (cases "toks = []")
  case True
  with assms show ?thesis by (auto simp: line_groups_def bg_groups_def)
next
  case False
  obtain s where s: "s \<in> set (split_at TOK_SEMI toks)" "gs = bg_groups s" using assms(2) by (auto simp: line_groups_def)
  note v = parser_validate_good [OF assms(1) False]
  have sg: "s \<noteq> [] \<and> tok_type (hd s) = TOK_WORD \<and> adjacent_ok s \<and> tok_type (last s) \<in> {TOK_WORD, TOK_AMP}"
    using split_at_good [OF _ False v(1,2) s(1)] v(3) by auto
  have g: "g \<in> set (split_at TOK_AMP s)" using bg_group_cases assms(3) s(2) by blast
  then have "\<forall>t\<in>set g. tok_type t \<noteq> TOK_AMP"
  proof (induction s arbitrary: g)
    case (Cons t s)
    obtain r rs where sp: "split_at TOK_AMP s = r # rs" by (cases "split_at TOK_AMP s") auto
    with Cons.IH have "\<forall>g\<in>set (r # rs). \<forall>t\<in>set g. tok_type t \<noteq> TOK_AMP" by auto
    with Cons.prems sp show ?case by (auto split: if_splits)
  qed simp
  then have "tok_type (last g) \<noteq> TOK_AMP" using assms(4) by simp
  then show ?thesis using split_at_good [of TOK_AMP s g] sg g assms(4) by auto
qed

lemma command_from_named: "p \<noteq> [] \<Longrightarrow> tok_type (hd p) = TOK_WORD \<Longrightarrow> cmd_argv (command_from TOK_WORD p) \<noteq> []"
  by (cases p) (simp_all add: command_from_def is_redirection_def)

text \<open>
  C32: In a line that \<open>parser_validate\<close> accepts, every group between \<open>;\<close> and \<open>&\<close> that is not
  empty becomes a pipeline in which each command has a name: \<open>executor_execute_group\<close> never
  reaches a command without arguments.
\<close>

theorem valid_line_commands_named:
  assumes "parser_validate toks" and "gs \<in> set (line_groups toks)" and "(g, bg) \<in> set gs" and "g \<noteq> []"
    and "c \<in> set (build_cmds g)"
  shows "cmd_argv c \<noteq> []"
proof -
  note g = line_groups_good [OF assms(1-4)]
  obtain p where p: "p \<in> set (split_at TOK_PIPE g)" "c = command_from TOK_WORD p"
    using assms(5) by (auto simp: build_cmds_parts parts_def)
  have "p \<noteq> [] \<and> tok_type (hd p) = TOK_WORD" using split_at_good [of TOK_PIPE g p] g assms(4) p(1) by auto
  with p(2) show ?thesis by (simp add: command_from_named)
qed

theorem valid_line_commands_named_witness:
  "cmd_argv (command_from TOK_WORD [word_token ''wc'', op_token TOK_GT, word_token ''f'']) \<noteq> []"
  using valid_line_commands_named [of
      "[word_token ''ls'', op_token TOK_SEMI, word_token ''cat'', op_token TOK_PIPE, word_token ''wc'', op_token TOK_GT, word_token ''f'', op_token TOK_AMP]"
      "[([word_token ''cat'', op_token TOK_PIPE, word_token ''wc'', op_token TOK_GT, word_token ''f''], True), ([], False)]"
      "[word_token ''cat'', op_token TOK_PIPE, word_token ''wc'', op_token TOK_GT, word_token ''f'']" True
      "command_from TOK_WORD [word_token ''wc'', op_token TOK_GT, word_token ''f'']"]
  by (simp add: parser_validate_def line_groups_def bg_groups_def build_cmds_parts parts_def)

text \<open>
  C35: The commands of a group are the parts between its pipes, one command for each, in order:
  a word behind \<open><\<close>, \<open>>\<close> or \<open>>>\<close> is a file of the redirection, all other words are the
  arguments in their order.
\<close>

theorem build_cmds_splits:
  "build_cmds ts = map (command_from TOK_WORD) (split_at TOK_PIPE ts)"
  by (simp add: build_cmds_parts parts_def)

section \<open>Running a line\<close>

text \<open>The meaning of a line: its sequences and groups, in order.\<close>

fun run_groups :: "'s group_runner \<Rightarrow> (Token list \<times> bool) list \<Rightarrow> 's \<Rightarrow> 's outcome" where
  "run_groups run [] st = Returns 0 st"
| "run_groups run ((g, bg) # gs) st =
    (if g = [] then run_groups run gs st
     else case run g bg st of
       Returns r st' \<Rightarrow> run_groups run gs st'
     | other \<Rightarrow> other)"

definition run_part :: "'s group_runner \<Rightarrow> (Token list \<times> bool) list \<Rightarrow> 's \<Rightarrow> 's outcome" where
  "run_part run gs st =
    (case gs of
       [(g, bg)] \<Rightarrow> if g = [] then Returns 0 st else run g bg st
     | _ \<Rightarrow> run_groups run gs st)"

fun run_parts :: "'s group_runner \<Rightarrow> (Token list \<times> bool) list list \<Rightarrow> 's \<Rightarrow> 's outcome" where
  "run_parts run [] st = Returns 0 st"
| "run_parts run (gs # rest) st =
    (case run_part run gs st of
       Returns r st' \<Rightarrow> if r \<noteq> 0 then Returns r st' else run_parts run rest st'
     | other \<Rightarrow> other)"

lemma bg_groups_until:
  "bg_groups ts = (if list_ex (\<lambda>t. tok_type t = TOK_AMP) ts
     then (until TOK_AMP ts, True) # bg_groups (after TOK_AMP ts) else [(until TOK_AMP ts, False)])"
  unfolding bg_groups_def by (subst (1 2) split_at_until_after) simp

lemma after_Nil: "\<not> list_ex (\<lambda>t. tok_type t = op) ts \<Longrightarrow> after op ts = [] \<and> until op ts = ts"
  by (induction ts) (simp_all add: after_def until_def)

lemma bg_run_groups: "bg_run run ts st = run_groups run (bg_groups ts) st"
proof (induction run ts st rule: bg_run.induct)
  case (1 run ts st)
  show ?case
  proof (cases "ts = []")
    case False
    show ?thesis
    proof (cases "list_ex (\<lambda>t. tok_type t = TOK_AMP) ts")
      case True
      with 1 False show ?thesis
        unfolding bg_run.simps [of run ts] bg_groups_until [of ts]
        by (cases "run (until TOK_AMP ts) True st") (simp_all add: Let_def)
    next
      case no: False
      with False show ?thesis
        unfolding bg_run.simps [of run ts] bg_groups_until [of ts]
        by (simp add: Let_def after_Nil bg_run.simps [of run "[]"] split: outcome.splits)
    qed
  qed (simp add: bg_run.simps [of run "[]"] bg_groups_def)
qed

lemma run_part_bg:
  assumes "list_ex (\<lambda>t. tok_type t = TOK_AMP) ts"
  shows "run_part run (bg_groups ts) st = run_groups run (bg_groups ts) st"
proof -
  obtain g gs where "bg_groups (after TOK_AMP ts) = g # gs"
    by (cases "bg_groups (after TOK_AMP ts)") (simp_all add: bg_groups_def)
  with assms have "bg_groups ts = (until TOK_AMP ts, True) # g # gs" by (simp add: bg_groups_until [of ts])
  then show ?thesis unfolding run_part_def by simp
qed

lemma executor_run_part:
  assumes "\<not> list_ex (\<lambda>t. tok_type t = TOK_SEMI) ts"
  shows "executor_run run ts st = run_part run (bg_groups ts) st"
proof (cases "list_ex (\<lambda>t. tok_type t = TOK_AMP) ts")
  case True
  then have "ts \<noteq> []" by auto
  with True assms show ?thesis
    by (simp add: executor_run.simps [of run ts] bg_run_groups run_part_bg)
next
  case False
  with assms show ?thesis
    by (auto simp: executor_run.simps [of run ts] bg_groups_until [of ts] run_part_def after_Nil)
qed

lemma line_groups_until:
  "line_groups ts = bg_groups (until TOK_SEMI ts) # (if list_ex (\<lambda>t. tok_type t = TOK_SEMI) ts then line_groups (after TOK_SEMI ts) else [])"
  unfolding line_groups_def by (subst split_at_until_after) simp

lemma sequence_run_parts: "sequence_run run ts st = run_parts run (line_groups ts) st"
proof (induction "length ts" arbitrary: ts st rule: less_induct)
  case less
  show ?case
  proof (cases "ts = []")
    case False
    have IH: "sequence_run run (after TOK_SEMI ts) st' = run_parts run (line_groups (after TOK_SEMI ts)) st'" for st'
      using less length_after [OF False] by blast
    have no: "\<not> list_ex (\<lambda>k. tok_type k = TOK_SEMI) (until TOK_SEMI ts)"
      by (auto simp: until_def list_ex_iff dest: set_takeWhileD)
    have e: "executor_run run (until TOK_SEMI ts) st = run_part run (bg_groups (until TOK_SEMI ts)) st"
      by (rule executor_run_part [OF no])
    have n: "run_part run (bg_groups []) st = Returns 0 st" by (simp add: bg_groups_def run_part_def)
    have rest: "sequence_run run (after TOK_SEMI ts) st' =
        run_parts run (if list_ex (\<lambda>t. tok_type t = TOK_SEMI) ts then line_groups (after TOK_SEMI ts) else []) st'" for st'
      by (cases "list_ex (\<lambda>t. tok_type t = TOK_SEMI) ts") (simp_all add: IH after_Nil sequence_run.simps [of run "[]"])
    show ?thesis
      unfolding sequence_run.simps [of run ts] line_groups_until [of ts]
      using False e n by (cases "until TOK_SEMI ts = []") (auto simp: rest split: outcome.splits)
  qed (simp add: sequence_run.simps [of run "[]"] line_groups_def bg_groups_def run_part_def)
qed

lemma executor_run_lines: "executor_run run ts st = run_parts run (line_groups ts) st"
proof (cases "list_ex (\<lambda>t. tok_type t = TOK_SEMI) ts")
  case True
  then have "ts \<noteq> []" by auto
  with True show ?thesis by (simp add: executor_run.simps [of run ts] sequence_run_parts)
next
  case False
  with executor_run_part [OF this, of run st] show ?thesis
    by (simp add: line_groups_until [of ts] after_Nil split: outcome.splits)
qed

text \<open>
  C31: \<open>executor_run\<close>, with \<open>sequence_run\<close> and \<open>bg_run\<close> which it calls, runs the groups of
  the line in order: the parts between \<open>;\<close> one after the other until one fails, and the groups
  between \<open>&\<close> of a part one after the other, those before an \<open>&\<close> in the background. It does
  so for every way in which a single group can be run.
\<close>

theorem executor_runs_parts: "executor_run run ts st = run_parts run (line_groups ts) st"
  by (rule executor_run_lines)

text \<open>
  C38: The status of a part with an \<open>&\<close> is always 0, also when its last group runs in the
  foreground and fails: \<open>bg_run\<close> drops the status, so the commands behind the next \<open>;\<close> are
  run, while the same failure without the \<open>&\<close> ends the line.
\<close>

theorem background_part_status:
  assumes "list_ex (\<lambda>t. tok_type t = TOK_AMP) ts" and "\<not> list_ex (\<lambda>t. tok_type t = TOK_SEMI) ts"
    and "executor_run run ts st = Returns r st'"
  shows "r = 0 \<and> executor_run run (ts @ op_token TOK_SEMI # us) st = executor_run run us st'"
proof -
  have "run_groups run gs s = Returns r st' \<Longrightarrow> r = 0" for gs s
    by (induction run gs s rule: run_groups.induct) (auto split: if_splits outcome.splits)
  with assms(3) executor_run_part [OF assms(2), of run st] have r: "r = 0"
    by (simp add: run_part_bg [OF assms(1)])
  have "\<forall>t\<in>set ts. tok_type t \<noteq> TOK_SEMI" using assms(2) by (simp add: list_ex_iff)
  then have "line_groups (ts @ op_token TOK_SEMI # us) = bg_groups ts # line_groups us"
    by (simp add: line_groups_def split_at_append)
  moreover have "run_part run (bg_groups ts) st = Returns 0 st'"
    using r assms(3) executor_run_part [OF assms(2), of run st] by simp
  ultimately show ?thesis using r by (simp add: executor_run_lines)
qed

theorem background_part_status_witness:
  "executor_run (\<lambda>g bg st. Returns 1 (st @ [(g, bg)]))
     ([word_token ''a'', op_token TOK_AMP, word_token ''b''] @ op_token TOK_SEMI # [word_token ''c'']) [] =
   executor_run (\<lambda>g bg st. Returns 1 (st @ [(g, bg)])) [word_token ''c''] [([word_token ''a''], True), ([word_token ''b''], False)]"
  using background_part_status [of "[word_token ''a'', op_token TOK_AMP, word_token ''b'']"
      "\<lambda>g bg st. Returns 1 (st @ [(g, bg)])" "[]" 0 "[([word_token ''a''], True), ([word_token ''b''], False)]" "[word_token ''c'']"]
  by (simp add: executor_run_lines line_groups_def bg_groups_def run_part_def)

end
