(* ===== verification/Spec2Isabelle.thy ===== *)
theory Spec2Isabelle
  imports Kstring Kalloc Vm VmProps Spinlock Proc Mlfq Sched SchedProps Starve Pipe
    Console File Exec Sysfile Syscall FileKeep FileProps
    Bio Bytes Log Fs FsTx FsAlloc FsFile FsIO FsProps FsDir
    Lexer Parser Clib Shell Jobs JobCtl JobProps Peek Commands CommandProps
begin

text \<open>
  A verification library for the two programs of this repository: the xv6 kernel with a
  multi-level feedback queue scheduler (\<open>src/xv6/kernel\<close>) and a job-control shell for POSIX systems
  (\<open>src/c-shell\<close>).

  \<^bold>\<open>The kernel.\<close> Words have their C width (64-bit addresses and counters, 32-bit times), memory is
  a function from addresses to bytes, and an operation that can panic returns a sum whose left
  side is the panic.

  \<^item> \<open>Kstring\<close> models \<open>string.c\<close>: \<open>memmove\<close> is right for overlapping ranges, \<open>safestrcpy\<close> writes only
    its buffer and always ends it.
  \<^item> \<open>Kalloc\<close> models \<open>kalloc.c\<close> with the free list linked through the free pages: pages are
    conserved by every sequence of calls, and \<open>kinit\<close> frees exactly the pages of the RAM.
  \<^item> \<open>Riscv\<close> and \<open>Vm\<close> model \<open>riscv.h\<close>, \<open>memlayout.h\<close> and \<open>vm.c\<close>: page tables live in the physical
    memory of \<open>Kalloc\<close>. \<open>VmProps\<close> shows that they are trees of pages and that \<open>mappages\<close> sets the
    translations of its range and no others.
  \<^item> \<open>Spinlock\<close> models \<open>spinlock.c\<close> with \<open>acquire\<close> and \<open>release\<close> cut at their atomic accesses: mutual
    exclusion and the interrupt discipline hold under every interleaving of harts.
  \<^item> \<open>Proc\<close>, \<open>Mlfq\<close> and \<open>Sched\<close> model \<open>proc.c\<close> and the clock path of \<open>trap.c\<close>: the process table,
    sleep and wakeup, exit and wait, the three schedulers and the MLFQ tick. A context switch is
    a change of the current process of a hart; what the process does in user space is arbitrary.
    \<open>Sched\<close> has the step relation over all these operations, \<open>SchedProps\<close> its invariant and the
    properties of the scheduler, \<open>Starve\<close> a run in which the boost starves a process for ever.
  \<^item> \<open>Pipe\<close> models \<open>pipe.c\<close>: the ring buffer is a bounded queue, and no wakeup is lost.
  \<^item> \<open>Bio\<close> models \<open>bio.c\<close> with the sleep lock of each buffer (\<open>sleeplock.c\<close>): the cache refines an
    array of blocks. The disk behind it is a function from block numbers to blocks with a trace of
    its writes.
  \<^item> \<open>Bytes\<close> has the little-endian integers inside a block; \<open>Log\<close> models \<open>log.c\<close>: a commit is atomic
    under a crash after any of its disk writes, and space for the blocks of an operation is
    reserved. Waiting is an operation that does not return yet.
  \<^item> \<open>Fs\<close> models \<open>fs.c\<close>: free map, inodes, contents of files, directories and paths. \<open>FsTx\<close> has the
    rules for the use of blocks within a transaction, \<open>FsAlloc\<close> the free map as a set of blocks,
    \<open>FsFile\<close> the blocks of a file, \<open>FsIO\<close> the loops of \<open>readi\<close> and \<open>writei\<close>, and \<open>FsProps\<close> the
    properties: files refine arrays of bytes, and a write stays within its share of the log.
    \<open>FsDir\<close> shows that a directory is a table of names: what \<open>dirlink\<close> enters \<open>dirlookup\<close> finds.

  \<^item> \<open>Console\<close> models \<open>console.c\<close> and \<open>uart.c\<close>: the line discipline, with the port as a list of bytes that
    arrive, the answers of its status register and the bytes it has sent. \<open>File\<close> models \<open>file.c\<close> and
    \<open>pipealloc\<close>, \<open>Exec\<close> the arguments of system calls and \<open>exec.c\<close>, \<open>Sysfile\<close> models \<open>sysfile.c\<close>, and
    \<open>Syscall\<close> has \<open>kfork\<close>, \<open>kexit\<close>, \<open>forkret\<close> and \<open>userinit\<close> with the files, \<open>sysproc.c\<close>, the dispatcher of
    \<open>syscall.c\<close>, the traps of \<open>trap.c\<close> and what \<open>main\<close> sets up. A trap is one step, and a call that has to
    wait ends with a result that says so, with the process registered on its channel. The state is
    a chain of records: \<open>kstate\<close>, \<open>pstate\<close> with the pipes, \<open>cstate\<close> with the devices and \<open>fstate\<close> with the
    open files and the file system; operations of the lower ones work on all.
  \<^item> \<open>FileKeep\<close> has a calculus for operations that leave the descriptors alone, with a rule for every
    operation of the kernel that does; \<open>FileProps\<close> has the invariant of the table of open files, its
    preservation by the operations that move references, and with them by every trap.

  \<^bold>\<open>The shell.\<close> A C string is its list of characters. The operating system is a record of
  functions over an arbitrary world (\<open>Shell.sys\<close>), an argument of every operation that makes a
  system call; theorems hold for all such systems unless they name what they rely on. The
  global variables of the shell are the record \<open>Shell.shell\<close>. Memory is assumed not to run out.

  \<^item> \<open>Lexer\<close> models \<open>lexer.c\<close> and \<open>dynstring.c\<close>: the tokenizer agrees with a grammar of command
    lines, and quoting any token list and reading it gives the list back.
  \<^item> \<open>Parser\<close> models \<open>parser.c\<close>: which token lists are accepted.
  \<^item> \<open>Clib\<close> has what the shell uses of the C library (\<open>strtol\<close>, decimal output, \<open>strtok_r\<close>).
  \<^item> \<open>Jobs\<close> models \<open>term_control.c\<close> and \<open>activities.c\<close>, \<open>JobCtl\<close> models \<open>ping.c\<close> and \<open>resume.c\<close>,
    \<open>JobProps\<close> proves the invariant of the job table over all sequences of operations, that the
    signal handler ends and retires finished jobs, and what the builtins print and signal.
  \<^item> \<open>Peek\<close> models \<open>peek.c\<close>: reading a file backwards in chunks prints the reverse of the forward
    output.
  \<^item> \<open>Commands\<close> models the splitting of a line in \<open>sequence.c\<close>, \<open>bg_exec.c\<close> and \<open>executor.c\<close> and the
    search for programs, with \<open>locate.c\<close>; \<open>CommandProps\<close> relates it to the meaning of a line.

  \<^bold>\<open>Loops.\<close> Loops over data are recursive functions with termination proofs. Loops that wait for
  the operating system may run forever and are partial functions whose value \<open>None\<close> stands for
  that; \<open>JobProps\<close> proves when the signal handler returns. No definition uses a bound on the
  number of its steps.

  \<^bold>\<open>Not modelled.\<close> Assembly, the start in machine mode, the disk driver, the interrupt controller and
  kernel messages; interleavings inside of a trap, apart from those of spin locks and of the log; of
  the shell the creation of processes, descriptors and the builtins \<open>hop\<close>, \<open>reveal\<close>, \<open>spy\<close> and
  \<open>snoop\<close>; the user programs of xv6 and its host tools.
\<close>

end
